(* ===== verification/Prelude.thy ===== *)
theory Prelude
  imports Main "HOL-Library.AList" "HOL-Library.Word" "HOL-Library.Sublist"
begin

text \<open>
  What every component shares: Go's strings as byte lists and the functions of package
  strings the code calls, slices with Go's index operations, maps as association lists,
  errors as a text with the sentinels their chain holds, and the lemma collections.
\<close>

named_theorems wp_rule \<open>weakest preconditions of the recorded steps\<close>
named_theorems keys_simp \<open>keys and lookups of Go maps\<close>

section \<open>Slices\<close>

text \<open>
  \<open>index_of P xs\<close> is \<open>slices.IndexFunc\<close>, with None for -1. \<open>remove_nth\<close> and \<open>insert_nth\<close>
  are \<open>slices.Delete(xs, i, i+1)\<close> and \<open>slices.Insert(xs, i, x)\<close>.
\<close>

fun index_of :: "('a \<Rightarrow> bool) \<Rightarrow> 'a list \<Rightarrow> nat option" where
  "index_of P [] = None"
| "index_of P (x # xs) = (if P x then Some 0 else map_option Suc (index_of P xs))"

definition remove_nth :: "nat \<Rightarrow> 'a list \<Rightarrow> 'a list" where
  "remove_nth i xs = take i xs @ drop (Suc i) xs"

definition insert_nth :: "nat \<Rightarrow> 'a \<Rightarrow> 'a list \<Rightarrow> 'a list" where
  "insert_nth i x xs = take i xs @ x # drop i xs"

lemma index_of_SomeD:
  "index_of P xs = Some i \<Longrightarrow> i < length xs \<and> P (xs ! i) \<and> (\<forall>j < i. \<not> P (xs ! j))"
proof (induction xs arbitrary: i)
  case Nil
  then show ?case by simp
next
  case (Cons x xs)
  show ?case
  proof (cases "P x")
    case True
    with Cons.prems show ?thesis by simp
  next
    case False
    with Cons.prems obtain k where k: "index_of P xs = Some k" "i = Suc k" by auto
    from Cons.IH [OF k(1)] k(2) False show ?thesis by (auto simp: less_Suc_eq_0_disj)
  qed
qed

lemma index_of_append:
  "\<forall>x \<in> set xs. \<not> P x \<Longrightarrow> P y \<Longrightarrow> index_of P (xs @ y # ys) = Some (length xs)"
  by (induction xs) auto

lemma index_of_None_iff: "index_of P xs = None \<longleftrightarrow> (\<forall>x \<in> set xs. \<not> P x)"
  by (induction xs) auto

lemma index_of_None [simp]: "\<forall>x \<in> set xs. \<not> P x \<Longrightarrow> index_of P xs = None"
  by (simp add: index_of_None_iff)

lemma index_of_Some_ex: "x \<in> set xs \<Longrightarrow> P x \<Longrightarrow> \<exists>i. index_of P xs = Some i"
  using index_of_None_iff [of P xs] by (cases "index_of P xs") auto

lemma length_remove_nth [simp]: "i < length xs \<Longrightarrow> length (remove_nth i xs) = length xs - 1"
  by (simp add: remove_nth_def)

lemma set_remove_nth: "set (remove_nth i xs) \<subseteq> set xs"
  unfolding remove_nth_def using set_take_subset [of i xs] set_drop_subset [of "Suc i" xs] by simp

lemma remove_nth_split:
  "i < length xs \<Longrightarrow> xs = take i xs @ xs ! i # drop (Suc i) xs"
  by (simp add: id_take_nth_drop)

lemma set_remove_nth_insert:
  "i < length xs \<Longrightarrow> set xs = insert (xs ! i) (set (remove_nth i xs))"
proof -
  assume i: "i < length xs"
  have "set xs = set (take i xs @ xs ! i # drop (Suc i) xs)"
    using remove_nth_split [OF i] by simp
  then show ?thesis by (simp add: remove_nth_def)
qed

lemma distinct_map_remove_nth: "distinct (map f xs) \<Longrightarrow> distinct (map f (remove_nth i xs))"
proof -
  assume d: "distinct (map f xs)"
  have "map f (take i xs) @ map f (drop i xs) = map f xs"
    by (metis append_take_drop_id map_append)
  with d have "distinct (map f (take i xs) @ map f (drop i xs))" by simp
  moreover have "set (map f (drop (Suc i) xs)) \<subseteq> set (map f (drop i xs))"
    by (metis Suc_n_not_le_n drop_map le_SucI nle_le set_drop_subset_set_drop set_map image_mono)
  moreover have "distinct (map f (drop (Suc i) xs))"
    using d by (metis distinct_drop drop_map)
  ultimately show ?thesis by (auto simp: remove_nth_def)
qed

lemma set_insert_nth [simp]: "set (insert_nth i x xs) = insert x (set xs)"
proof -
  have "set (take i xs) \<union> set (drop i xs) = set xs"
    by (metis append_take_drop_id set_append)
  then show ?thesis by (auto simp: insert_nth_def)
qed

lemma length_insert_nth [simp]: "i \<le> length xs \<Longrightarrow> length (insert_nth i x xs) = Suc (length xs)"
  by (simp add: insert_nth_def)

section \<open>Strings\<close>

text \<open>
  A Go string is its bytes. \<open>space_runes\<close> are the UTF-8 encodings of the runes for which
  unicode.IsSpace holds; strings.TrimSpace cuts them at both ends.
\<close>

definition has_prefix :: "string \<Rightarrow> string \<Rightarrow> bool" where
  "has_prefix s p \<longleftrightarrow> take (length p) s = p"

definition has_suffix :: "string \<Rightarrow> string \<Rightarrow> bool" where
  "has_suffix s p \<longleftrightarrow> length p \<le> length s \<and> drop (length s - length p) s = p"

definition trim_prefix :: "string \<Rightarrow> string \<Rightarrow> string" where
  "trim_prefix s p = (if has_prefix s p then drop (length p) s else s)"

definition trim_suffix :: "string \<Rightarrow> string \<Rightarrow> string" where
  "trim_suffix s p = (if has_suffix s p then take (length s - length p) s else s)"

definition space_runes :: "string list" where
  "space_runes =
     [[CHR '' ''], [CHR 0x09], [CHR 0x0A], [CHR 0x0B], [CHR 0x0C], [CHR 0x0D],
      [CHR 0xC2, CHR 0x85], [CHR 0xC2, CHR 0xA0], [CHR 0xE1, CHR 0x9A, CHR 0x80],
      [CHR 0xE2, CHR 0x80, CHR 0x80], [CHR 0xE2, CHR 0x80, CHR 0x81],
      [CHR 0xE2, CHR 0x80, CHR 0x82], [CHR 0xE2, CHR 0x80, CHR 0x83],
      [CHR 0xE2, CHR 0x80, CHR 0x84], [CHR 0xE2, CHR 0x80, CHR 0x85],
      [CHR 0xE2, CHR 0x80, CHR 0x86], [CHR 0xE2, CHR 0x80, CHR 0x87],
      [CHR 0xE2, CHR 0x80, CHR 0x88], [CHR 0xE2, CHR 0x80, CHR 0x89],
      [CHR 0xE2, CHR 0x80, CHR 0x8A], [CHR 0xE2, CHR 0x80, CHR 0xA8],
      [CHR 0xE2, CHR 0x80, CHR 0xA9], [CHR 0xE2, CHR 0x80, CHR 0xAF],
      [CHR 0xE2, CHR 0x81, CHR 0x9F], [CHR 0xE3, CHR 0x80, CHR 0x80]]"

fun trim_left_of :: "string list \<Rightarrow> string \<Rightarrow> string" where
  "trim_left_of ps [] = []"
| "trim_left_of ps (c # s) =
     (case find (\<lambda>p. p \<noteq> [] \<and> has_prefix (c # s) p) ps of
        None \<Rightarrow> c # s
      | Some p \<Rightarrow> trim_left_of ps (drop (length p - 1) s))"

definition trim_left_space :: "string \<Rightarrow> string" where
  "trim_left_space = trim_left_of space_runes"

definition trim_right_space :: "string \<Rightarrow> string" where
  "trim_right_space s = rev (trim_left_of (map rev space_runes) (rev s))"

definition trim_space :: "string \<Rightarrow> string" where
  "trim_space s = trim_right_space (trim_left_space s)"

lemmas trim_eval = trim_space_def trim_left_space_def trim_right_space_def space_runes_def has_prefix_def

lemma trim_left_of_suffix: "suffix (trim_left_of ps s) s"
proof (induction ps s rule: trim_left_of.induct)
  case (1 ps)
  then show ?case by simp
next
  case (2 ps c s)
  show ?case
  proof (cases "find (\<lambda>p. p \<noteq> [] \<and> has_prefix (c # s) p) ps")
    case None
    then show ?thesis by simp
  next
    case (Some p)
    have "suffix (trim_left_of ps (drop (length p - 1) s)) (drop (length p - 1) s)"
      using "2.IH" Some by blast
    then have "suffix (trim_left_of ps (drop (length p - 1) s)) (c # s)"
      using suffix_drop suffix_order.trans suffix_ConsI by metis
    then show ?thesis using Some by simp
  qed
qed

lemma trim_left_of_length: "length (trim_left_of ps s) \<le> length s"
  using trim_left_of_suffix [of ps s] by (simp add: suffix_length_le)

lemma trim_left_of_idem: "trim_left_of ps (trim_left_of ps s) = trim_left_of ps s"
proof (induction ps s rule: trim_left_of.induct)
  case (2 ps c s)
  then show ?case
    by (cases "find (\<lambda>p. p \<noteq> [] \<and> has_prefix (c # s) p) ps") auto
qed simp

lemma trim_space_Nil [simp]: "trim_space [] = []"
  by (simp add: trim_space_def trim_left_space_def trim_right_space_def)

lemma has_prefix_prefix: "has_prefix s p \<longleftrightarrow> prefix p s"
  by (auto simp: has_prefix_def prefix_def) (metis append_take_drop_id)

lemma trim_left_of_fixed: "trim_left_of ps s = s \<longleftrightarrow> (\<forall>p \<in> set ps. p = [] \<or> \<not> prefix p s)"
proof (cases s)
  case (Cons c s')
  show ?thesis
  proof (cases "find (\<lambda>p. p \<noteq> [] \<and> has_prefix (c # s') p) ps")
    case None
    then have "\<forall>p \<in> set ps. p = [] \<or> \<not> prefix p s"
      using Cons by (auto simp: find_None_iff has_prefix_prefix)
    then show ?thesis using None Cons by simp
  next
    case (Some p)
    then have p: "p \<in> set ps" "p \<noteq> []" "prefix p s"
      using Cons by (auto simp: find_Some_iff has_prefix_prefix)
    have "length (trim_left_of ps (drop (length p - 1) s')) < length s"
      using trim_left_of_length [of ps "drop (length p - 1) s'"] Cons by simp
    then have "trim_left_of ps s \<noteq> s" using Some Cons by auto
    then show ?thesis using p by blast
  qed
qed auto

lemma trim_right_prefix: "prefix (trim_right_space s) s"
  using trim_left_of_suffix [of "map rev space_runes" "rev s"]
  by (simp add: trim_right_space_def suffix_to_prefix)

lemma trim_space_idem [simp]: "trim_space (trim_space s) = trim_space s"
proof -
  let ?l = "trim_left_space s"
  have "\<forall>p \<in> set space_runes. p = [] \<or> \<not> prefix p ?l"
    using trim_left_of_idem [of space_runes s] trim_left_of_fixed by (simp add: trim_left_space_def)
  then have "\<forall>p \<in> set space_runes. p = [] \<or> \<not> prefix p (trim_right_space ?l)"
    using trim_right_prefix [of ?l] prefix_order.trans by blast
  then have "trim_left_space (trim_right_space ?l) = trim_right_space ?l"
    by (simp add: trim_left_space_def trim_left_of_fixed)
  then show ?thesis by (simp add: trim_space_def trim_right_space_def trim_left_of_idem)
qed

text \<open>Decimal text of a number, as strconv.Itoa writes a non-negative one.\<close>

fun digits_of :: "nat \<Rightarrow> string" where
  "digits_of n = (if n < 10 then [char_of (48 + n)] else digits_of (n div 10) @ [char_of (48 + n mod 10)])"

declare digits_of.simps [simp del]

text \<open>strings.Split at one byte, and strings.Join of what it gives back.\<close>

fun split_on :: "char \<Rightarrow> string \<Rightarrow> string list" where
  "split_on c [] = [[]]"
| "split_on c (x # xs) =
     (if x = c then [] # split_on c xs
      else (case split_on c xs of [] \<Rightarrow> [[x]] | w # ws \<Rightarrow> (x # w) # ws))"

fun join_text :: "string \<Rightarrow> string list \<Rightarrow> string" where
  "join_text sep [] = []"
| "join_text sep [s] = s"
| "join_text sep (s # t # ts) = s @ sep @ join_text sep (t # ts)"

lemma split_on_not_Nil [simp]: "split_on c s \<noteq> []"
  by (induction s) (auto split: list.splits)

lemma join_text_Cons: "ws \<noteq> [] \<Longrightarrow> join_text sep (w # ws) = w @ sep @ join_text sep ws"
  by (cases ws) auto

lemma join_split_on: "join_text [c] (split_on c s) = s"
proof (induction s)
  case (Cons x s)
  then show ?case
    by (cases "split_on c s"; cases "tl (split_on c s)") (auto simp: join_text_Cons)
qed simp

lemma split_on_free: "c \<notin> set w \<Longrightarrow> split_on c w = [w]"
  by (induction w) auto

lemma split_on_append: "c \<notin> set w \<Longrightarrow> split_on c (w @ c # s) = w # split_on c s"
  by (induction w) auto

lemma split_join_text:
  "ws \<noteq> [] \<Longrightarrow> \<forall>w \<in> set ws. c \<notin> set w \<Longrightarrow> split_on c (join_text [c] ws) = ws"
  by (induction "[c]" ws rule: join_text.induct) (auto simp: split_on_free split_on_append)

lemma split_on_snoc: "split_on c (s @ [c]) = split_on c s @ [[]]"
  by (induction s) (auto split: list.splits)

lemma split_on_no_sep: "w \<in> set (split_on c s) \<Longrightarrow> c \<notin> set w"
proof (induction s arbitrary: w)
  case (Cons x s)
  then show ?case by (cases "split_on c s") (auto split: if_splits)
qed simp

section \<open>Maps\<close>

text \<open>
  A Go map is an association list: \<open>map_of\<close> reads it, \<open>AList.update\<close> stores a key,
  \<open>AList.delete\<close> removes one, and \<open>maps.Copy(dst, src)\<close> stores every entry of src.
\<close>

type_synonym ('k, 'v) gomap = "('k \<times> 'v) list"

fun map_copy :: "('k, 'v) gomap \<Rightarrow> ('k, 'v) gomap \<Rightarrow> ('k, 'v) gomap" where
  "map_copy dst [] = dst"
| "map_copy dst ((k, v) # src) = map_copy (AList.update k v dst) src"

lemma map_of_map_copy_distinct [keys_simp]:
  "distinct (map fst src) \<Longrightarrow> map_of (map_copy dst src) = map_of dst ++ map_of src"
proof (induction dst src rule: map_copy.induct)
  case (1 dst)
  then show ?case by simp
next
  case (2 dst k v src)
  then have "map_of (map_copy dst ((k, v) # src)) = map_of (AList.update k v dst) ++ map_of src"
    by simp
  also have "\<dots> = (map_of dst)(k \<mapsto> v) ++ map_of src"
    by (simp only: update_conv')
  also have "\<dots> = map_of dst ++ map_of ((k, v) # src)"
    using 2(2) map_add_upd_left [of k "map_of src" "map_of dst" v]
    by (simp add: dom_map_of_conv_image_fst)
  finally show ?case .
qed

lemma distinct_map_copy [simp]:
  "distinct (map fst dst) \<Longrightarrow> distinct (map fst (map_copy dst src))"
  by (induction dst src rule: map_copy.induct) (auto simp: distinct_update)

section \<open>Errors\<close>

text \<open>
  A Go error is its text and the sentinels its chain unwraps to: \<open>errors.Is e s\<close> holds
  exactly of those. The sentinels are the package variables the code tests for.
\<close>

datatype sentinel =
    Canceled | ModelRefused | MaxTokens | ContextLength | InterruptNotFound
  | NotFound | Invalid | FailedErr | Correction | StaleCheckpoint | Network
  | AuthExpiredErr | CannotCount | Exists | PermissionDenied | SessionNotFound
  | SessionInvalid | InvalidPayload | ModelAfterTools | UnknownBlock | InvalidA1
  | NotSupported | TooLarge | LineOutOfRange

record gerr =
  err_text :: string
  err_is :: "sentinel list"

definition errors_is :: "gerr \<Rightarrow> sentinel \<Rightarrow> bool" where
  "errors_is e s \<longleftrightarrow> s \<in> set (err_is e)"

definition mk_err :: "string \<Rightarrow> sentinel list \<Rightarrow> gerr" where
  "mk_err txt ss = \<lparr>err_text = txt, err_is = ss\<rparr>"

text \<open>\<open>fmt.Errorf("...%w", err)\<close>: a text before err's own, and err's chain.\<close>

definition wrap_err :: "string \<Rightarrow> gerr \<Rightarrow> gerr" where
  "wrap_err txt e = mk_err (txt @ err_text e) (err_is e)"

text \<open>errors.Join of a non-empty list: the texts on lines of their own, every chain.\<close>

definition errors_join :: "gerr list \<Rightarrow> gerr option" where
  "errors_join es =
     (if es = [] then None
      else Some (mk_err (join_text [CHR 0x0A] (map err_text es)) (concat (map err_is es))))"

lemma errors_is_mk [simp]: "errors_is (mk_err txt ss) s \<longleftrightarrow> s \<in> set ss"
  by (simp add: errors_is_def mk_err_def)

lemma errors_is_wrap [simp]: "errors_is (wrap_err txt e) s = errors_is e s"
  by (simp add: wrap_err_def errors_is_def mk_err_def)

lemma err_text_mk [simp]: "err_text (mk_err txt ss) = txt"
  by (simp add: mk_err_def)

lemma errors_is_join:
  "errors_join es = Some e \<Longrightarrow> errors_is e s \<longleftrightarrow> (\<exists>x \<in> set es. errors_is x s)"
  by (auto simp: errors_join_def errors_is_def mk_err_def split: if_splits)

end
