(* ===== verification/Messages.thy ===== *)
theory Messages
  imports Prelude
begin

text \<open>
  The conversation data: messages with their parts and tool calls (message/message.go), the
  structural check a window and a checkpoint pass (validate.go), and the events and
  failures a turn reports (session/event.go, session/types.go).
\<close>

section \<open>Messages\<close>

datatype role =
    RoleUser | RoleAssistant | RoleReasoning | RoleSystem | RoleDeveloper | RoleTool
  | RoleOther string

record image_url =
  iu_url :: string
  iu_detail :: string

record file_data =
  fd_file_id :: string
  fd_url :: string
  fd_data :: string
  fd_mime_type :: string
  fd_filename :: string

record url_annotation =
  ua_url :: string
  ua_title :: string

record annotation =
  an_type :: string
  an_text :: string
  an_file_id :: string
  an_url :: "url_annotation option"

record content_part =
  cp_type :: string
  cp_text :: string
  cp_refusal :: string
  cp_image_url :: "image_url option"
  cp_file_data :: "file_data option"
  cp_annotations :: "annotation list"

record tool_call =
  tc_id :: string
  tc_type :: string
  tc_call_id :: string
  tc_name :: string
  tc_title :: string
  tc_category :: string
  tc_namespace :: string
  tc_arguments :: string
  tc_status :: string

record message =
  m_role :: role
  m_content :: string
  m_message_id :: string
  m_encrypted :: string
  m_parts :: "content_part list"
  m_tool_calls :: "tool_call list"
  m_tool_call_id :: string

definition tool_call_key :: "tool_call \<Rightarrow> string" where
  "tool_call_key tc = (if tc_id tc \<noteq> [] then tc_id tc else tc_call_id tc)"

definition wire_id :: "tool_call \<Rightarrow> string" where
  "wire_id tc = (if tc_call_id tc \<noteq> [] then tc_call_id tc else tc_id tc)"

text \<open>A message that sets only its role and its text.\<close>

definition text_message :: "role \<Rightarrow> string \<Rightarrow> message" where
  "text_message r s =
     \<lparr>m_role = r, m_content = s, m_message_id = [], m_encrypted = [], m_parts = [],
      m_tool_calls = [], m_tool_call_id = []\<rparr>"

lemma text_message_sel [simp]:
  "m_role (text_message r s) = r" "m_content (text_message r s) = s"
  "m_tool_call_id (text_message r s) = []" "m_tool_calls (text_message r s) = []"
  "m_parts (text_message r s) = []"
  by (simp_all add: text_message_def)

text \<open>
  ValidateMessages. A nil message is None; the error names the first message that breaks
  a rule.
\<close>

datatype message_fault = NilMessage nat | ToolIdOnRole nat role | MissingToolId nat | BadRole nat string

fun validate_from :: "nat \<Rightarrow> message option list \<Rightarrow> message_fault option" where
  "validate_from i [] = None"
| "validate_from i (None # ms) = Some (NilMessage i)"
| "validate_from i (Some m # ms) =
     (case m_role m of
        RoleTool \<Rightarrow>
          if m_tool_call_id m = [] then Some (MissingToolId i) else validate_from (Suc i) ms
      | RoleOther r \<Rightarrow> Some (BadRole i r)
      | r \<Rightarrow>
          if m_tool_call_id m \<noteq> [] then Some (ToolIdOnRole i r) else validate_from (Suc i) ms)"

definition validate_messages :: "message option list \<Rightarrow> message_fault option" where
  "validate_messages ms = validate_from 0 ms"

text \<open>What a valid message is: the two sides of the switch.\<close>

definition valid_message :: "message \<Rightarrow> bool" where
  "valid_message m \<longleftrightarrow>
     (case m_role m of RoleTool \<Rightarrow> m_tool_call_id m \<noteq> [] | RoleOther _ \<Rightarrow> False
      | _ \<Rightarrow> m_tool_call_id m = [])"

lemma validate_from_None_iff:
  "validate_from i ms = None \<longleftrightarrow> (\<forall>m \<in> set ms. case m of None \<Rightarrow> False | Some x \<Rightarrow> valid_message x)"
  by (induction i ms rule: validate_from.induct)
    (auto simp: valid_message_def split: role.splits)

lemma validate_messages_append:
  "validate_messages (xs @ ys) = None \<longleftrightarrow> validate_messages xs = None \<and> validate_messages ys = None"
  by (auto simp: validate_messages_def validate_from_None_iff)

lemma valid_text_message:
  "r \<noteq> RoleTool \<Longrightarrow> (\<forall>s. r \<noteq> RoleOther s) \<Longrightarrow> valid_message (text_message r s)"
  by (cases r) (auto simp: valid_message_def)

section \<open>Events and failures\<close>

datatype event_type =
    EventMessage | EventReasoning | EventFunctionCall | EventToolResult | EventComplete
  | EventError | EventInterrupt | EventToolUpdate | EventPlanUpdate

datatype fail_kind = FailRefused | FailMaxTokens | FailContextLength | FailCancelled

record event =
  ev_type :: event_type
  ev_turn_id :: string
  ev_message_id :: string
  ev_content :: string
  ev_data :: string
  ev_tool_calls :: "tool_call list"
  ev_delta :: bool
  ev_offset :: nat
  ev_error :: "gerr option"
  ev_fail :: string
  ev_fail_kind :: "fail_kind option"

definition new_event :: "event_type \<Rightarrow> event" where
  "new_event ty =
     \<lparr>ev_type = ty, ev_turn_id = [], ev_message_id = [], ev_content = [], ev_data = [],
      ev_tool_calls = [], ev_delta = False, ev_offset = 0, ev_error = None, ev_fail = [],
      ev_fail_kind = None\<rparr>"

lemma ev_type_new_event [simp]: "ev_type (new_event ty) = ty"
  by (simp add: new_event_def)

definition event_live :: "event \<Rightarrow> bool" where
  "event_live ev \<longleftrightarrow> ev_delta ev \<or> ev_type ev = EventToolUpdate"

definition kind_of :: "gerr \<Rightarrow> fail_kind option" where
  "kind_of e =
     (if errors_is e ModelRefused then Some FailRefused
      else if errors_is e ContextLength then Some FailContextLength
      else if errors_is e MaxTokens then Some FailMaxTokens
      else if errors_is e Canceled then Some FailCancelled
      else None)"

text \<open>context.Canceled, and the sentinels of package session with the chain each one has.\<close>

definition err_canceled :: gerr where
  "err_canceled = mk_err ''context canceled'' [Canceled]"

definition kind_chain :: "fail_kind \<Rightarrow> sentinel list" where
  "kind_chain k =
     (case k of FailRefused \<Rightarrow> [ModelRefused] | FailMaxTokens \<Rightarrow> [MaxTokens]
      | FailContextLength \<Rightarrow> [ContextLength, MaxTokens] | FailCancelled \<Rightarrow> [Canceled])"

text \<open>FailKind.WithText: an error with the text whose chain is the kind's sentinel.\<close>

definition with_text :: "fail_kind option \<Rightarrow> string \<Rightarrow> gerr" where
  "with_text k txt = mk_err txt (case k of None \<Rightarrow> [] | Some k' \<Rightarrow> kind_chain k')"

definition failure_event :: "gerr \<Rightarrow> event" where
  "failure_event err =
     (let kind = kind_of err;
          e = (if kind = Some FailCancelled then err_canceled else err)
      in (new_event EventError)\<lparr>ev_fail := err_text e, ev_content := err_text e,
            ev_fail_kind := kind, ev_error := Some e\<rparr>)"

text \<open>
  Event.MarshalJSON and UnmarshalJSON: what crosses the wire is the event without its
  error value, with the error's text and kind written from it when they are not set yet;
  the reader gets an error of that kind back.
\<close>

definition event_to_wire :: "event \<Rightarrow> event" where
  "event_to_wire ev =
     (case ev_error ev of
        Some e \<Rightarrow>
          (if ev_fail ev = []
           then ev\<lparr>ev_fail := err_text e, ev_fail_kind := kind_of e, ev_error := None\<rparr>
           else ev\<lparr>ev_error := None\<rparr>)
      | None \<Rightarrow> ev)"

definition event_from_wire :: "event \<Rightarrow> event" where
  "event_from_wire ev =
     (if ev_fail ev \<noteq> [] then ev\<lparr>ev_error := Some (with_text (ev_fail_kind ev) (ev_fail ev))\<rparr> else ev)"

lemma kind_of_with_text [simp]: "kind_of (with_text k txt) = k"
proof (cases k)
  case (Some x)
  then show ?thesis by (cases x) (simp_all add: kind_of_def with_text_def kind_chain_def)
qed (simp add: kind_of_def with_text_def)

lemma kind_of_err_canceled [simp]: "kind_of err_canceled = Some FailCancelled"
  by (simp add: kind_of_def err_canceled_def)

lemma ev_type_failure_event [simp]: "ev_type (failure_event e) = EventError"
  by (simp add: failure_event_def Let_def)

text \<open>
  A failure that crosses the wire comes back as an error of the same kind with the
  same text (a cancel's being context.Canceled's own), in the event it was, whatever else
  its chain held; only a failure without a text is lost.
\<close>

lemma failure_event_wire:
  assumes "err_text err \<noteq> []"
  shows "\<exists>e. event_from_wire (event_to_wire (failure_event err)) = (failure_event err)\<lparr>ev_error := Some e\<rparr> \<and>
    kind_of e = kind_of err \<and>
    err_text e = (if kind_of err = Some FailCancelled then ''context canceled'' else err_text err)"
  using assms
  by (auto simp: failure_event_def event_to_wire_def event_from_wire_def Let_def err_canceled_def new_event_def)
    (auto simp: with_text_def)

end
