(* ===== verification/Calls.thy ===== *)
theory Calls
  imports Messages
begin

text \<open>
  One tool call through its life and the round it belongs to (toolcall.go, drive.go), and
  the jobs a call starts (runtime\_children.go). The harness's part of a call, its body, is
  the type parameter \<open>'b\<close>: only the harness reads it.
\<close>

section \<open>Calls\<close>

record job_start =
  js_id :: string
  js_name :: string
  js_task :: string
  js_specialist :: bool

record job_result =
  jr_output :: string
  jr_failed :: bool

record park =
  pk_interrupt_id :: string
  pk_data :: string

record 'b call =
  c_tool :: tool_call
  c_timeout :: int
  c_done :: bool
  c_park :: "park option"
  c_await :: string
  c_starts :: "job_start list"
  c_cancels :: "string list"
  c_answer :: "string option"
  c_job_end :: "job_result option"
  c_jobs :: "string list"
  c_max_jobs :: int
  c_body :: "'b option"
  c_err :: "gerr option"

definition new_call :: "tool_call \<Rightarrow> int \<Rightarrow> 'b call" where
  "new_call tool timeout =
     \<lparr>c_tool = tool, c_timeout = timeout, c_done = False, c_park = None, c_await = [],
      c_starts = [], c_cancels = [], c_answer = None, c_job_end = None, c_jobs = [],
      c_max_jobs = 0, c_body = None, c_err = None\<rparr>"

definition call_key :: "'b call \<Rightarrow> string" where
  "call_key c = tool_call_key (c_tool c)"

definition parked :: "'b call \<Rightarrow> bool" where
  "parked c \<longleftrightarrow> \<not> c_done c \<and> c_park c \<noteq> None"

definition waits :: "'b call \<Rightarrow> bool" where
  "waits c \<longleftrightarrow> \<not> c_done c \<and> c_await c \<noteq> []"

definition pending :: "'b call \<Rightarrow> bool" where
  "pending c \<longleftrightarrow> \<not> c_done c \<and> c_park c = None \<and> c_await c = []"

lemma new_call_sel [simp]:
  "c_tool (new_call tc t) = tc" "\<not> c_done (new_call tc t)" "c_park (new_call tc t) = None"
  "c_await (new_call tc t) = []" "c_body (new_call tc t) = None" "c_timeout (new_call tc t) = t"
  by (simp_all add: new_call_def)

lemma call_key_new_call [simp]: "call_key (new_call tc t) = tool_call_key tc"
  by (simp add: call_key_def)

lemma pending_new_call [simp]: "pending (new_call tc t)" "\<not> parked (new_call tc t)" "\<not> waits (new_call tc t)"
  by (simp_all add: pending_def parked_def waits_def)

text \<open>Every call is done, parked, waiting or pending; a done one is nothing else.\<close>

lemma call_states: "c_done c \<or> parked c \<or> waits c \<or> pending c"
  by (auto simp: parked_def waits_def pending_def)

lemma done_only: "c_done c \<Longrightarrow> \<not> parked c \<and> \<not> waits c \<and> \<not> pending c"
  by (auto simp: parked_def waits_def pending_def)

lemma call_key_update [simp]:
  "call_key (c\<lparr>c_jobs := js\<rparr>) = call_key c" "call_key (c\<lparr>c_answer := a\<rparr>) = call_key c"
  "call_key (c\<lparr>c_job_end := e\<rparr>) = call_key c"
  by (simp_all add: call_key_def)

section \<open>Replies and rounds\<close>

record reply =
  rp_messages :: "message list"
  rp_calls :: "tool_call list"
  rp_result :: string
  rp_timeouts :: "int list"
  rp_input_tokens :: int

definition reply_timeout :: "reply \<Rightarrow> nat \<Rightarrow> int" where
  "reply_timeout r i = (if i < length (rp_timeouts r) then rp_timeouts r ! i else 0)"

record 'b round =
  rd_reply :: reply
  rd_calls :: "'b call list"

definition new_round :: "reply \<Rightarrow> 'b round" where
  "new_round rp =
     \<lparr>rd_reply = rp,
      rd_calls = map (\<lambda>(i, tc). new_call tc (reply_timeout rp i))
                   (zip [0..<length (rp_calls rp)] (rp_calls rp))\<rparr>"

definition parked_index :: "'b round \<Rightarrow> nat option" where
  "parked_index r = index_of parked (rd_calls r)"

definition round_complete :: "'b round \<Rightarrow> bool" where
  "round_complete r \<longleftrightarrow> (\<forall>c \<in> set (rd_calls r). c_done c)"

record ('b, 'v) commit_in =
  ci_state :: "(string, 'v) gomap option"
  ci_round :: "'b round option"
  ci_users :: "message list"
  ci_collapse :: bool

definition no_commit :: "('b, 'v) commit_in" where
  "no_commit = \<lparr>ci_state = None, ci_round = None, ci_users = [], ci_collapse = False\<rparr>"

lemma no_commit_sel [simp]:
  "ci_state no_commit = None" "ci_round no_commit = None" "ci_users no_commit = []"
  "ci_collapse no_commit = False"
  by (simp_all add: no_commit_def)

definition round_keys :: "'b round \<Rightarrow> string list" where
  "round_keys r = map call_key (rd_calls r)"

lemma length_new_round [simp]: "length (rd_calls (new_round rp)) = length (rp_calls rp)"
  by (simp add: new_round_def)

lemma rd_reply_new_round [simp]: "rd_reply (new_round rp) = rp"
  by (simp add: new_round_def)

lemma round_keys_new_round [simp]: "round_keys (new_round rp) = map tool_call_key (rp_calls rp)"
  by (auto simp: round_keys_def new_round_def intro: nth_equalityI)

lemma new_round_pending: "c \<in> set (rd_calls (new_round rp)) \<Longrightarrow> pending c"
  by (auto simp: new_round_def)

lemma parked_index_SomeD:
  "parked_index r = Some i \<Longrightarrow> i < length (rd_calls r) \<and> parked (rd_calls r ! i)"
  unfolding parked_index_def using index_of_SomeD by blast

lemma parked_index_None_iff: "parked_index r = None \<longleftrightarrow> (\<forall>c \<in> set (rd_calls r). \<not> parked c)"
  by (simp add: parked_index_def index_of_None_iff)

text \<open>The invariant of a round: at most one of its calls is parked.\<close>

definition one_park :: "'b round \<Rightarrow> bool" where
  "one_park r \<longleftrightarrow>
     (\<forall>i < length (rd_calls r). \<forall>j < length (rd_calls r).
        parked (rd_calls r ! i) \<longrightarrow> parked (rd_calls r ! j) \<longrightarrow> i = j)"

lemma one_park_new_round [simp]: "one_park (new_round rp :: 'b round)"
proof -
  have "\<not> parked (rd_calls (new_round rp :: 'b round) ! i)"
    if "i < length (rd_calls (new_round rp :: 'b round))" for i
    using new_round_pending [OF nth_mem [OF that]] by (simp add: pending_def parked_def)
  then show ?thesis by (auto simp: one_park_def)
qed

lemma one_park_update:
  assumes "one_park r" and "i < length (rd_calls r)"
    and "parked c \<Longrightarrow> parked_index r = None \<or> parked_index r = Some i"
  shows "one_park (r\<lparr>rd_calls := (rd_calls r)[i := c]\<rparr>)"
proof -
  have other: "\<not> parked (rd_calls r ! j)" if "parked c" "j < length (rd_calls r)" "j \<noteq> i" for j
  proof (cases "parked_index r")
    case None
    then show ?thesis using that by (auto simp: parked_index_None_iff)
  next
    case (Some k)
    then have "k = i" using assms(3) that(1) by auto
    then show ?thesis using parked_index_SomeD [OF Some] assms(1) that by (auto simp: one_park_def)
  qed
  show ?thesis
    using assms(1,2) other by (auto simp: one_park_def nth_list_update)
qed

lemma round_keys_update:
  "i < length (rd_calls r) \<Longrightarrow> call_key c = call_key (rd_calls r ! i) \<Longrightarrow>
   round_keys (r\<lparr>rd_calls := (rd_calls r)[i := c]\<rparr>) = round_keys r"
  by (simp add: round_keys_def map_update list_update_same_conv)

section \<open>The id of a child\<close>

text \<open>ChildID: the session, the kind of child, its name and the call that starts it.\<close>

definition child_id :: "string \<Rightarrow> string \<Rightarrow> string \<Rightarrow> bool \<Rightarrow> string" where
  "child_id parent name call_id specialist =
     (let kind = (if specialist then ''w'' else ''j'')
      in parent @ ''/'' @ kind @ ''/'' @ trim_space name @ ''/'' @ trim_space call_id)"

end
