(* ===== verification/Mounts.thy ===== *)
theory Mounts
  imports Prelude
begin

text \<open>
  The folders a session mounts: a work item's bindings with their tokens (vfs/mount/mount.go,
  AuthContext in session/types.go), the secret-free recipes a session remembers across
  turns, and how a work item changes them (session/internal/auth.go). The expiry of a token
  is its instant in nanoseconds; the zero time is 0.
\<close>

section \<open>Paths\<close>

text \<open>path.Clean, element by element: the stack holds the elements kept so far, last first.\<close>

fun clean_segs :: "bool \<Rightarrow> string list \<Rightarrow> string list \<Rightarrow> string list" where
  "clean_segs rooted st [] = rev st"
| "clean_segs rooted st (s # ss) =
     (if s = [] \<or> s = ''.'' then clean_segs rooted st ss
      else if s = ''..'' then
        (case st of
           x # st' \<Rightarrow> if x = ''..'' then clean_segs rooted (s # st) ss else clean_segs rooted st' ss
         | [] \<Rightarrow> if rooted then clean_segs rooted [] ss else clean_segs rooted [s] ss)
      else clean_segs rooted (s # st) ss)"

definition path_is_abs :: "string \<Rightarrow> bool" where
  "path_is_abs p = has_prefix p ''/''"

definition path_clean :: "string \<Rightarrow> string" where
  "path_clean p =
     (let rooted = path_is_abs p; body = join_text ''/'' (clean_segs rooted [] (split_on CHR ''/'' p))
      in if rooted then ''/'' @ body else if body = [] then ''.'' else body)"

section \<open>Bindings and recipes\<close>

record credential =
  cr_token :: string
  cr_expires_at :: int

record binding =
  bd_provider :: string
  bd_point :: string
  bd_auth :: credential
  bd_params :: "(string, string) gomap"
  bd_writable :: bool

record auth_context =
  au_bindings :: "binding list"
  au_drop :: "string list"

record mount_recipe =
  mr_provider :: string
  mr_alias :: string
  mr_params :: "(string, string) gomap"
  mr_source_ids :: "string list"
  mr_writable :: bool

definition no_credential :: credential where
  "no_credential = \<lparr>cr_token = [], cr_expires_at = 0\<rparr>"

definition no_auth :: auth_context where
  "no_auth = \<lparr>au_bindings = [], au_drop = []\<rparr>"

definition param :: "string \<Rightarrow> (string, string) gomap \<Rightarrow> string" where
  "param k m = (case map_of m k of None \<Rightarrow> [] | Some v \<Rightarrow> v)"

definition binding_alias :: "binding \<Rightarrow> string" where
  "binding_alias b =
     (let name = trim_space (param ''name'' (bd_params b)) in
      if name \<noteq> [] then name
      else let point = trim_space (bd_point b) in
        if \<not> path_is_abs point then [] else trim_prefix (path_clean point) ''/'')"

datatype binding_fault = ProviderRequired | TokenRequired | NameRequired | NotOneSegment | ReservedAlias

definition valid_alias :: "string \<Rightarrow> binding_fault option" where
  "valid_alias alias =
     (if alias = [] then Some NameRequired
      else if alias = ''.'' \<or> alias = ''..'' \<or>
              (\<exists>c \<in> set alias. c = CHR ''/'' \<or> c = CHR 0x5C \<or> c = CHR 0x00) then Some NotOneSegment
      else if alias = ''work'' \<or> alias = ''skills'' \<or> alias = ''workspace'' then Some ReservedAlias
      else None)"

definition binding_validate :: "binding \<Rightarrow> binding_fault option" where
  "binding_validate b =
     (if trim_space (bd_provider b) = [] then Some ProviderRequired
      else if trim_space (cr_token (bd_auth b)) = [] then Some TokenRequired
      else valid_alias (binding_alias b))"

text \<open>AuthContext.WithoutSecrets: the bindings without their credentials.\<close>

definition without_secrets :: "auth_context \<Rightarrow> auth_context" where
  "without_secrets a = a\<lparr>au_bindings := map (\<lambda>b. b\<lparr>bd_auth := no_credential\<rparr>) (au_bindings a)\<rparr>"

definition source_param_keys :: "string list" where
  "source_param_keys = [''folderId'', ''itemId'', ''driveId'', ''siteId'']"

definition source_ids :: "(string, string) gomap \<Rightarrow> string list" where
  "source_ids params =
     concat (map (\<lambda>k. let v = trim_space (param k params) in
                      if v = [] then [] else [k @ '':'' @ v]) source_param_keys)"

text \<open>The ids of a, then those of b, each once: the loop over their concatenation.\<close>

fun uniq_ids :: "string list \<Rightarrow> string list \<Rightarrow> string list" where
  "uniq_ids seen [] = []"
| "uniq_ids seen (x # xs) = (if x \<in> set seen then uniq_ids seen xs else x # uniq_ids (x # seen) xs)"

definition merge_source_ids :: "string list \<Rightarrow> string list \<Rightarrow> string list" where
  "merge_source_ids a b = uniq_ids [] (a @ b)"

definition drop_recipe :: "mount_recipe \<Rightarrow> string list \<Rightarrow> bool" where
  "drop_recipe r dropped =
     (\<exists>d \<in> set dropped. mr_alias r = trim_space d \<or> mr_provider r = trim_space d)"

definition recipe_from_binding :: "binding \<Rightarrow> string \<Rightarrow> mount_recipe" where
  "recipe_from_binding b alias =
     (let params = AList.update ''name'' alias (bd_params b)
      in \<lparr>mr_provider = bd_provider b, mr_alias = alias, mr_params = params,
          mr_source_ids = source_ids params, mr_writable = bd_writable b\<rparr>)"

text \<open>
  The loop body of ApplyAuth for one binding: it replaces the first recipe with the
  binding's alias, merging the source ids, or adds a recipe at the end.
\<close>

fun upsert_recipe :: "mount_recipe \<Rightarrow> mount_recipe list \<Rightarrow> mount_recipe list" where
  "upsert_recipe rec [] = [rec]"
| "upsert_recipe rec (r # rs) =
     (if mr_alias r = mr_alias rec
      then rec\<lparr>mr_source_ids := merge_source_ids (mr_source_ids r) (mr_source_ids rec)\<rparr> # rs
      else r # upsert_recipe rec rs)"

definition apply_binding :: "mount_recipe list \<Rightarrow> binding \<Rightarrow> mount_recipe list" where
  "apply_binding out b =
     (let alias = binding_alias b in
      if alias = [] then out else upsert_recipe (recipe_from_binding b alias) out)"

definition apply_auth :: "mount_recipe list \<Rightarrow> auth_context \<Rightarrow> mount_recipe list" where
  "apply_auth recipes auth =
     (let out = filter (\<lambda>r. \<not> drop_recipe r (au_drop auth)) recipes
      in foldl apply_binding out (au_bindings auth))"

text \<open>tokenIndex: the last token of each provider and of each alias.\<close>

fun token_index ::
  "binding list \<Rightarrow> (string, credential) gomap \<times> (string, credential) gomap \<Rightarrow>
   (string, credential) gomap \<times> (string, credential) gomap" where
  "token_index [] acc = acc"
| "token_index (b # bs) (by_provider, by_alias) =
     (if trim_space (cr_token (bd_auth b)) = [] then token_index bs (by_provider, by_alias)
      else token_index bs
        (if bd_provider b \<noteq> [] then AList.update (bd_provider b) (bd_auth b) by_provider else by_provider,
         let alias = binding_alias b in
         if alias \<noteq> [] then AList.update alias (bd_auth b) by_alias else by_alias))"

definition binding_for :: "(string, credential) gomap \<times> (string, credential) gomap \<Rightarrow>
  mount_recipe \<Rightarrow> binding list" where
  "binding_for idx r =
     (let (by_provider, by_alias) = idx;
          cred = (case map_of by_alias (mr_alias r) of
                    Some c \<Rightarrow> Some c | None \<Rightarrow> map_of by_provider (mr_provider r))
      in case cred of
           None \<Rightarrow> []
         | Some c \<Rightarrow> [\<lparr>bd_provider = mr_provider r, bd_point = ''/workspace'', bd_auth = c,
                      bd_params = AList.update ''name'' (mr_alias r) (mr_params r),
                      bd_writable = mr_writable r\<rparr>])"

definition bindings_for_turn :: "mount_recipe list \<Rightarrow> auth_context \<Rightarrow> binding list" where
  "bindings_for_turn recipes auth =
     concat (map (binding_for (token_index (au_bindings auth) ([], []))) recipes)"

section \<open>What a work item does to the recipes\<close>

definition aliases :: "mount_recipe list \<Rightarrow> string list" where
  "aliases rs = map mr_alias rs"

lemma mr_alias_recipe_from_binding [simp]: "mr_alias (recipe_from_binding b a) = a"
  by (simp add: recipe_from_binding_def Let_def)

lemma set_aliases_upsert [simp]:
  "set (aliases (upsert_recipe rec rs)) = insert (mr_alias rec) (set (aliases rs))"
  by (induction rs) (auto simp: aliases_def)

lemma distinct_aliases_upsert:
  "distinct (aliases rs) \<Longrightarrow> distinct (aliases (upsert_recipe rec rs))"
proof (induction rs)
  case (Cons r rs)
  then show ?case using set_aliases_upsert [of rec rs] by (auto simp: aliases_def)
qed (simp add: aliases_def)

lemma distinct_aliases_apply_binding:
  "distinct (aliases rs) \<Longrightarrow> distinct (aliases (apply_binding rs b))"
  by (simp add: apply_binding_def Let_def distinct_aliases_upsert)

lemma distinct_aliases_foldl:
  "distinct (aliases rs) \<Longrightarrow> distinct (aliases (foldl apply_binding rs bs))"
  by (induction bs arbitrary: rs) (auto simp: distinct_aliases_apply_binding)

lemma distinct_aliases_filter: "distinct (aliases rs) \<Longrightarrow> distinct (aliases (filter P rs))"
  by (simp add: aliases_def distinct_map_filter)

lemma set_aliases_foldl:
  "set (aliases (foldl apply_binding rs bs)) =
     set (aliases rs) \<union> (binding_alias ` set bs - {[]})"
  by (induction bs arbitrary: rs) (auto simp: apply_binding_def Let_def)

lemma apply_auth_no_auth [simp]: "apply_auth rs no_auth = rs"
  by (simp add: apply_auth_def no_auth_def drop_recipe_def)

lemma set_uniq_ids: "set (uniq_ids seen xs) = set xs - set seen"
  by (induction seen xs rule: uniq_ids.induct) auto

lemma distinct_uniq_ids: "distinct (uniq_ids seen xs)"
  by (induction seen xs rule: uniq_ids.induct) (auto simp: set_uniq_ids)

section \<open>Properties\<close>

text \<open>The last binding of a work item with an alias: the one that counts.\<close>

fun last_binding :: "string \<Rightarrow> binding list \<Rightarrow> binding option" where
  "last_binding a [] = None"
| "last_binding a (b # bs) =
     (case last_binding a bs of
        Some x \<Rightarrow> Some x | None \<Rightarrow> if binding_alias b = a then Some b else None)"

lemma last_binding_snoc [simp]:
  "last_binding a (bs @ [b]) = (if binding_alias b = a then Some b else last_binding a bs)"
  by (induction bs) auto

lemma last_binding_in: "last_binding a bs = Some b \<Longrightarrow> b \<in> set bs \<and> binding_alias b = a"
  by (induction bs) (auto split: option.splits if_splits)

lemma upsert_recipe_cases:
  assumes "distinct (aliases rs)" and "r \<in> set (upsert_recipe rec rs)"
  shows "if mr_alias r = mr_alias rec
    then mr_provider r = mr_provider rec \<and> mr_writable r = mr_writable rec \<and> mr_params r = mr_params rec
    else r \<in> set rs"
  using assms
proof (induction rs)
  case (Cons x rs)
  show ?case
  proof (cases "mr_alias x = mr_alias rec")
    case True
    then have "r \<in> set rs \<Longrightarrow> mr_alias r \<noteq> mr_alias rec"
      using Cons.prems(1) by (metis aliases_def distinct.simps(2) image_eqI list.set_map list.simps(9))
    then show ?thesis using True Cons.prems(2) by auto
  next
    case False
    then show ?thesis using Cons by (auto simp: aliases_def split: if_splits)
  qed
qed simp

text \<open>What a recipe is after a work item: its last binding's, or what it was before.\<close>

definition recipe_is :: "mount_recipe list \<Rightarrow> binding list \<Rightarrow> mount_recipe \<Rightarrow> bool" where
  "recipe_is rs bs r \<longleftrightarrow>
     (case (if mr_alias r = [] then None else last_binding (mr_alias r) bs) of
        Some b \<Rightarrow> mr_provider r = bd_provider b \<and> mr_writable r = bd_writable b \<and>
          mr_params r = AList.update ''name'' (mr_alias r) (bd_params b)
      | None \<Rightarrow> r \<in> set rs)"

lemma foldl_apply_binding_is:
  "distinct (aliases rs) \<Longrightarrow> r \<in> set (foldl apply_binding rs bs) \<Longrightarrow> recipe_is rs bs r"
proof (induction bs arbitrary: r rule: rev_induct)
  case Nil
  then show ?case by (simp add: recipe_is_def)
next
  case (snoc b bs)
  let ?out = "foldl apply_binding rs bs"
  have r: "r \<in> set (apply_binding ?out b)" using snoc.prems(2) by simp
  show ?case
  proof (cases "binding_alias b = []")
    case True
    then have "r \<in> set ?out" using r by (simp add: apply_binding_def)
    from snoc.IH [OF snoc.prems(1) this] show ?thesis
      using True by (auto simp: recipe_is_def split: if_splits)
  next
    case False
    then have "r \<in> set (upsert_recipe (recipe_from_binding b (binding_alias b)) ?out)"
      using r by (simp add: apply_binding_def Let_def)
    from upsert_recipe_cases [OF distinct_aliases_foldl [OF snoc.prems(1)] this] show ?thesis
      using False snoc.IH [OF snoc.prems(1), of r]
      by (cases "mr_alias r = binding_alias b")
        (simp_all add: recipe_is_def recipe_from_binding_def Let_def split: if_splits)
  qed
qed

text \<open>
  After a work item's auth, a session has one recipe for each alias, for exactly the
  aliases it kept or the item binds; and each recipe is its last binding's (provider,
  parameters, writable), or, when the item does not bind its alias, the recipe it was.
\<close>

lemma apply_auth_recipes:
  assumes "distinct (aliases rs)"
  shows "distinct (aliases (apply_auth rs au)) \<and>
    set (aliases (apply_auth rs au)) =
      mr_alias ` {r \<in> set rs. \<not> drop_recipe r (au_drop au)} \<union> (binding_alias ` set (au_bindings au) - {[]}) \<and>
    (\<forall>r \<in> set (apply_auth rs au).
       recipe_is (filter (\<lambda>r. \<not> drop_recipe r (au_drop au)) rs) (au_bindings au) r)"
  using foldl_apply_binding_is [OF distinct_aliases_filter [OF assms]]
    distinct_aliases_foldl [OF distinct_aliases_filter [OF assms]]
  by (auto simp: apply_auth_def Let_def set_aliases_foldl) (auto simp: aliases_def)

definition demo_binding :: binding where
  "demo_binding = \<lparr>bd_provider = ''gdrive'', bd_point = [], bd_auth = no_credential\<lparr>cr_token := ''t''\<rparr>,
     bd_params = [(''name'', ''docs'')], bd_writable = True\<rparr>"

definition demo_recipe :: mount_recipe where
  "demo_recipe = \<lparr>mr_provider = ''s3'', mr_alias = ''docs'', mr_params = [], mr_source_ids = [], mr_writable = False\<rparr>"

lemma demo_alias: "binding_alias demo_binding = ''docs''"
  by (simp add: binding_alias_def demo_binding_def param_def trim_eval)

lemma token_index_alias:
  assumes "\<forall>x \<in> set bs. trim_space (cr_token (bd_auth x)) \<noteq> []"
  shows "map_of (snd (token_index bs (p, m))) a =
    (if a = [] then map_of m a
     else case last_binding a bs of Some b \<Rightarrow> Some (bd_auth b) | None \<Rightarrow> map_of m a)"
  using assms
proof (induction bs arbitrary: p m)
  case (Cons b bs)
  then show ?case by (auto simp: Let_def update_conv' split: option.split)
qed simp

lemma token_index_provider:
  "map_of (fst (token_index bs (p, m))) k = Some c \<Longrightarrow>
   map_of p k = Some c \<or> (\<exists>x \<in> set bs. bd_provider x = k \<and> bd_auth x = c)"
proof (induction bs arbitrary: p m)
  case (Cons b bs)
  have "map_of (AList.update (bd_provider b) (bd_auth b) p) k = Some c \<Longrightarrow>
      map_of p k = Some c \<or> bd_provider b = k \<and> bd_auth b = c"
    by (auto simp: update_conv' split: if_splits)
  then show ?case using Cons.prems Cons.IH by (fastforce split: if_splits)
qed simp

text \<open>
  A turn's mounts get no credential of another provider: when every binding of the
  work item is valid, each mount of the turn has the credential of one of the item's
  bindings for the mount's own provider, also where aliases collide across providers.
\<close>

lemma turn_credentials_stay:
  assumes "distinct (aliases rs)" and "\<forall>x \<in> set (au_bindings au). binding_validate x = None"
    and "b \<in> set (bindings_for_turn (apply_auth rs au) au)"
  shows "\<exists>x \<in> set (au_bindings au). bd_auth b = bd_auth x \<and> bd_provider x = bd_provider b"
proof -
  let ?bs = "au_bindings au"
  let ?idx = "token_index ?bs ([], [])"
  have tok: "\<forall>x \<in> set ?bs. trim_space (cr_token (bd_auth x)) \<noteq> []"
    using assms(2) by (auto simp: binding_validate_def split: if_splits)
  obtain r where r: "r \<in> set (apply_auth rs au)" "b \<in> set (binding_for ?idx r)"
    using assms(3) by (auto simp: bindings_for_turn_def)
  then obtain c where c: "bd_provider b = mr_provider r" "bd_auth b = c"
      "map_of (snd ?idx) (mr_alias r) = Some c \<or> map_of (fst ?idx) (mr_provider r) = Some c"
    by (auto simp: binding_for_def Let_def case_prod_unfold split: option.splits)
  have rec: "recipe_is (filter (\<lambda>r. \<not> drop_recipe r (au_drop au)) rs) ?bs r"
    using foldl_apply_binding_is [OF distinct_aliases_filter [OF assms(1)]] r(1) by (simp add: apply_auth_def)
  from c(3) show ?thesis
  proof
    assume "map_of (snd ?idx) (mr_alias r) = Some c"
    then obtain x where "mr_alias r \<noteq> []" "last_binding (mr_alias r) ?bs = Some x" "c = bd_auth x"
      using token_index_alias [OF tok, of "[]" "[]" "mr_alias r"] by (auto split: if_splits option.splits)
    then show ?thesis using rec c last_binding_in [of "mr_alias r" ?bs x] by (auto simp: recipe_is_def)
  next
    assume "map_of (fst ?idx) (mr_provider r) = Some c"
    then show ?thesis using token_index_provider [of ?bs "[]" "[]" "mr_provider r" c] c by (auto intro: bexI [rotated])
  qed
qed

lemma demo_binding_valid: "binding_validate demo_binding = None"
proof -
  have "trim_space (bd_provider demo_binding) \<noteq> []" by (simp add: demo_binding_def trim_eval)
  moreover have "trim_space (cr_token (bd_auth demo_binding)) \<noteq> []" by (simp add: demo_binding_def trim_eval)
  moreover have "valid_alias ''docs'' = None" by (simp add: valid_alias_def)
  ultimately show ?thesis by (simp add: binding_validate_def demo_alias)
qed

end
