(* ===== verification/Runtime.thy ===== *)
theory Runtime
  imports Calls Mounts
begin

text \<open>
  What the session scheduler asks of its runtime (session/orchestrator/turn.go, interface
  Runtime; session/runtime.go), as the durable-object runtime answers it
  (session/durableobject/runtime.go): every call is one journal entry, and a run reads its
  answers from the journal. The scheduler's environment is therefore a tape of answers and
  the log of the requests it made, each with the answer it got.
\<close>

section \<open>Requests and answers\<close>

type_synonym carrier = "(string, string) gomap"

record mcp_server =
  ms_name :: string
  ms_type :: string
  ms_command :: string
  ms_args :: "string list"
  ms_env :: "(string \<times> string) list"
  ms_url :: string
  ms_headers :: "(string \<times> string) list"
  ms_credential_ref :: string
  ms_host_env :: "string list"
  ms_inherit_host_env :: bool

record 'v prompt =
  pr_text :: string
  pr_user_message :: "message option"
  pr_mcp :: "mcp_server list option"
  pr_auth :: auth_context
  pr_state :: "(string, 'v) gomap"

record 'v resume =
  rs_responses :: "(string, string) gomap"
  rs_auth :: auth_context
  rs_state :: "(string, 'v) gomap"

record job_end =
  je_id :: string
  je_result :: job_result

text \<open>A mailbox wake; \<open>NoWake\<close> is the zero Wake that Next returns when nothing is queued.\<close>

datatype 'v wake =
    NoWake
  | WakePrompt "'v prompt" carrier
  | WakeResume "'v resume" carrier
  | WakeCancel
  | WakeClose
  | WakeJob job_end
  | WakeSuspend

datatype turn_kind = KindPrompt | KindResume | KindContinue

record turn_start =
  ts_kind :: turn_kind
  ts_prompt_len :: nat
  ts_resumes :: nat
  ts_parent :: carrier
  ts_link :: carrier

datatype ('b, 'v) request =
    RBegin turn_start
  | RCommit string "('b, 'v) commit_in"
  | RInfer
  | RTools "'b call list"
  | REmit event
  | RJob string string
  | RNext bool
  | RStart job_start
  | RCancel string

text \<open>An answer is a journal entry: the call's kind, its value or its error.\<close>

datatype ('b, 'v) answer =
    ABegin carrier
  | ACommit "gerr + string"
  | AInfer "gerr + reply"
  | ATools "'b call list"
  | AEmit
  | AJob "gerr + string"
  | ANext "'v wake"
  | AStart "gerr option"
  | ACancel

record ('b, 'v) rt =
  tape :: "('b, 'v) answer list"
  log :: "(('b, 'v) request \<times> ('b, 'v) answer option) list"

text \<open>
  A step ends with a value, with \<open>Stopped\<close> (the recorded answers end here, or the entry is
  another call's: the run stops and starts again from storage) or with \<open>Panicked\<close> (the
  code would read outside a slice).
\<close>

datatype 'a out = Ret 'a | Stopped | Panicked

type_synonym ('b, 'v, 'a) act = "('b, 'v) rt \<Rightarrow> 'a out \<times> ('b, 'v) rt"

definition ret :: "'a \<Rightarrow> ('b, 'v, 'a) act" where
  "ret x rt = (Ret x, rt)"

definition panic :: "('b, 'v, 'a) act" where
  "panic rt = (Panicked, rt)"

definition bnd :: "('b, 'v, 'a) act \<Rightarrow> ('a \<Rightarrow> ('b, 'v, 'c) act) \<Rightarrow> ('b, 'v, 'c) act" where
  "bnd m f rt =
     (case m rt of (Ret x, rt') \<Rightarrow> f x rt' | (Stopped, rt') \<Rightarrow> (Stopped, rt')
      | (Panicked, rt') \<Rightarrow> (Panicked, rt'))"

text \<open>
  objectRuntime.replay: the next entry answers a request of its kind; an entry of another
  kind stops the run, and so does the end of the journal, where the call acts and its
  result is not known yet.
\<close>

definition ask :: "('b, 'v) request \<Rightarrow> (('b, 'v) answer \<Rightarrow> 'a option) \<Rightarrow> ('b, 'v, 'a) act" where
  "ask rq dec rt =
     (case tape rt of
        [] \<Rightarrow> (Stopped, rt\<lparr>tape := [], log := log rt @ [(rq, None)]\<rparr>)
      | a # as \<Rightarrow>
          (case dec a of
             None \<Rightarrow> (Stopped, rt\<lparr>tape := as, log := log rt @ [(rq, None)]\<rparr>)
           | Some x \<Rightarrow> (Ret x, rt\<lparr>tape := as, log := log rt @ [(rq, Some a)]\<rparr>)))"

fun as_begin where "as_begin (ABegin c) = Some c" | "as_begin _ = None"
fun as_commit where "as_commit (ACommit r) = Some r" | "as_commit _ = None"
fun as_infer where "as_infer (AInfer r) = Some r" | "as_infer _ = None"
fun as_tools where "as_tools (ATools cs) = Some cs" | "as_tools _ = None"
fun as_emit where "as_emit AEmit = Some ()" | "as_emit _ = None"
fun as_job where "as_job (AJob r) = Some r" | "as_job _ = None"
fun as_next where "as_next (ANext w) = Some w" | "as_next _ = None"
fun as_start where "as_start (AStart e) = Some e" | "as_start _ = None"
fun as_cancel where "as_cancel ACancel = Some ()" | "as_cancel _ = None"

definition rt_begin :: "turn_start \<Rightarrow> ('b, 'v, carrier) act" where
  "rt_begin ts = ask (RBegin ts) as_begin"

definition rt_commit :: "string \<Rightarrow> ('b, 'v) commit_in \<Rightarrow> ('b, 'v, gerr + string) act" where
  "rt_commit base inp = ask (RCommit base inp) as_commit"

definition rt_infer :: "('b, 'v, gerr + reply) act" where
  "rt_infer = ask RInfer as_infer"

definition rt_tools :: "'b call list \<Rightarrow> ('b, 'v, 'b call list) act" where
  "rt_tools cs = ask (RTools cs) as_tools"

definition rt_emit :: "event \<Rightarrow> ('b, 'v, unit) act" where
  "rt_emit ev = ask (REmit ev) as_emit"

definition rt_job :: "string \<Rightarrow> string \<Rightarrow> ('b, 'v, gerr + string) act" where
  "rt_job name task = ask (RJob name task) as_job"

definition rt_next :: "bool \<Rightarrow> ('b, 'v, 'v wake) act" where
  "rt_next block = ask (RNext block) as_next"

definition rt_start :: "job_start \<Rightarrow> ('b, 'v, gerr option) act" where
  "rt_start s = ask (RStart s) as_start"

definition rt_cancel :: "string \<Rightarrow> ('b, 'v, unit) act" where
  "rt_cancel i = ask (RCancel i) as_cancel"

section \<open>Reasoning about steps\<close>

text \<open>
  \<open>wp m Q S P rt\<close>: run from rt, m ends with a value that satisfies Q, is stopped in a
  state that satisfies S, or panics in one that satisfies P.
\<close>

definition wp :: "('b, 'v, 'a) act \<Rightarrow> ('a \<Rightarrow> ('b, 'v) rt \<Rightarrow> bool) \<Rightarrow> (('b, 'v) rt \<Rightarrow> bool) \<Rightarrow>
  (('b, 'v) rt \<Rightarrow> bool) \<Rightarrow> ('b, 'v) rt \<Rightarrow> bool" where
  "wp m Q S P rt =
     (case m rt of (Ret x, rt') \<Rightarrow> Q x rt' | (Stopped, rt') \<Rightarrow> S rt' | (Panicked, rt') \<Rightarrow> P rt')"

lemma wp_ret [wp_rule, simp]: "wp (ret x) Q S P = Q x"
  by (rule ext) (simp add: wp_def ret_def)

lemma wp_panic [wp_rule, simp]: "wp panic Q S P = P"
  by (rule ext) (simp add: wp_def panic_def)

lemma wp_bnd [wp_rule, simp]: "wp (bnd m f) Q S P = wp m (\<lambda>x. wp (f x) Q S P) S P"
  by (rule ext) (auto simp: wp_def bnd_def split: out.splits prod.splits)

lemma wp_mono:
  "wp m Q S P rt \<Longrightarrow> (\<And>x rt'. Q x rt' \<Longrightarrow> Q' x rt') \<Longrightarrow> (\<And>rt'. S rt' \<Longrightarrow> S' rt') \<Longrightarrow>
   (\<And>rt'. P rt' \<Longrightarrow> P' rt') \<Longrightarrow> wp m Q' S' P' rt"
  by (auto simp: wp_def split: out.splits prod.splits)

lemma wp_conj:
  "wp m Q S P rt \<Longrightarrow> wp m Q' S' P' rt \<Longrightarrow>
   wp m (\<lambda>x rt. Q x rt \<and> Q' x rt) (\<lambda>rt. S rt \<and> S' rt) (\<lambda>rt. P rt \<and> P' rt) rt"
  by (auto simp: wp_def split: out.splits prod.splits)

text \<open>One request, seen from its log: the tape gives any answer of its kind, or stops it.\<close>

lemma wp_ask:
  "(\<And>a as x. tape rt = a # as \<Longrightarrow> dec a = Some x \<Longrightarrow>
      Q x (rt\<lparr>tape := as, log := log rt @ [(rq, Some a)]\<rparr>)) \<Longrightarrow>
   (\<And>as. (tape rt = [] \<and> as = [] \<or> (\<exists>a. tape rt = a # as \<and> dec a = None)) \<Longrightarrow>
      S (rt\<lparr>tape := as, log := log rt @ [(rq, None)]\<rparr>)) \<Longrightarrow>
   wp (ask rq dec) Q S P rt"
  by (cases "tape rt") (auto simp: wp_def ask_def split: option.splits)

lemmas rt_defs = rt_begin_def rt_commit_def rt_infer_def rt_tools_def rt_emit_def rt_job_def
  rt_next_def rt_start_def rt_cancel_def

end
