(* ===== verification/Journal.thy ===== *)
theory Journal
  imports Runtime
begin

text \<open>
  What every scheduler step does with the journal it replays (session/durableobject/runtime.go,
  objectRuntime.replay): it reads answers from the front and appends requests to its log,
  and over a longer journal it repeats itself. The loops of the scheduler share one
  interface, \<open>journal_loop\<close>, with their invariant rule.
\<close>

section \<open>What every step does with the tape\<close>

text \<open>The answers a log holds; each comes from the front of the tape, in order.\<close>

fun answers_in :: "(('b, 'v) request \<times> ('b, 'v) answer option) list \<Rightarrow> ('b, 'v) answer list" where
  "answers_in [] = []"
| "answers_in ((rq, None) # es) = answers_in es"
| "answers_in ((rq, Some a) # es) = a # answers_in es"

lemma answers_in_append [simp]: "answers_in (xs @ ys) = answers_in xs @ answers_in ys"
  by (induction xs rule: answers_in.induct) auto

text \<open>
  \<open>played rt rt'\<close>: from rt to rt' every request was answered from the tape; \<open>halted\<close>: the
  last one may not have been.
\<close>

definition played :: "('b, 'v) rt \<Rightarrow> ('b, 'v) rt \<Rightarrow> bool" where
  "played rt rt' \<longleftrightarrow>
     (\<exists>ext. log rt' = log rt @ ext \<and> None \<notin> snd ` set ext \<and> tape rt = answers_in ext @ tape rt')"

definition halted :: "('b, 'v) rt \<Rightarrow> ('b, 'v) rt \<Rightarrow> bool" where
  "halted rt rt' \<longleftrightarrow> (\<exists>ext junk. log rt' = log rt @ ext \<and> tape rt = answers_in ext @ junk @ tape rt')"

lemma played_refl [simp]: "played rt rt"
  by (auto simp: played_def)

lemma played_halted: "played rt rt' \<Longrightarrow> halted rt rt'"
  by (auto simp: played_def halted_def intro: exI [of _ "[]"])

lemma played_trans: "played a b \<Longrightarrow> played b c \<Longrightarrow> played a c"
  unfolding played_def by (elim exE, rule_tac x = "ext @ exta" in exI) auto

lemma halted_trans: "played a b \<Longrightarrow> halted b c \<Longrightarrow> halted a c"
  unfolding played_def halted_def by (elim exE, rule_tac x = "ext @ exta" in exI) auto

text \<open>A step reads its answers from the tape; \<open>eats\<close>: it reads one before it gives a value.\<close>

definition reads :: "('b, 'v, 'a) act \<Rightarrow> bool" where
  "reads m \<longleftrightarrow> (\<forall>rt. wp m (\<lambda>_. played rt) (halted rt) (halted rt) rt)"

definition eats :: "('b, 'v, 'a) act \<Rightarrow> bool" where
  "eats m \<longleftrightarrow> (\<forall>rt x rt'. m rt = (Ret x, rt') \<longrightarrow> length (tape rt') < length (tape rt))"

lemma reads_halted: "reads m \<Longrightarrow> halted rt (snd (m rt))"
proof -
  assume "reads m"
  then have "wp m (\<lambda>_. played rt) (halted rt) (halted rt) rt" by (simp add: reads_def)
  then show ?thesis
    by (cases "m rt"; cases "fst (m rt)") (auto simp: wp_def intro: played_halted)
qed

lemma halted_tape: "halted rt rt' \<Longrightarrow> length (tape rt') \<le> length (tape rt)"
  by (auto simp: halted_def)

named_theorems reads_intro

lemma reads_ret [reads_intro]: "reads (ret x)"
  by (simp add: reads_def)

lemma reads_panic [reads_intro]: "reads panic" "eats panic"
  by (simp_all add: reads_def eats_def played_halted) (simp add: panic_def)

lemma reads_ask [reads_intro]: "reads (ask rq dec)"
  unfolding reads_def
proof
  fix rt
  show "wp (ask rq dec) (\<lambda>_. played rt) (halted rt) (halted rt) rt"
    by (rule wp_ask) (auto simp: played_def halted_def)
qed

lemma eats_ask [reads_intro]: "eats (ask rq dec)"
  by (auto simp: eats_def ask_def split: list.splits option.splits)

lemma reads_bnd [reads_intro]:
  assumes "reads m" and "\<And>x. reads (f x)"
  shows "reads (bnd m f)"
  unfolding reads_def wp_bnd
proof
  fix rt
  show "wp m (\<lambda>x. wp (f x) (\<lambda>_. played rt) (halted rt) (halted rt)) (halted rt) (halted rt) rt"
    using assms(1) [unfolded reads_def, THEN spec [of _ rt]]
    by (rule wp_mono) (auto intro!: wp_mono [OF assms(2) [unfolded reads_def, THEN spec]]
        intro: played_trans halted_trans)
qed

lemma eats_bnd_left: "eats m \<Longrightarrow> (\<And>x. reads (f x)) \<Longrightarrow> eats (bnd m f)"
  unfolding eats_def bnd_def
  by (auto split: out.splits prod.splits) (metis halted_tape le_less_trans reads_halted snd_conv)

lemma eats_bnd_right: "reads m \<Longrightarrow> (\<And>x. eats (f x)) \<Longrightarrow> eats (bnd m f)"
  unfolding eats_def bnd_def
  by (auto split: out.splits prod.splits) (metis halted_tape less_le_trans reads_halted snd_conv)

lemma reads_rt [reads_intro]:
  "reads (rt_begin ts)" "reads (rt_commit b inp)" "reads rt_infer" "reads (rt_tools cs)" "reads (rt_emit ev)"
  "reads (rt_job n tk)" "reads (rt_next bl)" "reads (rt_start s)" "reads (rt_cancel i)"
  by (simp_all add: rt_defs reads_ask)

lemma eats_rt [reads_intro]:
  "eats (rt_begin ts)" "eats (rt_commit b inp)" "eats rt_infer" "eats (rt_tools cs)" "eats (rt_emit ev)"
  "eats (rt_job n tk)" "eats (rt_next bl)" "eats (rt_start s)" "eats (rt_cancel i)"
  by (simp_all add: rt_defs eats_ask)

text \<open>
  \<open>replays\<close>: run again over a longer journal, m gives the same value and log and leaves
  the rest of the journal; a run the journal's end stopped goes on from the same requests.
\<close>

definition grows :: "'e list \<Rightarrow> 'e list \<Rightarrow> bool" where
  "grows xs ys \<longleftrightarrow> (\<exists>zs. ys = xs @ zs)"

lemma grows_refl [simp]: "grows xs xs" and grows_append [simp]: "grows xs (xs @ ys)"
  by (simp_all add: grows_def)

lemma grows_trans: "grows xs ys \<Longrightarrow> grows ys zs \<Longrightarrow> grows xs zs"
  by (auto simp: grows_def)

lemma grows_butlast: "grows xs ys \<Longrightarrow> grows (butlast xs) ys"
  by (cases xs rule: rev_cases) (auto simp: grows_def)

lemma grows_map: "grows xs ys \<Longrightarrow> grows (map f xs) (map f ys)"
  by (auto simp: grows_def)

definition more_tape :: "('b, 'v) answer list \<Rightarrow> ('b, 'v) rt \<Rightarrow> ('b, 'v) rt" where
  "more_tape ys rt = rt\<lparr>tape := tape rt @ ys\<rparr>"

lemma more_tape_sel [simp]: "tape (more_tape ys rt) = tape rt @ ys" "log (more_tape ys rt) = log rt"
  by (simp_all add: more_tape_def)

lemma reads_grows: "reads m \<Longrightarrow> grows (log rt) (log (snd (m rt)))"
  using reads_halted [of m rt] by (auto simp: halted_def grows_def)

definition replays_at :: "('b, 'v, 'a) act \<Rightarrow> ('b, 'v) rt \<Rightarrow> bool" where
  "replays_at m rt \<longleftrightarrow> (\<forall>ys.
     (case m rt of
        (Stopped, rt') \<Rightarrow> grows (log rt) (butlast (log rt')) \<and>
          grows (map fst (log rt')) (map fst (log (snd (m (more_tape ys rt))))) \<and>
          grows (butlast (log rt')) (log (snd (m (more_tape ys rt))))
      | (r, rt') \<Rightarrow> m (more_tape ys rt) = (r, more_tape ys rt')))"

definition replays :: "('b, 'v, 'a) act \<Rightarrow> bool" where
  "replays m \<longleftrightarrow> reads m \<and> (\<forall>rt. replays_at m rt)"

lemma reads_bnd_first: "(\<And>x. reads (f x)) \<Longrightarrow> grows (log (snd (m rt))) (log (snd (bnd m f rt)))"
  using reads_grows by (auto simp: bnd_def split: out.splits prod.splits)

lemma replays_at_bnd:
  fixes m :: "('b, 'v, 'a) act" and f :: "'a \<Rightarrow> ('b, 'v, 'c) act"
  assumes "replays m" and "\<And>x rt'. m rt = (Ret x, rt') \<Longrightarrow> replays_at (f x) rt'" and "\<And>x. reads (f x)"
  shows "replays_at (bnd m f) rt"
  unfolding replays_at_def
proof (intro allI)
  fix ys :: "('b, 'v) answer list"
  obtain o1 r1 where m: "m rt = (o1, r1)" by (cases "m rt")
  have g: "grows (log rt) (log r1)" using reads_grows [of m rt] assms(1) m by (simp add: replays_def)
  note mm = assms(1) [unfolded replays_def replays_at_def, THEN conjunct2, THEN spec [of _ rt], THEN spec [of _ ys], unfolded m]
  show "case bnd m f rt of
      (Stopped, rt') \<Rightarrow> grows (log rt) (butlast (log rt')) \<and>
        grows (map fst (log rt')) (map fst (log (snd (bnd m f (more_tape ys rt))))) \<and>
        grows (butlast (log rt')) (log (snd (bnd m f (more_tape ys rt))))
    | (r, rt') \<Rightarrow> bnd m f (more_tape ys rt) = (r, more_tape ys rt')"
  proof (cases o1)
    case (Ret x)
    obtain o2 r2 where fx: "f x r1 = (o2, r2)" by (cases "f x r1")
    note ff = assms(2) [OF m [unfolded Ret], unfolded replays_at_def, THEN spec [of _ ys], unfolded fx]
    show ?thesis
      using m Ret g mm fx ff by (cases o2) (auto simp: bnd_def intro: grows_trans)
  next
    case Stopped
    have "grows (log (snd (m (more_tape ys rt)))) (log (snd (bnd m f (more_tape ys rt))))"
      by (rule reads_bnd_first) (rule assms(3))
    then show ?thesis
      using m Stopped mm by (auto simp: bnd_def intro: grows_trans grows_map)
  next
    case Panicked
    then show ?thesis using m mm by (auto simp: bnd_def)
  qed
qed

named_theorems replays_intro

lemma replays_ret [replays_intro]: "replays (ret x)"
  by (simp add: replays_def replays_at_def reads_ret) (simp add: ret_def)

lemma replays_panic [replays_intro]: "replays panic"
  by (simp add: replays_def replays_at_def reads_panic) (simp add: panic_def)

lemma replays_ask [replays_intro]: "replays (ask rq dec)"
  unfolding replays_def replays_at_def using reads_ask
  by (auto simp: ask_def more_tape_def grows_def butlast_append split: list.splits option.splits)

lemma replays_reads [replays_intro]: "replays m \<Longrightarrow> reads m"
  by (simp add: replays_def)

lemma replays_bnd [replays_intro]: "replays m \<Longrightarrow> (\<And>x. replays (f x)) \<Longrightarrow> replays (bnd m f)"
  unfolding replays_def [of "bnd m f"]
  by (auto intro!: reads_bnd replays_at_bnd simp: replays_def)

lemma replays_rt [replays_intro]:
  "replays (rt_begin ts)" "replays (rt_commit b inp)" "replays rt_infer" "replays (rt_tools cs)"
  "replays (rt_emit ev)" "replays (rt_job n tk)" "replays (rt_next bl)" "replays (rt_start s)"
  "replays (rt_cancel i)"
  by (simp_all add: rt_defs replays_ask)

section \<open>Loops over the journal\<close>

text \<open>
  A loop of the scheduler: each pass is a step that gives the next state or the loop's
  value, and takes an answer or shortens the state's own work list (\<open>work\<close>). Its
  interpretations are the pump, the turn's loop and the session's loop.
\<close>

locale journal_loop =
  fixes step :: "'s \<Rightarrow> ('b, 'v, 's + 'a) act"
    and run_loop :: "'s \<Rightarrow> ('b, 'v, 'a) act"
    and work :: "'s \<Rightarrow> nat"
  assumes unfold_loop: "run_loop s = bnd (step s) (case_sum run_loop ret)"
    and progress: "step s rt = (Ret (Inl s'), rt') \<Longrightarrow> work s' + length (tape rt') < work s + length (tape rt)"
    and step_replays: "replays (step s)"
begin

text \<open>The invariant rule: what each pass keeps, the loop ends with.\<close>

lemma loop_rule:
  assumes "I s rt"
    and "\<And>s rt. I s rt \<Longrightarrow> wp (step s) (\<lambda>r rt'. case r of Inl s' \<Rightarrow> I s' rt' | Inr x \<Rightarrow> Q x rt') S P rt"
  shows "wp (run_loop s) Q S P rt"
  using assms(1)
proof (induction "work s + length (tape rt)" arbitrary: s rt rule: less_induct)
  case less
  have "wp (bnd (step s) (case_sum run_loop ret)) Q S P rt"
    unfolding wp_bnd
  proof (subst wp_def, cases "step s rt")
    case (Pair o1 r1)
    note w = assms(2) [OF less.prems, unfolded wp_def Pair]
    show "case step s rt of (Ret x, rt') \<Rightarrow> wp (case x of Inl a \<Rightarrow> run_loop a | Inr b \<Rightarrow> ret b) Q S P rt'
        | (Stopped, rt') \<Rightarrow> S rt' | (Panicked, rt') \<Rightarrow> P rt'"
    proof (cases o1)
      case (Ret x)
      then show ?thesis
        using w Pair less.hyps [of _ r1] progress [of s rt _ r1] by (cases x) auto
    qed (use w Pair in auto)
  qed
  then show ?case by (simp add: unfold_loop [of s])
qed

lemma reads_loop: "reads (run_loop s)"
  unfolding reads_def
proof
  fix rt
  show "wp (run_loop s) (\<lambda>_. played rt) (halted rt) (halted rt) rt"
  proof (rule loop_rule [where I = "\<lambda>_. played rt"])
    fix s r assume r: "played rt r"
    show "wp (step s) (\<lambda>x r'. case x of Inl s' \<Rightarrow> played rt r' | Inr y \<Rightarrow> played rt r') (halted rt) (halted rt) r"
      using step_replays [of s, unfolded replays_def reads_def, THEN conjunct1, THEN spec [of _ r]]
      by (rule wp_mono) (auto intro: played_trans [OF r] halted_trans [OF r] split: sum.split)
  qed simp
qed

lemma replays_loop: "replays (run_loop s)"
proof -
  have "replays_at (run_loop s) rt" for rt
  proof (induction "work s + length (tape rt)" arbitrary: s rt rule: less_induct)
    case less
    have "replays_at (bnd (step s) (case_sum run_loop ret)) rt"
    proof (rule replays_at_bnd [OF step_replays])
      fix x rt' assume a: "step s rt = (Ret x, rt')"
      show "replays_at (case x of Inl s' \<Rightarrow> run_loop s' | Inr y \<Rightarrow> ret y) rt'"
        using less.hyps [of _ rt'] progress [of s rt _ rt'] a
        by (cases x) (auto simp: replays_ret [unfolded replays_def])
    qed (auto simp: reads_loop reads_ret split: sum.split)
    then show ?case by (simp add: unfold_loop [of s])
  qed
  then show ?thesis by (simp add: replays_def reads_loop)
qed

end

end
