(* ===== verification/Turn.thy ===== *)
theory Turn
  imports Journal
begin

text \<open>
  One turn of a session (session/orchestrator/turn.go): the scheduler's state, the wakes
  that come in while the turn runs, the open round with its calls and jobs, and the loop
  that drives the turn until it parks, finishes, fails or is suspended.
\<close>

section \<open>The scheduler's state\<close>

record job =
  jb_id :: string
  jb_name :: string
  jb_call :: string
  jb_ended :: bool
  jb_result :: job_result

datatype session_state = Running | Complete | Failed | Unknown

record ('b, 'v) state =
  t_id :: string
  t_specialist :: string
  t_worker :: string
  t_parent :: string
  t_mounts :: "mount_recipe list"
  t_task :: bool
  t_mcp :: "mcp_server list option"
  t_inbox :: "message list"
  t_next_mcp :: "mcp_server list option"
  t_state :: "(string, 'v) gomap option"
  t_round :: "'b round option"
  t_rev :: string
  t_result :: string
  t_terminal :: "session_state option"
  t_err :: "gerr option"
  t_yielded :: bool
  t_finished :: bool
  t_suspended :: bool
  t_jobs :: "job list"
  t_closed :: bool
  t_cancelled :: bool
  t_held :: "'v wake list"
  t_trace :: carrier
  t_span :: carrier

definition no_result :: job_result where
  "no_result = \<lparr>jr_output = [], jr_failed = False\<rparr>"

definition job_ids :: "('b, 'v) state \<Rightarrow> string list" where
  "job_ids t = map jb_id (t_jobs t)"

section \<open>Wakes that come in while the turn runs\<close>

definition job_message :: "job \<Rightarrow> job_result \<Rightarrow> message" where
  "job_message j res =
     (let verb = (if jr_failed res then ''failed'' else ''completed'')
      in text_message RoleUser
           (''Job '' @ jb_id j @ '' ('' @ jb_name j @ '') '' @ verb @ '':'' @ [CHR 0x0A] @ jr_output res))"

definition job_ended :: "job_end \<Rightarrow> ('b, 'v) state \<Rightarrow> ('b, 'v) state" where
  "job_ended e t =
     (case index_of (\<lambda>j. jb_id j = je_id e) (t_jobs t) of
        None \<Rightarrow> t
      | Some i \<Rightarrow>
          (let j = t_jobs t ! i in
           if jb_call j \<noteq> []
           then t\<lparr>t_jobs := (t_jobs t)[i := j\<lparr>jb_ended := True, jb_result := je_result e\<rparr>]\<rparr>
           else t\<lparr>t_inbox := t_inbox t @ [job_message j (je_result e)],
                  t_jobs := remove_nth i (t_jobs t)\<rparr>))"

definition queue_state :: "(string, 'v) gomap \<Rightarrow> ('b, 'v) state \<Rightarrow> ('b, 'v) state" where
  "queue_state m t =
     (if m = [] then t
      else t\<lparr>t_state := Some (map_copy (case t_state t of None \<Rightarrow> [] | Some s \<Rightarrow> s) m)\<rparr>)"

definition user_message :: "string \<Rightarrow> message option \<Rightarrow> message" where
  "user_message txt msg = (case msg of Some m \<Rightarrow> m | None \<Rightarrow> text_message RoleUser txt)"

definition steer :: "'v prompt \<Rightarrow> ('b, 'v) state \<Rightarrow> ('b, 'v) state" where
  "steer p t =
     (let t1 = t\<lparr>t_inbox := t_inbox t @ [user_message (pr_text p) (pr_user_message p)],
                 t_mounts := apply_auth (t_mounts t) (pr_auth p)\<rparr>;
          t2 = queue_state (pr_state p) t1
      in case pr_mcp p of Some ms \<Rightarrow> t2\<lparr>t_next_mcp := Some ms\<rparr> | None \<Rightarrow> t2)"

text \<open>What runner.handle does with a wake while a turn runs: the running side of each case.\<close>

fun handle_running :: "'v wake \<Rightarrow> ('b, 'v) state \<Rightarrow> ('b, 'v) state" where
  "handle_running (WakeJob e) t = job_ended e t"
| "handle_running WakeSuspend t = t\<lparr>t_suspended := True\<rparr>"
| "handle_running WakeCancel t = t\<lparr>t_cancelled := True\<rparr>"
| "handle_running (WakePrompt p tr) t = steer p t"
| "handle_running (WakeResume r tr) t = t\<lparr>t_held := t_held t @ [WakeResume r tr]\<rparr>"
| "handle_running WakeClose t = t\<lparr>t_held := t_held t @ [WakeClose]\<rparr>"
| "handle_running NoWake t = t"

text \<open>
  runner.pump: every wake the runtime has queued, with block first waiting for one. Each
  wake is one answer, so the loop ends with the tape.
\<close>

function pump :: "bool \<Rightarrow> ('b, 'v) state \<Rightarrow> ('b, 'v, ('b, 'v) state) act" where
  "pump block t rt =
     (case rt_next block rt of
        (Ret w, rt') \<Rightarrow>
          (if w = NoWake then (Ret t, rt') else pump False (handle_running w t) rt')
      | (Stopped, rt') \<Rightarrow> (Stopped, rt')
      | (Panicked, rt') \<Rightarrow> (Panicked, rt'))"
  by pat_completeness auto
termination
  by (relation "measure (\<lambda>(block, t, rt). length (tape rt))")
    (auto simp: rt_next_def ask_def split: list.splits option.splits prod.splits)

declare pump.simps [simp del]

section \<open>Jobs\<close>

fun cancel_each :: "job list \<Rightarrow> ('b, 'v, unit) act" where
  "cancel_each [] = ret ()"
| "cancel_each (j # js) =
     (if jb_ended j then cancel_each js else bnd (rt_cancel (jb_id j)) (\<lambda>_. cancel_each js))"

definition cancel_jobs :: "('b, 'v) state \<Rightarrow> ('b, 'v, ('b, 'v) state) act" where
  "cancel_jobs t = bnd (cancel_each (t_jobs t)) (\<lambda>_. ret (t\<lparr>t_jobs := []\<rparr>))"

fun cancel_asked :: "string list \<Rightarrow> ('b, 'v) state \<Rightarrow> ('b, 'v, ('b, 'v) state) act" where
  "cancel_asked [] t = ret t"
| "cancel_asked (i # is) t =
     (case index_of (\<lambda>j. jb_id j = i) (t_jobs t) of
        None \<Rightarrow> cancel_asked is t
      | Some k \<Rightarrow> bnd (rt_cancel (jb_id (t_jobs t ! k)))
          (\<lambda>_. cancel_asked is (t\<lparr>t_jobs := remove_nth k (t_jobs t)\<rparr>)))"

definition started_job :: "'b call \<Rightarrow> job_start \<Rightarrow> job" where
  "started_job c s =
     \<lparr>jb_id = js_id s, jb_name = js_name s, jb_call = (if js_id s = c_await c then call_key c else []),
      jb_ended = False, jb_result = no_result\<rparr>"

fun start_asked :: "'b call \<Rightarrow> job_start list \<Rightarrow> ('b, 'v) state \<Rightarrow>
  ('b, 'v, gerr option \<times> ('b, 'v) state) act" where
  "start_asked c [] t = ret (None, t)"
| "start_asked c (s # ss) t =
     (let t1 = t\<lparr>t_jobs := t_jobs t @ [started_job c s]\<rparr>
      in bnd (rt_start s)
           (\<lambda>e. case e of
                  Some err \<Rightarrow> ret (Some err, t1\<lparr>t_jobs := butlast (t_jobs t1)\<rparr>)
                | None \<Rightarrow> start_asked c ss t1))"

definition start_jobs :: "'b call \<Rightarrow> ('b, 'v) state \<Rightarrow> ('b, 'v, gerr option \<times> ('b, 'v) state) act" where
  "start_jobs c t = bnd (cancel_asked (c_cancels c) t) (\<lambda>t1. start_asked c (c_starts c) t1)"

section \<open>The calls of a round\<close>

text \<open>
  unknownAnswer: an answer to another id than the parked call's is an error, and names the first
  such id that Go visits. Go visits a map in any order: the list is one order of the visit, and
  what holds of every list holds of every order.
\<close>

fun unknown_answer :: "(string, string) gomap \<Rightarrow> string \<Rightarrow> gerr option" where
  "unknown_answer [] i = None"
| "unknown_answer ((k, v) # res) i =
     (if k \<noteq> i
      then Some (mk_err (''no tool call id found for interrupt '' @ k @ '': interrupt not found'') [InterruptNotFound])
      else unknown_answer res i)"

text \<open>The loop of State.runs; None is its early return of nil.\<close>

fun runs_loop :: "nat option \<Rightarrow> string option \<Rightarrow> nat \<Rightarrow> 'b call list \<Rightarrow> 'b call list option" where
  "runs_loop p ans i [] = Some []"
| "runs_loop p ans i (c # cs) =
     (if p = Some i then
        (case ans of None \<Rightarrow> None
         | Some a \<Rightarrow> map_option ((#) (c\<lparr>c_answer := Some a\<rparr>)) (runs_loop p ans (Suc i) cs))
      else if \<not> pending c then runs_loop p ans (Suc i) cs
      else map_option ((#) c) (runs_loop p ans (Suc i) cs))"

definition parked_id :: "'b round \<Rightarrow> string" where
  "parked_id r =
     (case parked_index r of None \<Rightarrow> []
      | Some i \<Rightarrow> (case c_park (rd_calls r ! i) of None \<Rightarrow> [] | Some pk \<Rightarrow> pk_interrupt_id pk))"

definition turn_runs :: "'b round \<Rightarrow> (string, string) gomap \<Rightarrow> gerr + 'b call list" where
  "turn_runs r resume =
     (case unknown_answer resume (parked_id r) of
        Some e \<Rightarrow> Inl e
      | None \<Rightarrow>
          (case runs_loop (parked_index r) (map_of resume (parked_id r)) 0 (rd_calls r) of
             None \<Rightarrow> Inr [] | Some runs \<Rightarrow> Inr runs))"

definition turn_waits :: "'b round \<Rightarrow> bool" where
  "turn_waits r \<longleftrightarrow> (\<exists>c \<in> set (rd_calls r). waits c)"

fun job_runs :: "'b call list \<Rightarrow> job list \<Rightarrow> 'b call list \<times> job list" where
  "job_runs [] js = ([], js)"
| "job_runs (c # cs) js =
     (case index_of (\<lambda>j. jb_ended j \<and> jb_call j = call_key c) js of
        None \<Rightarrow> job_runs cs js
      | Some k \<Rightarrow>
          (let (runs, js') = job_runs cs (remove_nth k js)
           in (c\<lparr>c_job_end := Some (jb_result (js ! k))\<rparr> # runs, js')))"

text \<open>
  State.record: each call the step ran goes back to its place in the round, in order, and
  its jobs start and stop. A call that parks while another is parked counts for nothing.
\<close>

fun record_calls :: "'b round \<Rightarrow> 'b call list \<Rightarrow> gerr list \<Rightarrow> ('b, 'v) state \<Rightarrow>
  ('b, 'v, 'b round \<times> gerr list \<times> ('b, 'v) state) act" where
  "record_calls r [] errs t = ret (r, errs, t)"
| "record_calls r (c # cs) errs t =
     (case c_err c of
        Some e \<Rightarrow> record_calls r cs (errs @ [e]) t
      | None \<Rightarrow>
          (case index_of (\<lambda>rc. call_key rc = call_key c) (rd_calls r) of
             None \<Rightarrow> panic
           | Some i \<Rightarrow>
               (if parked c \<and> parked_index r \<noteq> None \<and> parked_index r \<noteq> Some i
                then record_calls (r\<lparr>rd_calls := (rd_calls r)[i := new_call (c_tool c) (c_timeout c)]\<rparr>) cs errs t
                else bnd (start_jobs c t)
                  (\<lambda>(e, t1). record_calls (r\<lparr>rd_calls := (rd_calls r)[i := c]\<rparr>) cs
                       (case e of None \<Rightarrow> errs | Some err \<Rightarrow> errs @ [err]) t1))))"

section \<open>The turn\<close>

text \<open>The closure fail of State.drive; failing with a nil error dereferences it.\<close>

definition turn_fail :: "gerr \<Rightarrow> ('b, 'v) state \<Rightarrow> ('b, 'v, ('b, 'v) state) act" where
  "turn_fail err t =
     (let t1 = t\<lparr>t_err := Some err, t_terminal := Some Failed\<rparr> in
      bnd (if errors_is err Canceled
           then cancel_jobs (t1\<lparr>t_inbox := [], t_next_mcp := None\<rparr>) else ret t1)
        (\<lambda>t2. bnd (rt_emit (failure_event err)) (\<lambda>_. ret t2)))"

definition turn_stopped :: "bool \<Rightarrow> ('b, 'v) state \<Rightarrow> ('b, 'v, bool \<times> ('b, 'v) state) act" where
  "turn_stopped block t =
     bnd (pump block t)
       (\<lambda>t1. if t_cancelled t1
             then bnd (turn_fail err_canceled (t1\<lparr>t_cancelled := False\<rparr>)) (\<lambda>t2. ret (True, t2))
             else ret (t_suspended t1, t1))"

definition turn_commit :: "('b, 'v) commit_in \<Rightarrow> ('b, 'v) state \<Rightarrow>
  ('b, 'v, bool \<times> ('b, 'v) state) act" where
  "turn_commit inp t =
     bnd (rt_commit (t_rev t) (inp\<lparr>ci_state := t_state t\<rparr>))
       (\<lambda>r. case r of
              Inl e \<Rightarrow> bnd (turn_fail e t) (\<lambda>t1. ret (False, t1))
            | Inr rv \<Rightarrow> ret (True, t\<lparr>t_state := None, t_rev := rv\<rparr>))"

text \<open>One pass of the loop goes on with the loop's variables, or returns from drive.\<close>

datatype ('b, 'v) iter =
    Continue "('b, 'v) state" "(string, string) gomap" bool
  | Return "('b, 'v) state"

definition run_tools :: "'b round \<Rightarrow> 'b call list \<Rightarrow> bool \<Rightarrow> ('b, 'v) state \<Rightarrow>
  ('b, 'v, ('b, 'v) iter) act" where
  "run_tools r runs refit t =
     bnd (rt_tools (map (\<lambda>c. c\<lparr>c_jobs := job_ids t\<rparr>) runs))
       (\<lambda>cs. bnd (record_calls r cs [] t)
         (\<lambda>(r', errs, t1).
            case errors_join errs of
              Some e \<Rightarrow> bnd (turn_fail e (t1\<lparr>t_round := Some r'\<rparr>)) (\<lambda>t2. ret (Return t2))
            | None \<Rightarrow> ret (Continue (t1\<lparr>t_round := Some r'\<rparr>) [] refit)))"

definition iter_round :: "'b round \<Rightarrow> (string, string) gomap \<Rightarrow> bool \<Rightarrow> ('b, 'v) state \<Rightarrow>
  ('b, 'v, ('b, 'v) iter) act" where
  "iter_round r resume refit t =
     (if round_complete r then
        bnd (turn_commit (no_commit\<lparr>ci_round := Some r\<rparr>) t)
          (\<lambda>(ok, t1). if \<not> ok then ret (Return t1) else ret (Continue (t1\<lparr>t_round := None\<rparr>) resume refit))
      else
        (case turn_runs r resume of
           Inl e \<Rightarrow> bnd (turn_fail e t) (\<lambda>t1. ret (Return t1))
         | Inr runs \<Rightarrow>
             if runs = [] \<and> turn_waits r then
               (let (jruns, js) = job_runs (rd_calls r) (t_jobs t) in
                if jruns = [] then
                  bnd (turn_stopped True t)
                    (\<lambda>(st, t1). if st then ret (Return t1) else ret (Continue t1 [] refit))
                else run_tools r jruns refit (t\<lparr>t_jobs := js\<rparr>))
             else if runs = [] then
               (case parked_index r of
                  None \<Rightarrow> panic
                | Some i \<Rightarrow>
                    (case c_park (rd_calls r ! i) of
                       None \<Rightarrow> panic
                     | Some pk \<Rightarrow>
                         bnd (rt_emit ((new_event EventInterrupt)
                                \<lparr>ev_message_id := pk_interrupt_id pk, ev_data := pk_data pk\<rparr>))
                           (\<lambda>_. ret (Return (t\<lparr>t_yielded := True\<rparr>)))))
             else run_tools r runs refit t))"

text \<open>The loop's second half: no round is open, and the inbox is committed.\<close>

definition iter_infer :: "(string, string) gomap \<Rightarrow> bool \<Rightarrow> ('b, 'v) state \<Rightarrow>
  ('b, 'v, ('b, 'v) iter) act" where
  "iter_infer resume refit t =
     (if t_finished t then
        (if t_jobs t = [] then
           bnd (rt_emit (new_event EventComplete))
             (\<lambda>_. ret (Return (t\<lparr>t_terminal := Some Complete\<rparr>)))
         else
           bnd (turn_stopped True t)
             (\<lambda>(st, t1). if st then ret (Return t1) else ret (Continue t1 resume refit)))
      else
        bnd rt_infer
          (\<lambda>res. case res of
             Inl e \<Rightarrow>
               (if errors_is e ContextLength \<and> \<not> refit then
                  bnd (turn_commit (no_commit\<lparr>ci_collapse := True\<rparr>) t)
                    (\<lambda>(ok, t1). if \<not> ok then ret (Return t1) else ret (Continue t1 resume True))
                else bnd (turn_fail e t) (\<lambda>t1. ret (Return t1)))
           | Inr rp \<Rightarrow>
               (if rp_calls rp \<noteq> [] then ret (Continue (t\<lparr>t_round := Some (new_round rp)\<rparr>) resume False)
                else
                  bnd (turn_commit (no_commit\<lparr>ci_round := Some \<lparr>rd_reply = rp, rd_calls = []\<rparr>\<rparr>) t)
                    (\<lambda>(ok, t1). if \<not> ok then ret (Return t1)
                       else ret (Continue (t1\<lparr>t_result := rp_result rp, t_finished := True\<rparr>) resume False)))))"

definition iter_open :: "(string, string) gomap \<Rightarrow> bool \<Rightarrow> ('b, 'v) state \<Rightarrow>
  ('b, 'v, ('b, 'v) iter) act" where
  "iter_open resume refit t =
     bnd (turn_stopped False t)
       (\<lambda>(st, t1).
          if st then ret (Return t1)
          else if t_inbox t1 \<noteq> [] then
            bnd (turn_commit (no_commit\<lparr>ci_users := t_inbox t1\<rparr>) (t1\<lparr>t_inbox := []\<rparr>))
              (\<lambda>(ok, t2). if \<not> ok then ret (Return t2)
                 else iter_infer resume refit (t2\<lparr>t_finished := False\<rparr>))
          else iter_infer resume refit t1)"

definition turn_iter :: "('b, 'v) state \<Rightarrow> (string, string) gomap \<Rightarrow> bool \<Rightarrow>
  ('b, 'v, ('b, 'v) iter) act" where
  "turn_iter t resume refit =
     (case t_round t of Some r \<Rightarrow> iter_round r resume refit t | None \<Rightarrow> iter_open resume refit t)"

section \<open>The whole turn\<close>

definition start_turn :: "auth_context \<Rightarrow> (string, 'v) gomap \<Rightarrow> ('b, 'v) state \<Rightarrow> ('b, 'v) state" where
  "start_turn auth extra t =
     (let t1 = queue_state extra t in
      t1\<lparr>t_mounts := apply_auth (t_mounts t1) auth, t_terminal := None, t_err := None,
         t_yielded := False, t_result := [], t_finished := False, t_cancelled := False\<rparr>)"

section \<open>The parts read the journal\<close>

definition pump_step :: "bool \<times> ('b, 'v) state \<Rightarrow>
  ('b, 'v, (bool \<times> ('b, 'v) state) + ('b, 'v) state) act" where
  "pump_step = (\<lambda>(block, t). bnd (rt_next block)
     (\<lambda>w. ret (if w = NoWake then Inr t else Inl (False, handle_running w t))))"

interpretation pump_loop: journal_loop pump_step "\<lambda>(block, t). pump block t" "\<lambda>_. 0"
proof unfold_locales
  fix s :: "bool \<times> ('a, 'b) state"
  obtain block t where s: "s = (block, t)" by (cases s)
  show "(case s of (block, t) \<Rightarrow> pump block t) =
      bnd (pump_step s) (case_sum (\<lambda>(block, t). pump block t) ret)"
    by (rule ext, simp add: s, subst pump.simps)
      (auto simp: pump_step_def bnd_def ret_def split: prod.splits out.splits)
  show "replays (pump_step s)"
    by (auto simp: s pump_step_def intro!: reads_intro replays_intro)
  show "0 + length (tape rt') < 0 + length (tape rt)" if "pump_step s rt = (Ret (Inl s'), rt')" for rt s' rt'
  proof -
    have "eats (pump_step s)"
      by (auto simp: s pump_step_def intro!: eats_bnd_left reads_intro)
    then show ?thesis using that by (simp add: eats_def)
  qed
qed

lemma reads_pump [reads_intro]: "reads (pump block t)"
  using pump_loop.reads_loop [of "(block, t)"] by simp

lemma replays_pump [replays_intro]: "replays (pump block t)"
  using pump_loop.replays_loop [of "(block, t)"] by simp

lemma eats_pump [reads_intro]: "eats (pump block t)"
proof -
  have "pump block t = bnd (pump_step (block, t)) (case_sum (\<lambda>(block, t). pump block t) ret)"
    using pump_loop.unfold_loop [of "(block, t)"] by simp
  moreover have "eats (bnd (pump_step (block, t)) (case_sum (\<lambda>(block, t). pump block t) ret))"
    by (rule eats_bnd_left)
      (auto simp: pump_step_def intro!: eats_bnd_left reads_intro split: sum.split)
  ultimately show ?thesis by simp
qed

lemma reads_cancel_each [reads_intro]: "reads (cancel_each js)"
  by (induction js) (auto intro!: reads_intro)

lemma replays_cancel_each [replays_intro]: "replays (cancel_each js)"
  by (induction js) (auto intro!: replays_intro)

lemma reads_cancel_asked [reads_intro]: "reads (cancel_asked is t)"
  by (induction "is" arbitrary: t) (auto intro!: reads_intro split: option.split)

lemma replays_cancel_asked [replays_intro]: "replays (cancel_asked is t)"
  by (induction "is" arbitrary: t) (auto intro!: replays_intro split: option.split)

lemma reads_start_asked [reads_intro]: "reads (start_asked c ss t)"
  by (induction ss arbitrary: t) (auto intro!: reads_intro simp: Let_def split: option.split)

lemma replays_start_asked [replays_intro]: "replays (start_asked c ss t)"
  by (induction ss arbitrary: t) (auto intro!: replays_intro simp: Let_def split: option.split)

lemma reads_record_calls [reads_intro]: "reads (record_calls r cs errs t)"
  by (induction cs arbitrary: r errs t)
    (auto intro!: reads_intro simp: start_jobs_def split: option.split prod.split)

lemma replays_record_calls [replays_intro]: "replays (record_calls r cs errs t)"
  by (induction cs arbitrary: r errs t)
    (auto intro!: replays_intro simp: start_jobs_def split: option.split prod.split)

lemma turn_fail_journal [reads_intro]: "reads (turn_fail e t)" "eats (turn_fail e t)"
  and replays_turn_fail [replays_intro]: "replays (turn_fail e t)"
  unfolding turn_fail_def cancel_jobs_def Let_def
  by (auto intro!: reads_intro replays_intro eats_bnd_right eats_bnd_left [OF eats_rt(5)])

lemma turn_stopped_journal [reads_intro]: "reads (turn_stopped b t)" "eats (turn_stopped b t)"
  and replays_turn_stopped [replays_intro]: "replays (turn_stopped b t)"
  unfolding turn_stopped_def
  by (auto intro!: reads_intro replays_intro eats_bnd_left [OF eats_pump])

lemma turn_commit_journal [reads_intro]: "reads (turn_commit inp t)" "eats (turn_commit inp t)"
  and replays_turn_commit [replays_intro]: "replays (turn_commit inp t)"
  unfolding turn_commit_def
  by (auto intro!: reads_intro replays_intro eats_bnd_left [OF eats_rt(2)] split: sum.split)

lemma run_tools_journal [reads_intro]: "reads (run_tools r runs refit t)" "eats (run_tools r runs refit t)"
  and replays_run_tools [replays_intro]: "replays (run_tools r runs refit t)"
  unfolding run_tools_def
  by (auto intro!: reads_intro replays_intro eats_bnd_left [OF eats_rt(4)] split: option.split)

lemma iter_round_journal [reads_intro]: "reads (iter_round r resume refit t)" "eats (iter_round r resume refit t)"
  and replays_iter_round [replays_intro]: "replays (iter_round r resume refit t)"
  unfolding iter_round_def Let_def
  by (auto intro!: reads_intro replays_intro eats_bnd_left [OF turn_commit_journal(2)]
        eats_bnd_left [OF turn_fail_journal(2)] eats_bnd_left [OF turn_stopped_journal(2)]
        eats_bnd_left [OF eats_rt(5)] split: option.split sum.split prod.split)

lemma iter_infer_journal [reads_intro]: "reads (iter_infer resume refit t)"
  and replays_iter_infer [replays_intro]: "replays (iter_infer resume refit t)"
  unfolding iter_infer_def by (auto intro!: reads_intro replays_intro split: sum.split)

lemma turn_iter_journal [reads_intro]: "reads (turn_iter t resume refit)" "eats (turn_iter t resume refit)"
  and replays_turn_iter [replays_intro]: "replays (turn_iter t resume refit)"
  unfolding turn_iter_def iter_open_def
  by (auto intro!: reads_intro replays_intro eats_bnd_left [OF turn_stopped_journal(2)] split: option.split)

section \<open>The whole turn\<close>

text \<open>
  State.drive. The loop's passes each take an answer, so it ends with the tape. A prompt
  first commits, with the round a failed turn left open; answers to no open round fail the
  turn, with the error unknownAnswer gives.
\<close>

function turn_loop :: "('b, 'v) state \<Rightarrow> (string, string) gomap \<Rightarrow> bool \<Rightarrow>
  ('b, 'v, ('b, 'v) state) act" where
  "turn_loop t resume refit rt =
     (case turn_iter t resume refit rt of
        (Ret it, rt') \<Rightarrow>
          (case it of
             Continue t' resume' refit' \<Rightarrow> turn_loop t' resume' refit' rt'
           | Return t' \<Rightarrow> (Ret t', rt'))
      | (Stopped, rt') \<Rightarrow> (Stopped, rt')
      | (Panicked, rt') \<Rightarrow> (Panicked, rt'))"
  by pat_completeness auto
termination
  by (relation "measure (\<lambda>(t, resume, refit, rt). length (tape rt))", simp)
    (metis (mono_tags, lifting) eats_def in_measure old.prod.case turn_iter_journal(2))

declare turn_loop.simps [simp del]

definition drive_open :: "(string, string) gomap \<Rightarrow> ('b, 'v) state \<Rightarrow> ('b, 'v, ('b, 'v) state) act" where
  "drive_open resume t =
     (if t_round t = None \<and> resume \<noteq> [] then
        (case unknown_answer resume [] of None \<Rightarrow> panic | Some e \<Rightarrow> turn_fail e t)
      else turn_loop t resume False)"

definition turn_drive :: "message option \<Rightarrow> (string, string) gomap \<Rightarrow> ('b, 'v) state \<Rightarrow>
  ('b, 'v, ('b, 'v) state) act" where
  "turn_drive user resume t =
     (let (inp, t1) =
        (case user of
           None \<Rightarrow> (no_commit, t)
         | Some m \<Rightarrow> (no_commit\<lparr>ci_users := [m], ci_round := t_round t\<rparr>, t\<lparr>t_round := None\<rparr>))
      in if ci_round inp \<noteq> None \<or> ci_users inp \<noteq> [] \<or> t_state t1 \<noteq> None
         then bnd (turn_commit inp t1) (\<lambda>(ok, t2). if ok then drive_open resume t2 else ret t2)
         else drive_open resume t1)"

definition turn_step :: "('b, 'v) state \<times> (string, string) gomap \<times> bool \<Rightarrow>
  ('b, 'v, (('b, 'v) state \<times> (string, string) gomap \<times> bool) + ('b, 'v) state) act" where
  "turn_step = (\<lambda>(t, resume, refit). bnd (turn_iter t resume refit)
     (\<lambda>it. ret (case it of Continue t' resume' refit' \<Rightarrow> Inl (t', resume', refit') | Return t' \<Rightarrow> Inr t')))"

interpretation turn_loops: journal_loop turn_step "\<lambda>(t, resume, refit). turn_loop t resume refit" "\<lambda>_. 0"
proof unfold_locales
  fix s :: "('a, 'b) state \<times> (string, string) gomap \<times> bool"
  obtain t resume refit where s: "s = (t, resume, refit)" by (cases s)
  show "(case s of (t, resume, refit) \<Rightarrow> turn_loop t resume refit) =
      bnd (turn_step s) (case_sum (\<lambda>(t, resume, refit). turn_loop t resume refit) ret)"
    by (rule ext, simp add: s, subst turn_loop.simps)
      (auto simp: turn_step_def bnd_def ret_def split: prod.splits out.splits iter.splits)
  show "replays (turn_step s)"
    by (auto simp: s turn_step_def intro!: reads_intro replays_intro)
  show "0 + length (tape rt') < 0 + length (tape rt)" if "turn_step s rt = (Ret (Inl s'), rt')" for rt s' rt'
  proof -
    have "eats (turn_step s)"
      by (auto simp: s turn_step_def intro!: eats_bnd_left reads_intro)
    then show ?thesis using that by (simp add: eats_def)
  qed
qed

lemma turn_drive_journal [reads_intro]: "reads (turn_drive user resume t)"
  and replays_turn_drive [replays_intro]: "replays (turn_drive user resume t)"
proof -
  have l: "reads (turn_loop t r f)" "replays (turn_loop t r f)" for t :: "('a, 'b) state" and r f
    using turn_loops.reads_loop [of "(t, r, f)"] turn_loops.replays_loop [of "(t, r, f)"] by simp_all
  have o: "reads (drive_open resume t)" "replays (drive_open resume t)" for t :: "('a, 'b) state"
    by (auto simp: drive_open_def intro!: l reads_intro replays_intro split: option.split)
  show "reads (turn_drive user resume t)" "replays (turn_drive user resume t)"
    by (auto simp: turn_drive_def Let_def intro!: o reads_intro replays_intro split: option.split)
qed

end
