(* ===== verification/Turn_Loop.thy ===== *)
theory Turn_Loop
  imports Turn
begin

text \<open>
  The facts about the parts of a turn that every property of it shares: what the mailbox,
  the jobs and the recording of calls do to the state and to the log.
\<close>

section \<open>Requests that only move jobs, or only read the mailbox\<close>

fun neutral_request :: "('b, 'v) request \<Rightarrow> bool" where
  "neutral_request (RStart s) = True"
| "neutral_request (RCancel i) = True"
| "neutral_request _ = False"

definition quiet :: "('b, 'v) rt \<Rightarrow> ('b, 'v) rt \<Rightarrow> bool" where
  "quiet rt rt' \<longleftrightarrow> (\<exists>ext. log rt' = log rt @ ext \<and> (\<forall>e \<in> set ext. neutral_request (fst e)))"

lemma quiet_refl [simp, intro]: "quiet rt rt"
  by (simp add: quiet_def)

lemma quiet_trans [trans]: "quiet a b \<Longrightarrow> quiet b c \<Longrightarrow> quiet a c"
  unfolding quiet_def by fastforce

lemma quiet_step:
  "neutral_request rq \<Longrightarrow> quiet rt (rt\<lparr>tape := as, log := log rt @ [(rq, a)]\<rparr>)"
  by (auto simp: quiet_def)

lemma wp_quiet_ask:
  assumes "neutral_request rq" and "\<And>x rt'. quiet rt rt' \<Longrightarrow> Q x rt'"
    and "\<And>rt'. quiet rt rt' \<Longrightarrow> S rt'"
  shows "wp (ask rq dec) Q S P rt"
  using assms by (intro wp_ask) (auto intro!: assms(2,3) quiet_step)

text \<open>The wakes a log shows as read from the mailbox, in order.\<close>

fun wake_in :: "('b, 'v) request \<times> ('b, 'v) answer option \<Rightarrow> 'v wake list" where
  "wake_in (RNext b, Some (ANext w)) = (if w = NoWake then [] else [w])"
| "wake_in _ = []"

definition wakes_in :: "(('b, 'v) request \<times> ('b, 'v) answer option) list \<Rightarrow> 'v wake list" where
  "wakes_in es = concat (map wake_in es)"

lemma wakes_in_simps [simp]:
  "wakes_in [] = []" "wakes_in (xs @ ys) = wakes_in xs @ wakes_in ys" "wakes_in [e] = wake_in e"
  by (simp_all add: wakes_in_def)

lemma wakes_in_neutral: "\<forall>e \<in> set es. neutral_request (fst e) \<Longrightarrow> wakes_in es = []"
proof (induction es)
  case (Cons e es)
  then show ?case by (cases e; cases "fst e") (auto simp: wakes_in_def)
qed simp

lemma wakes_in_quiet: "quiet rt rt' \<Longrightarrow> wakes_in (log rt') = wakes_in (log rt)"
  by (auto simp: quiet_def wakes_in_neutral)

definition pumped :: "'v wake list \<Rightarrow> ('b, 'v) rt \<Rightarrow> ('b, 'v) rt \<Rightarrow> bool" where
  "pumped ws rt rt' \<longleftrightarrow>
     (\<exists>ext. log rt' = log rt @ ext \<and> (\<forall>e \<in> set ext. \<exists>b. fst e = RNext b) \<and> wakes_in ext = ws)"

lemma pumped_step:
  "pumped ws rt rt1 \<Longrightarrow> pumped (ws @ wake_in (RNext b, a)) rt (rt1\<lparr>tape := as, log := log rt1 @ [(RNext b, a)]\<rparr>)"
  by (auto simp: pumped_def)

section \<open>The mailbox\<close>

definition handle_all :: "'v wake list \<Rightarrow> ('b, 'v) state \<Rightarrow> ('b, 'v) state" where
  "handle_all ws t = foldl (\<lambda>s w. handle_running w s) t ws"

lemma handle_all_simps [simp]:
  "handle_all [] t = t" "handle_all (w # ws) t = handle_all ws (handle_running w t)"
  by (simp_all add: handle_all_def)

text \<open>A pump reads wakes until the mailbox is empty, handles them in order, and nothing else.\<close>

lemma wp_pump:
  fixes t :: "('b, 'v) state"
  assumes "\<And>ws rt'. pumped ws rt rt' \<Longrightarrow> Q (handle_all ws t) rt'"
    and "\<And>ws rt'. pumped ws rt rt' \<Longrightarrow> S rt'"
  shows "wp (pump block t) Q S P rt"
proof -
  define I :: "bool \<times> ('b, 'v) state \<Rightarrow> ('b, 'v) rt \<Rightarrow> bool" where
    "I = (\<lambda>s r. \<exists>ws. pumped ws rt r \<and> snd s = handle_all ws t)"
  have "wp ((\<lambda>(b, s). pump b s) (block, t)) Q S P rt"
  proof (rule pump_loop.loop_rule [where I = I])
    show "I (block, t) rt" by (auto simp: I_def pumped_def intro!: exI [of _ "[]"])
    fix s and r :: "('b, 'v) rt" assume "I s r"
    then obtain b t' ws where s: "s = (b, t')" and ws: "pumped ws rt r" "t' = handle_all ws t"
      by (cases s) (auto simp: I_def)
    have "wp (rt_next b) (\<lambda>w r'. (w = NoWake \<longrightarrow> Q t' r') \<and> (w \<noteq> NoWake \<longrightarrow> I (False, handle_running w t') r')) S P r"
      unfolding rt_next_def
    proof (rule wp_ask)
      fix a :: "('b, 'v) answer" and as w assume "as_next a = Some w"
      then have a: "a = ANext w" by (cases a) auto
      show "(w = NoWake \<longrightarrow> Q t' (r\<lparr>tape := as, log := log r @ [(RNext b, Some a)]\<rparr>)) \<and>
          (w \<noteq> NoWake \<longrightarrow> I (False, handle_running w t') (r\<lparr>tape := as, log := log r @ [(RNext b, Some a)]\<rparr>))"
        using pumped_step [OF ws(1), of b "Some a" as] assms(1) ws(2)
        by (auto simp: I_def a handle_all_def)
    next
      fix as
      show "S (r\<lparr>tape := as, log := log r @ [(RNext b, None)]\<rparr>)"
        using assms(2) pumped_step [OF ws(1), of b None as] by blast
    qed
    then show "wp (pump_step s) (\<lambda>x r'. case x of Inl s' \<Rightarrow> I s' r' | Inr y \<Rightarrow> Q y r') S P r"
      by (auto simp: pump_step_def s elim!: wp_mono)
  qed
  then show ?thesis by simp
qed

text \<open>What wakes leave alone while a turn runs.\<close>

lemma handle_running_frame [simp]:
  "t_round (handle_running w t) = t_round t" "t_rev (handle_running w t) = t_rev t"
  "t_finished (handle_running w t) = t_finished t" "t_terminal (handle_running w t) = t_terminal t"
  "t_yielded (handle_running w t) = t_yielded t" "t_err (handle_running w t) = t_err t"
  "t_result (handle_running w t) = t_result t" "t_closed (handle_running w t) = t_closed t"
  "t_id (handle_running w t) = t_id t" "t_task (handle_running w t) = t_task t"
  "t_worker (handle_running w t) = t_worker t" "t_mcp (handle_running w t) = t_mcp t"
  by (cases w; simp add: job_ended_def steer_def queue_state_def Let_def split: option.splits)+

lemma handle_all_frame [simp]:
  "t_round (handle_all ws t) = t_round t" "t_rev (handle_all ws t) = t_rev t"
  "t_finished (handle_all ws t) = t_finished t" "t_terminal (handle_all ws t) = t_terminal t"
  "t_yielded (handle_all ws t) = t_yielded t" "t_err (handle_all ws t) = t_err t"
  "t_result (handle_all ws t) = t_result t" "t_closed (handle_all ws t) = t_closed t"
  "t_id (handle_all ws t) = t_id t" "t_task (handle_all ws t) = t_task t"
  "t_worker (handle_all ws t) = t_worker t" "t_mcp (handle_all ws t) = t_mcp t"
  by (induction ws arbitrary: t; simp)+

fun is_held_kind :: "'v wake \<Rightarrow> bool" where
  "is_held_kind (WakeResume r tr) = True"
| "is_held_kind WakeClose = True"
| "is_held_kind _ = False"

lemma t_held_handle_running:
  "t_held (handle_running w t) = t_held t @ (if is_held_kind w then [w] else [])"
  by (cases w) (auto simp: job_ended_def steer_def queue_state_def Let_def split: option.splits)

lemma t_held_handle_all: "t_held (handle_all ws t) = t_held t @ filter is_held_kind ws"
  by (induction ws arbitrary: t) (auto simp: t_held_handle_running)

section \<open>Jobs\<close>

lemma wp_cancel_each:
  assumes "\<And>rt'. quiet rt rt' \<Longrightarrow> Q () rt'" and "\<And>rt'. quiet rt rt' \<Longrightarrow> S rt'"
  shows "wp (cancel_each js) Q S P rt"
  using assms
proof (induction js arbitrary: rt)
  case (Cons j js)
  show ?case
  proof (cases "jb_ended j")
    case True
    then show ?thesis using Cons by simp
  next
    case False
    have "wp (rt_cancel (jb_id j)) (\<lambda>_. wp (cancel_each js) Q S P) S P rt"
      unfolding rt_cancel_def
    proof (rule wp_quiet_ask)
      fix x :: unit and rt' assume q: "quiet rt rt'"
      show "wp (cancel_each js) Q S P rt'"
        by (rule Cons.IH) (use Cons.prems quiet_trans [OF q] in blast)+
    qed (use Cons.prems in auto)
    then show ?thesis using False by simp
  qed
qed simp

lemma wp_cancel_jobs:
  assumes "\<And>rt'. quiet rt rt' \<Longrightarrow> Q (t\<lparr>t_jobs := []\<rparr>) rt'" and "\<And>rt'. quiet rt rt' \<Longrightarrow> S rt'"
  shows "wp (cancel_jobs t) Q S P rt"
  unfolding cancel_jobs_def by (simp, rule wp_cancel_each) (simp_all add: assms)

lemma wp_cancel_asked:
  assumes "\<And>js rt'. quiet rt rt' \<Longrightarrow> Q (t\<lparr>t_jobs := js\<rparr>) rt'" and "\<And>rt'. quiet rt rt' \<Longrightarrow> S rt'"
  shows "wp (cancel_asked is t) Q S P rt"
  using assms
proof (induction "is" arbitrary: t rt)
  case Nil
  then show ?case using Nil(1) [of rt "t_jobs t"] by simp
next
  case (Cons i is')
  show ?case
  proof (cases "index_of (\<lambda>j. jb_id j = i) (t_jobs t)")
    case None
    then show ?thesis using Cons by simp
  next
    case (Some k)
    have "wp (rt_cancel (jb_id (t_jobs t ! k)))
            (\<lambda>_. wp (cancel_asked is' (t\<lparr>t_jobs := remove_nth k (t_jobs t)\<rparr>)) Q S P) S P rt"
      unfolding rt_cancel_def
    proof (rule wp_quiet_ask)
      fix x :: unit and rt' assume q: "quiet rt rt'"
      show "wp (cancel_asked is' (t\<lparr>t_jobs := remove_nth k (t_jobs t)\<rparr>)) Q S P rt'"
        by (rule Cons.IH) (use Cons.prems quiet_trans [OF q] in \<open>force+\<close>)
    qed (use Cons.prems in auto)
    then show ?thesis using Some by simp
  qed
qed

lemma wp_start_asked:
  assumes "\<And>e js rt'. quiet rt rt' \<Longrightarrow> Q (e, t\<lparr>t_jobs := js\<rparr>) rt'" and "\<And>rt'. quiet rt rt' \<Longrightarrow> S rt'"
  shows "wp (start_asked c ss t) Q S P rt"
  using assms
proof (induction ss arbitrary: t rt)
  case Nil
  then show ?case using Nil(1) [of rt None "t_jobs t"] by simp
next
  case (Cons s ss)
  have "wp (rt_start s) (\<lambda>e. wp (case e of
           Some err \<Rightarrow> ret (Some err, t)
         | None \<Rightarrow> start_asked c ss (t\<lparr>t_jobs := t_jobs t @ [started_job c s]\<rparr>)) Q S P) S P rt"
    unfolding rt_start_def
  proof (rule wp_quiet_ask)
    fix e rt' assume q: "quiet rt rt'"
    show "wp (case e of
           Some err \<Rightarrow> ret (Some err, t)
         | None \<Rightarrow> start_asked c ss (t\<lparr>t_jobs := t_jobs t @ [started_job c s]\<rparr>)) Q S P rt'"
    proof (cases e)
      case None
      have "wp (start_asked c ss (t\<lparr>t_jobs := t_jobs t @ [started_job c s]\<rparr>)) Q S P rt'"
        by (rule Cons.IH) (use Cons.prems quiet_trans [OF q] in \<open>force+\<close>)
      then show ?thesis using None by simp
    next
      case (Some err)
      then show ?thesis using Cons.prems(1) [OF q, of "Some err" "t_jobs t"] by simp
    qed
  qed (use Cons.prems in auto)
  then show ?case by (simp add: Let_def)
qed

lemma wp_start_jobs:
  assumes "\<And>e js rt'. quiet rt rt' \<Longrightarrow> Q (e, t\<lparr>t_jobs := js\<rparr>) rt'" and "\<And>rt'. quiet rt rt' \<Longrightarrow> S rt'"
  shows "wp (start_jobs c t) Q S P rt"
  unfolding start_jobs_def wp_bnd
proof (rule wp_cancel_asked)
  fix js rt' assume q: "quiet rt rt'"
  show "wp (start_asked c (c_starts c) (t\<lparr>t_jobs := js\<rparr>)) Q S P rt'"
    by (rule wp_start_asked) (use assms quiet_trans [OF q] in \<open>force+\<close>)
qed (use assms in auto)


section \<open>Recording what the calls did\<close>

text \<open>
  Each call goes back to its own place: the round keeps its keys and has at most one parked
  call. The code reads outside the round only when a returned call is none of the round's.
\<close>

lemma wp_record_calls:
  fixes r :: "'b round" and t :: "('b, 'v) state"
  assumes "\<And>r' errs' js rt'. quiet rt rt' \<Longrightarrow> round_keys r' = round_keys r \<Longrightarrow>
      rd_reply r' = rd_reply r \<Longrightarrow> (one_park r \<Longrightarrow> one_park r') \<Longrightarrow> Q (r', errs', t\<lparr>t_jobs := js\<rparr>) rt'"
    and "\<And>rt'. quiet rt rt' \<Longrightarrow> S rt'"
    and "\<And>rt'. quiet rt rt' \<Longrightarrow> \<not> call_key ` set cs \<subseteq> set (round_keys r) \<Longrightarrow> P rt'"
  shows "wp (record_calls r cs errs t) Q S P rt"
  using assms
proof (induction cs arbitrary: r errs t rt)
  case Nil
  then show ?case using Nil(1) [of rt r errs "t_jobs t"] by simp
next
  case (Cons c cs)
  show ?case
  proof (cases "c_err c")
    case (Some e)
    have "wp (record_calls r cs (errs @ [e]) t) Q S P rt"
      by (rule Cons.IH) (use Cons.prems in \<open>auto\<close>)
    then show ?thesis using Some by simp
  next
    case None
    note err = this
    show ?thesis
    proof (cases "index_of (\<lambda>rc. call_key rc = call_key c) (rd_calls r)")
      case None
      then have "call_key c \<notin> set (round_keys r)"
        by (auto simp: index_of_None_iff round_keys_def)
      then have "P rt" using Cons.prems(3) by auto
      then show ?thesis using err None by simp
    next
      case (Some i)
      then have i: "i < length (rd_calls r)" "call_key (rd_calls r ! i) = call_key c"
        using index_of_SomeD by fastforce+
      let ?dup = "parked c \<and> parked_index r \<noteq> None \<and> parked_index r \<noteq> Some i"
      let ?r0 = "r\<lparr>rd_calls := (rd_calls r)[i := new_call (c_tool c) (c_timeout c)]\<rparr>"
      let ?r1 = "r\<lparr>rd_calls := (rd_calls r)[i := c]\<rparr>"
      have k0: "round_keys ?r0 = round_keys r" "one_park r \<Longrightarrow> one_park ?r0"
        using i by (auto intro!: round_keys_update one_park_update simp: call_key_def)
      have k1: "round_keys ?r1 = round_keys r" "\<not> ?dup \<Longrightarrow> one_park r \<Longrightarrow> one_park ?r1"
        using i by (auto intro!: round_keys_update one_park_update)
      show ?thesis
      proof (cases ?dup)
        case True
        have "wp (record_calls ?r0 cs errs t) Q S P rt"
          by (rule Cons.IH) (use Cons.prems k0 in \<open>auto\<close>)
        then show ?thesis using err Some True by simp
      next
        case False
        have "wp (start_jobs c t)
            (\<lambda>(e, t1). wp (record_calls ?r1 cs (case e of None \<Rightarrow> errs | Some x \<Rightarrow> errs @ [x]) t1) Q S P) S P rt"
        proof (rule wp_start_jobs)
          fix e js rt' assume q: "quiet rt rt'"
          have "wp (record_calls ?r1 cs (case e of None \<Rightarrow> errs | Some x \<Rightarrow> errs @ [x]) (t\<lparr>t_jobs := js\<rparr>)) Q S P rt'"
          proof (rule Cons.IH)
            fix r' :: "'b round" and errs' :: "gerr list" and js' and rt'' :: "('b, 'v) rt"
            assume "quiet rt' rt''" "round_keys r' = round_keys ?r1" "rd_reply r' = rd_reply ?r1"
              "one_park ?r1 \<Longrightarrow> one_park r'"
            then show "Q (r', errs', t\<lparr>t_jobs := js, t_jobs := js'\<rparr>) rt''"
              using Cons.prems(1) [OF quiet_trans [OF q], of rt'' r' errs' js'] k1 False by simp
          qed (use Cons.prems quiet_trans [OF q] k1 in auto)
          then show "(\<lambda>(e, t1). wp (record_calls ?r1 cs (case e of None \<Rightarrow> errs | Some x \<Rightarrow> errs @ [x]) t1) Q S P)
              (e, t\<lparr>t_jobs := js\<rparr>) rt'" by simp
        qed (use Cons.prems in auto)
        moreover have "wp (\<lambda>rt. case x of (e, t1) \<Rightarrow> f e t1 rt) Q S P rt =
            (case x of (e, t1) \<Rightarrow> wp (f e t1) Q S P rt)" for x and f :: "gerr option \<Rightarrow> _ \<Rightarrow> _" and rt
          by (cases x) simp
        ultimately show ?thesis using err Some False by (auto simp: case_prod_unfold)
      qed
    qed
  qed
qed

end
