(* ===== verification/Turn_Frame.thy ===== *)
theory Turn_Frame
  imports Turn_Loop
begin

text \<open>
  What a whole turn (State.drive, session/orchestrator/turn.go) keeps of the scheduler's
  state: who the session is, its MCP servers, that it is open, and the wakes that wait for
  the turn's end, which it holds in the order the mailbox gave them.
\<close>

definition keeps :: "('b, 'v) state \<Rightarrow> (('b, 'v) request \<times> ('b, 'v) answer option) list \<Rightarrow>
  ('b, 'v) state \<Rightarrow> ('b, 'v) rt \<Rightarrow> bool" where
  "keeps t0 l0 t rt \<longleftrightarrow>
     (\<exists>ext. log rt = l0 @ ext \<and> t_held t = t_held t0 @ filter is_held_kind (wakes_in ext)) \<and>
     t_closed t = t_closed t0 \<and> t_id t = t_id t0 \<and> t_worker t = t_worker t0 \<and>
     t_task t = t_task t0 \<and> t_mcp t = t_mcp t0"

lemma keeps_refl: "keeps t (log rt) t rt"
  by (simp add: keeps_def)

text \<open>What the scheduler changes otherwise is not kept, nor does it matter here.\<close>

lemma keeps_upd [simp]:
  "keeps t0 l0 (t\<lparr>t_jobs := v_jobs\<rparr>) rt = keeps t0 l0 t rt"
  "keeps t0 l0 (t\<lparr>t_round := v_round\<rparr>) rt = keeps t0 l0 t rt"
  "keeps t0 l0 (t\<lparr>t_rev := v_rev\<rparr>) rt = keeps t0 l0 t rt"
  "keeps t0 l0 (t\<lparr>t_state := v_state\<rparr>) rt = keeps t0 l0 t rt"
  "keeps t0 l0 (t\<lparr>t_inbox := v_inbox\<rparr>) rt = keeps t0 l0 t rt"
  "keeps t0 l0 (t\<lparr>t_next_mcp := v_next_mcp\<rparr>) rt = keeps t0 l0 t rt"
  "keeps t0 l0 (t\<lparr>t_terminal := v_terminal\<rparr>) rt = keeps t0 l0 t rt"
  "keeps t0 l0 (t\<lparr>t_err := v_err\<rparr>) rt = keeps t0 l0 t rt"
  "keeps t0 l0 (t\<lparr>t_yielded := v_yielded\<rparr>) rt = keeps t0 l0 t rt"
  "keeps t0 l0 (t\<lparr>t_finished := v_finished\<rparr>) rt = keeps t0 l0 t rt"
  "keeps t0 l0 (t\<lparr>t_suspended := v_suspended\<rparr>) rt = keeps t0 l0 t rt"
  "keeps t0 l0 (t\<lparr>t_cancelled := v_cancelled\<rparr>) rt = keeps t0 l0 t rt"
  "keeps t0 l0 (t\<lparr>t_result := v_result\<rparr>) rt = keeps t0 l0 t rt"
  "keeps t0 l0 (t\<lparr>t_span := v_span\<rparr>) rt = keeps t0 l0 t rt"
  "keeps t0 l0 (t\<lparr>t_trace := v_trace\<rparr>) rt = keeps t0 l0 t rt"
  "keeps t0 l0 (t\<lparr>t_mounts := v_mounts\<rparr>) rt = keeps t0 l0 t rt"
  by (simp_all add: keeps_def)

lemma keeps_log: "keeps t0 l0 t rt \<Longrightarrow> log rt' = log rt @ ext \<Longrightarrow> wakes_in ext = [] \<Longrightarrow> keeps t0 l0 t rt'"
  by (auto simp: keeps_def)

lemma keeps_quiet: "keeps t0 l0 t rt \<Longrightarrow> quiet rt rt' \<Longrightarrow> keeps t0 l0 t rt'"
  unfolding quiet_def using keeps_log wakes_in_neutral by blast

lemma keeps_pumped:
  assumes "keeps t0 l0 t rt" and "pumped ws rt rt'"
  shows "keeps t0 l0 (handle_all ws t) rt'"
proof -
  obtain e1 where "log rt = l0 @ e1" "t_held t = t_held t0 @ filter is_held_kind (wakes_in e1)"
    using assms(1) by (auto simp: keeps_def)
  moreover obtain e2 where "log rt' = log rt @ e2" "wakes_in e2 = ws"
    using assms(2) by (auto simp: pumped_def)
  ultimately show ?thesis
    using assms(1) by (auto simp: keeps_def t_held_handle_all intro!: exI [of _ "e1 @ e2"])
qed

text \<open>The wakes are read by the pump alone, so every other request keeps the state's wakes.\<close>

fun reads_mail :: "('b, 'v) request \<Rightarrow> bool" where
  "reads_mail (RNext b) = True"
| "reads_mail _ = False"

lemma wake_in_other: "\<not> reads_mail rq \<Longrightarrow> wake_in (rq, a) = []"
  by (cases rq) auto

abbreviation any :: "('b, 'v) rt \<Rightarrow> bool" where
  "any \<equiv> \<lambda>_. True"

lemma wp_any: "(\<And>x rt'. Q x rt') \<Longrightarrow> wp m Q any any rt"
  by (auto simp: wp_def split: prod.splits out.splits)

lemma wp_keeps_ask:
  assumes "keeps t0 l0 t rt" and "\<not> reads_mail rq" and "\<And>x rt'. keeps t0 l0 t rt' \<Longrightarrow> Q x rt'"
  shows "wp (ask rq dec) Q any any rt"
  by (rule wp_ask) (auto intro!: assms(3) keeps_log [OF assms(1)] simp: wake_in_other [OF assms(2)])

lemma keeps_fail:
  assumes k: "keeps t0 l0 t rt" and Q: "\<And>t' rt'. keeps t0 l0 t' rt' \<Longrightarrow> Q t' rt'"
  shows "wp (turn_fail e t) Q any any rt"
proof -
  have emit: "wp (rt_emit (failure_event e)) (\<lambda>_. Q t') any any r" if "keeps t0 l0 t' r" for t' r
    unfolding rt_emit_def by (rule wp_keeps_ask [OF that]) (simp_all add: Q)
  show ?thesis
    unfolding turn_fail_def Let_def
    by (auto intro!: wp_cancel_jobs emit k keeps_quiet [OF k])
qed

lemma keeps_stopped:
  assumes k: "keeps t0 l0 t rt" and Q: "\<And>b t' rt'. keeps t0 l0 t' rt' \<Longrightarrow> Q (b, t') rt'"
  shows "wp (turn_stopped b t) Q any any rt"
  unfolding turn_stopped_def wp_bnd
proof (rule wp_pump)
  fix ws rt' assume p: "pumped ws rt rt'"
  show "wp (if t_cancelled (handle_all ws t)
      then bnd (turn_fail err_canceled (handle_all ws t\<lparr>t_cancelled := False\<rparr>)) (\<lambda>t2. ret (True, t2))
      else ret (t_suspended (handle_all ws t), handle_all ws t)) Q any any rt'"
    by (auto intro!: keeps_fail keeps_pumped [OF k p] Q)
qed simp

lemma keeps_commit:
  assumes k: "keeps t0 l0 t rt" and Q: "\<And>b t' rt'. keeps t0 l0 t' rt' \<Longrightarrow> Q (b, t') rt'"
  shows "wp (turn_commit inp t) Q any any rt"
  unfolding turn_commit_def rt_commit_def wp_bnd
  by (rule wp_keeps_ask [OF k])
    (auto intro!: keeps_fail Q split: sum.split)

definition it_state :: "('b, 'v) iter \<Rightarrow> ('b, 'v) state" where
  "it_state it = (case it of Continue t r f \<Rightarrow> t | Return t \<Rightarrow> t)"

lemma it_state_simps [simp]: "it_state (Continue t r f) = t" "it_state (Return t) = t"
  by (simp_all add: it_state_def)

abbreviation keeps_iter :: "('b, 'v) state \<Rightarrow> (('b, 'v) request \<times> ('b, 'v) answer option) list \<Rightarrow>
  ('b, 'v) iter \<Rightarrow> ('b, 'v) rt \<Rightarrow> bool" where
  "keeps_iter t0 l0 it rt \<equiv> keeps t0 l0 (it_state it) rt"

lemma keeps_run_tools:
  fixes t :: "('b, 'v) state"
  assumes k: "keeps t0 l0 t rt"
  shows "wp (run_tools r runs refit t) (keeps_iter t0 l0) any any rt"
proof -
  have rec: "wp (record_calls r cs [] t) (\<lambda>x. wp (case x of (r', errs, t1) \<Rightarrow>
        (case errors_join errs of
           Some e \<Rightarrow> bnd (turn_fail e (t1\<lparr>t_round := Some r'\<rparr>)) (\<lambda>t2. ret (Return t2))
         | None \<Rightarrow> ret (Continue (t1\<lparr>t_round := Some r'\<rparr>) [] refit))) (keeps_iter t0 l0) any any) any any r1"
    if "keeps t0 l0 t r1" for cs r1
    by (rule wp_record_calls)
      (auto intro!: keeps_fail keeps_quiet [OF that] split: option.split)
  show ?thesis
    unfolding run_tools_def rt_tools_def wp_bnd
    by (rule wp_keeps_ask [OF k]) (auto intro: rec)
qed

lemma keeps_iter_round:
  assumes k: "keeps t0 l0 t rt"
  shows "wp (iter_round r resume refit t) (keeps_iter t0 l0) any any rt"
proof -
  have emit: "wp (rt_emit ev) (\<lambda>_. keeps t0 l0 t) any any rt" for ev
    unfolding rt_emit_def by (rule wp_keeps_ask [OF k]) simp_all
  have tools: "wp (run_tools r runs refit (t\<lparr>t_jobs := js\<rparr>)) (keeps_iter t0 l0) any any rt" for runs js
    by (rule keeps_run_tools) (simp add: k)
  show ?thesis
    unfolding iter_round_def Let_def
    by (auto intro!: keeps_commit [OF k] keeps_fail [OF k] keeps_stopped [OF k] keeps_run_tools [OF k] tools
        emit split: sum.split option.split prod.split)
qed

lemma keeps_iter_infer:
  assumes k: "keeps t0 l0 t rt"
  shows "wp (iter_infer resume refit t) (keeps_iter t0 l0) any any rt"
proof -
  have emit: "wp (rt_emit ev) (\<lambda>_. keeps t0 l0 t) any any rt" for ev
    unfolding rt_emit_def by (rule wp_keeps_ask [OF k]) simp_all
  have infer: "wp rt_infer Q any any rt" if "\<And>x rt'. keeps t0 l0 t rt' \<Longrightarrow> Q x rt'" for Q
    unfolding rt_infer_def by (rule wp_keeps_ask [OF k]) (simp_all add: that)
  show ?thesis
    unfolding iter_infer_def
    by (auto intro!: emit infer keeps_commit keeps_fail keeps_stopped [OF k]
        split: sum.split)
qed

lemma keeps_turn_iter:
  assumes k: "keeps t0 l0 t rt"
  shows "wp (turn_iter t resume refit) (keeps_iter t0 l0) any any rt"
  unfolding turn_iter_def iter_open_def
  by (auto intro!: keeps_iter_round [OF k] keeps_stopped [OF k] keeps_commit keeps_iter_infer
      split: option.split)

lemma keeps_turn_loop:
  fixes t :: "('a, 'b) state"
  assumes "keeps t0 l0 t rt"
  shows "wp (turn_loop t resume refit) (keeps t0 l0) any any rt"
proof -
  have "wp ((\<lambda>(t, resume, refit). turn_loop t resume refit) (t, resume, refit)) (keeps t0 l0) any any rt"
  proof (rule turn_loops.loop_rule [where I = "\<lambda>s. keeps t0 l0 (fst s)"])
    show "keeps t0 l0 (fst (t, resume, refit)) rt" using assms by simp
    fix s :: "('a, 'b) state \<times> (string, string) gomap \<times> bool" and rt assume "keeps t0 l0 (fst s) rt"
    then have "wp (turn_iter (fst s) (fst (snd s)) (snd (snd s))) (keeps_iter t0 l0) any any rt"
      by (rule keeps_turn_iter)
    then show "wp (turn_step s) (\<lambda>r rt'. case r of Inl s' \<Rightarrow> keeps t0 l0 (fst s') rt' | Inr t' \<Rightarrow> keeps t0 l0 t' rt')
        any any rt"
      by (cases s) (auto simp: turn_step_def elim!: wp_mono split: iter.splits)
  qed
  then show ?thesis by simp
qed

lemma keeps_turn_drive:
  fixes t :: "('a, 'b) state"
  assumes k: "keeps t0 l0 t rt"
  shows "wp (turn_drive user resume t) (keeps t0 l0) any any rt"
proof -
  have o: "wp (drive_open resume t') (keeps t0 l0) any any r" if "keeps t0 l0 t' r" for t' :: "('a, 'b) state" and r
    unfolding drive_open_def
    by (auto intro!: keeps_turn_loop [OF that] keeps_fail [OF that] split: option.split)
  show ?thesis
    unfolding turn_drive_def
    by (cases user) (auto intro!: o keeps_commit k)
qed

end
