(* ===== verification/Protocol.thy ===== *)
theory Protocol
  imports Turn_Loop
begin

text \<open>
  What one turn may ask of its runtime, and in which order: an automaton over the turn's
  log, and the proof that State.drive (session/orchestrator/turn.go) only makes requests it
  accepts. It is the scheduler's abstract specification: commits chain their revisions, a
  round commits only whole, the model is asked only between rounds, a collapse answers a
  refusal for length once, and the turn ends with one event.
\<close>

section \<open>The automaton\<close>

datatype ask_phase = Fresh | Refused | Collapsed | Final reply

record proto =
  pt_rev :: string
  pt_open :: "(reply \<times> string list) option"
  pt_phase :: ask_phase
  pt_first :: bool
  pt_failing :: bool
  pt_end :: "event_type option"

definition round_sig :: "'b round \<Rightarrow> reply \<times> string list" where
  "round_sig r = (rd_reply r, round_keys r)"

text \<open>The commits the automaton takes, and what one that succeeds leaves.\<close>

definition proto_commit :: "proto \<Rightarrow> ('b, 'v) commit_in \<Rightarrow> proto option" where
  "proto_commit p inp =
     (let q = p\<lparr>pt_first := False\<rparr> in
      if ci_collapse inp then
        (if pt_phase p = Refused \<and> pt_open p = None \<and> ci_round inp = None \<and> ci_users inp = []
         then Some (q\<lparr>pt_phase := Collapsed\<rparr>) else None)
      else
        (case ci_round inp of
           None \<Rightarrow>
             if pt_first p \<or> pt_open p = None \<and> ci_users inp \<noteq> [] \<and> pt_phase p \<in> {Fresh, Collapsed}
             then Some q else None
         | Some r \<Rightarrow>
             if ci_users inp \<noteq> [] then
               (if pt_first p \<and> pt_open p = Some (round_sig r) then Some (q\<lparr>pt_open := None\<rparr>) else None)
             else if rd_calls r = [] \<and> pt_open p = None then
               (if pt_phase p = Final (rd_reply r) then Some (q\<lparr>pt_phase := Fresh\<rparr>) else None)
             else if round_complete r \<and> pt_open p = Some (round_sig r) then Some (q\<lparr>pt_open := None\<rparr>)
             else None))"

lemma proto_commit_state: "proto_commit p (inp\<lparr>ci_state := s\<rparr>) = proto_commit p inp"
  by (cases "ci_round inp") (simp_all add: proto_commit_def Let_def)

definition proto_infer :: "proto \<Rightarrow> (gerr + reply) \<Rightarrow> proto" where
  "proto_infer p res =
     (case res of
        Inl e \<Rightarrow>
          if pt_phase p = Fresh \<and> errors_is e ContextLength then p\<lparr>pt_phase := Refused\<rparr>
          else p\<lparr>pt_failing := True\<rparr>
      | Inr rp \<Rightarrow>
          if rp_calls rp = [] then p\<lparr>pt_phase := Final rp\<rparr>
          else p\<lparr>pt_phase := Fresh, pt_open := Some (rp, map tool_call_key (rp_calls rp))\<rparr>)"

fun proto_step :: "proto \<Rightarrow> ('b, 'v) request \<times> ('b, 'v) answer option \<Rightarrow> proto option" where
  "proto_step p (RNext b, a) = (if pt_end p = None then Some p else None)"
| "proto_step p (RStart s, a) = (if pt_end p = None then Some p else None)"
| "proto_step p (RCancel i, a) = (if pt_end p = None then Some p else None)"
| "proto_step p (RInfer, a) =
     (if pt_end p = None \<and> \<not> pt_failing p \<and> pt_open p = None \<and> pt_phase p \<in> {Fresh, Collapsed}
      then Some (case a of Some (AInfer res) \<Rightarrow> proto_infer (p\<lparr>pt_first := False\<rparr>) res | _ \<Rightarrow> p\<lparr>pt_failing := True\<rparr>)
      else None)"
| "proto_step p (RTools cs, a) =
     (if pt_end p = None \<and> \<not> pt_failing p \<and> cs \<noteq> [] \<and>
         (case pt_open p of None \<Rightarrow> False | Some (rp, ks) \<Rightarrow> call_key ` set cs \<subseteq> set ks)
      then Some (p\<lparr>pt_first := False\<rparr>) else None)"
| "proto_step p (RCommit base inp, a) =
     (if pt_end p = None \<and> \<not> pt_failing p \<and> base = pt_rev p then
        (case proto_commit p inp of
           None \<Rightarrow> None
         | Some q \<Rightarrow>
             Some (case a of
                     Some (ACommit (Inr rv)) \<Rightarrow> q\<lparr>pt_rev := rv\<rparr>
                   | _ \<Rightarrow> p\<lparr>pt_failing := True\<rparr>))
      else None)"
| "proto_step p (REmit ev, a) =
     (if pt_end p = None \<and>
         (ev_type ev = EventError
          \<or> ev_type ev = EventInterrupt \<and> \<not> pt_failing p \<and> pt_open p \<noteq> None
          \<or> ev_type ev = EventComplete \<and> \<not> pt_failing p \<and> pt_open p = None \<and> pt_phase p \<in> {Fresh, Collapsed})
      then Some (p\<lparr>pt_end := Some (ev_type ev)\<rparr>) else None)"
| "proto_step p (RBegin ts, a) = None"
| "proto_step p (RJob n task, a) = None"

fun proto_run :: "proto \<Rightarrow> (('b, 'v) request \<times> ('b, 'v) answer option) list \<Rightarrow> proto option" where
  "proto_run p [] = Some p"
| "proto_run p (e # es) = (case proto_step p e of None \<Rightarrow> None | Some q \<Rightarrow> proto_run q es)"

lemma proto_run_append:
  "proto_run p (xs @ ys) = (case proto_run p xs of None \<Rightarrow> None | Some q \<Rightarrow> proto_run q ys)"
  by (induction xs arbitrary: p) (auto split: option.split)

lemma proto_run_neutral:
  "pt_end p = None \<Longrightarrow> \<forall>e \<in> set es. neutral_request (fst e) \<Longrightarrow> proto_run p es = Some p"
proof (induction es)
  case (Cons e es)
  then show ?case by (cases e; cases "fst e") auto
qed simp

lemma proto_run_next:
  "pt_end p = None \<Longrightarrow> \<forall>e \<in> set es. \<exists>b. fst e = RNext b \<Longrightarrow> proto_run p es = Some p"
  by (induction es) auto

section \<open>Accepted logs\<close>

text \<open>\<open>accepted\<close>: from the log l0 and the automaton's state p0, the log leads to p.\<close>

definition accepted :: "proto \<Rightarrow> (('b, 'v) request \<times> ('b, 'v) answer option) list \<Rightarrow> proto \<Rightarrow>
  ('b, 'v) rt \<Rightarrow> bool" where
  "accepted p0 l0 p rt \<longleftrightarrow> (\<exists>ext. log rt = l0 @ ext \<and> proto_run p0 ext = Some p)"

definition okay :: "proto \<Rightarrow> (('b, 'v) request \<times> ('b, 'v) answer option) list \<Rightarrow> ('b, 'v) rt \<Rightarrow> bool" where
  "okay p0 l0 rt \<longleftrightarrow> (\<exists>p. accepted p0 l0 p rt)"

lemma accepted_okay: "accepted p0 l0 p rt \<Longrightarrow> okay p0 l0 rt"
  by (auto simp: okay_def)

lemma accepted_quiet: "accepted p0 l0 p rt \<Longrightarrow> pt_end p = None \<Longrightarrow> quiet rt rt' \<Longrightarrow> accepted p0 l0 p rt'"
  by (auto simp: accepted_def quiet_def proto_run_append proto_run_neutral)

lemma okay_quiet: "accepted p0 l0 p rt \<Longrightarrow> pt_end p = None \<Longrightarrow> quiet rt rt' \<Longrightarrow> okay p0 l0 rt'"
  by (blast intro: accepted_okay accepted_quiet)

lemma accepted_pumped: "accepted p0 l0 p rt \<Longrightarrow> pt_end p = None \<Longrightarrow> pumped ws rt rt' \<Longrightarrow> accepted p0 l0 p rt'"
  by (auto simp: accepted_def pumped_def proto_run_append proto_run_next)

lemma accepted_step:
  "accepted p0 l0 p rt \<Longrightarrow> proto_step p (rq, a) = Some p' \<Longrightarrow>
   accepted p0 l0 p' (rt\<lparr>tape := as, log := log rt @ [(rq, a)]\<rparr>)"
  by (auto simp: accepted_def proto_run_append)

lemma wp_ask_accepted:
  assumes "accepted p0 l0 p rt"
    and "\<And>a x. dec a = Some x \<Longrightarrow>
      \<exists>p'. proto_step p (rq, Some a) = Some p' \<and> (\<forall>rt'. accepted p0 l0 p' rt' \<longrightarrow> Q x rt')"
    and "\<exists>p'. proto_step p (rq, None) = Some p'"
    and "\<And>rt'. okay p0 l0 rt' \<Longrightarrow> S rt'"
  shows "wp (ask rq dec) Q S P rt"
proof (rule wp_ask)
  fix a as x assume "dec a = Some x"
  then show "Q x (rt\<lparr>tape := as, log := log rt @ [(rq, Some a)]\<rparr>)"
    using assms(2) [of a x] accepted_step [OF assms(1)] by blast
next
  fix as
  show "S (rt\<lparr>tape := as, log := log rt @ [(rq, None)]\<rparr>)"
    using assms(3,4) accepted_step [OF assms(1)] by (blast intro: accepted_okay)
qed

section \<open>The turn only makes requests the automaton takes\<close>

text \<open>\<open>tracks\<close>: the automaton's state is the loop's; \<open>ended\<close>: the turn's end is the event it emitted.\<close>

definition tracks :: "proto \<Rightarrow> ('b, 'v) state \<Rightarrow> bool \<Rightarrow> bool" where
  "tracks p t refit \<longleftrightarrow>
     pt_rev p = t_rev t \<and> pt_open p = map_option round_sig (t_round t) \<and>
     pt_phase p = (if refit then Collapsed else Fresh) \<and> \<not> pt_failing p \<and> pt_end p = None \<and>
     t_terminal t = None \<and> \<not> t_yielded t"

definition ended :: "proto \<Rightarrow> ('b, 'v) state \<Rightarrow> bool" where
  "ended p t \<longleftrightarrow> pt_rev p = t_rev t \<and>
     (case pt_end p of
        None \<Rightarrow> t_suspended t \<and> t_terminal t = None \<and> \<not> t_yielded t
      | Some ty \<Rightarrow>
          ty = EventInterrupt \<and> t_yielded t \<and> t_terminal t = None \<and> t_round t \<noteq> None
          \<or> ty = EventComplete \<and> t_terminal t = Some Complete \<and> \<not> t_yielded t \<and> t_jobs t = [] \<and> t_inbox t = [] \<and> t_round t = None
          \<or> ty = EventError \<and> t_terminal t = Some Failed \<and> \<not> t_yielded t \<and> t_err t \<noteq> None)"

definition ends :: "proto \<Rightarrow> (('b, 'v) request \<times> ('b, 'v) answer option) list \<Rightarrow> ('b, 'v) state \<Rightarrow>
  ('b, 'v) rt \<Rightarrow> bool" where
  "ends p0 l0 t rt \<longleftrightarrow> (\<exists>p. accepted p0 l0 p rt \<and> ended p t)"

lemma endsI: "accepted p0 l0 p rt \<Longrightarrow> ended p t \<Longrightarrow> ends p0 l0 t rt"
  by (auto simp: ends_def)

text \<open>A pass either goes on with the automaton tracking it, or ends the turn.\<close>

definition iter_ok :: "proto \<Rightarrow> (('b, 'v) request \<times> ('b, 'v) answer option) list \<Rightarrow> ('b, 'v) iter \<Rightarrow>
  ('b, 'v) rt \<Rightarrow> bool" where
  "iter_ok p0 l0 it rt \<longleftrightarrow>
     (case it of
        Continue t resume refit \<Rightarrow> \<exists>p. accepted p0 l0 p rt \<and> tracks p t refit
      | Return t \<Rightarrow> ends p0 l0 t rt)"

lemma iter_ok_Continue: "accepted p0 l0 p rt \<Longrightarrow> tracks p t refit \<Longrightarrow> iter_ok p0 l0 (Continue t resume refit) rt"
  by (auto simp: iter_ok_def)

lemma iter_ok_Return: "ends p0 l0 t rt \<Longrightarrow> iter_ok p0 l0 (Return t) rt"
  by (simp add: iter_ok_def)

lemmas iter_ok_intros = iter_ok_Continue iter_ok_Return endsI

abbreviation protocol :: "proto \<Rightarrow> (('b, 'v) request \<times> ('b, 'v) answer option) list \<Rightarrow>
  ('b, 'v, 'a) act \<Rightarrow> ('a \<Rightarrow> ('b, 'v) rt \<Rightarrow> bool) \<Rightarrow> ('b, 'v) rt \<Rightarrow> bool" where
  "protocol p0 l0 m Q rt \<equiv> wp m Q (okay p0 l0) (okay p0 l0) rt"

lemma as_SomeD [simp]:
  "as_commit a = Some r \<longleftrightarrow> a = ACommit r" "as_infer a = Some r' \<longleftrightarrow> a = AInfer r'"
  "as_tools a = Some cs \<longleftrightarrow> a = ATools cs" "as_emit a = Some u \<longleftrightarrow> a = AEmit"
  by (cases a; auto)+

lemma protocol_fail:
  assumes a: "accepted p0 l0 p rt" and p: "pt_end p = None" "pt_rev p = t_rev t" "\<not> t_yielded t"
    and Q: "\<And>t' rt'. ends p0 l0 t' rt' \<Longrightarrow> Q t' rt'"
  shows "protocol p0 l0 (turn_fail e t) Q rt"
proof -
  have emit: "protocol p0 l0 (rt_emit (failure_event e))  (\<lambda>_. Q t') r"
    if "accepted p0 l0 p r" "t_terminal t' = Some Failed" "t_err t' = Some e" "t_rev t' = t_rev t" "\<not> t_yielded t'" for t' r
    unfolding rt_emit_def
    by (rule wp_ask_accepted [OF that(1)])
      (use p that in \<open>auto intro!: Q exI [of _ "p\<lparr>pt_end := Some EventError\<rparr>"] simp: ends_def ended_def\<close>)
  show ?thesis
    unfolding turn_fail_def Let_def
    using p(3)
    by (auto intro!: wp_cancel_jobs emit a elim!: accepted_quiet [OF a p(1)] okay_quiet [OF a p(1)])
qed

lemma tracks_frame:
  "tracks p t f \<Longrightarrow> t_rev t' = t_rev t \<Longrightarrow> t_round t' = t_round t \<Longrightarrow> t_terminal t' = t_terminal t \<Longrightarrow>
   t_yielded t' = t_yielded t \<Longrightarrow> tracks p t' f"
  by (simp add: tracks_def)

lemma protocol_stopped:
  assumes a: "accepted p0 l0 p rt" and t: "tracks p t f"
    and stop: "\<And>t' rt'. ends p0 l0 t' rt' \<Longrightarrow> Q (True, t') rt'"
    and go: "\<And>t' rt'. accepted p0 l0 p rt' \<Longrightarrow> tracks p t' f \<Longrightarrow> t_round t' = t_round t \<Longrightarrow>
      t_finished t' = t_finished t \<Longrightarrow> Q (False, t') rt'"
  shows "protocol p0 l0 (turn_stopped b t) Q rt"
  unfolding turn_stopped_def wp_bnd
proof (rule wp_pump)
  have e: "pt_end p = None" using t by (simp add: tracks_def)
  fix ws rt' assume q: "pumped ws rt rt'"
  let ?t = "handle_all ws t"
  have t': "tracks p ?t f" by (rule tracks_frame [OF t]) simp_all
  show "protocol p0 l0 (if t_cancelled ?t
          then bnd (turn_fail err_canceled (?t\<lparr>t_cancelled := False\<rparr>)) (\<lambda>t2. ret (True, t2))
          else ret (t_suspended ?t, ?t)) Q rt'"
  proof (cases "t_cancelled ?t")
    case True
    then show ?thesis
      using t' e by (auto intro!: protocol_fail [OF accepted_pumped [OF a e q]] stop simp: tracks_def)
  next
    case False
    have "Q (t_suspended ?t, ?t) rt'"
      using accepted_pumped [OF a e q] t'
      by (cases "t_suspended ?t") (auto intro!: stop go endsI simp: tracks_def ended_def)
    then show ?thesis using False by simp
  qed
next
  fix ws rt' assume "pumped ws rt rt'"
  then show "okay p0 l0 rt'" using a t by (auto simp: tracks_def intro: accepted_okay accepted_pumped)
qed

lemma protocol_commit:
  assumes a: "accepted p0 l0 p rt" and p: "pt_end p = None" "\<not> pt_failing p" "pt_rev p = t_rev t" "\<not> t_yielded t"
    and c: "proto_commit p inp = Some q"
    and stop: "\<And>t' rt'. ends p0 l0 t' rt' \<Longrightarrow> Q (False, t') rt'"
    and go: "\<And>rv rt'. accepted p0 l0 (q\<lparr>pt_rev := rv\<rparr>) rt' \<Longrightarrow> Q (True, t\<lparr>t_state := None, t_rev := rv\<rparr>) rt'"
  shows "protocol p0 l0 (turn_commit inp t) Q rt"
proof -
  have c': "proto_commit p (inp\<lparr>ci_state := t_state t\<rparr>) = Some q"
    using c by (simp add: proto_commit_state)
  show ?thesis
    unfolding turn_commit_def wp_bnd rt_commit_def
    by (rule wp_ask_accepted [OF a])
      (use p c' in \<open>auto intro!: protocol_fail stop go split: sum.split\<close>)
qed

lemma set_runs_loop: "runs_loop p ans i cs = Some runs \<Longrightarrow> call_key ` set runs \<subseteq> call_key ` set cs"
  by (induction cs arbitrary: i runs) (auto split: if_splits option.splits; blast)+

lemma set_turn_runs: "turn_runs r resume = Inr runs \<Longrightarrow> call_key ` set runs \<subseteq> set (round_keys r)"
  by (auto simp: turn_runs_def round_keys_def dest: set_runs_loop split: option.splits) 

lemma set_job_runs: "call_key ` set (fst (job_runs cs js)) \<subseteq> call_key ` set cs"
proof (induction cs js rule: job_runs.induct)
  case (2 c cs js)
  show ?case
  proof (cases "index_of (\<lambda>j. jb_ended j \<and> jb_call j = call_key c) js")
    case None
    then show ?thesis using 2(1) by auto
  next
    case (Some k)
    then show ?thesis using 2(2) [OF Some] by (auto simp: case_prod_unfold Let_def)
  qed
qed simp

definition tools_rest :: "bool \<Rightarrow> 'b round \<times> gerr list \<times> ('b, 'v) state \<Rightarrow> ('b, 'v, ('b, 'v) iter) act" where
  "tools_rest refit = (\<lambda>(r', errs, t1).
     case errors_join errs of
       Some e \<Rightarrow> bnd (turn_fail e (t1\<lparr>t_round := Some r'\<rparr>)) (\<lambda>t2. ret (Return t2))
     | None \<Rightarrow> ret (Continue (t1\<lparr>t_round := Some r'\<rparr>) [] refit))"

lemma proto_step_tools:
  "tracks p t refit \<Longrightarrow> t_round t = Some r \<Longrightarrow> cs \<noteq> [] \<Longrightarrow> call_key ` set cs \<subseteq> set (round_keys r) \<Longrightarrow>
   proto_step p (RTools cs, x) = Some (p\<lparr>pt_first := False\<rparr>)"
  by (simp add: tracks_def round_sig_def)

lemma protocol_run_tools:
  fixes t :: "('b, 'v) state"
  assumes a: "accepted p0 l0 p rt" and t: "tracks p t refit" "t_round t = Some r"
    and runs: "runs \<noteq> []" "call_key ` set runs \<subseteq> set (round_keys r)"
  shows "protocol p0 l0 (run_tools r runs refit t) (iter_ok p0 l0) rt"
proof -
  let ?cs = "map (\<lambda>c. c\<lparr>c_jobs := job_ids t\<rparr>) runs"
  let ?p = "p\<lparr>pt_first := False\<rparr>"
  have keys: "call_key ` set ?cs = call_key ` set runs" by (simp add: image_image)
  have step: "proto_step p (RTools ?cs, x) = Some ?p" for x
    by (rule proto_step_tools [OF t]) (use runs keys in simp_all)
  have rec: "protocol p0 l0 (record_calls r cs [] t)
      (\<lambda>x. protocol p0 l0 (tools_rest refit x) (iter_ok p0 l0)) r1"
    if acc: "accepted p0 l0 ?p r1" for cs r1
  proof (rule wp_record_calls)
    have e: "pt_end ?p = None" using t by (simp add: tracks_def)
    fix r' :: "'b round" and errs js rt'
    assume q: "quiet r1 rt'" and k: "round_keys r' = round_keys r" "rd_reply r' = rd_reply r"
    note acc' = accepted_quiet [OF acc e q]
    have tr: "tracks ?p (t\<lparr>t_jobs := js, t_round := Some r'\<rparr>) refit"
      using t k by (simp add: tracks_def round_sig_def)
    show "protocol p0 l0 (tools_rest refit (r', errs, t\<lparr>t_jobs := js\<rparr>)) (iter_ok p0 l0) rt'"
      using t iter_ok_Continue [OF acc' tr]
      by (cases "errors_join errs")
        (auto simp: tools_rest_def tracks_def intro!: protocol_fail [OF acc'] iter_ok_Return)
  next
    fix rt' assume "quiet r1 rt'"
    then show "okay p0 l0 rt'" "okay p0 l0 rt'" using acc t by (auto simp: tracks_def intro: okay_quiet)
  qed
  have "protocol p0 l0 (rt_tools ?cs)
      (\<lambda>cs. protocol p0 l0 (bnd (record_calls r cs [] t) (tools_rest refit)) (iter_ok p0 l0)) rt"
    unfolding rt_tools_def
    by (rule wp_ask_accepted [OF a]) (use step rec in auto)
  moreover have "run_tools r runs refit t = bnd (rt_tools ?cs) (\<lambda>cs. bnd (record_calls r cs [] t) (tools_rest refit))"
    by (simp add: run_tools_def tools_rest_def)
  ultimately show ?thesis by simp
qed

lemma protocol_iter_round:
  assumes a: "accepted p0 l0 p rt" and t: "tracks p t refit" "t_round t = Some r"
  shows "protocol p0 l0 (iter_round r resume refit t) (iter_ok p0 l0) rt"
proof (cases "round_complete r")
  case True
  have c: "proto_commit p (no_commit\<lparr>ci_round := Some r\<rparr>) = Some (p\<lparr>pt_first := False, pt_open := None\<rparr>)"
    using t True by (simp add: proto_commit_def tracks_def)
  show ?thesis
    using True t c
    by (auto simp: iter_round_def tracks_def intro!: protocol_commit [OF a] iter_ok_intros)
next
  case False
  have e: "pt_end p = None" "pt_rev p = t_rev t" "\<not> t_yielded t" using t by (simp_all add: tracks_def)
  show ?thesis
  proof (cases "turn_runs r resume")
    case (Inl x)
    then show ?thesis
      using False by (auto simp: iter_round_def intro!: protocol_fail [OF a e] iter_ok_intros)
  next
    case (Inr runs)
    note tools = protocol_run_tools [OF a]
    show ?thesis
    proof (cases "runs = []")
      case False
      have "protocol p0 l0 (run_tools r runs refit t) (iter_ok p0 l0) rt"
        by (rule tools [OF t False set_turn_runs [OF Inr]])
      then show ?thesis using \<open>\<not> round_complete r\<close> Inr False by (simp add: iter_round_def)
    next
      case True
      show ?thesis
      proof (cases "turn_waits r")
        case True
        obtain jruns js where j: "job_runs (rd_calls r) (t_jobs t) = (jruns, js)" by fastforce
        have "protocol p0 l0 (run_tools r jruns refit (t\<lparr>t_jobs := js\<rparr>)) (iter_ok p0 l0) rt" if "jruns \<noteq> []"
          by (rule tools [OF _ _ that]) (use t set_job_runs [of "rd_calls r" "t_jobs t"] in \<open>auto simp: j tracks_def round_keys_def\<close>)
        moreover have "protocol p0 l0 (turn_stopped True t) (\<lambda>x. protocol p0 l0
            (case x of (st, t1) \<Rightarrow> if st then ret (Return t1) else ret (Continue t1 [] refit)) (iter_ok p0 l0)) rt"
          by (rule protocol_stopped [OF a t(1)]) (auto intro: iter_ok_intros)
        ultimately show ?thesis
          using \<open>\<not> round_complete r\<close> Inr True \<open>runs = []\<close> j by (auto simp: iter_round_def)
      next
        case False
        have "protocol p0 l0 (rt_emit ((new_event EventInterrupt)\<lparr>ev_message_id := m, ev_data := d\<rparr>))
            (\<lambda>_. protocol p0 l0 (ret (Return (t\<lparr>t_yielded := True\<rparr>))) (iter_ok p0 l0)) rt" for m d
          unfolding rt_emit_def
          by (rule wp_ask_accepted [OF a])
            (use t in \<open>auto simp: tracks_def ended_def new_event_def intro!: iter_ok_intros\<close>)
        then show ?thesis
          using \<open>\<not> round_complete r\<close> Inr True False accepted_okay [OF a]
          by (auto simp: iter_round_def split: option.split)
      qed
    qed
  qed
qed

lemma protocol_iter_infer:
  assumes a: "accepted p0 l0 p rt" and t: "tracks p t refit" "t_round t = None" "t_inbox t = []"
  shows "protocol p0 l0 (iter_infer resume refit t) (iter_ok p0 l0) rt"
proof -
  have e: "pt_end p = None" "pt_rev p = t_rev t" "\<not> pt_failing p" using t by (simp_all add: tracks_def)
  have fin: "protocol p0 l0 (rt_emit (new_event EventComplete))
      (\<lambda>_. iter_ok p0 l0 (Return (t\<lparr>t_terminal := Some Complete\<rparr>))) rt" if "t_jobs t = []"
    unfolding rt_emit_def
    by (rule wp_ask_accepted [OF a])
      (use t that in \<open>auto simp: tracks_def ended_def intro!: iter_ok_intros\<close>)
  have wait: "protocol p0 l0 (turn_stopped True t) (\<lambda>x. protocol p0 l0
      (case x of (st, t1) \<Rightarrow> if st then ret (Return t1) else ret (Continue t1 resume refit)) (iter_ok p0 l0)) rt"
    by (rule protocol_stopped [OF a t(1)]) (auto intro: iter_ok_intros)
  define rest where "rest = (\<lambda>res. case res of
      Inl x \<Rightarrow>
        (if errors_is x ContextLength \<and> \<not> refit then
           bnd (turn_commit (no_commit\<lparr>ci_collapse := True\<rparr>) t)
             (\<lambda>(ok, t1). if \<not> ok then ret (Return t1) else ret (Continue t1 resume True))
         else bnd (turn_fail x t) (\<lambda>t1. ret (Return t1)))
    | Inr rp \<Rightarrow>
        (if rp_calls rp \<noteq> [] then ret (Continue (t\<lparr>t_round := Some (new_round rp)\<rparr>) resume False)
         else
           bnd (turn_commit (no_commit\<lparr>ci_round := Some \<lparr>rd_reply = rp, rd_calls = []\<rparr>\<rparr>) t)
             (\<lambda>(ok, t1). if \<not> ok then ret (Return t1)
                else ret (Continue (t1\<lparr>t_result := rp_result rp, t_finished := True\<rparr>) resume False))))"
  let ?p = "p\<lparr>pt_first := False\<rparr>"
  have rest: "protocol p0 l0 (rest res) (iter_ok p0 l0) r1" if "accepted p0 l0 (proto_infer ?p res) r1" for res r1
  proof (cases res)
    case (Inl x)
    show ?thesis
      using Inl that t e
      by (auto simp: rest_def proto_infer_def tracks_def proto_commit_def Let_def
          intro!: protocol_fail protocol_commit [OF that] iter_ok_intros split: if_splits)
  next
    case (Inr rp)
    show ?thesis
      using Inr that t e
      by (auto simp: rest_def proto_infer_def tracks_def proto_commit_def Let_def round_sig_def
          intro!: protocol_commit [OF that] iter_ok_intros split: if_splits)
  qed
  have "protocol p0 l0 rt_infer (\<lambda>res. protocol p0 l0 (rest res) (iter_ok p0 l0)) rt"
    unfolding rt_infer_def
    by (rule wp_ask_accepted [OF a]) (use t rest in \<open>auto simp: tracks_def\<close>)
  moreover have "iter_infer resume refit t =
     (if t_finished t then
        (if t_jobs t = [] then
           bnd (rt_emit (new_event EventComplete))
             (\<lambda>_. ret (Return (t\<lparr>t_terminal := Some Complete\<rparr>)))
         else
           bnd (turn_stopped True t)
             (\<lambda>(st, t1). if st then ret (Return t1) else ret (Continue t1 resume refit)))
      else bnd rt_infer rest)"
    by (simp add: iter_infer_def rest_def)
  ultimately show ?thesis using fin wait by auto
qed

lemma protocol_iter_open:
  fixes t :: "('b, 'v) state"
  assumes a: "accepted p0 l0 p rt" and t: "tracks p t refit" "t_round t = None"
  shows "protocol p0 l0 (iter_open resume refit t) (iter_ok p0 l0) rt"
proof -
  define rest :: "bool \<times> ('b, 'v) state \<Rightarrow> ('b, 'v, ('b, 'v) iter) act" where "rest = (\<lambda>(st, t1).
      if st then ret (Return t1)
      else if t_inbox t1 \<noteq> [] then
        bnd (turn_commit (no_commit\<lparr>ci_users := t_inbox t1\<rparr>) (t1\<lparr>t_inbox := []\<rparr>))
          (\<lambda>(ok, t2). if \<not> ok then ret (Return t2) else iter_infer resume refit (t2\<lparr>t_finished := False\<rparr>))
      else iter_infer resume refit t1)"
  have "protocol p0 l0 (turn_stopped False t) (\<lambda>x. protocol p0 l0 (rest x) (iter_ok p0 l0)) rt"
  proof (rule protocol_stopped [OF a t(1)])
    fix t' :: "('b, 'v) state" and rt' assume a': "accepted p0 l0 p rt'" and t': "tracks p t' refit" "t_round t' = t_round t"
    have c: "proto_commit p (no_commit\<lparr>ci_users := us\<rparr>) = Some (p\<lparr>pt_first := False\<rparr>)" if "us \<noteq> []" for us
      using that t' t by (simp add: proto_commit_def tracks_def)
    show "protocol p0 l0 (rest (False, t')) (iter_ok p0 l0) rt'"
      using t t' c
      by (auto intro!: protocol_iter_infer [OF a' t'(1)] protocol_commit [OF a' _ _ _ _ c] protocol_iter_infer
          iter_ok_intros simp: rest_def tracks_def)
  qed (simp add: rest_def iter_ok_intros)
  then show ?thesis by (simp add: iter_open_def rest_def)
qed

lemma protocol_turn_loop:
  assumes "accepted p0 l0 p rt" and "tracks p t refit"
  shows "protocol p0 l0 (turn_loop t resume refit) (ends p0 l0) rt"
proof -
  define I where "I = (\<lambda>(t, resume, refit). iter_ok p0 l0 (Continue t resume refit))"
  have "protocol p0 l0 ((\<lambda>(t, resume, refit). turn_loop t resume refit) (t, resume, refit)) (ends p0 l0) rt"
  proof (rule turn_loops.loop_rule [where I = I])
    show "I (t, resume, refit) rt" using assms by (auto simp: I_def intro: iter_ok_intros)
    fix s rt assume "I s rt"
    then obtain t resume refit p where s: "s = (t, resume, refit)" and a: "accepted p0 l0 p rt" "tracks p t refit"
      by (cases s) (auto simp: I_def iter_ok_def)
    have "protocol p0 l0 (turn_iter t resume refit) (iter_ok p0 l0) rt"
      by (cases "t_round t") (simp_all add: turn_iter_def protocol_iter_round [OF a] protocol_iter_open [OF a])
    then show "protocol p0 l0 (turn_step s)
        (\<lambda>r rt'. case r of Inl s' \<Rightarrow> I s' rt' | Inr t' \<Rightarrow> ends p0 l0 t' rt') rt"
      by (auto simp: turn_step_def s I_def iter_ok_def elim!: wp_mono split: iter.splits)
  qed
  then show ?thesis by simp
qed

section \<open>State.drive follows the protocol\<close>

definition proto_start :: "('b, 'v) state \<Rightarrow> proto" where
  "proto_start t =
     \<lparr>pt_rev = t_rev t, pt_open = map_option round_sig (t_round t), pt_phase = Fresh, pt_first = True,
      pt_failing = False, pt_end = None\<rparr>"

lemma protocol_drive_open:
  assumes a: "accepted p0 l0 p rt" and t: "tracks p t False"
  shows "protocol p0 l0 (drive_open resume t) (ends p0 l0) rt"
  using t accepted_okay [OF a]
  by (auto simp: drive_open_def tracks_def split: option.split
      intro!: protocol_turn_loop [OF a] protocol_fail [OF a])

lemma protocol_turn_drive:
  assumes t: "t_terminal t = None" "\<not> t_yielded t"
  shows "protocol (proto_start t) (log rt) (turn_drive user resume t) (ends (proto_start t) (log rt)) rt"
proof -
  have a: "accepted (proto_start t) (log rt) (proto_start t) rt" by (simp add: accepted_def)
  show ?thesis
  proof (cases user)
    case None
    have c: "proto_commit (proto_start t) no_commit = Some (proto_start t\<lparr>pt_first := False\<rparr>)"
      by (simp add: proto_commit_def proto_start_def)
    show ?thesis
      using t None
      by (auto simp: turn_drive_def proto_start_def tracks_def
          intro!: protocol_drive_open [OF a [unfolded proto_start_def]] protocol_drive_open
            protocol_commit [OF a [unfolded proto_start_def] _ _ _ _ c [unfolded proto_start_def]])
  next
    case (Some m)
    let ?q = "proto_start t\<lparr>pt_first := False, pt_open := None\<rparr>"
    have c: "proto_commit (proto_start t) (no_commit\<lparr>ci_users := [m], ci_round := t_round t\<rparr>) = Some ?q"
      by (cases "t_round t") (simp_all add: proto_commit_def proto_start_def)
    have "protocol (proto_start t) (log rt)
        (turn_commit (no_commit\<lparr>ci_users := [m], ci_round := t_round t\<rparr>) (t\<lparr>t_round := None\<rparr>))
        (\<lambda>x. protocol (proto_start t) (log rt) (case x of (ok, t2) \<Rightarrow> if ok then drive_open resume t2 else ret t2)
           (ends (proto_start t) (log rt))) rt"
    proof (rule protocol_commit [OF a _ _ _ _ c])
      fix rv rt' assume "accepted (proto_start t) (log rt) (?q\<lparr>pt_rev := rv\<rparr>) rt'"
      then show "protocol (proto_start t) (log rt)
          (case (True, t\<lparr>t_round := None, t_state := None, t_rev := rv\<rparr>) of
             (ok, t2) \<Rightarrow> if ok then drive_open resume t2 else ret t2) (ends (proto_start t) (log rt)) rt'"
        using t by (simp, elim protocol_drive_open) (simp add: tracks_def proto_start_def)
    qed (simp_all add: proto_start_def t)
    then show ?thesis using Some by (simp add: turn_drive_def)
  qed
qed

end
