(* ===== verification/Session_Run.thy ===== *)
theory Session_Run
  imports Turn_Frame Protocol
begin

text \<open>
  One session lifetime (session/orchestrator/session.go): what each wake does between the
  turns, the loop over the mailbox, and how a Run ends; with a session's state across a
  suspend (carry.go) and its status (status.go).
\<close>

section \<open>One wake\<close>

text \<open>
  runner.drive: a turn that ended or parked is not suspended. The result's flag is the
  runner's suspended.
\<close>

definition runner_drive :: "message option \<Rightarrow> (string, string) gomap \<Rightarrow> ('b, 'v) state \<Rightarrow>
  ('b, 'v, ('b, 'v) state \<times> bool) act" where
  "runner_drive user resume t =
     bnd (turn_drive user resume t)
       (\<lambda>t1. let t2 = (if t_terminal t1 \<noteq> None \<or> t_yielded t1 then t1\<lparr>t_suspended := False\<rparr> else t1)
             in ret (t2, t_suspended t2))"

definition run_turn :: "turn_start \<Rightarrow> message option \<Rightarrow> (string, string) gomap \<Rightarrow> auth_context \<Rightarrow>
  (string, 'v) gomap \<Rightarrow> ('b, 'v) state \<Rightarrow> ('b, 'v, ('b, 'v) state \<times> bool) act" where
  "run_turn ts user resume auth extra t =
     bnd (rt_begin (ts\<lparr>ts_prompt_len := (case user of None \<Rightarrow> ts_prompt_len ts | Some m \<Rightarrow> length (m_content m)),
                       ts_resumes := length resume\<rparr>))
       (\<lambda>span. runner_drive user resume (start_turn auth extra (t\<lparr>t_span := span\<rparr>)))"

definition run_worker :: "string \<Rightarrow> ('b, 'v) state \<Rightarrow> ('b, 'v, ('b, 'v) state) act" where
  "run_worker task t =
     bnd (rt_begin \<lparr>ts_kind = KindPrompt, ts_prompt_len = length task, ts_resumes = 0,
                    ts_parent = t_trace t, ts_link = []\<rparr>)
       (\<lambda>span. bnd (rt_job (t_worker t) task)
          (\<lambda>r. case r of
                 Inl e \<Rightarrow>
                   bnd (rt_emit (failure_event e))
                     (\<lambda>_. ret (t\<lparr>t_span := span, t_err := Some e, t_terminal := Some Failed,
                                  t_result := err_text e\<rparr>))
               | Inr res \<Rightarrow>
                   bnd (rt_emit (new_event EventComplete))
                     (\<lambda>_. ret (t\<lparr>t_span := span, t_err := None, t_result := res,
                                  t_terminal := Some Complete\<rparr>))))"

definition apply_queued :: "'v prompt \<Rightarrow> ('b, 'v) state \<Rightarrow> ('b, 'v) state" where
  "apply_queued p t =
     (case pr_mcp p of
        Some ms \<Rightarrow> t\<lparr>t_mcp := Some ms\<rparr>
      | None \<Rightarrow> (case t_next_mcp t of Some ms \<Rightarrow> t\<lparr>t_mcp := Some ms\<rparr> | None \<Rightarrow> t))
     \<lparr>t_next_mcp := None\<rparr>"

definition cancel_idle :: "('b, 'v) state \<Rightarrow> ('b, 'v, ('b, 'v) state) act" where
  "cancel_idle t =
     bnd (cancel_jobs t)
       (\<lambda>t1. let t2 = t1\<lparr>t_inbox := [], t_next_mcp := None\<rparr> in
             if \<not> t_yielded t2 then ret t2
             else bnd (rt_emit (failure_event err_canceled))
                    (\<lambda>_. ret (t2\<lparr>t_yielded := False, t_state := None, t_terminal := Some Failed,
                                 t_err := Some err_canceled\<rparr>)))"

text \<open>runner.handle while no turn runs: the other side of each case of handle_running.\<close>

fun handle_idle :: "'v wake \<Rightarrow> ('b, 'v) state \<Rightarrow> ('b, 'v, ('b, 'v) state \<times> bool) act" where
  "handle_idle NoWake t = ret (t, False)"
| "handle_idle (WakeJob e) t = ret (job_ended e t, False)"
| "handle_idle WakeSuspend t = ret (t, True)"
| "handle_idle WakeCancel t = bnd (cancel_idle t) (\<lambda>t1. ret (t1, False))"
| "handle_idle (WakePrompt p tr) t =
     (let user = user_message (pr_text p) (pr_user_message p) in
      if t_yielded t then ret (steer p t, False)
      else if t_worker t \<noteq> [] then
        bnd (run_worker (m_content user) (t\<lparr>t_trace := tr\<rparr>)) (\<lambda>t1. ret (t1, False))
      else
        run_turn \<lparr>ts_kind = KindPrompt, ts_prompt_len = 0, ts_resumes = 0, ts_parent = tr, ts_link = []\<rparr>
          (Some user) [] (pr_auth p) (pr_state p) ((apply_queued p t)\<lparr>t_trace := tr\<rparr>))"
| "handle_idle (WakeResume r tr) t =
     run_turn \<lparr>ts_kind = KindResume, ts_prompt_len = 0, ts_resumes = 0, ts_parent = t_trace t, ts_link = tr\<rparr>
       None (rs_responses r) (rs_auth r) (rs_state r) (t\<lparr>t_yielded := False\<rparr>)"
| "handle_idle WakeClose t = ret (t\<lparr>t_yielded := False, t_closed := True\<rparr>, False)"

text \<open>runner.next: a held wake first, else the mailbox's next, blocking.\<close>

definition next_wake :: "('b, 'v) state \<Rightarrow> ('b, 'v, 'v wake \<times> ('b, 'v) state) act" where
  "next_wake t =
     (case t_held t of
        w # ws \<Rightarrow> ret (w, t\<lparr>t_held := ws\<rparr>)
      | [] \<Rightarrow> bnd (rt_next True) (\<lambda>w. ret (w, t)))"

definition task_done :: "('b, 'v) state \<Rightarrow> bool" where
  "task_done t \<longleftrightarrow> t_task t \<and> t_terminal t \<noteq> None \<and> \<not> t_yielded t"

text \<open>One pass of the loop of runner.run, and the loop.\<close>

definition session_step :: "('b, 'v) state \<times> bool \<Rightarrow>
  ('b, 'v, (('b, 'v) state \<times> bool) + (('b, 'v) state \<times> bool)) act" where
  "session_step = (\<lambda>(t, susp).
     if t_closed t \<or> susp \<or> task_done t then ret (Inr (t, susp))
     else bnd (next_wake t) (\<lambda>(w, t1). bnd (handle_idle w t1) (\<lambda>s. ret (Inl s))))"

section \<open>Every part reads the journal\<close>

lemma runner_journal [replays_intro]:
  "replays (runner_drive user resume t)" "replays (run_turn ts user resume auth extra t)"
  "replays (run_worker task t)" "replays (cancel_idle t)" "replays (next_wake t)"
  unfolding runner_drive_def run_turn_def run_worker_def cancel_idle_def cancel_jobs_def next_wake_def Let_def
  by (auto intro!: replays_intro split: sum.split list.split)

lemma replays_handle_idle [replays_intro]: "replays (handle_idle w t)"
  by (cases w) (auto intro!: replays_intro simp: Let_def)

lemma replays_session_step [replays_intro]: "replays (session_step s)"
  by (cases s) (auto simp: session_step_def intro!: replays_intro)

text \<open>
  A wake leaves the held wakes that were behind it, and those its turn held: none is lost,
  none comes twice, and their order is the mailbox's.
\<close>

lemma keeps_start: "keeps t (log rt) (start_turn auth extra t) rt"
  by (auto simp: keeps_def start_turn_def queue_state_def Let_def)

definition held_from :: "('b, 'v) state \<Rightarrow> ('b, 'v) rt \<Rightarrow> ('b, 'v) state \<Rightarrow> ('b, 'v) rt \<Rightarrow> bool" where
  "held_from t rt t' rt' \<longleftrightarrow>
     (\<exists>ext. log rt' = log rt @ ext \<and> t_held t' = t_held t @ filter is_held_kind (wakes_in ext)) \<and>
     t_id t' = t_id t \<and> t_worker t' = t_worker t \<and> t_task t' = t_task t"

lemma held_from_keeps: "keeps t0 (log rt0) t rt \<Longrightarrow> held_from t0 rt0 t rt"
  by (auto simp: keeps_def held_from_def)

lemma held_from_same: "log rt' = log rt @ ext \<Longrightarrow> wakes_in ext = [] \<Longrightarrow> t_held t' = t_held t \<Longrightarrow>
  t_id t' = t_id t \<Longrightarrow> t_worker t' = t_worker t \<Longrightarrow> t_task t' = t_task t \<Longrightarrow> held_from t rt t' rt'"
  by (auto simp: held_from_def)

lemma held_from_ask:
  assumes "\<not> reads_mail rq"
    and "\<And>x rt'. (\<exists>a. log rt' = log rt @ [(rq, a)]) \<Longrightarrow> Q x rt'"
  shows "wp (ask rq dec) Q any any rt"
  by (rule wp_ask) (use assms in auto)

lemma held_from_log: "held_from t rt1 t' rt' \<Longrightarrow> log rt1 = log rt @ ext \<Longrightarrow> wakes_in ext = [] \<Longrightarrow> held_from t rt t' rt'"
  by (auto simp: held_from_def)

lemma held_from_drive:
  "wp (runner_drive user resume t) (\<lambda>x rt'. held_from t rt (fst x) rt') any any rt"
  unfolding runner_drive_def wp_bnd Let_def
  by (rule wp_mono [OF keeps_turn_drive [OF keeps_refl]]) (auto dest!: held_from_keeps simp: held_from_def)

lemma held_from_run_turn:
  "wp (run_turn ts user resume auth extra t) (\<lambda>x rt'. held_from t rt (fst x) rt') any any rt"
proof -
  have start: "held_from t r t' r'" if "held_from (start_turn auth extra (t\<lparr>t_span := sp\<rparr>)) r t' r'" for sp t' r r'
    using that by (cases "extra = []") (simp_all add: held_from_def start_turn_def queue_state_def Let_def)
  show ?thesis
    unfolding run_turn_def wp_bnd rt_begin_def
    by (rule held_from_ask) (auto intro!: wp_mono [OF held_from_drive] elim!: held_from_log [OF start])
qed

lemma held_from_worker:
  "wp (run_worker task t) (\<lambda>t' rt'. held_from t rt t' rt') any any rt"
  unfolding run_worker_def wp_bnd rt_begin_def rt_job_def
  by (rule held_from_ask, simp, rule held_from_ask)
    (auto simp: rt_emit_def intro!: held_from_ask split: sum.split intro: held_from_same simp: wakes_in_def)

lemma held_from_cancel:
  "wp (cancel_idle t) (\<lambda>t' rt'. held_from t rt t' rt') any any rt"
  unfolding cancel_idle_def wp_bnd Let_def
proof (rule wp_cancel_jobs)
  fix rt' assume q: "quiet rt rt'"
  then obtain ext where ext: "log rt' = log rt @ ext" "wakes_in ext = []"
    by (auto simp: quiet_def wakes_in_neutral)
  show "wp (if \<not> t_yielded (t\<lparr>t_jobs := [], t_inbox := [], t_next_mcp := None\<rparr>)
        then ret (t\<lparr>t_jobs := [], t_inbox := [], t_next_mcp := None\<rparr>)
        else bnd (rt_emit (failure_event err_canceled))
           (\<lambda>_. ret (t\<lparr>t_jobs := [], t_inbox := [], t_next_mcp := None, t_yielded := False, t_state := None,
              t_terminal := Some Failed, t_err := Some err_canceled\<rparr>)))
      (\<lambda>t' rt'. held_from t rt t' rt') any any rt'"
    using ext by (auto simp: rt_emit_def held_from_def intro!: held_from_ask)
qed simp

lemma held_from_handle_idle:
  "wp (handle_idle w t) (\<lambda>x rt'. held_from t rt (fst x) rt') any any rt"
proof (cases w)
  case (WakePrompt p tr)
  have q: "held_from ((apply_queued p t)\<lparr>t_trace := tr\<rparr>) r t' r' = held_from t r t' r'" for t' r r'
    by (auto simp: held_from_def apply_queued_def split: option.split)
  have w: "held_from (t\<lparr>t_trace := tr\<rparr>) r t' r' = held_from t r t' r'" for t' r r'
    by (simp add: held_from_def)
  have s: "held_from t rt (steer p t) rt"
    by (auto simp: held_from_def steer_def queue_state_def Let_def split: option.split)
  show ?thesis
    using s held_from_run_turn [of _ _ _ _ _ "(apply_queued p t)\<lparr>t_trace := tr\<rparr>" rt]
      held_from_worker [of _ "t\<lparr>t_trace := tr\<rparr>" rt]
    by (simp add: WakePrompt Let_def q w)
next
  case (WakeResume r tr)
  have q: "held_from (t\<lparr>t_yielded := False\<rparr>) r t' r' = held_from t r t' r'" for t' r r'
    by (simp add: held_from_def)
  show ?thesis
    using held_from_run_turn [of _ _ _ _ _ "t\<lparr>t_yielded := False\<rparr>" rt] by (simp add: WakeResume q)
next
  case WakeCancel
  then show ?thesis using held_from_cancel by simp
next
  case (WakeJob e)
  then show ?thesis by (auto simp: held_from_def job_ended_def Let_def split: option.split)
qed (auto simp: held_from_def)

lemma wakes_le_answers: "length (wakes_in es) \<le> length (answers_in es)"
proof (induction es)
  case (Cons e es)
  moreover have "length (wake_in e) \<le> length (answers_in [e])" by (cases e rule: wake_in.cases) auto
  moreover have "answers_in (e # es) = answers_in [e] @ answers_in es" by (rule answers_in_append [of "[e]" es, simplified])
  ultimately show ?case by (simp add: wakes_in_def)
qed simp

lemma held_tape:
  assumes "held_from t rt t' rt'" and "played rt rt'"
  shows "length (t_held t') + length (tape rt') \<le> length (t_held t) + length (tape rt)"
proof -
  obtain ext where e: "log rt' = log rt @ ext" "t_held t' = t_held t @ filter is_held_kind (wakes_in ext)"
    using assms(1) by (auto simp: held_from_def)
  moreover have "tape rt = answers_in ext @ tape rt'"
    using assms(2) e(1) by (auto simp: played_def)
  moreover have "length (filter is_held_kind (wakes_in ext)) \<le> length (answers_in ext)"
    using wakes_le_answers length_filter_le order_trans by blast
  ultimately show ?thesis by simp
qed

lemma session_step_progress:
  "session_step s rt = (Ret (Inl s'), rt') \<Longrightarrow>
   length (t_held (fst s')) + length (tape rt') < length (t_held (fst s)) + length (tape rt)"
proof -
  assume run: "session_step s rt = (Ret (Inl s'), rt')"
  obtain t susp where s: "s = (t, susp)" by (cases s)
  let ?m = "\<lambda>t r. length (t_held t) + length (tape r)"
  have idle: "wp (handle_idle w t1) (\<lambda>x r'. ?m (fst x) r' \<le> ?m t1 r) any any r" for w t1 and r :: "('a, 'b) rt"
  proof -
    have "reads (handle_idle w t1)" by (intro replays_reads replays_intro)
    then have "wp (handle_idle w t1) (\<lambda>_. played r) (halted r) (halted r) r"
      by (simp add: reads_def)
    then have "wp (handle_idle w t1) (\<lambda>_. played r) any any r"
      by (rule wp_mono) auto
    from wp_conj [OF held_from_handle_idle this] show ?thesis
      by (rule wp_mono) (auto dest: held_tape)
  qed
  have nxt: "wp (next_wake t) (\<lambda>(w, t1) r. ?m t1 r < ?m t rt) any any rt"
    unfolding next_wake_def
    by (cases "t_held t") (auto simp: rt_next_def intro!: wp_ask)
  have "wp (session_step s) (\<lambda>x r. \<forall>s'. x = Inl s' \<longrightarrow> ?m (fst s') r < ?m t rt) any any rt"
    by (auto simp: s session_step_def intro!: wp_mono [OF nxt] wp_mono [OF idle])
  then show ?thesis using run by (cases s') (simp add: wp_def s)
qed

section \<open>The session's loop\<close>

function session_loop :: "('b, 'v) state \<times> bool \<Rightarrow> ('b, 'v, ('b, 'v) state \<times> bool) act" where
  "session_loop s rt =
     (case session_step s rt of
        (Ret it, rt') \<Rightarrow> (case it of Inl s' \<Rightarrow> session_loop s' rt' | Inr s' \<Rightarrow> (Ret s', rt'))
      | (Stopped, rt') \<Rightarrow> (Stopped, rt')
      | (Panicked, rt') \<Rightarrow> (Panicked, rt'))"
  by pat_completeness auto
termination
  by (relation "measure (\<lambda>(s, rt). length (t_held (fst s)) + length (tape rt))", simp)
    (metis (mono_tags, lifting) in_measure old.prod.case session_step_progress)

declare session_loop.simps [simp del]

interpretation session_loops: journal_loop session_step session_loop "\<lambda>s. length (t_held (fst s))"
proof unfold_locales
  fix s :: "('a, 'b) state \<times> bool"
  show "session_loop s = bnd (session_step s) (case_sum session_loop ret)"
    by (rule ext, subst session_loop.simps)
      (auto simp: bnd_def ret_def split: prod.splits out.splits sum.splits)
qed (auto intro: replays_session_step session_step_progress)

text \<open>runner.run and Run.\<close>

datatype run_end = SuspendedEnd | Done string "gerr option"

definition task_result :: "('b, 'v) state \<Rightarrow> run_end" where
  "task_result t = (if t_terminal t \<noteq> Some Failed then Done (t_result t) None else Done [] (t_err t))"

definition runner_run :: "('b, 'v) state \<Rightarrow> ('b, 'v, run_end \<times> ('b, 'v) state) act" where
  "runner_run t =
     bnd (if t_suspended t
          then bnd (rt_begin \<lparr>ts_kind = KindContinue, ts_prompt_len = 0, ts_resumes = 0,
                              ts_parent = t_trace t, ts_link = []\<rparr>)
                 (\<lambda>span. runner_drive None [] (t\<lparr>t_span := span, t_suspended := False\<rparr>))
          else ret (t, False))
       (\<lambda>s. bnd (session_loop s)
         (\<lambda>(t1, susp). ret (if susp then SuspendedEnd
                            else if t_task t1 then task_result t1 else Done (t_result t1) None, t1)))"

definition session_run :: "('b, 'v) state \<Rightarrow> ('b, 'v, run_end \<times> ('b, 'v) state) act" where
  "session_run t =
     bnd (runner_run t)
       (\<lambda>(e, t1). case e of
          SuspendedEnd \<Rightarrow> ret (SuspendedEnd, t1)
        | Done res err \<Rightarrow> bnd (cancel_each (t_jobs t1)) (\<lambda>_. ret (Done res err, t1)))"

lemma replays_session_run [replays_intro]: "replays (session_run t)"
  unfolding session_run_def runner_run_def
  by (auto intro!: replays_intro session_loops.replays_loop split: run_end.split)

end
