(* ===== verification/Carry.thy ===== *)
theory Carry
  imports Session_Run
begin

text \<open>
  A session's state across a suspend and at its end (session/orchestrator/carry.go), the
  cancel a runtime takes out of a queue while a step runs, and the status a client reads
  (status.go).
\<close>

section \<open>The carry\<close>

record identity =
  id_specialist :: string
  id_worker :: string
  id_parent :: string
  id_mounts :: "mount_recipe list"
  id_task :: bool

record ('b, 'v) carry =
  cy_mounts :: "mount_recipe list"
  cy_mcp :: "mcp_server list option"
  cy_inbox :: "message list"
  cy_next_mcp :: "mcp_server list option"
  cy_state :: "(string, 'v) gomap option"
  cy_round :: "'b round option"
  cy_rev :: string
  cy_result :: string
  cy_terminal :: "session_state option"
  cy_yielded :: bool
  cy_finished :: bool
  cy_suspended :: bool
  cy_jobs :: "job list"
  cy_held :: "'v wake list"
  cy_trace :: carrier
  cy_span :: carrier

definition identity_of :: "('b, 'v) state \<Rightarrow> identity" where
  "identity_of t =
     \<lparr>id_specialist = t_specialist t, id_worker = t_worker t, id_parent = t_parent t,
      id_mounts = t_mounts t, id_task = t_task t\<rparr>"

definition carry_of :: "('b, 'v) state \<Rightarrow> ('b, 'v) carry" where
  "carry_of t =
     \<lparr>cy_mounts = t_mounts t, cy_mcp = t_mcp t, cy_inbox = t_inbox t, cy_next_mcp = t_next_mcp t,
      cy_state = t_state t, cy_round = t_round t, cy_rev = t_rev t, cy_result = t_result t,
      cy_terminal = t_terminal t, cy_yielded = t_yielded t, cy_finished = t_finished t,
      cy_suspended = t_suspended t, cy_jobs = t_jobs t, cy_held = t_held t,
      cy_trace = t_trace t, cy_span = t_span t\<rparr>"

definition new_state :: "string \<Rightarrow> identity \<Rightarrow> mcp_server list option \<Rightarrow> (string, 'v) gomap option \<Rightarrow>
  ('b, 'v) carry option \<Rightarrow> ('b, 'v) state" where
  "new_state i ident mcp st c =
     (let t = \<lparr>t_id = i, t_specialist = id_specialist ident, t_worker = id_worker ident,
               t_parent = id_parent ident, t_mounts = apply_auth (id_mounts ident) no_auth,
               t_task = id_task ident, t_mcp = mcp, t_inbox = [], t_next_mcp = None, t_state = st,
               t_round = None, t_rev = [], t_result = [], t_terminal = None, t_err = None,
               t_yielded = False, t_finished = False, t_suspended = False, t_jobs = [],
               t_closed = False, t_cancelled = False, t_held = [], t_trace = [], t_span = []\<rparr>
      in case c of
           None \<Rightarrow> t
         | Some y \<Rightarrow>
             t\<lparr>t_mounts := cy_mounts y, t_mcp := cy_mcp y, t_inbox := cy_inbox y,
               t_next_mcp := cy_next_mcp y, t_state := cy_state y, t_round := cy_round y,
               t_rev := cy_rev y, t_result := cy_result y, t_terminal := cy_terminal y,
               t_yielded := cy_yielded y, t_finished := cy_finished y, t_suspended := cy_suspended y,
               t_jobs := cy_jobs y, t_held := cy_held y, t_trace := cy_trace y, t_span := cy_span y\<rparr>)"

definition job_end_of :: "string \<Rightarrow> string \<Rightarrow> gerr option \<Rightarrow> job_end" where
  "job_end_of i result err =
     (case err of
        Some e \<Rightarrow> \<lparr>je_id = i, je_result = \<lparr>jr_output = err_text e, jr_failed = True\<rparr>\<rparr>
      | None \<Rightarrow> \<lparr>je_id = i, je_result = \<lparr>jr_output = result, jr_failed = False\<rparr>\<rparr>)"

section \<open>Taking a cancel out of a queue\<close>

fun is_prompt_wake :: "'v wake \<Rightarrow> bool" where
  "is_prompt_wake (WakePrompt p tr) = True"
| "is_prompt_wake _ = False"

text \<open>The second loop of TakeCancel, from position j, with the cancel at i.\<close>

fun take_loop :: "nat \<Rightarrow> nat \<Rightarrow> 'v wake list \<Rightarrow> 'v wake list \<times> nat list" where
  "take_loop i j [] = ([], [])"
| "take_loop i j (w # ws) =
     (let (kept, taken) = take_loop i (Suc j) ws in
      if i < j \<or> (j < i \<and> \<not> is_prompt_wake w) then (w # kept, taken) else (kept, j # taken))"

definition take_cancel :: "'v wake list \<Rightarrow> 'v wake list \<times> nat list \<times> bool" where
  "take_cancel queue =
     (case index_of (\<lambda>w. w = WakeCancel) queue of
        None \<Rightarrow> (queue, [], False)
      | Some i \<Rightarrow> (let (kept, taken) = take_loop i 0 queue in (kept, taken, True)))"

section \<open>Status\<close>

datatype outcome = OutcomeOK | OutcomeError | OutcomeCancelled | OutcomeYield

definition outcome_of :: "('b, 'v) state \<Rightarrow> outcome" where
  "outcome_of t =
     (if t_yielded t then OutcomeYield
      else if (case t_err t of None \<Rightarrow> False | Some e \<Rightarrow> errors_is e Canceled) then OutcomeCancelled
      else if t_terminal t = Some Failed then OutcomeError
      else OutcomeOK)"

datatype session_kind = KindNone | KindWorker | KindSpecialist

record status =
  st_id :: string
  st_parent :: string
  st_state :: session_state
  st_specialist :: string
  st_kind :: session_kind
  st_result :: string
  st_waiting :: bool

definition status_of :: "('b, 'v) state \<Rightarrow> status" where
  "status_of t =
     (let st = \<lparr>st_id = t_id t, st_parent = t_parent t, st_state = Running,
                st_specialist = t_specialist t, st_kind = KindNone, st_result = t_result t,
                st_waiting = t_yielded t\<rparr>;
          st1 = (if t_worker t \<noteq> [] then st\<lparr>st_kind := KindWorker, st_specialist := t_worker t\<rparr>
                 else if t_specialist t \<noteq> [] then st\<lparr>st_kind := KindSpecialist\<rparr> else st)
      in case t_terminal t of
           Some s \<Rightarrow> st1\<lparr>st_state := s, st_waiting := False\<rparr>
         | None \<Rightarrow> if t_closed t then st1\<lparr>st_state := Complete, st_waiting := False\<rparr> else st1)"

section \<open>Properties\<close>

lemma take_loop_kept:
  "fst (take_loop i j ws) = map snd (filter (\<lambda>(k, w). i < k \<or> (k < i \<and> \<not> is_prompt_wake w)) (zip [j..<j + length ws] ws))"
proof (induction ws arbitrary: j)
  case (Cons w ws)
  then show ?case
    by (auto simp: case_prod_unfold Let_def upt_conv_Cons simp del: upt_Suc)
qed simp

lemma take_loop_taken:
  "snd (take_loop i j ws) = map fst (filter (\<lambda>(k, w). \<not> (i < k \<or> (k < i \<and> \<not> is_prompt_wake w))) (zip [j..<j + length ws] ws))"
proof (induction ws arbitrary: j)
  case (Cons w ws)
  then show ?case
    by (auto simp: case_prod_unfold Let_def upt_conv_Cons simp del: upt_Suc)
qed simp

lemma take_loop_after: "i < j \<Longrightarrow> take_loop i j ws = (ws, [])"
  by (induction ws arbitrary: j) auto

lemma take_loop_split:
  "take_loop (j + length pre) j (pre @ w # post) =
     (filter (\<lambda>w. \<not> is_prompt_wake w) pre @ post,
      map fst (filter (\<lambda>(k, w). is_prompt_wake w) (zip [j..<j + length pre] pre)) @ [j + length pre])"
proof (induction pre arbitrary: j)
  case Nil
  then show ?case by (simp add: take_loop_after)
next
  case (Cons v pre)
  have "take_loop (j + length (v # pre)) (Suc j) (pre @ w # post) =
      take_loop (Suc j + length pre) (Suc j) (pre @ w # post)" by simp
  then show ?case
    using Cons [of "Suc j"] by (simp add: upt_conv_Cons del: upt_Suc)
qed

text \<open>
  TakeCancel takes the first cancel and the prompts queued before it, and nothing
  else: every other wake stays, in its order.
\<close>

lemma take_cancel_spec:
  "take_cancel (queue :: 'v wake list) =
     (if WakeCancel \<in> set queue
      then (filter (\<lambda>w. \<not> is_prompt_wake w) (takeWhile (\<lambda>w. w \<noteq> WakeCancel) queue)
              @ tl (dropWhile (\<lambda>w. w \<noteq> WakeCancel) queue),
            map fst (filter (\<lambda>(k, w). is_prompt_wake w)
              (zip [0..<length (takeWhile (\<lambda>w. w \<noteq> WakeCancel) queue)] (takeWhile (\<lambda>w. w \<noteq> WakeCancel) queue)))
              @ [length (takeWhile (\<lambda>w. w \<noteq> WakeCancel) queue)], True)
      else (queue, [], False))"
proof (cases "WakeCancel \<in> set queue")
  case True
  then obtain pre post where q: "queue = pre @ WakeCancel # post" "WakeCancel \<notin> set pre"
    by (meson split_list_first)
  have "\<forall>x \<in> set pre. x \<noteq> WakeCancel" using q(2) by auto
  then have "takeWhile (\<lambda>w. w \<noteq> WakeCancel) queue = pre"
      "dropWhile (\<lambda>w. w \<noteq> WakeCancel) queue = WakeCancel # post"
      "index_of (\<lambda>w. w = WakeCancel) queue = Some (length pre)"
    unfolding q(1) by (simp_all add: index_of_append)
  then show ?thesis
    using True take_loop_split [of 0 pre WakeCancel post] by (simp add: take_cancel_def q(1))
next
  case False
  then have "index_of (\<lambda>w. w = WakeCancel) queue = None" by (auto simp: index_of_None_iff)
  then show ?thesis using False by (simp add: take_cancel_def)
qed

text \<open>
  A session started from another run's carry has that run's turn, jobs, inbox, held wakes and
  revision; the error of its last turn, a close and a cancel that came in are not carried.
\<close>

lemma carry_roundtrip:
  "new_state (t_id t) (identity_of t) mcp st (Some (carry_of t)) =
     t\<lparr>t_err := None, t_closed := False, t_cancelled := False\<rparr>"
  by (simp add: new_state_def identity_of_def carry_of_def Let_def)

end
