(* ===== verification/Turn_Safety.thy ===== *)
theory Turn_Safety
  imports Carry
begin

text \<open>
  The rounds of a turn (session/orchestrator/turn.go): at most one of their calls is parked
  at a time, and the code never reads outside a round, as long as the runtime answers Tools
  with the calls it was given (by key).
\<close>

definition park_ok :: "('b, 'v) state \<Rightarrow> bool" where
  "park_ok t \<longleftrightarrow> (\<forall>r. t_round t = Some r \<longrightarrow> one_park r)"

lemma park_ok_round: "park_ok t \<Longrightarrow> t_round t' = t_round t \<Longrightarrow> park_ok t'"
  by (simp add: park_ok_def)

text \<open>A Tools answer with a call it was not asked for: the one way the runtime can break a round.\<close>

fun tools_kept :: "('b, 'v) request \<times> ('b, 'v) answer option \<Rightarrow> bool" where
  "tools_kept (RTools cs, Some (ATools cs')) \<longleftrightarrow> call_key ` set cs' \<subseteq> call_key ` set cs"
| "tools_kept _ \<longleftrightarrow> True"

definition broke :: "('b, 'v) rt \<Rightarrow> bool" where
  "broke rt \<longleftrightarrow> (\<exists>e \<in> set (log rt). \<not> tools_kept e)"

abbreviation safely :: "('b, 'v, 'a) act \<Rightarrow> ('a \<Rightarrow> bool) \<Rightarrow> ('b, 'v) rt \<Rightarrow> bool" where
  "safely m Q rt \<equiv> wp m (\<lambda>x _. Q x) any broke rt"

lemma safely_ask: "(\<And>x. Q x) \<Longrightarrow> safely (ask rq dec) Q rt"
  by (rule wp_ask) auto

lemma wp_ask_free: "(\<And>x rt'. Q x rt') \<Longrightarrow> wp (ask rq dec) Q any P rt"
  by (rule wp_ask) auto

lemma safely_fail: "(\<And>t'. t_round t' = t_round t \<Longrightarrow> Q t') \<Longrightarrow> safely (turn_fail e t) Q rt"
  unfolding turn_fail_def Let_def
  by (auto intro!: wp_cancel_jobs simp: rt_emit_def intro: wp_ask_free)

lemma wp_fail_free: "(\<And>t' rt'. t_round t' = t_round t \<Longrightarrow> Q t' rt') \<Longrightarrow> wp (turn_fail e t) Q any P rt"
  unfolding turn_fail_def Let_def
  by (auto intro!: wp_cancel_jobs simp: rt_emit_def intro: wp_ask_free)

lemma wp_stopped_free:
  assumes "\<And>b t' rt'. t_round t' = t_round t \<Longrightarrow> Q (b, t') rt'"
  shows "wp (turn_stopped bl t) Q any P rt"
  unfolding turn_stopped_def wp_bnd
  by (rule wp_pump) (auto intro!: wp_fail_free assms)

lemma wp_commit_free:
  assumes "\<And>b t' rt'. t_round t' = t_round t \<Longrightarrow> Q (b, t') rt'"
  shows "wp (turn_commit inp t) Q any P rt"
  unfolding turn_commit_def wp_bnd rt_commit_def
  by (rule wp_ask_free) (auto intro!: wp_fail_free assms split: sum.split)

lemma safely_run_tools:
  fixes t :: "('b, 'v) state"
  assumes r: "one_park r" and runs: "call_key ` set runs \<subseteq> set (round_keys r)"
  shows "safely (run_tools r runs refit t) (\<lambda>it. park_ok (it_state it)) rt"
proof -
  let ?cs = "map (\<lambda>c. c\<lparr>c_jobs := job_ids t\<rparr>) runs"
  have keys: "call_key ` set ?cs = call_key ` set runs" by (simp add: image_image)
  have rec: "wp (record_calls r cs [] t) (\<lambda>x. wp (tools_rest refit x) (\<lambda>it _. park_ok (it_state it)) any broke) any broke rt1"
    if "broke rt1 \<or> call_key ` set cs \<subseteq> set (round_keys r)" for cs and rt1 :: "('b, 'v) rt"
  proof (rule wp_record_calls)
    fix r' :: "'b round" and errs js and rt' :: "('b, 'v) rt"
    assume "one_park r \<Longrightarrow> one_park r'"
    then show "wp (tools_rest refit (r', errs, t\<lparr>t_jobs := js\<rparr>)) (\<lambda>it _. park_ok (it_state it)) any broke rt'"
      using r by (cases "errors_join errs") (auto simp: tools_rest_def park_ok_def intro!: wp_fail_free)
  next
    fix rt' assume q: "quiet rt1 rt'" and "\<not> call_key ` set cs \<subseteq> set (round_keys r)"
    then have "broke rt1" using that by simp
    then show "broke rt'" using q by (auto simp: broke_def quiet_def)
  qed simp
  have tools: "wp (rt_tools ?cs) (\<lambda>cs. wp (record_calls r cs [] t)
      (\<lambda>x. wp (tools_rest refit x) (\<lambda>it _. park_ok (it_state it)) any broke) any broke) any broke rt"
    unfolding rt_tools_def
  proof (rule wp_ask)
    fix a :: "('b, 'v) answer" and as cs assume "as_tools a = Some cs"
    then have a: "a = ATools cs" by simp
    show "wp (record_calls r cs [] t) (\<lambda>x. wp (tools_rest refit x) (\<lambda>it _. park_ok (it_state it)) any broke) any broke
        (rt\<lparr>tape := as, log := log rt @ [(RTools ?cs, Some a)]\<rparr>)"
    proof (rule rec)
      have "tools_kept (RTools ?cs, Some a) \<Longrightarrow> call_key ` set cs \<subseteq> set (round_keys r)"
        unfolding a tools_kept.simps keys using runs by (rule subset_trans [rotated])
      then show "broke (rt\<lparr>tape := as, log := log rt @ [(RTools ?cs, Some a)]\<rparr>) \<or>
          call_key ` set cs \<subseteq> set (round_keys r)"
        by (auto simp: broke_def)
    qed
  qed simp
  moreover have "run_tools r runs refit t = bnd (rt_tools ?cs) (\<lambda>cs. bnd (record_calls r cs [] t) (tools_rest refit))"
    by (simp add: run_tools_def tools_rest_def)
  ultimately show ?thesis by simp
qed

text \<open>A round that is not done, and waits on no job, has a parked call when nothing of it runs.\<close>

lemma runs_loop_empty:
  "runs_loop p ans i cs = Some [] \<Longrightarrow> \<forall>k < length cs. p = Some (i + k) \<or> \<not> pending (cs ! k)"
proof (induction cs arbitrary: i)
  case (Cons c cs)
  show ?case
  proof (intro allI impI)
    fix k assume "k < length (c # cs)"
    then show "p = Some (i + k) \<or> \<not> pending ((c # cs) ! k)"
      using Cons.prems Cons.IH [of "Suc i"] by (cases k) (auto split: if_splits option.splits)
  qed
qed simp

lemma runs_loop_None: "runs_loop None ans i cs \<noteq> None"
  by (induction cs arbitrary: i) auto

lemma idle_round_parked:
  assumes "turn_runs r resume = Inr []" and "\<not> turn_waits r" and "\<not> round_complete r"
  shows "\<exists>i pk. parked_index r = Some i \<and> c_park (rd_calls r ! i) = Some pk"
proof (cases "parked_index r")
  case (Some i)
  then show ?thesis using parked_index_SomeD [OF Some] by (auto simp: parked_def)
next
  case None
  from assms(1) None have "runs_loop None (map_of resume (parked_id r)) 0 (rd_calls r) = Some []"
    by (auto simp: turn_runs_def runs_loop_None split: option.splits)
  from runs_loop_empty [OF this] have "\<forall>c \<in> set (rd_calls r). \<not> pending c"
    by (metis add_0 in_set_conv_nth option.distinct(1))
  then have "\<forall>c \<in> set (rd_calls r). c_done c"
    using assms(2) None call_states by (auto simp: turn_waits_def parked_index_None_iff)
  then show ?thesis using assms(3) by (simp add: round_complete_def)
qed

lemma safely_iter_round:
  assumes p: "park_ok t" and t: "t_round t = Some r"
  shows "safely (iter_round r resume refit t) (\<lambda>it. park_ok (it_state it)) rt"
proof -
  have r: "one_park r" using p t by (simp add: park_ok_def)
  have p': "park_ok t'" if "t_round t' = t_round t" for t' :: "('a, 'b) state" using park_ok_round [OF p that] .
  show ?thesis
  proof (cases "round_complete r")
    case True
    then show ?thesis by (auto simp: iter_round_def park_ok_def r t intro!: wp_commit_free)
  next
    case inc: False
    show ?thesis
    proof (cases "turn_runs r resume")
      case (Inl e)
      then show ?thesis using inc by (auto simp: iter_round_def intro!: wp_fail_free p')
    next
      case (Inr runs)
      obtain jruns js where j: "job_runs (rd_calls r) (t_jobs t) = (jruns, js)" by fastforce
      have tools: "safely (run_tools r runs refit t) (\<lambda>it. park_ok (it_state it)) rt"
        "safely (run_tools r jruns refit (t\<lparr>t_jobs := js\<rparr>)) (\<lambda>it. park_ok (it_state it)) rt"
        using set_turn_runs [OF Inr] set_job_runs [of "rd_calls r" "t_jobs t"]
        by (auto simp: j round_keys_def intro!: safely_run_tools r)
      have parked: "\<exists>i pk. parked_index r = Some i \<and> c_park (rd_calls r ! i) = Some pk" if "runs = []" "\<not> turn_waits r"
        using idle_round_parked [OF _ that(2) inc] Inr that(1) by simp
      have stop: "wp (turn_stopped True t) (\<lambda>x. wp (case x of (st, t1) \<Rightarrow>
          if st then ret (Return t1) else ret (Continue t1 [] refit)) (\<lambda>it _. park_ok (it_state it)) any broke) any broke rt"
        by (rule wp_stopped_free) (auto intro: p')
      have emit: "wp (rt_emit ev) (\<lambda>_ _. park_ok t) any broke rt" for ev
        unfolding rt_emit_def by (rule wp_ask_free) (rule p)
      have y: "park_ok (t\<lparr>t_yielded := True\<rparr>) = park_ok t" by (simp add: park_ok_def)
      show ?thesis
        using inc Inr tools parked stop emit
        by (auto simp: iter_round_def j y split: option.split)
    qed
  qed
qed

lemma safely_iter_infer:
  assumes "t_round t = None"
  shows "safely (iter_infer resume refit t) (\<lambda>it. park_ok (it_state it)) rt"
proof -
  have none: "park_ok t'" if "t_round t' = None" for t' :: "('a, 'b) state" using that by (simp add: park_ok_def)
  have new: "park_ok (t\<lparr>t_round := Some (new_round rp)\<rparr>)" for rp by (simp add: park_ok_def)
  show ?thesis
    using assms
    by (auto simp: iter_infer_def rt_emit_def rt_infer_def
        intro!: wp_ask_free wp_stopped_free wp_commit_free wp_fail_free none new split: sum.split)
qed

lemma safely_turn_iter:
  assumes "park_ok t"
  shows "safely (turn_iter t resume refit) (\<lambda>it. park_ok (it_state it)) rt"
proof (cases "t_round t")
  case None
  have none: "park_ok t'" if "t_round t' = None" for t' :: "('a, 'b) state" using that by (simp add: park_ok_def)
  show ?thesis
    using None
    by (auto simp: turn_iter_def iter_open_def intro!: wp_stopped_free wp_commit_free safely_iter_infer none)
next
  case (Some r)
  then show ?thesis using safely_iter_round [OF assms Some] by (simp add: turn_iter_def)
qed

lemma safely_turn_loop:
  fixes t :: "('b, 'v) state"
  assumes "park_ok t"
  shows "safely (turn_loop t resume refit) park_ok rt"
proof -
  have "wp ((\<lambda>(t, resume, refit). turn_loop t resume refit) (t, resume, refit)) (\<lambda>t' _. park_ok t') any broke rt"
  proof (rule turn_loops.loop_rule [where I = "\<lambda>s _. park_ok (fst s)"])
    show "park_ok (fst (t, resume, refit))" using assms by simp
    fix s :: "('b, 'v) state \<times> (string, string) gomap \<times> bool" and rt :: "('b, 'v) rt"
    assume "park_ok (fst s)"
    then have "safely (turn_iter (fst s) (fst (snd s)) (snd (snd s))) (\<lambda>it. park_ok (it_state it)) rt"
      by (rule safely_turn_iter)
    then show "wp (turn_step s) (\<lambda>r _. case r of Inl s' \<Rightarrow> park_ok (fst s') | Inr t' \<Rightarrow> park_ok t') any broke rt"
      by (cases s) (auto simp: turn_step_def elim!: wp_mono split: iter.splits)
  qed
  then show ?thesis by simp
qed

lemma unknown_answer_None: "unknown_answer resume i = None \<longleftrightarrow> (\<forall>k \<in> fst ` set resume. k = i)"
  by (induction resume i rule: unknown_answer.induct) auto

lemma safely_turn_drive:
  fixes t :: "('b, 'v) state"
  assumes p: "park_ok t" and r: "resume = [] \<or> (\<exists>k \<in> fst ` set resume. k \<noteq> [])"
  shows "safely (turn_drive user resume t) park_ok rt"
proof -
  have o: "safely (drive_open resume t') park_ok rt'" if "park_ok t'" for t' :: "('b, 'v) state" and rt'
    using that r unknown_answer_None [of resume "[]"]
    by (auto simp: drive_open_def split: option.split
        intro!: safely_turn_loop wp_fail_free intro: park_ok_round)
  have n: "park_ok t'" if "t_round t' = None" for t' :: "('b, 'v) state" using that by (simp add: park_ok_def)
  show ?thesis
  proof (cases user)
    case None
    then show ?thesis
      by (auto simp: turn_drive_def intro!: o p wp_commit_free intro: park_ok_round [OF p])
  next
    case (Some m)
    then show ?thesis by (auto simp: turn_drive_def intro!: o n wp_commit_free)
  qed
qed

end
