(* ===== verification/Turn_Props.thy ===== *)
theory Turn_Props
  imports Turn_Safety
begin

text \<open>
  What makes a turn and a session's run correct (session/orchestrator/turn.go, session.go):
  the properties of the requests they make, of how they end, and of how they replay.
\<close>

section \<open>What an accepted log shows\<close>

text \<open>The revisions a log's commits chain, from rv; None when a commit names another base.\<close>

fun revs :: "string \<Rightarrow> (('b, 'v) request \<times> ('b, 'v) answer option) list \<Rightarrow> string option" where
  "revs rv [] = Some rv"
| "revs rv ((RCommit base inp, a) # es) =
     (if base \<noteq> rv then None
      else revs (case a of Some (ACommit (Inr rv')) \<Rightarrow> rv' | _ \<Rightarrow> rv) es)"
| "revs rv (e # es) = revs rv es"

lemma revs_append: "revs rv (xs @ ys) = (case revs rv xs of None \<Rightarrow> None | Some rv' \<Rightarrow> revs rv' ys)"
  by (induction rv xs rule: revs.induct) auto

text \<open>A commit of a round without users is of a round whose calls are all done.\<close>

fun commit_whole :: "('b, 'v) request \<times> ('b, 'v) answer option \<Rightarrow> bool" where
  "commit_whole (RCommit base inp, a) \<longleftrightarrow>
     (case ci_round inp of None \<Rightarrow> True | Some r \<Rightarrow> ci_users inp \<noteq> [] \<or> round_complete r)"
| "commit_whole _ \<longleftrightarrow> True"

fun is_emit :: "('b, 'v) request \<times> ('b, 'v) answer option \<Rightarrow> bool" where
  "is_emit (REmit ev, a) \<longleftrightarrow> True"
| "is_emit _ \<longleftrightarrow> False"

fun is_collapse :: "('b, 'v) request \<times> ('b, 'v) answer option \<Rightarrow> bool" where
  "is_collapse (RCommit base inp, a) \<longleftrightarrow> ci_collapse inp"
| "is_collapse _ \<longleftrightarrow> False"

fun is_reply :: "('b, 'v) request \<times> ('b, 'v) answer option \<Rightarrow> bool" where
  "is_reply (RInfer, Some (AInfer (Inr rp))) \<longleftrightarrow> True"
| "is_reply _ \<longleftrightarrow> False"

lemma proto_commit_rev: "proto_commit p inp = Some q \<Longrightarrow> pt_rev q = pt_rev p \<and> pt_end q = pt_end p"
  by (auto simp: proto_commit_def Let_def split: if_splits option.splits)

lemma proto_infer_rev [simp]:
  "pt_rev (proto_infer p res) = pt_rev p" "pt_end (proto_infer p res) = pt_end p"
  by (auto simp: proto_infer_def split: sum.split)

lemma proto_step_revs:
  "proto_step p e = Some q \<Longrightarrow> revs (pt_rev p) (e # es) = revs (pt_rev q) es"
  by (induction p e rule: proto_step.induct)
    (auto dest!: proto_commit_rev split: if_splits option.splits answer.splits sum.splits)

lemma proto_revs: "proto_run p es = Some q \<Longrightarrow> revs (pt_rev p) es = Some (pt_rev q)"
proof (induction es arbitrary: p)
  case (Cons e es)
  then obtain p' where "proto_step p e = Some p'" "proto_run p' es = Some q"
    by (auto split: option.splits)
  then show ?case using Cons.IH proto_step_revs by metis
qed simp

lemma proto_commit_whole:
  "proto_commit p inp = Some q \<Longrightarrow> ci_round inp = Some r \<Longrightarrow> ci_users inp \<noteq> [] \<or> round_complete r"
  by (auto simp: proto_commit_def Let_def round_complete_def split: if_splits)

lemma proto_whole: "proto_run p es = Some q \<Longrightarrow> e \<in> set es \<Longrightarrow> commit_whole e"
proof (induction es arbitrary: p)
  case (Cons e1 es)
  then obtain p' where s: "proto_step p e1 = Some p'" "proto_run p' es = Some q"
    by (auto split: option.splits)
  have "commit_whole e1"
    using s(1) by (induction p e1 rule: proto_step.induct)
      (auto dest: proto_commit_whole split: if_splits option.splits)
  then show ?case using Cons s by auto
qed simp

lemma proto_step_end:
  "proto_step p e = Some q \<Longrightarrow> pt_end p = None \<and>
     (if is_emit e then \<exists>ev a. e = (REmit ev, a) \<and> pt_end q = Some (ev_type ev) else pt_end q = None)"
  by (induction p e rule: proto_step.induct)
    (auto dest: proto_commit_rev split: if_splits option.splits answer.splits sum.splits)

lemma proto_ends:
  "proto_run p es = Some q \<Longrightarrow> pt_end p = None \<Longrightarrow>
     (case pt_end q of
        None \<Rightarrow> filter is_emit es = []
      | Some ty \<Rightarrow> \<exists>ev a es'. es = es' @ [(REmit ev, a)] \<and> ev_type ev = ty \<and> filter is_emit es' = [])"
proof (induction es arbitrary: p)
  case (Cons e es)
  then obtain p' where s: "proto_step p e = Some p'" "proto_run p' es = Some q"
    by (auto split: option.splits)
  note st = proto_step_end [OF s(1)]
  show ?case
  proof (cases "is_emit e")
    case True
    then obtain ev a where e: "e = (REmit ev, a)" "pt_end p' = Some (ev_type ev)" using st by auto
    have "es = []" using s(2) e(2) proto_step_end by (cases es) (fastforce split: option.splits)+
    then show ?thesis using e s(2) by auto
  next
    case False
    then have "pt_end p' = None" using st by simp
    from Cons.IH [OF s(2) this] show ?thesis
      using False by (cases "pt_end q") (auto intro: exI [of _ "e # _"] Cons_eq_appendI)
  qed
qed simp

lemma proto_step_collapsed:
  "proto_step p e = Some q \<Longrightarrow> pt_phase p = Collapsed \<or> pt_failing p \<Longrightarrow> \<not> is_reply e \<Longrightarrow>
   \<not> is_collapse e \<and> (pt_phase q = Collapsed \<or> pt_failing q)"
  by (induction p e rule: proto_step.induct)
    (auto simp: proto_commit_def proto_infer_def Let_def
      split: if_splits option.splits answer.splits sum.splits)

lemma proto_collapsed:
  "proto_run p es = Some q \<Longrightarrow> pt_phase p = Collapsed \<or> pt_failing p \<Longrightarrow> \<forall>e \<in> set es. \<not> is_reply e \<Longrightarrow>
   \<forall>e \<in> set es. \<not> is_collapse e"
proof (induction es arbitrary: p)
  case (Cons e es)
  then obtain p' where s: "proto_step p e = Some p'" "proto_run p' es = Some q"
    by (auto split: option.splits)
  then show ?case using Cons proto_step_collapsed [OF s(1)] by auto
qed simp

lemma proto_step_collapse:
  "proto_step p e = Some q \<Longrightarrow> is_collapse e \<Longrightarrow> pt_phase q = Collapsed \<or> pt_failing q"
  by (induction p e rule: proto_step.induct)
    (auto simp: proto_commit_def Let_def split: if_splits option.splits answer.splits sum.splits)

lemma proto_collapse_once:
  assumes "proto_run p (es1 @ c1 # es2 @ c2 # es3) = Some q" and "is_collapse c1" and "is_collapse c2"
  shows "\<exists>e \<in> set es2. is_reply e"
proof (rule ccontr)
  assume none: "\<not> ?thesis"
  obtain p1 p2 where p: "proto_step p1 c1 = Some p2" "proto_run p2 (es2 @ c2 # es3) = Some q"
    using assms(1) by (auto simp: proto_run_append split: option.splits)
  have c: "pt_phase p2 = Collapsed \<or> pt_failing p2" by (rule proto_step_collapse [OF p(1) assms(2)])
  from p(2) obtain p3 where r: "proto_run p2 (es2 @ [c2]) = Some p3"
    by (auto simp: proto_run_append split: option.splits)
  have "\<not> is_reply c2" using assms(3) by (cases c2 rule: is_collapse.cases) auto
  with none have "\<forall>e \<in> set (es2 @ [c2]). \<not> is_reply e" by auto
  from proto_collapsed [OF r c this] assms(3) show False by simp
qed

section \<open>What a session's run keeps\<close>

text \<open>
  A session between its turns: a parked one has its round open and no outcome, a suspended
  one is in the middle of a turn, a failed one has its error.
\<close>

definition session_inv :: "('b, 'v) state \<Rightarrow> bool" where
  "session_inv t \<longleftrightarrow>
     (t_yielded t \<longrightarrow> t_terminal t = None \<and> t_round t \<noteq> None \<and> \<not> t_closed t) \<and>
     (t_suspended t \<longrightarrow> t_terminal t = None \<and> \<not> t_yielded t \<and> \<not> t_closed t) \<and>
     (t_terminal t = Some Failed \<longrightarrow> t_err t \<noteq> None) \<and>
     (t_terminal t = None \<or> t_terminal t = Some Complete \<or> t_terminal t = Some Failed)"

text \<open>\<open>sound\<close>: from revision r0, the log's commits chain to rv, each of a whole round.\<close>

definition sound :: "string \<Rightarrow> (('b, 'v) request \<times> ('b, 'v) answer option) list \<Rightarrow> string \<Rightarrow> ('b, 'v) rt \<Rightarrow> bool" where
  "sound r0 l0 rv rt \<longleftrightarrow>
     (\<exists>ext. log rt = l0 @ ext \<and> revs r0 ext = Some rv \<and> (\<forall>e \<in> set ext. commit_whole e))"

definition sound_log :: "string \<Rightarrow> (('b, 'v) request \<times> ('b, 'v) answer option) list \<Rightarrow> ('b, 'v) rt \<Rightarrow> bool" where
  "sound_log r0 l0 rt \<longleftrightarrow> (\<exists>rv. sound r0 l0 rv rt)"

lemma sound_refl: "sound r (log rt) r rt"
  by (simp add: sound_def)

lemma sound_trans: "sound r0 l0 r1 rt \<Longrightarrow> sound r1 (log rt) r2 rt' \<Longrightarrow> sound r0 l0 r2 rt'"
  by (auto simp: sound_def revs_append)

lemma sound_log_trans: "sound r0 l0 r1 rt \<Longrightarrow> sound_log r1 (log rt) rt' \<Longrightarrow> sound_log r0 l0 rt'"
  by (auto simp: sound_log_def dest: sound_trans)

fun is_commit :: "('b, 'v) request \<Rightarrow> bool" where
  "is_commit (RCommit base inp) = True"
| "is_commit _ = False"

lemma sound_step: "\<not> is_commit rq \<Longrightarrow> sound r (log rt) r (rt\<lparr>tape := as, log := log rt @ [(rq, a)]\<rparr>)"
  by (cases rq) (auto simp: sound_def)

lemma sound_quiet: "quiet rt rt' \<Longrightarrow> sound r (log rt) r rt'"
proof -
  have "revs r es = Some r \<and> (\<forall>e \<in> set es. commit_whole e)" if "\<forall>e \<in> set es. neutral_request (fst e)" for es :: "(('a, 'b) request \<times> ('a, 'b) answer option) list"
    using that
  proof (induction es)
    case (Cons e es)
    then show ?case by (cases e; cases "fst e") auto
  qed simp
  then show "quiet rt rt' \<Longrightarrow> sound r (log rt) r rt'" by (auto simp: quiet_def sound_def)
qed

lemma sound_accepted: "accepted p0 (log rt) p rt' \<Longrightarrow> sound (pt_rev p0) (log rt) (pt_rev p) rt'"
  using proto_revs proto_whole unfolding accepted_def sound_def by blast

text \<open>The step's postcondition, and the rule for its requests that are no commit.\<close>

definition leaves :: "string \<Rightarrow> (('b, 'v) request \<times> ('b, 'v) answer option) list \<Rightarrow> ('b, 'v) state \<Rightarrow>
  ('b, 'v) rt \<Rightarrow> bool" where
  "leaves r0 l0 t rt \<longleftrightarrow> sound r0 l0 (t_rev t) rt \<and> session_inv t"

text \<open>The same of an idle wake's result, whose flag says whether the run is suspended.\<close>

definition leaves_idle :: "string \<Rightarrow> (('b, 'v) request \<times> ('b, 'v) answer option) list \<Rightarrow>
  ('b, 'v) state \<times> bool \<Rightarrow> ('b, 'v) rt \<Rightarrow> bool" where
  "leaves_idle r0 l0 s rt \<longleftrightarrow> leaves r0 l0 (fst s) rt \<and> (t_suspended (fst s) \<longrightarrow> snd s)"

abbreviation soundly :: "string \<Rightarrow> (('b, 'v) request \<times> ('b, 'v) answer option) list \<Rightarrow>
  ('b, 'v, 'a) act \<Rightarrow> ('a \<Rightarrow> ('b, 'v) rt \<Rightarrow> bool) \<Rightarrow> ('b, 'v) rt \<Rightarrow> bool" where
  "soundly r0 l0 m Q rt \<equiv> wp m Q (sound_log r0 l0) (sound_log r0 l0) rt"

lemma soundly_ask:
  assumes "sound r0 l0 r rt" and "\<not> is_commit rq" and "\<And>x rt'. sound r0 l0 r rt' \<Longrightarrow> Q x rt'"
  shows "soundly r0 l0 (ask rq dec) Q rt"
  using sound_trans [OF assms(1) sound_step [OF assms(2)]]
  by (intro wp_ask) (auto intro!: assms(3) simp: sound_log_def)

lemma soundly_drive:
  assumes s: "sound r0 l0 (t_rev t) rt"
    and t: "t_terminal t = None" "\<not> t_yielded t" "\<not> t_closed t"
  shows "soundly r0 l0 (runner_drive user resume t) (leaves_idle r0 l0) rt"
proof -
  have w: "protocol (proto_start t) (log rt) (turn_drive user resume t) (ends (proto_start t) (log rt)) rt"
    by (rule protocol_turn_drive [OF t(1,2)])
  have k: "wp (turn_drive user resume t) (keeps t (log rt)) any any rt"
    by (rule keeps_turn_drive [OF keeps_refl])
  have fin: "leaves r0 l0 (if t_terminal t' \<noteq> None \<or> t_yielded t' then t'\<lparr>t_suspended := False\<rparr> else t') rt'"
    if e: "ends (proto_start t) (log rt) t' rt'" and kk: "keeps t (log rt) t' rt'" for t' rt'
  proof -
    obtain p where p: "accepted (proto_start t) (log rt) p rt'" "ended p t'" using e by (auto simp: ends_def)
    have "sound (t_rev t) (log rt) (t_rev t') rt'"
      using sound_accepted [OF p(1)] p(2) by (simp add: proto_start_def ended_def)
    then have "sound r0 l0 (t_rev t') rt'" by (rule sound_trans [OF s])
    moreover have "session_inv (if t_terminal t' \<noteq> None \<or> t_yielded t' then t'\<lparr>t_suspended := False\<rparr> else t')"
      using p(2) kk t(3) by (auto simp: session_inv_def ended_def keeps_def split: option.splits)
    ultimately show ?thesis by (auto simp: leaves_def)
  qed
  have stop: "sound_log r0 l0 rt'" if "okay (proto_start t) (log rt) rt'" for rt'
    using that sound_accepted s by (fastforce simp: okay_def sound_log_def proto_start_def dest: sound_trans)
  show ?thesis
    unfolding runner_drive_def wp_bnd Let_def wp_ret
  proof (rule wp_mono [OF wp_conj [OF w k]])
    fix t' rt' assume "ends (proto_start t) (log rt) t' rt' \<and> keeps t (log rt) t' rt'"
    then show "leaves_idle r0 l0 (if t_terminal t' \<noteq> None \<or> t_yielded t' then t'\<lparr>t_suspended := False\<rparr> else t',
        t_suspended (if t_terminal t' \<noteq> None \<or> t_yielded t' then t'\<lparr>t_suspended := False\<rparr> else t')) rt'"
      using fin [of t' rt'] by (simp add: leaves_idle_def)
  qed (simp_all add: stop)
qed

lemma soundly_run_turn:
  assumes s: "sound r0 l0 (t_rev t) rt" and c: "\<not> t_closed t"
  shows "soundly r0 l0 (run_turn ts user resume auth extra t) (leaves_idle r0 l0) rt"
  unfolding run_turn_def rt_begin_def wp_bnd
proof (rule soundly_ask [OF s])
  fix span rt' assume "sound r0 l0 (t_rev t) rt'"
  then show "soundly r0 l0 (runner_drive user resume (start_turn auth extra (t\<lparr>t_span := span\<rparr>)))
      (leaves_idle r0 l0) rt'"
    using c by (intro soundly_drive) (cases "extra = []"; simp add: start_turn_def queue_state_def)+
qed simp

lemma soundly_handle_idle:
  assumes l: "leaves r0 l0 t rt" and c: "\<not> t_closed t" "\<not> t_suspended t"
  shows "soundly r0 l0 (handle_idle w t) (leaves_idle r0 l0) rt"
proof -
  have s: "sound r0 l0 (t_rev t) rt" and inv: "session_inv t" using l by (auto simp: leaves_def)
  show ?thesis
  proof (cases w)
    case (WakePrompt p tr)
    have q: "t_rev (apply_queued p t) = t_rev t" "t_closed (apply_queued p t) = t_closed t"
      by (simp_all add: apply_queued_def split: option.split)
    have st: "leaves_idle r0 l0 (steer p t, False) rt"
      using l c by (auto simp: leaves_idle_def leaves_def session_inv_def steer_def queue_state_def Let_def split: option.split)
    have wk: "soundly r0 l0 (run_worker task (t\<lparr>t_trace := tr\<rparr>)) (\<lambda>t'. leaves_idle r0 l0 (t', False)) rt" if "\<not> t_yielded t" for task
      unfolding run_worker_def rt_begin_def rt_job_def rt_emit_def wp_bnd
      using inv that c
      by (intro soundly_ask [OF s] soundly_ask)
        (auto intro!: soundly_ask simp: leaves_idle_def leaves_def session_inv_def split: sum.split)
    show ?thesis
      using st wk soundly_run_turn [where t = "(apply_queued p t)\<lparr>t_trace := tr\<rparr>"] s c
      by (auto simp: WakePrompt Let_def q)
  next
    case (WakeResume r tr)
    then show ?thesis using s c by (auto intro!: soundly_run_turn)
  next
    case WakeCancel
    have "soundly r0 l0 (cancel_idle t) (\<lambda>t'. leaves_idle r0 l0 (t', False)) rt"
      unfolding cancel_idle_def wp_bnd Let_def
    proof (rule wp_cancel_jobs)
      fix rt' assume "quiet rt rt'"
      then have s': "sound r0 l0 (t_rev t) rt'" by (intro sound_trans [OF s] sound_quiet)
      show "soundly r0 l0 (if \<not> t_yielded (t\<lparr>t_jobs := [], t_inbox := [], t_next_mcp := None\<rparr>)
            then ret (t\<lparr>t_jobs := [], t_inbox := [], t_next_mcp := None\<rparr>)
            else bnd (rt_emit (failure_event err_canceled))
              (\<lambda>_. ret (t\<lparr>t_jobs := [], t_inbox := [], t_next_mcp := None, t_yielded := False, t_state := None,
                 t_terminal := Some Failed, t_err := Some err_canceled\<rparr>))) (\<lambda>t'. leaves_idle r0 l0 (t', False)) rt'"
        using inv s' c by (auto simp: rt_emit_def leaves_idle_def leaves_def session_inv_def intro!: soundly_ask [OF s'])
    next
      fix rt' assume "quiet rt rt'"
      then show "sound_log r0 l0 rt'" using sound_trans [OF s sound_quiet] by (auto simp: sound_log_def)
    qed
    then show ?thesis using WakeCancel by simp
  next
    case (WakeJob e)
    then show ?thesis
      using l c by (auto simp: leaves_idle_def leaves_def session_inv_def job_ended_def Let_def split: option.split)
  qed (use l c in \<open>auto simp: leaves_idle_def leaves_def session_inv_def\<close>)
qed

lemma soundly_session_step:
  assumes l: "leaves_idle r0 l0 s rt"
  shows "soundly r0 l0 (session_step s)
    (\<lambda>x rt'. case x of Inl s' \<Rightarrow> leaves_idle r0 l0 s' rt' | Inr s' \<Rightarrow> leaves_idle r0 l0 s' rt') rt"
proof -
  obtain t susp where s: "s = (t, susp)" by (cases s)
  have l': "leaves r0 l0 t rt" "t_suspended t \<Longrightarrow> susp" using l by (auto simp: s leaves_idle_def)
  have idle: "soundly r0 l0 (handle_idle w t1) (leaves_idle r0 l0) rt'"
    if "leaves r0 l0 t rt'" "\<not> t_closed t" "\<not> susp" "t1 = t\<lparr>t_held := ws\<rparr>" for w t1 ws rt'
    by (rule soundly_handle_idle) (use that l' in \<open>auto simp: leaves_def session_inv_def\<close>)
  have keep: "leaves r0 l0 t rt'" if "sound r0 l0 (t_rev t) rt'" for rt'
    using that l'(1) by (simp add: leaves_def)
  have nxt: "soundly r0 l0 (next_wake t) (\<lambda>(w, t1) rt'. leaves r0 l0 t rt' \<and> (\<exists>ws. t1 = t\<lparr>t_held := ws\<rparr>)) rt"
  proof (cases "t_held t")
    case Nil
    have e: "\<exists>ws. t = t\<lparr>t_held := ws\<rparr>" by (rule exI [of _ "t_held t"]) simp
    have "soundly r0 l0 (rt_next True) (\<lambda>w rt'. leaves r0 l0 t rt') rt"
      unfolding rt_next_def by (rule soundly_ask [of _ _ "t_rev t"]) (use l'(1) keep in \<open>auto simp: leaves_def\<close>)
    then show ?thesis using Nil e by (simp add: next_wake_def)
  next
    case (Cons w ws)
    then show ?thesis using l'(1) by (auto simp: next_wake_def)
  qed
  show ?thesis
  proof (cases "t_closed t \<or> susp \<or> task_done t")
    case True
    then show ?thesis using l by (simp add: s session_step_def)
  next
    case False
    have "soundly r0 l0 (bnd (next_wake t) (\<lambda>(w, t1). bnd (handle_idle w t1) (\<lambda>s. ret (Inl s))))
        (\<lambda>x rt'. case x of Inl s' \<Rightarrow> leaves_idle r0 l0 s' rt' | Inr s' \<Rightarrow> leaves_idle r0 l0 s' rt') rt"
      by (subst wp_bnd, rule wp_mono [OF nxt]) (use False in \<open>auto intro!: idle\<close>)
    then show ?thesis using False by (simp add: s session_step_def)
  qed
qed

lemma soundly_session_run:
  assumes inv: "session_inv t"
  shows "soundly (t_rev t) (log rt) (session_run t) (\<lambda>x. leaves (t_rev t) (log rt) (snd x)) rt"
proof -
  let ?r0 = "t_rev t" and ?l0 = "log rt"
  have start: "leaves ?r0 ?l0 t rt" using inv by (simp add: leaves_def sound_refl)
  have loop: "soundly ?r0 ?l0 (session_loop s) (leaves_idle ?r0 ?l0) rt'" if "leaves_idle ?r0 ?l0 s rt'" for s rt'
    by (rule session_loops.loop_rule [where I = "leaves_idle ?r0 ?l0"]) (use that soundly_session_step in auto)
  have cancel: "soundly ?r0 ?l0 (cancel_each js) (\<lambda>_. leaves ?r0 ?l0 t') rt'" if "leaves ?r0 ?l0 t' rt'" for js t' rt'
    by (rule wp_cancel_each)
      (use that in \<open>auto simp: leaves_def sound_log_def intro: sound_trans [OF _ sound_quiet]\<close>)
  have fin: "soundly ?r0 ?l0 (bnd (session_loop s) (\<lambda>(t1, susp). ret (if susp then SuspendedEnd
        else if t_task t1 then task_result t1 else Done (t_result t1) None, t1)))
      (\<lambda>x. leaves ?r0 ?l0 (snd x)) rt'" if "leaves_idle ?r0 ?l0 s rt'" for s rt'
    using loop [OF that] by (auto elim!: wp_mono simp: leaves_idle_def)
  have begun: "soundly ?r0 ?l0 (rt_begin ts)
      (\<lambda>span. soundly ?r0 ?l0 (runner_drive None [] (t\<lparr>t_span := span, t_suspended := False\<rparr>)) (leaves_idle ?r0 ?l0)) rt"
    if "t_suspended t" for ts
    unfolding rt_begin_def
    by (rule soundly_ask [OF sound_refl]) (use that inv in \<open>auto intro!: soundly_drive simp: session_inv_def\<close>)
  have "soundly ?r0 ?l0 (if t_suspended t
          then bnd (rt_begin \<lparr>ts_kind = KindContinue, ts_prompt_len = 0, ts_resumes = 0,
                              ts_parent = t_trace t, ts_link = []\<rparr>)
                 (\<lambda>span. runner_drive None [] (t\<lparr>t_span := span, t_suspended := False\<rparr>))
          else ret (t, False)) (leaves_idle ?r0 ?l0) rt"
    using start begun by (auto simp: leaves_idle_def)
  then have "soundly ?r0 ?l0 (runner_run t) (\<lambda>x. leaves ?r0 ?l0 (snd x)) rt"
    unfolding runner_run_def by (subst wp_bnd, elim wp_mono) (rule fin)
  then show ?thesis
    unfolding session_run_def wp_bnd
    by (rule wp_mono) (auto split: run_end.split intro!: cancel)
qed

section \<open>The properties of one turn\<close>

lemma drive_accepted:
  assumes "t_terminal t = None" and "\<not> t_yielded t"
  obtains ext p where "log (snd (turn_drive user resume t rt)) = log rt @ ext"
    "proto_run (proto_start t) ext = Some p"
    "\<And>t'. fst (turn_drive user resume t rt) = Ret t' \<Longrightarrow> ended p t'"
proof -
  note w = protocol_turn_drive [OF assms, where rt = rt and user = user and resume = resume, unfolded wp_def]
  obtain o1 r1 where d: "turn_drive user resume t rt = (o1, r1)" by (cases "turn_drive user resume t rt")
  show thesis
  proof (cases o1)
    case (Ret t')
    then show thesis using w d that by (auto simp: ends_def accepted_def)
  qed (use w d that in \<open>auto simp: okay_def accepted_def\<close>)
qed

text \<open>A session to run the properties on: created by the model's NewState, with no mounts.\<close>

definition demo_identity :: identity where
  "demo_identity = \<lparr>id_specialist = [], id_worker = [], id_parent = [], id_mounts = [], id_task = False\<rparr>"

definition demo_state :: "(unit, unit) state" where
  "demo_state = new_state ''s'' demo_identity None None None"

definition demo_reply :: reply where
  "demo_reply = \<lparr>rp_messages = [], rp_calls = [], rp_result = ''done'', rp_timeouts = [], rp_input_tokens = 0\<rparr>"

definition demo_tape :: "(unit, unit) answer list" where
  "demo_tape = [ACommit (Inr ''r1''), ANext NoWake, AInfer (Inr demo_reply), ACommit (Inr ''r2''), ANext NoWake, AEmit]"

definition demo_rt :: "(unit, unit) rt" where
  "demo_rt = \<lparr>tape = demo_tape, log = []\<rparr>"

definition demo_user :: message where
  "demo_user = text_message RoleUser ''hi''"

definition demo_prompt :: "unit prompt" where
  "demo_prompt = \<lparr>pr_text = ''hi'', pr_user_message = None, pr_mcp = None, pr_auth = no_auth, pr_state = []\<rparr>"

definition demo_run_rt :: "(unit, unit) rt" where
  "demo_run_rt =
     \<lparr>tape = [ANext (WakePrompt demo_prompt []), ABegin []] @ demo_tape @ [ANext WakeClose], log = []\<rparr>"

definition demo_final :: "(unit, unit) state" where
  "demo_final = demo_state\<lparr>t_rev := ''r2'', t_result := ''done'', t_terminal := Some Complete,
     t_finished := True, t_closed := True\<rparr>"

text \<open>The definitions a run on a concrete journal unfolds.\<close>

lemmas turn_eval = bnd_def ret_def panic_def ask_def rt_defs turn_drive_def drive_open_def turn_loop.simps
  turn_iter_def iter_open_def iter_round_def iter_infer_def run_tools_def turn_stopped_def turn_commit_def
  turn_fail_def cancel_jobs_def start_jobs_def pump.simps

lemmas run_eval = turn_eval session_run_def runner_run_def session_loop.simps session_step_def next_wake_def
  task_done_def run_turn_def runner_drive_def start_turn_def queue_state_def apply_queued_def cancel_idle_def

lemmas demo_defs = demo_run_rt_def demo_rt_def demo_tape_def demo_prompt_def demo_state_def new_state_def
  demo_identity_def demo_reply_def demo_final_def demo_user_def

lemma demo_session_run: "fst (session_run demo_state demo_run_rt) = Ret (Done ''done'' None, demo_final)"
  by (simp add: run_eval demo_defs Let_def)

lemma demo_turn_drive:
  "fst (turn_drive (Some demo_user) [] demo_state demo_rt) =
     Ret (demo_state\<lparr>t_rev := ''r2'', t_result := ''done'', t_terminal := Some Complete, t_finished := True\<rparr>)"
  by (simp add: turn_eval demo_defs Let_def)

lemma demo_state_sel [simp]:
  "t_terminal demo_state = None" "\<not> t_yielded demo_state" "t_round demo_state = None" "t_inbox demo_state = []"
  "t_jobs demo_state = []" "\<not> t_cancelled demo_state" "\<not> t_suspended demo_state" "\<not> t_finished demo_state"
  "\<not> t_closed demo_state" "t_state demo_state = None" "t_rev demo_state = []" "t_held demo_state = []"
  "\<not> t_task demo_state"
  by (simp_all add: demo_state_def new_state_def demo_identity_def Let_def)

lemma demo_session_inv: "session_inv demo_state"
  by (simp add: session_inv_def)

text \<open>
  C1. A turn only makes the requests, in the order, that the automaton of the scheduler's
  protocol takes from the turn's starting state, whatever the runtime answers; and a turn
  that returns ended the way its last event says: parked on an interrupt with its round
  open, complete with no job running and an empty inbox, failed with its error, or
  suspended without an event.
\<close>

theorem drive_follows_protocol:
  assumes "t_terminal t = None" and "\<not> t_yielded t"
  shows "\<exists>ext p. log (snd (turn_drive user resume t rt)) = log rt @ ext \<and>
    proto_run (proto_start t) ext = Some p \<and>
    (\<forall>t'. fst (turn_drive user resume t rt) = Ret t' \<longrightarrow> ended p t')"
  using drive_accepted [OF assms] by metis

theorem drive_follows_protocol_witness:
  "\<exists>ext p. log (snd (turn_drive (Some demo_user) [] demo_state demo_rt)) = log demo_rt @ ext \<and>
    proto_run (proto_start demo_state) ext = Some p \<and>
    (\<forall>t'. fst (turn_drive (Some demo_user) [] demo_state demo_rt) = Ret t' \<longrightarrow> ended p t')"
  by (rule drive_follows_protocol) simp_all

lemma run_sound:
  assumes "session_inv t"
  obtains ext rv where "log (snd (session_run t rt)) = log rt @ ext" "revs (t_rev t) ext = Some rv"
    "\<forall>e \<in> set ext. commit_whole e"
    "\<And>e t'. fst (session_run t rt) = Ret (e, t') \<Longrightarrow> rv = t_rev t' \<and> session_inv t'"
proof -
  obtain o1 r1 where r: "session_run t rt = (o1, r1)" by (cases "session_run t rt")
  note w = soundly_session_run [OF assms, of rt, unfolded wp_def r]
  show thesis
  proof (cases o1)
    case (Ret x)
    then show thesis using w r that by (cases x) (auto simp: leaves_def sound_def)
  qed (use w r that in \<open>auto simp: sound_log_def sound_def\<close>)
qed

text \<open>
  C2. Over a session's whole run, every commit names the revision the commit before it
  returned (the session's own at first), and the state the run leaves holds the last one:
  no commit is applied to a snapshot it was not made for, and none is lost.
\<close>

theorem run_commits_chain:
  assumes "session_inv t"
  shows "\<exists>ext rv. log (snd (session_run t rt)) = log rt @ ext \<and> revs (t_rev t) ext = Some rv \<and>
    (\<forall>e t'. fst (session_run t rt) = Ret (e, t') \<longrightarrow> t_rev t' = rv)"
  by (rule run_sound [OF assms, of rt]) metis

theorem run_commits_chain_witness:
  "\<exists>ext rv. log (snd (session_run demo_state demo_rt)) = log demo_rt @ ext \<and> revs (t_rev demo_state) ext = Some rv \<and>
    (\<forall>e t'. fst (session_run demo_state demo_rt) = Ret (e, t') \<longrightarrow> t_rev t' = rv)"
  by (rule run_commits_chain) (rule demo_session_inv)

text \<open>
  C3. Over a session's whole run, a round is committed on its own only when every one of
  its calls is done: the model never sees a round with a result missing, in whatever order
  wakes, errors and job ends come. (A prompt that moves past a failed turn's round commits
  it with the prompt; that commit cancels the calls without a result.)
\<close>

theorem run_commits_whole:
  assumes "session_inv t"
  shows "\<exists>ext. log (snd (session_run t rt)) = log rt @ ext \<and> (\<forall>e \<in> set ext. commit_whole e)"
  by (rule run_sound [OF assms, of rt]) metis

theorem run_commits_whole_witness:
  "\<exists>ext. log (snd (session_run demo_state demo_rt)) = log demo_rt @ ext \<and> (\<forall>e \<in> set ext. commit_whole e)"
  by (rule run_commits_whole) (rule demo_session_inv)

text \<open>
  C11. A run leaves the session well formed: parked only with its round open and no outcome,
  suspended only in the middle of a turn, failed only with its error. So a status shows a
  parked session as running and waiting, and a suspended one can be carried on.
\<close>

theorem run_keeps_session_inv:
  assumes "session_inv t" and "fst (session_run t rt) = Ret (e, t')"
  shows "session_inv t' \<and>
    (t_yielded t' \<longrightarrow> st_waiting (status_of t') \<and> st_state (status_of t') = Running)"
proof -
  have "session_inv t'" by (rule run_sound [OF assms(1), of rt]) (use assms(2) in blast)
  then show ?thesis by (auto simp: status_of_def session_inv_def Let_def)
qed

theorem run_keeps_session_inv_witness: "session_inv demo_final"
  using run_keeps_session_inv [OF demo_session_inv demo_session_run] by simp

text \<open>
  C10. A turn that returns emitted one end event, as the last of its requests, or was
  suspended and emitted none; and the event is the state's outcome.
\<close>

theorem drive_one_end:
  assumes "t_terminal t = None" and "\<not> t_yielded t"
    and "fst (turn_drive user resume t rt) = Ret t'"
  shows "\<exists>ext. log (snd (turn_drive user resume t rt)) = log rt @ ext \<and>
    (if t_terminal t' = None \<and> \<not> t_yielded t' then t_suspended t' \<and> filter is_emit ext = []
     else \<exists>ev a es. ext = es @ [(REmit ev, a)] \<and> filter is_emit es = [] \<and>
       ev_type ev = (if t_yielded t' then EventInterrupt
                     else if t_terminal t' = Some Complete then EventComplete else EventError))"
proof -
  obtain ext p where e: "log (snd (turn_drive user resume t rt)) = log rt @ ext"
    and p: "proto_run (proto_start t) ext = Some p" and fin: "ended p t'"
    using drive_accepted [OF assms(1,2), of user resume rt] assms(3) by metis
  have "pt_end (proto_start t) = None" by (simp add: proto_start_def)
  from proto_ends [OF p this] fin e show ?thesis
    by (cases "pt_end p") (auto simp: ended_def intro!: exI [of _ ext])
qed

theorem drive_one_end_witness:
  "\<exists>ext. log (snd (turn_drive (Some demo_user) [] demo_state demo_rt)) = log demo_rt @ ext \<and>
    (\<exists>ev a es. ext = es @ [(REmit ev, a)] \<and> filter is_emit es = [] \<and> ev_type ev = EventComplete)"
  using drive_one_end [OF _ _ demo_turn_drive] by simp

text \<open>
  Between two collapses of the window, the model answered: a turn never collapses again
  on a second refusal for length, so it cannot loop on one.
\<close>

lemma drive_collapse_once:
  assumes "t_terminal t = None" and "\<not> t_yielded t"
    and "log (snd (turn_drive user resume t rt)) = log rt @ es1 @ c1 # es2 @ c2 # es3"
    and "is_collapse c1" and "is_collapse c2"
  shows "\<exists>e \<in> set es2. is_reply e"
proof -
  obtain ext p where e: "log (snd (turn_drive user resume t rt)) = log rt @ ext"
    and p: "proto_run (proto_start t) ext = Some p"
    using drive_accepted [OF assms(1,2), of user resume rt] by metis
  from e assms(3) have "ext = es1 @ c1 # es2 @ c2 # es3" by simp
  with p show ?thesis using proto_collapse_once assms(4,5) by blast
qed

text \<open>A turn that the model refuses for length twice, with a tool round between.\<close>

definition demo_call :: "unit call" where
  "demo_call = new_call \<lparr>tc_id = ''1'', tc_type = [], tc_call_id = ''1'', tc_name = ''f'', tc_title = [],
     tc_category = [], tc_namespace = [], tc_arguments = [], tc_status = []\<rparr> 0"

definition demo_long_rt :: "(unit, unit) rt" where
  "demo_long_rt =
     \<lparr>tape = [ACommit (Inr ''r1''), ANext NoWake, AInfer (Inl (mk_err ''long'' [ContextLength])), ACommit (Inr ''r2''),
              ANext NoWake, AInfer (Inr (demo_reply\<lparr>rp_calls := [c_tool demo_call]\<rparr>)),
              ATools [demo_call\<lparr>c_done := True\<rparr>], ACommit (Inr ''r3''), ANext NoWake,
              AInfer (Inl (mk_err ''long'' [ContextLength])), ACommit (Inr ''r4'')], log = []\<rparr>"

definition demo_log :: "((unit, unit) request \<times> (unit, unit) answer option) list" where
  "demo_log = log (snd (turn_drive (Some demo_user) [] demo_state demo_long_rt))"

lemma demo_log_collapses:
  "length demo_log = 12" "is_collapse (demo_log ! 3)" "is_collapse (demo_log ! 10)"
  by (simp_all add: demo_log_def turn_eval demo_defs demo_long_rt_def demo_call_def Let_def new_round_def
      new_call_def round_complete_def turn_runs_def parked_index_def parked_def pending_def parked_id_def
      turn_waits_def waits_def call_key_def tool_call_key_def errors_join_def)

lemma demo_log_split:
  "log (snd (turn_drive (Some demo_user) [] demo_state demo_long_rt)) =
     log demo_long_rt @ take 3 demo_log @ demo_log ! 3 # take 6 (drop 4 demo_log) @ demo_log ! 10 # drop 11 demo_log"
proof -
  have "demo_log = take 3 demo_log @ demo_log ! 3 # drop 4 demo_log"
    using id_take_nth_drop [of 3 demo_log] by (simp add: demo_log_collapses)
  moreover have "drop 4 demo_log = take 6 (drop 4 demo_log) @ demo_log ! 10 # drop 11 demo_log"
    using id_take_nth_drop [of 6 "drop 4 demo_log"] by (simp add: demo_log_collapses)
  moreover have "log demo_long_rt = []" by (simp add: demo_long_rt_def)
  ultimately show ?thesis by (fold demo_log_def) simp
qed

text \<open>
  A session's run over a longer journal repeats the run over the shorter one: the same
  end and state and the same log when that one ended, and the same requests with the same
  answers up to the one the journal stopped at otherwise. It is what restarting a session
  from its journal rests on.
\<close>

lemma run_replays:
  "case session_run t rt of
     (Stopped, rt') \<Rightarrow>
       grows (butlast (log rt')) (log (snd (session_run t (more_tape ys rt)))) \<and>
       grows (map fst (log rt')) (map fst (log (snd (session_run t (more_tape ys rt)))))
   | (res, rt') \<Rightarrow> session_run t (more_tape ys rt) = (res, more_tape ys rt')"
  using replays_session_run [of t]
  by (auto simp: replays_def replays_at_def split: prod.splits out.splits)

text \<open>
  C9. A turn never reads outside a round, and leaves at most one of its round's calls
  parked, when the runtime answers Tools with the calls it was asked to run and the resume
  does not answer the empty id alone.
\<close>

theorem drive_never_panics:
  assumes "park_ok t" and "resume = [] \<or> (\<exists>k \<in> fst ` set resume. k \<noteq> [])"
    and "\<forall>e \<in> set (log (snd (turn_drive user resume t rt))). tools_kept e"
  shows "fst (turn_drive user resume t rt) \<noteq> Panicked \<and>
    (\<forall>t'. fst (turn_drive user resume t rt) = Ret t' \<longrightarrow> park_ok t')"
  using safely_turn_drive [OF assms(1,2), of user rt] assms(3)
  by (auto simp: wp_def broke_def split: prod.splits out.splits)

theorem drive_never_panics_witness:
  "park_ok (demo_state\<lparr>t_rev := ''r2'', t_result := ''done'', t_terminal := Some Complete, t_finished := True\<rparr>)"
proof -
  have "\<forall>t'. fst (turn_drive (Some demo_user) [] demo_state demo_rt) = Ret t' \<longrightarrow> park_ok t'"
    using drive_never_panics [of demo_state "[]" "Some demo_user" demo_rt]
    by (simp_all add: park_ok_def turn_eval demo_defs Let_def)
  then show ?thesis using demo_turn_drive by simp
qed

text \<open>
  A resume whose only answer is to the empty id, sent to a session with no open round,
  is no failed turn: the turn panics, as it fails with the nil error unknownAnswer gave.
\<close>

lemma resume_empty_id_panics:
  assumes "t_round t = None" and "t_state t = None"
  shows "turn_drive None [([], ans)] t rt = (Panicked, rt)"
  using assms by (simp add: turn_drive_def drive_open_def panic_def)

text \<open>
  C12. While a turn runs, the resumes and closes that come in wait for its end: the turn
  leaves them held in the order the mailbox gave them, behind those already held, and none
  is lost or handled twice.
\<close>

theorem drive_holds_wakes:
  assumes "fst (turn_drive user resume t rt) = Ret t'"
  shows "\<exists>ext. log (snd (turn_drive user resume t rt)) = log rt @ ext \<and>
    t_held t' = t_held t @ filter is_held_kind (wakes_in ext) \<and> t_closed t' = t_closed t"
  using keeps_turn_drive [OF keeps_refl, of user resume t rt] assms
  by (auto simp: wp_def keeps_def split: prod.splits)

theorem drive_holds_wakes_witness:
  "\<exists>ext. log (snd (turn_drive (Some demo_user) [] demo_state demo_rt)) = log demo_rt @ ext \<and>
    filter is_held_kind (wakes_in ext) = []"
  using drive_holds_wakes [OF demo_turn_drive] by auto

end
