(* ===== verification/Turn_Func.thy ===== *)
theory Turn_Func
  imports Turn_Props
begin

text \<open>
  What the parts of a turn compute (session/orchestrator/turn.go): the calls an answer or a
  job's end runs, the turn of a model that answers at once, and the jobs a run ends with.
\<close>

section \<open>The calls of a round that run next\<close>

lemma runs_loop_answer:
  assumes "p = Some (i + k)" and "k < length cs"
  shows "runs_loop p (Some a) i cs =
    Some (map (\<lambda>(j, c). if p = Some j then c\<lparr>c_answer := Some a\<rparr> else c)
      (filter (\<lambda>(j, c). p = Some j \<or> pending c) (zip [i..<i + length cs] cs)))"
proof -
  have "runs_loop p (Some a) i cs =
    Some (map (\<lambda>(j, c). if p = Some j then c\<lparr>c_answer := Some a\<rparr> else c)
      (filter (\<lambda>(j, c). p = Some j \<or> pending c) (zip [i..<i + length cs] cs)))" for i
  proof (induction cs arbitrary: i)
    case (Cons c cs)
    then show ?case by (auto simp: upt_conv_Cons simp del: upt_Suc)
  qed simp
  then show ?thesis .
qed

lemma runs_loop_parked: "p = Some (i + k) \<Longrightarrow> k < length cs \<Longrightarrow> runs_loop p None i cs = None"
proof (induction cs arbitrary: i k)
  case (Cons c cs)
  show ?case
  proof (cases k)
    case (Suc k')
    then have "runs_loop p None (Suc i) cs = None" using Cons.prems by (intro Cons.IH [of _ k']) simp_all
    then show ?thesis using Suc Cons.prems by simp
  qed (use Cons.prems in simp)
qed simp

text \<open>
  With two unknown ids the error names the one that is visited first, so two runs on the same
  answers can fail with different texts.
\<close>

lemma unknown_answer_order:
  assumes "a \<noteq> i" "b \<noteq> i" "a \<noteq> b"
  shows "unknown_answer [(a, x), (b, y)] i \<noteq> unknown_answer [(b, y), (a, x)] i"
  using assms by (auto simp: mk_err_def)

lemma unknown_answer_is: "unknown_answer res i = Some e \<Longrightarrow> errors_is e InterruptNotFound"
  by (induction res i rule: unknown_answer.induct) (auto split: if_splits)

text \<open>
  While a call of the round is parked, nothing of the round runs without its answer;
  the answer runs the parked call, with the answer, and every call that has not run yet, in
  call order; an answer to any other interrupt is the error InterruptNotFound.
\<close>

lemma parked_round_runs:
  assumes "parked_index r = Some i" and "c_park (rd_calls r ! i) = Some pk"
  shows "turn_runs r [] = Inr [] \<and>
    turn_runs r [(pk_interrupt_id pk, a)] =
      Inr (map (\<lambda>(j, c). if j = i then c\<lparr>c_answer := Some a\<rparr> else c)
        (filter (\<lambda>(j, c). j = i \<or> pending c) (zip [0..<length (rd_calls r)] (rd_calls r)))) \<and>
    (k = pk_interrupt_id pk \<or> (\<exists>e. turn_runs r [(k, a)] = Inl e \<and> errors_is e InterruptNotFound))"
proof -
  have i: "i < length (rd_calls r)" using parked_index_SomeD [OF assms(1)] by simp
  have id: "parked_id r = pk_interrupt_id pk" using assms by (simp add: parked_id_def)
  have none: "runs_loop (Some i) None 0 (rd_calls r) = None" using runs_loop_parked [of "Some i" 0 i] i by simp
  have eq: "(Some i = Some j) = (j = i)" for j by auto
  have ans: "runs_loop (Some i) (Some a) 0 (rd_calls r) =
      Some (map (\<lambda>(j, c). if j = i then c\<lparr>c_answer := Some a\<rparr> else c)
        (filter (\<lambda>(j, c). j = i \<or> pending c) (zip [0..<length (rd_calls r)] (rd_calls r))))"
    using runs_loop_answer [of "Some i" 0 i "rd_calls r" a] i unfolding eq by simp
  have "\<exists>e. turn_runs r [(k, a)] = Inl e \<and> errors_is e InterruptNotFound" if "k \<noteq> pk_interrupt_id pk"
    using that id by (simp add: turn_runs_def)
  then show ?thesis using assms(1) id none ans by (auto simp: turn_runs_def)
qed

definition demo_parked :: "unit round" where
  "demo_parked =
     \<lparr>rd_reply = demo_reply,
      rd_calls = [demo_call\<lparr>c_done := True\<rparr>, demo_call\<lparr>c_park := Some \<lparr>pk_interrupt_id = ''i'', pk_data = []\<rparr>\<rparr>, demo_call]\<rparr>"

section \<open>The end of a job\<close>

lemma job_runs_none:
  "\<forall>j \<in> set js. \<not> jb_ended j \<Longrightarrow> job_runs cs js = ([], js)"
  by (induction cs js rule: job_runs.induct) auto

lemma remove_nth_update: "i < length xs \<Longrightarrow> remove_nth i (xs[i := x]) = remove_nth i xs"
  by (simp add: remove_nth_def)

lemma job_runs_one:
  assumes "i < length js" and "\<forall>j \<in> set js. \<not> jb_ended j" and "jb_call (js ! i) = call_key c"
    and "\<forall>x \<in> set pre. call_key x \<noteq> call_key c"
  shows "job_runs (pre @ c # post) (js[i := (js ! i)\<lparr>jb_ended := True, jb_result := res\<rparr>]) =
    ([c\<lparr>c_job_end := Some res\<rparr>], remove_nth i js)"
  using assms(4)
proof (induction pre)
  case Nil
  let ?js = "js[i := (js ! i)\<lparr>jb_ended := True, jb_result := res\<rparr>]"
  have "index_of (\<lambda>j. jb_ended j \<and> jb_call j = call_key c) ?js = Some i"
  proof -
    have "?js = take i js @ ((js ! i)\<lparr>jb_ended := True, jb_result := res\<rparr>) # drop (Suc i) js"
      using assms(1) by (simp add: upd_conv_take_nth_drop)
    moreover have "\<forall>x \<in> set (take i js). \<not> (jb_ended x \<and> jb_call x = call_key c)"
      using assms(2) by (auto dest: in_set_takeD)
    ultimately show ?thesis
      using index_of_append [of "take i js"] assms(1,3) by simp
  qed
  moreover have "\<forall>j \<in> set (remove_nth i ?js). \<not> jb_ended j"
    using assms(1,2) by (auto simp: remove_nth_update remove_nth_def dest: in_set_takeD in_set_dropD)
  ultimately show ?case
    using assms(1) by (simp add: job_runs_none remove_nth_update)
next
  case (Cons x pre)
  have "index_of (\<lambda>j. jb_ended j \<and> jb_call j = call_key x) (js[i := (js ! i)\<lparr>jb_ended := True, jb_result := res\<rparr>]) = None"
    using Cons.prems assms(2,3) by (auto simp: index_of_None_iff dest!: subsetD [OF set_update_subset_insert])
  then show ?case using Cons by simp
qed

text \<open>
  The end of a job a call waits on reaches that call and no other: the session keeps
  the job, ended, and the round's next pass runs the call, and it alone when no other job
  ended, with the job's result; the job is then forgotten.
\<close>

lemma job_end_runs_its_call:
  assumes "index_of (\<lambda>j. jb_id j = je_id e) (t_jobs t) = Some i" and "jb_call (t_jobs t ! i) = call_key c"
    and "call_key c \<noteq> []" and "\<forall>j \<in> set (t_jobs t). \<not> jb_ended j"
    and "rd_calls r = pre @ c # post" and "\<forall>x \<in> set pre. call_key x \<noteq> call_key c"
  shows "job_runs (rd_calls r) (t_jobs (job_ended e t)) =
    ([c\<lparr>c_job_end := Some (je_result e)\<rparr>], remove_nth i (t_jobs t))"
  using assms index_of_SomeD [OF assms(1)] job_runs_one [where js = "t_jobs t" and c = c and pre = pre and post = post and res = "je_result e" and i = i]
  by (simp add: job_ended_def Let_def)

definition demo_job :: job where
  "demo_job = \<lparr>jb_id = ''j'', jb_name = ''w'', jb_call = ''1'', jb_ended = False, jb_result = no_result\<rparr>"

section \<open>A whole turn\<close>

text \<open>
  The turn of a model that answers a prompt at once: the prompt is committed, the
  model asked, its reply committed as a round without calls, and, with an empty mailbox and
  no jobs, the turn completes with the reply's result, at the last commit's revision.
\<close>

lemma answered_turn:
  assumes "t_round t = None" and "t_inbox t = []" and "t_jobs t = []" and "\<not> t_cancelled t"
    and "\<not> t_suspended t" and "\<not> t_finished t" and "rp_calls rp = []"
    and "tape rt = [ACommit (Inr r1), ANext NoWake, AInfer (Inr rp), ACommit (Inr r2), ANext NoWake, AEmit] @ rest"
  shows "\<exists>es. turn_drive (Some m) [] t rt =
    (Ret (t\<lparr>t_state := None, t_rev := r2, t_result := rp_result rp, t_finished := True, t_terminal := Some Complete\<rparr>),
     \<lparr>tape = rest, log = log rt @ es\<rparr>) \<and>
    map fst es = [RCommit (t_rev t) (no_commit\<lparr>ci_users := [m], ci_state := t_state t\<rparr>), RNext False, RInfer,
      RCommit r1 (no_commit\<lparr>ci_round := Some \<lparr>rd_reply = rp, rd_calls = []\<rparr>\<rparr>), RNext False,
      REmit (new_event EventComplete)]"
  using assms
  by (cases rt, cases t) (simp add: turn_eval Let_def no_commit_def)

section \<open>The end of a run\<close>

lemma wp_cancel_each_all:
  "(\<forall>e \<in> E. e \<in> set (log rt)) \<Longrightarrow>
   wp (cancel_each js) (\<lambda>_ rt'. (\<forall>e \<in> E. e \<in> set (log rt')) \<and>
     (\<forall>j \<in> set js. jb_ended j \<or> (RCancel (jb_id j), Some ACancel) \<in> set (log rt'))) any any rt"
proof (induction js arbitrary: rt E)
  case (Cons j js)
  show ?case
  proof (cases "jb_ended j")
    case True
    then show ?thesis using Cons.IH [OF Cons.prems] by simp
  next
    case False
    have "wp (rt_cancel (jb_id j)) (\<lambda>_. wp (cancel_each js) (\<lambda>_ rt'. (\<forall>e \<in> insert (RCancel (jb_id j), Some ACancel) E. e \<in> set (log rt')) \<and>
        (\<forall>j \<in> set js. jb_ended j \<or> (RCancel (jb_id j), Some ACancel) \<in> set (log rt'))) any any) any any rt"
      unfolding rt_cancel_def
    proof (rule wp_ask)
      fix a :: "('a, 'b) answer" and as x assume "as_cancel a = Some x"
      then have "a = ACancel" by (cases a) auto
      then show "wp (cancel_each js) (\<lambda>_ rt'. (\<forall>e \<in> insert (RCancel (jb_id j), Some ACancel) E. e \<in> set (log rt')) \<and>
        (\<forall>j \<in> set js. jb_ended j \<or> (RCancel (jb_id j), Some ACancel) \<in> set (log rt'))) any any
          (rt\<lparr>tape := as, log := log rt @ [(RCancel (jb_id j), Some a)]\<rparr>)"
        by (intro Cons.IH) (use Cons.prems in auto)
    qed simp
    then show ?thesis using False by (auto elim!: wp_mono)
  qed
qed simp

text \<open>
  C36. A run that ends for good (a session closed, or a task done) stopped every job of the
  session that had not ended; a suspended one leaves them running.
\<close>

theorem run_cancels_jobs:
  assumes "fst (session_run t rt) = Ret (Done res err, t')"
  shows "\<forall>j \<in> set (t_jobs t'). jb_ended j \<or>
    (RCancel (jb_id j), Some ACancel) \<in> set (log (snd (session_run t rt)))"
proof -
  have rest: "wp (case x of (e, t1) \<Rightarrow> (case e of SuspendedEnd \<Rightarrow> ret (SuspendedEnd, t1)
        | Done res err \<Rightarrow> bnd (cancel_each (t_jobs t1)) (\<lambda>_. ret (Done res err, t1))))
      (\<lambda>y rt'. fst y \<noteq> SuspendedEnd \<longrightarrow> (\<forall>j \<in> set (t_jobs (snd y)). jb_ended j \<or>
         (RCancel (jb_id j), Some ACancel) \<in> set (log rt'))) any any rt1" for x and rt1 :: "('a, 'b) rt"
    using wp_cancel_each_all [of "{}" rt1 "t_jobs (snd x)"]
    by (cases x; cases "fst x") (auto elim!: wp_mono)
  have "wp (session_run t) (\<lambda>y rt'. fst y \<noteq> SuspendedEnd \<longrightarrow> (\<forall>j \<in> set (t_jobs (snd y)). jb_ended j \<or>
         (RCancel (jb_id j), Some ACancel) \<in> set (log rt'))) any any rt"
    unfolding session_run_def wp_bnd
    by (rule wp_any) (rule rest)
  then show ?thesis using assms by (auto simp: wp_def split: prod.splits)
qed

lemma demo_closed_run:
  "fst (session_run (demo_state\<lparr>t_jobs := [demo_job]\<rparr>) \<lparr>tape = [ANext WakeClose, ACancel], log = []\<rparr>) =
     Ret (Done [] None, demo_state\<lparr>t_jobs := [demo_job], t_closed := True\<rparr>)"
  by (simp add: run_eval demo_defs demo_job_def Let_def)

theorem run_cancels_jobs_witness:
  "(RCancel ''j'', Some ACancel) \<in> set (log (snd (session_run (demo_state\<lparr>t_jobs := [demo_job]\<rparr>)
     \<lparr>tape = [ANext WakeClose, ACancel], log = []\<rparr>)))"
  using run_cancels_jobs [OF demo_closed_run] by (simp add: demo_job_def)

end
