(* ===== verification/Text.thy ===== *)
theory Text
  imports Prelude
begin

text \<open>
  More of package strings and of strconv, for the components that parse text: plain ASCII
  text that trimming leaves alone, search, decimal and hexadecimal numbers.
\<close>

section \<open>Plain characters\<close>

text \<open>\<open>plain c\<close>: a visible ASCII character, which is no part of a space rune.\<close>

definition plain :: "char \<Rightarrow> bool" where
  "plain c \<longleftrightarrow> 32 < (of_char c :: nat) \<and> (of_char c :: nat) < 127"

lemmas plain_eval = plain_def of_char_Char

lemma space_runes_not_plain: "p \<in> set space_runes \<Longrightarrow> c \<in> set p \<Longrightarrow> \<not> plain c"
  by (auto simp: space_runes_def plain_eval)

lemma space_runes_not_Nil: "p \<in> set space_runes \<Longrightarrow> p \<noteq> []"
  by (auto simp: space_runes_def)

lemma trim_left_of_plain: "\<forall>p \<in> set ps. \<forall>d \<in> set p. \<not> plain d \<Longrightarrow> plain c \<Longrightarrow> trim_left_of ps (c # s) = c # s"
proof -
  assume ps: "\<forall>p \<in> set ps. \<forall>d \<in> set p. \<not> plain d" and c: "plain c"
  have "\<not> (p \<noteq> [] \<and> has_prefix (c # s) p)" if "p \<in> set ps" for p
    using ps c that by (cases p) (auto simp: has_prefix_def)
  then have "find (\<lambda>p. p \<noteq> [] \<and> has_prefix (c # s) p) ps = None"
    by (auto simp: find_None_iff)
  then show ?thesis by simp
qed

lemma trim_left_space_plain [simp]: "plain c \<Longrightarrow> trim_left_space (c # s) = c # s"
  unfolding trim_left_space_def by (rule trim_left_of_plain) (use space_runes_not_plain in auto)

lemma trim_right_space_plain [simp]: "plain c \<Longrightarrow> trim_right_space (s @ [c]) = s @ [c]"
  unfolding trim_right_space_def
  using trim_left_of_plain [of "map rev space_runes" c "rev s"] space_runes_not_plain by auto

lemma trim_space_plain: "s \<noteq> [] \<Longrightarrow> plain (hd s) \<Longrightarrow> plain (last s) \<Longrightarrow> trim_space s = s"
proof -
  assume s: "s \<noteq> []" "plain (hd s)" "plain (last s)"
  from s have "trim_left_space s = s" by (cases s) auto
  moreover from s have "trim_right_space s = s"
    using trim_right_space_plain [of "last s" "butlast s"] by simp
  ultimately show ?thesis by (simp add: trim_space_def)
qed

lemma trim_space_all_plain [simp]: "\<forall>c \<in> set s. plain c \<Longrightarrow> trim_space s = s"
  by (cases "s = []") (auto intro: trim_space_plain)

lemma trim_space_blank: "trim_space (CHR '' '' # s) = trim_space s"
  by (simp add: trim_space_def trim_left_space_def space_runes_def has_prefix_def)

section \<open>Case\<close>

text \<open>
  strings.ToLower as far as a comparison with an ASCII word can tell: the ASCII letters, and
  the two runes outside ASCII whose lower case is an ASCII letter (KELVIN SIGN, LATIN CAPITAL
  I WITH DOT ABOVE). Every other rune stays outside ASCII.
\<close>

definition lower_char :: "char \<Rightarrow> char" where
  "lower_char c =
     (let n = of_char c :: nat in if 65 \<le> n \<and> n \<le> 90 then char_of (n + 32) else c)"

fun to_lower :: "string \<Rightarrow> string" where
  "to_lower [] = []"
| "to_lower (c # s) =
     (if c = CHR 0xE2 \<and> take 2 s = [CHR 0x84, CHR 0xAA] then CHR ''k'' # to_lower (drop 2 s)
      else if c = CHR 0xC4 \<and> take 1 s = [CHR 0xB0] then CHR ''i'' # to_lower (drop 1 s)
      else lower_char c # to_lower s)"

text \<open>strings.ToUpper of ASCII text.\<close>

definition upper_char :: "char \<Rightarrow> char" where
  "upper_char c =
     (let n = of_char c :: nat in if 97 \<le> n \<and> n \<le> 122 then char_of (n - 32) else c)"

definition upper_ascii :: "string \<Rightarrow> string" where
  "upper_ascii = map upper_char"

text \<open>Plain text without capitals: trimming and lower case leave it alone.\<close>

definition plain_lower :: "char \<Rightarrow> bool" where
  "plain_lower c \<longleftrightarrow> plain c \<and> lower_char c = c"

definition lower_text :: "string \<Rightarrow> bool" where
  "lower_text s \<longleftrightarrow> (\<forall>c \<in> set s. plain_lower c)"

lemmas plain_lower_eval = plain_lower_def plain_def lower_char_def of_char_Char Let_def

lemma plain_not_lead: "plain c \<Longrightarrow> c \<noteq> CHR 0xE2 \<and> c \<noteq> CHR 0xC4"
  by (auto simp: plain_eval)

lemma to_lower_text: "lower_text s \<Longrightarrow> to_lower s = s"
  by (induction s) (auto simp: lower_text_def plain_lower_def plain_not_lead)

lemma to_lower_trim_text: "lower_text s \<Longrightarrow> to_lower (trim_space s) = s"
  by (simp add: lower_text_def plain_lower_def to_lower_text [unfolded lower_text_def plain_lower_def])

section \<open>Search\<close>

definition contains_any :: "string \<Rightarrow> string \<Rightarrow> bool" where
  "contains_any s cs \<longleftrightarrow> (\<exists>c \<in> set s. c \<in> set cs)"

text \<open>strings.Index, with None for -1.\<close>

fun index_sub :: "string \<Rightarrow> string \<Rightarrow> nat option" where
  "index_sub [] p = (if p = [] then Some 0 else None)"
| "index_sub (c # s) p = (if has_prefix (c # s) p then Some 0 else map_option Suc (index_sub s p))"

definition contains_sub :: "string \<Rightarrow> string \<Rightarrow> bool" where
  "contains_sub s p \<longleftrightarrow> index_sub s p \<noteq> None"

text \<open>strings.Cut at one byte: what is before its first place, what is after, and whether it is there.\<close>

fun cut_at :: "char \<Rightarrow> string \<Rightarrow> string \<times> string \<times> bool" where
  "cut_at c [] = ([], [], False)"
| "cut_at c (x # s) =
     (if x = c then ([], s, True) else (case cut_at c s of (l, r, found) \<Rightarrow> (x # l, r, found)))"

text \<open>strings.LastIndex of one byte.\<close>

fun last_index :: "char \<Rightarrow> string \<Rightarrow> nat option" where
  "last_index c [] = None"
| "last_index c (x # s) =
     (case last_index c s of Some i \<Rightarrow> Some (Suc i) | None \<Rightarrow> if x = c then Some 0 else None)"

lemma cut_at_free: "c \<notin> set l \<Longrightarrow> cut_at c l = (l, [], False)"
  by (induction l) auto

lemma cut_at_append [simp]: "c \<notin> set l \<Longrightarrow> cut_at c (l @ c # r) = (l, r, True)"
  by (induction l) auto

lemma last_index_free: "c \<notin> set s \<Longrightarrow> last_index c s = None"
  by (induction s) auto

lemma last_index_append [simp]: "c \<notin> set r \<Longrightarrow> last_index c (l @ c # r) = Some (length l)"
  by (induction l) (auto simp: last_index_free)

lemma has_prefix_self [simp]: "has_prefix (p @ s) p"
  by (simp add: has_prefix_def)

lemma index_sub_first: "p = c # q \<Longrightarrow> c \<notin> set l \<Longrightarrow> index_sub (l @ p @ r) p = Some (length l)"
  by (induction l) (auto simp: has_prefix_def)

section \<open>Numbers\<close>

definition digit_value :: "char \<Rightarrow> nat option" where
  "digit_value c = (let n = of_char c in if 48 \<le> n \<and> n \<le> 57 then Some (n - 48) else None)"

fun parse_digits :: "nat \<Rightarrow> string \<Rightarrow> nat option" where
  "parse_digits acc [] = Some acc"
| "parse_digits acc (c # s) =
     (case digit_value c of None \<Rightarrow> None | Some d \<Rightarrow> parse_digits (acc * 10 + d) s)"

text \<open>strconv.Atoi on a 64-bit int: one sign, then digits, and the value has to fit.\<close>

definition int_fits :: "int \<Rightarrow> bool" where
  "int_fits n \<longleftrightarrow> - (2 ^ 63) \<le> n \<and> n < 2 ^ 63"

definition atoi :: "string \<Rightarrow> int option" where
  "atoi s =
     (let neg = has_prefix s ''-'';
          ds = (if neg \<or> has_prefix s ''+'' then drop 1 s else s)
      in if ds = [] then None
         else (case parse_digits 0 ds of
                 None \<Rightarrow> None
               | Some n \<Rightarrow>
                   let i = (if neg then - int n else int n) in if int_fits i then Some i else None))"

definition itoa :: "int \<Rightarrow> string" where
  "itoa i = (if i < 0 then CHR ''-'' # digits_of (nat (- i)) else digits_of (nat i))"

lemma digit_value_char [simp]: "d < 10 \<Longrightarrow> digit_value (char_of (48 + d)) = Some d"
  by (simp add: digit_value_def)

lemma parse_digits_append:
  "parse_digits acc (s @ t) = (case parse_digits acc s of None \<Rightarrow> None | Some n \<Rightarrow> parse_digits n t)"
  by (induction s arbitrary: acc) (auto split: option.split)

lemma parse_digits_of: "parse_digits 0 (digits_of n) = Some n"
proof (induction n rule: digits_of.induct)
  case (1 n)
  then show ?case
    by (subst digits_of.simps) (auto simp: parse_digits_append)
qed

lemma digits_of_digits: "c \<in> set (digits_of n) \<Longrightarrow> \<exists>d < 10. c = char_of (48 + d :: nat)"
proof (induction n rule: digits_of.induct)
  case (1 n)
  show ?case
  proof (cases "n < 10")
    case True
    with 1 show ?thesis by (subst (asm) digits_of.simps) auto
  next
    case False
    with 1 show ?thesis by (subst (asm) (2) digits_of.simps) (auto intro: exI [of _ "n mod 10"])
  qed
qed

lemma digit_plain: "d < 10 \<Longrightarrow> plain (char_of (48 + d :: nat))"
  by (simp add: plain_def)

lemma digits_of_plain [simp]: "c \<in> set (digits_of n) \<Longrightarrow> plain c"
  using digits_of_digits digit_plain by blast

lemma digits_of_not_Nil [simp]: "digits_of n \<noteq> []"
  by (subst digits_of.simps) auto

lemma digits_of_range: "c \<in> set (digits_of n) \<Longrightarrow> 48 \<le> (of_char c :: nat) \<and> (of_char c :: nat) \<le> 57"
  by (drule digits_of_digits) auto

lemma digits_of_no_sign: "\<not> has_prefix (digits_of n) ''-''" "\<not> has_prefix (digits_of n) ''+''"
  using digits_of_range [of "hd (digits_of n)" n]
  by (cases "digits_of n"; force simp: has_prefix_def of_char_Char)+

lemma atoi_itoa: "0 \<le> i \<Longrightarrow> int_fits i \<Longrightarrow> atoi (itoa i) = Some i"
  by (simp add: atoi_def itoa_def digits_of_no_sign parse_digits_of Let_def)

text \<open>Hexadecimal digits, of either case.\<close>

definition hex_digits :: string where
  "hex_digits = ''0123456789abcdef''"

definition hex_value :: "char \<Rightarrow> nat option" where
  "hex_value c =
     (let n = of_char c in
      if 48 \<le> n \<and> n \<le> 57 then Some (n - 48)
      else if 97 \<le> n \<and> n \<le> 102 then Some (n - 87)
      else if 65 \<le> n \<and> n \<le> 70 then Some (n - 55)
      else None)"

fun parse_hex :: "nat \<Rightarrow> string \<Rightarrow> nat option" where
  "parse_hex acc [] = Some acc"
| "parse_hex acc (c # s) =
     (case hex_value c of None \<Rightarrow> None | Some d \<Rightarrow> parse_hex (acc * 16 + d) s)"

lemma less_16_cases: "i < 16 \<Longrightarrow> i \<in> {0, 1, 2, 3, 4, 5, 6, 7, 8, 9, 10, 11, 12, 13, 14, 15::nat}"
  by (simp; arith)

lemma hex_digit_code: "i < 16 \<Longrightarrow> of_char (hex_digits ! i) = (if i < 10 then 48 + i else 87 + i)"
  by (drule less_16_cases) (auto simp: hex_digits_def of_char_Char)

lemma hex_digit_value [simp]: "i < 16 \<Longrightarrow> hex_value (hex_digits ! i) = Some i"
  by (simp add: hex_value_def hex_digit_code)

lemma hex_digit_plain [simp]: "i < 16 \<Longrightarrow> plain (hex_digits ! i)"
  by (simp add: plain_def hex_digit_code)

end
