(* ===== verification/Cell_Format.thy ===== *)
theory Cell_Format
  imports Text
begin

text \<open>
  The portable format of a grid cell (vfs/tabular.go): the stored bag with the bits of the
  fields that were written, the patch that writes fields (also to false or empty), how one
  bag lies over another, and colours.
\<close>

unbundle bit_operations_syntax

section \<open>Words that name a format\<close>

definition pick_word :: "string list \<Rightarrow> string \<Rightarrow> string \<Rightarrow> string" where
  "pick_word ws dflt s = (let t = to_lower (trim_space s) in if t \<in> set ws then t else dflt)"

definition border_styles :: "string list" where
  "border_styles = [''none'', ''thin'', ''medium'', ''thick'', ''dashed'', ''dotted'', ''double'']"

definition normalize_border_style :: "string \<Rightarrow> string" where
  "normalize_border_style = pick_word border_styles ''thin''"

definition normalize_align :: "string \<Rightarrow> string" where
  "normalize_align = pick_word [''left'', ''center'', ''right''] []"

definition normalize_valign :: "string \<Rightarrow> string" where
  "normalize_valign = pick_word [''top'', ''middle'', ''bottom''] []"

definition normalize_wrap :: "string \<Rightarrow> string" where
  "normalize_wrap = pick_word [''overflow'', ''wrap'', ''clip''] []"

section \<open>Formats and patches\<close>

record cell_border =
  cb_style :: string
  cb_color :: string
  cb_edges :: string

record cell_format =
  cf_number :: string
  cf_bold :: bool
  cf_italic :: bool
  cf_strike :: bool
  cf_underline :: bool
  cf_fill :: string
  cf_color :: string
  cf_align :: string
  cf_valign :: string
  cf_wrap :: string
  cf_border :: "cell_border option"
  cf_known :: "16 word"

record format_patch =
  fp_number :: "string option"
  fp_bold :: "bool option"
  fp_italic :: "bool option"
  fp_strike :: "bool option"
  fp_underline :: "bool option"
  fp_fill :: "string option"
  fp_color :: "string option"
  fp_align :: "string option"
  fp_valign :: "string option"
  fp_wrap :: "string option"
  fp_border :: "cell_border option"

definition no_border :: cell_border where
  "no_border = \<lparr>cb_style = [], cb_color = [], cb_edges = []\<rparr>"

definition no_format :: cell_format where
  "no_format =
     \<lparr>cf_number = [], cf_bold = False, cf_italic = False, cf_strike = False, cf_underline = False,
      cf_fill = [], cf_color = [], cf_align = [], cf_valign = [], cf_wrap = [], cf_border = None,
      cf_known = 0\<rparr>"

definition fmt_number :: "16 word" where "fmt_number = 1"
definition fmt_bold :: "16 word" where "fmt_bold = 2"
definition fmt_italic :: "16 word" where "fmt_italic = 4"
definition fmt_strike :: "16 word" where "fmt_strike = 8"
definition fmt_underline :: "16 word" where "fmt_underline = 16"
definition fmt_fill :: "16 word" where "fmt_fill = 32"
definition fmt_color :: "16 word" where "fmt_color = 64"
definition fmt_align :: "16 word" where "fmt_align = 128"
definition fmt_valign :: "16 word" where "fmt_valign = 256"
definition fmt_wrap :: "16 word" where "fmt_wrap = 512"
definition fmt_border :: "16 word" where "fmt_border = 1024"

lemmas fmt_bits = fmt_number_def fmt_bold_def fmt_italic_def fmt_strike_def fmt_underline_def
  fmt_fill_def fmt_color_def fmt_align_def fmt_valign_def fmt_wrap_def fmt_border_def

definition patch_empty :: "format_patch option \<Rightarrow> bool" where
  "patch_empty po \<longleftrightarrow>
     (case po of
        None \<Rightarrow> True
      | Some p \<Rightarrow> fp_number p = None \<and> fp_bold p = None \<and> fp_italic p = None \<and> fp_strike p = None \<and>
          fp_underline p = None \<and> fp_fill p = None \<and> fp_color p = None \<and> fp_align p = None \<and>
          fp_valign p = None \<and> fp_wrap p = None \<and> fp_border p = None)"

definition border_zero :: "cell_border \<Rightarrow> bool" where
  "border_zero b \<longleftrightarrow> cb_style b = [] \<and> cb_color b = [] \<and> cb_edges b = []"

definition format_is_zero :: "cell_format \<Rightarrow> bool" where
  "format_is_zero f \<longleftrightarrow>
     cf_known f = 0 \<and> cf_number f = [] \<and> \<not> cf_bold f \<and> \<not> cf_italic f \<and> \<not> cf_strike f \<and>
     \<not> cf_underline f \<and> cf_fill f = [] \<and> cf_color f = [] \<and> cf_align f = [] \<and> cf_valign f = [] \<and>
     cf_wrap f = [] \<and> (case cf_border f of None \<Rightarrow> True | Some b \<Rightarrow> border_zero b)"

definition has_bit :: "cell_format \<Rightarrow> 16 word \<Rightarrow> bool" where
  "has_bit f b \<longleftrightarrow> cf_known f AND b \<noteq> 0"

definition mark :: "16 word \<Rightarrow> cell_format \<Rightarrow> cell_format" where
  "mark b f = f\<lparr>cf_known := cf_known f OR b\<rparr>"

definition border_value :: "cell_format \<Rightarrow> cell_border" where
  "border_value f = (case cf_border f of None \<Rightarrow> no_border | Some b \<Rightarrow> b)"

definition format_equal :: "cell_format \<Rightarrow> cell_format \<Rightarrow> bool" where
  "format_equal f g \<longleftrightarrow>
     f\<lparr>cf_border := None\<rparr> = g\<lparr>cf_border := None\<rparr> \<and> border_value f = border_value g"

lemma border_zero_no_border: "border_zero b \<longleftrightarrow> b = no_border"
  by (cases b) (simp add: border_zero_def no_border_def)

text \<open>CellFormat.String: the parts of the bag, joined by commas.\<close>

definition flag_part :: "cell_format \<Rightarrow> bool \<Rightarrow> 16 word \<Rightarrow> string \<Rightarrow> string list" where
  "flag_part f v k name =
     (if v then [name] else if has_bit f k then [name @ ''=false''] else [])"

definition text_part :: "string \<Rightarrow> string \<Rightarrow> string list" where
  "text_part name v = (if v \<noteq> [] then [name @ ''='' @ v] else [])"

definition border_part :: "cell_border option \<Rightarrow> string list" where
  "border_part bo =
     (case bo of
        None \<Rightarrow> []
      | Some b \<Rightarrow>
          if border_zero b then []
          else [''border='' @ normalize_border_style (cb_style b)
                @ (if cb_edges b \<noteq> [] then '':'' @ cb_edges b else [])
                @ (if cb_color b \<noteq> [] then '':'' @ cb_color b else [])])"

definition format_string :: "cell_format \<Rightarrow> string" where
  "format_string f =
     (if format_is_zero f then []
      else join_text '',''
        (text_part ''number'' (cf_number f)
         @ flag_part f (cf_bold f) fmt_bold ''bold''
         @ flag_part f (cf_italic f) fmt_italic ''italic''
         @ flag_part f (cf_strike f) fmt_strike ''strike''
         @ flag_part f (cf_underline f) fmt_underline ''underline''
         @ text_part ''fill'' (cf_fill f) @ text_part ''color'' (cf_color f)
         @ text_part ''align'' (cf_align f) @ text_part ''valign'' (cf_valign f)
         @ text_part ''wrap'' (cf_wrap f) @ border_part (cf_border f)))"

definition styled_border :: "cell_border \<Rightarrow> cell_border option" where
  "styled_border b =
     (if border_zero b then None else Some (b\<lparr>cb_style := normalize_border_style (cb_style b)\<rparr>))"

text \<open>Writing one field, when there is a value for it: the field is set, and marked.\<close>

definition set_field :: "'a option \<Rightarrow> ('a \<Rightarrow> cell_format \<Rightarrow> cell_format) \<Rightarrow> 16 word \<Rightarrow>
  cell_format \<Rightarrow> cell_format" where
  "set_field vo upd k f = (case vo of None \<Rightarrow> f | Some v \<Rightarrow> mark k (upd v f))"

definition when_val :: "bool \<Rightarrow> 'a \<Rightarrow> 'a option" where
  "when_val c v = (if c then Some v else None)"

text \<open>The value Overlay takes for align, valign or wrap: a word that is none is only taken as a clear.\<close>

definition word_val :: "(string \<Rightarrow> string) \<Rightarrow> bool \<Rightarrow> string \<Rightarrow> string option" where
  "word_val norm known v =
     (if known \<or> v \<noteq> [] then when_val (norm v \<noteq> [] \<or> known) (norm v) else None)"

text \<open>CellFormat.Overlay: the fields that src knows, or that are not zero in it.\<close>

definition overlay :: "cell_format \<Rightarrow> cell_format \<Rightarrow> cell_format" where
  "overlay src f =
     set_field (when_val (has_bit src fmt_border \<or> cf_border src \<noteq> None) (cf_border src))
       (\<lambda>bo f. f\<lparr>cf_border := (case bo of None \<Rightarrow> None | Some b \<Rightarrow> styled_border b)\<rparr>) fmt_border
     (set_field (word_val normalize_wrap (has_bit src fmt_wrap) (cf_wrap src)) (\<lambda>v f. f\<lparr>cf_wrap := v\<rparr>) fmt_wrap
     (set_field (word_val normalize_valign (has_bit src fmt_valign) (cf_valign src)) (\<lambda>v f. f\<lparr>cf_valign := v\<rparr>) fmt_valign
     (set_field (word_val normalize_align (has_bit src fmt_align) (cf_align src)) (\<lambda>v f. f\<lparr>cf_align := v\<rparr>) fmt_align
     (set_field (when_val (has_bit src fmt_color \<or> cf_color src \<noteq> []) (cf_color src)) (\<lambda>v f. f\<lparr>cf_color := v\<rparr>) fmt_color
     (set_field (when_val (has_bit src fmt_fill \<or> cf_fill src \<noteq> []) (cf_fill src)) (\<lambda>v f. f\<lparr>cf_fill := v\<rparr>) fmt_fill
     (set_field (when_val (has_bit src fmt_underline \<or> cf_underline src) (cf_underline src))
       (\<lambda>v f. f\<lparr>cf_underline := v\<rparr>) fmt_underline
     (set_field (when_val (has_bit src fmt_strike \<or> cf_strike src) (cf_strike src)) (\<lambda>v f. f\<lparr>cf_strike := v\<rparr>) fmt_strike
     (set_field (when_val (has_bit src fmt_italic \<or> cf_italic src) (cf_italic src)) (\<lambda>v f. f\<lparr>cf_italic := v\<rparr>) fmt_italic
     (set_field (when_val (has_bit src fmt_bold \<or> cf_bold src) (cf_bold src)) (\<lambda>v f. f\<lparr>cf_bold := v\<rparr>) fmt_bold
     (set_field (when_val (has_bit src fmt_number \<or> cf_number src \<noteq> []) (cf_number src))
       (\<lambda>v f. f\<lparr>cf_number := v\<rparr>) fmt_number f))))))))))"

text \<open>CellFormat.ApplyPatch: each set field is written, and marked, also with false or empty.\<close>

definition apply_patch :: "format_patch \<Rightarrow> cell_format \<Rightarrow> cell_format" where
  "apply_patch p f =
     set_field (fp_border p) (\<lambda>b f. f\<lparr>cf_border := styled_border b\<rparr>) fmt_border
     (set_field (fp_wrap p) (\<lambda>v f. f\<lparr>cf_wrap := normalize_wrap v\<rparr>) fmt_wrap
     (set_field (fp_valign p) (\<lambda>v f. f\<lparr>cf_valign := normalize_valign v\<rparr>) fmt_valign
     (set_field (fp_align p) (\<lambda>v f. f\<lparr>cf_align := normalize_align v\<rparr>) fmt_align
     (set_field (fp_color p) (\<lambda>v f. f\<lparr>cf_color := v\<rparr>) fmt_color
     (set_field (fp_fill p) (\<lambda>v f. f\<lparr>cf_fill := v\<rparr>) fmt_fill
     (set_field (fp_underline p) (\<lambda>v f. f\<lparr>cf_underline := v\<rparr>) fmt_underline
     (set_field (fp_strike p) (\<lambda>v f. f\<lparr>cf_strike := v\<rparr>) fmt_strike
     (set_field (fp_italic p) (\<lambda>v f. f\<lparr>cf_italic := v\<rparr>) fmt_italic
     (set_field (fp_bold p) (\<lambda>v f. f\<lparr>cf_bold := v\<rparr>) fmt_bold
     (set_field (fp_number p) (\<lambda>v f. f\<lparr>cf_number := v\<rparr>) fmt_number f))))))))))"

definition normalize_format :: "cell_format \<Rightarrow> cell_format" where
  "normalize_format f0 =
     (let f = (if cf_align f0 \<noteq> [] then f0\<lparr>cf_align := normalize_align (cf_align f0)\<rparr> else f0);
          f = (if cf_valign f \<noteq> [] then f\<lparr>cf_valign := normalize_valign (cf_valign f)\<rparr> else f);
          f = (if cf_wrap f \<noteq> [] then f\<lparr>cf_wrap := normalize_wrap (cf_wrap f)\<rparr> else f)
      in case cf_border f of
           None \<Rightarrow> f
         | Some b \<Rightarrow>
             if border_zero b then f\<lparr>cf_border := None\<rparr>
             else if cb_style b \<noteq> []
             then f\<lparr>cf_border := Some (b\<lparr>cb_style := normalize_border_style (cb_style b)\<rparr>)\<rparr> else f)"

section \<open>Normal forms\<close>

lemma pick_word_in: "dflt \<in> set ws \<or> pick_word ws dflt s = dflt \<or> pick_word ws dflt s \<in> set ws"
  by (auto simp: pick_word_def Let_def)

lemma pick_word_idem:
  "\<forall>w \<in> set ws. to_lower (trim_space w) = w \<Longrightarrow> to_lower (trim_space dflt) = dflt \<Longrightarrow>
   pick_word ws dflt (pick_word ws dflt s) = pick_word ws dflt s"
  by (auto simp: pick_word_def Let_def)

lemma plain_words:
  "\<forall>w \<in> set border_styles. to_lower (trim_space w) = w"
  "\<forall>w \<in> set [''left'', ''center'', ''right'']. to_lower (trim_space w) = w"
  "\<forall>w \<in> set [''top'', ''middle'', ''bottom'']. to_lower (trim_space w) = w"
  "\<forall>w \<in> set [''overflow'', ''wrap'', ''clip'']. to_lower (trim_space w) = w"
  by (simp_all add: border_styles_def to_lower_trim_text lower_text_def plain_lower_eval)

lemma normalize_idem [simp]:
  "normalize_border_style (normalize_border_style s) = normalize_border_style s"
  "normalize_align (normalize_align s) = normalize_align s"
  "normalize_valign (normalize_valign s) = normalize_valign s"
  "normalize_wrap (normalize_wrap s) = normalize_wrap s"
  unfolding normalize_border_style_def normalize_align_def normalize_valign_def normalize_wrap_def
  using plain_words by (simp_all add: pick_word_idem border_styles_def)

lemma normalize_Nil [simp]:
  "normalize_align [] = []" "normalize_valign [] = []" "normalize_wrap [] = []"
  by (simp_all add: normalize_align_def normalize_valign_def normalize_wrap_def pick_word_def)

lemma border_style_not_Nil [simp]: "normalize_border_style s \<noteq> []"
  by (auto simp: normalize_border_style_def pick_word_def border_styles_def Let_def)

section \<open>Field by field\<close>

lemma mark_sel [simp]:
  "cf_number (mark k f) = cf_number f" "cf_bold (mark k f) = cf_bold f" "cf_italic (mark k f) = cf_italic f"
  "cf_strike (mark k f) = cf_strike f" "cf_underline (mark k f) = cf_underline f" "cf_fill (mark k f) = cf_fill f"
  "cf_color (mark k f) = cf_color f" "cf_align (mark k f) = cf_align f" "cf_valign (mark k f) = cf_valign f"
  "cf_wrap (mark k f) = cf_wrap f" "cf_border (mark k f) = cf_border f" "cf_known (mark k f) = cf_known f OR k"
  by (simp_all add: mark_def)

lemma set_field_frame: "(\<And>v g. sel (mark k (upd v g)) = sel g) \<Longrightarrow> sel (set_field vo upd k f) = sel f"
  by (simp add: set_field_def split: option.split)

lemma set_field_own:
  "(\<And>v g. sel (mark k (upd v g)) = h v) \<Longrightarrow>
   sel (set_field vo upd k f) = (case vo of None \<Rightarrow> sel f | Some v \<Rightarrow> h v)"
  by (simp add: set_field_def split: option.split)

text \<open>The bits a list of writes leaves: those that were there, and one for each write.\<close>

definition bit_if :: "'a option \<Rightarrow> 16 word \<Rightarrow> 16 word" where
  "bit_if vo k = (case vo of None \<Rightarrow> 0 | Some v \<Rightarrow> k)"

lemma set_field_known:
  "(\<And>v g. cf_known (upd v g) = cf_known g) \<Longrightarrow>
   cf_known (set_field vo upd k f) = cf_known f OR bit_if vo k"
  by (simp add: set_field_def bit_if_def split: option.split)

lemmas set_field_frames =
  set_field_frame [where sel = cf_number] set_field_frame [where sel = cf_bold]
  set_field_frame [where sel = cf_italic] set_field_frame [where sel = cf_strike]
  set_field_frame [where sel = cf_underline] set_field_frame [where sel = cf_fill]
  set_field_frame [where sel = cf_color] set_field_frame [where sel = cf_align]
  set_field_frame [where sel = cf_valign] set_field_frame [where sel = cf_wrap]
  set_field_frame [where sel = cf_border]

lemmas set_field_owns =
  set_field_own [where sel = cf_number and h = "\<lambda>v. v"] set_field_own [where sel = cf_bold and h = "\<lambda>v. v"]
  set_field_own [where sel = cf_italic and h = "\<lambda>v. v"] set_field_own [where sel = cf_strike and h = "\<lambda>v. v"]
  set_field_own [where sel = cf_underline and h = "\<lambda>v. v"] set_field_own [where sel = cf_fill and h = "\<lambda>v. v"]
  set_field_own [where sel = cf_color and h = "\<lambda>v. v"]

lemma apply_patch_sel [simp]:
  "cf_number (apply_patch p f) = (case fp_number p of None \<Rightarrow> cf_number f | Some v \<Rightarrow> v)"
  "cf_bold (apply_patch p f) = (case fp_bold p of None \<Rightarrow> cf_bold f | Some v \<Rightarrow> v)"
  "cf_italic (apply_patch p f) = (case fp_italic p of None \<Rightarrow> cf_italic f | Some v \<Rightarrow> v)"
  "cf_strike (apply_patch p f) = (case fp_strike p of None \<Rightarrow> cf_strike f | Some v \<Rightarrow> v)"
  "cf_underline (apply_patch p f) = (case fp_underline p of None \<Rightarrow> cf_underline f | Some v \<Rightarrow> v)"
  "cf_fill (apply_patch p f) = (case fp_fill p of None \<Rightarrow> cf_fill f | Some v \<Rightarrow> v)"
  "cf_color (apply_patch p f) = (case fp_color p of None \<Rightarrow> cf_color f | Some v \<Rightarrow> v)"
  "cf_align (apply_patch p f) = (case fp_align p of None \<Rightarrow> cf_align f | Some v \<Rightarrow> normalize_align v)"
  "cf_valign (apply_patch p f) = (case fp_valign p of None \<Rightarrow> cf_valign f | Some v \<Rightarrow> normalize_valign v)"
  "cf_wrap (apply_patch p f) = (case fp_wrap p of None \<Rightarrow> cf_wrap f | Some v \<Rightarrow> normalize_wrap v)"
  "cf_border (apply_patch p f) = (case fp_border p of None \<Rightarrow> cf_border f | Some b \<Rightarrow> styled_border b)"
  unfolding apply_patch_def
  by (simp_all add: set_field_frames set_field_owns set_field_own [where sel = cf_align and h = normalize_align]
      set_field_own [where sel = cf_valign and h = normalize_valign]
      set_field_own [where sel = cf_wrap and h = normalize_wrap]
      set_field_own [where sel = cf_border and h = styled_border] cong: option.case_cong)

lemma overlay_sel [simp]:
  "cf_number (overlay s f) = (if has_bit s fmt_number \<or> cf_number s \<noteq> [] then cf_number s else cf_number f)"
  "cf_bold (overlay s f) = (if has_bit s fmt_bold \<or> cf_bold s then cf_bold s else cf_bold f)"
  "cf_italic (overlay s f) = (if has_bit s fmt_italic \<or> cf_italic s then cf_italic s else cf_italic f)"
  "cf_strike (overlay s f) = (if has_bit s fmt_strike \<or> cf_strike s then cf_strike s else cf_strike f)"
  "cf_underline (overlay s f) =
     (if has_bit s fmt_underline \<or> cf_underline s then cf_underline s else cf_underline f)"
  "cf_fill (overlay s f) = (if has_bit s fmt_fill \<or> cf_fill s \<noteq> [] then cf_fill s else cf_fill f)"
  "cf_color (overlay s f) = (if has_bit s fmt_color \<or> cf_color s \<noteq> [] then cf_color s else cf_color f)"
  "cf_align (overlay s f) =
     (case word_val normalize_align (has_bit s fmt_align) (cf_align s) of None \<Rightarrow> cf_align f | Some v \<Rightarrow> v)"
  "cf_valign (overlay s f) =
     (case word_val normalize_valign (has_bit s fmt_valign) (cf_valign s) of None \<Rightarrow> cf_valign f | Some v \<Rightarrow> v)"
  "cf_wrap (overlay s f) =
     (case word_val normalize_wrap (has_bit s fmt_wrap) (cf_wrap s) of None \<Rightarrow> cf_wrap f | Some v \<Rightarrow> v)"
  "cf_border (overlay s f) =
     (if has_bit s fmt_border \<or> cf_border s \<noteq> None
      then (case cf_border s of None \<Rightarrow> None | Some b \<Rightarrow> styled_border b) else cf_border f)"
  unfolding overlay_def
  by (simp_all add: set_field_frames set_field_owns set_field_own [where sel = cf_align and h = "\<lambda>v. v"]
      set_field_own [where sel = cf_valign and h = "\<lambda>v. v"] set_field_own [where sel = cf_wrap and h = "\<lambda>v. v"]
      set_field_own [where sel = cf_border and h = "\<lambda>bo. case bo of None \<Rightarrow> None | Some b \<Rightarrow> styled_border b"]
      when_val_def cong: option.case_cong)

lemma apply_patch_known:
  "cf_known (apply_patch p f) =
     cf_known f OR bit_if (fp_number p) fmt_number OR bit_if (fp_bold p) fmt_bold
     OR bit_if (fp_italic p) fmt_italic OR bit_if (fp_strike p) fmt_strike
     OR bit_if (fp_underline p) fmt_underline OR bit_if (fp_fill p) fmt_fill
     OR bit_if (fp_color p) fmt_color OR bit_if (fp_align p) fmt_align
     OR bit_if (fp_valign p) fmt_valign OR bit_if (fp_wrap p) fmt_wrap OR bit_if (fp_border p) fmt_border"
  unfolding apply_patch_def by (simp add: set_field_known or.assoc)

lemma overlay_known:
  "cf_known (overlay s f) =
     cf_known f
     OR bit_if (when_val (has_bit s fmt_number \<or> cf_number s \<noteq> []) (cf_number s)) fmt_number
     OR bit_if (when_val (has_bit s fmt_bold \<or> cf_bold s) (cf_bold s)) fmt_bold
     OR bit_if (when_val (has_bit s fmt_italic \<or> cf_italic s) (cf_italic s)) fmt_italic
     OR bit_if (when_val (has_bit s fmt_strike \<or> cf_strike s) (cf_strike s)) fmt_strike
     OR bit_if (when_val (has_bit s fmt_underline \<or> cf_underline s) (cf_underline s)) fmt_underline
     OR bit_if (when_val (has_bit s fmt_fill \<or> cf_fill s \<noteq> []) (cf_fill s)) fmt_fill
     OR bit_if (when_val (has_bit s fmt_color \<or> cf_color s \<noteq> []) (cf_color s)) fmt_color
     OR bit_if (word_val normalize_align (has_bit s fmt_align) (cf_align s)) fmt_align
     OR bit_if (word_val normalize_valign (has_bit s fmt_valign) (cf_valign s)) fmt_valign
     OR bit_if (word_val normalize_wrap (has_bit s fmt_wrap) (cf_wrap s)) fmt_wrap
     OR bit_if (when_val (has_bit s fmt_border \<or> cf_border s \<noteq> None) (cf_border s)) fmt_border"
  unfolding overlay_def by (simp add: set_field_known or.assoc)

lemma or_and_zero: "(x OR y) AND m = 0 \<longleftrightarrow> x AND m = 0 \<and> y AND m = 0" for m :: "16 word"
  unfolding bit_eq_iff by (auto simp: bit_simps)

lemma bit_if_and: "bit_if vo k AND m = 0 \<longleftrightarrow> vo = None \<or> k AND m = 0" for m :: "16 word"
  by (cases vo) (simp_all add: bit_if_def)

text \<open>A patch on the zero bag knows exactly the fields it sets.\<close>

lemma has_bit_patch [simp]:
  "has_bit (apply_patch p no_format) fmt_number \<longleftrightarrow> fp_number p \<noteq> None"
  "has_bit (apply_patch p no_format) fmt_bold \<longleftrightarrow> fp_bold p \<noteq> None"
  "has_bit (apply_patch p no_format) fmt_italic \<longleftrightarrow> fp_italic p \<noteq> None"
  "has_bit (apply_patch p no_format) fmt_strike \<longleftrightarrow> fp_strike p \<noteq> None"
  "has_bit (apply_patch p no_format) fmt_underline \<longleftrightarrow> fp_underline p \<noteq> None"
  "has_bit (apply_patch p no_format) fmt_fill \<longleftrightarrow> fp_fill p \<noteq> None"
  "has_bit (apply_patch p no_format) fmt_color \<longleftrightarrow> fp_color p \<noteq> None"
  "has_bit (apply_patch p no_format) fmt_align \<longleftrightarrow> fp_align p \<noteq> None"
  "has_bit (apply_patch p no_format) fmt_valign \<longleftrightarrow> fp_valign p \<noteq> None"
  "has_bit (apply_patch p no_format) fmt_wrap \<longleftrightarrow> fp_wrap p \<noteq> None"
  "has_bit (apply_patch p no_format) fmt_border \<longleftrightarrow> fp_border p \<noteq> None"
  unfolding has_bit_def apply_patch_known
  by (simp_all add: no_format_def or_and_zero bit_if_and fmt_bits)

lemma no_format_sel [simp]:
  "cf_number no_format = []" "\<not> cf_bold no_format" "\<not> cf_italic no_format" "\<not> cf_strike no_format"
  "\<not> cf_underline no_format" "cf_fill no_format = []" "cf_color no_format = []" "cf_align no_format = []"
  "cf_valign no_format = []" "cf_wrap no_format = []" "cf_border no_format = None" "cf_known no_format = 0"
  by (simp_all add: no_format_def)

lemma word_val_cases:
  "word_val norm False [] = None" "word_val norm True v = Some (norm v)"
  by (simp_all add: word_val_def when_val_def)

lemma word_val_patch:
  "word_val norm (vo \<noteq> None) (case vo of None \<Rightarrow> [] | Some v \<Rightarrow> norm v) = map_option (\<lambda>v. norm (norm v)) vo"
  by (cases vo) (simp_all add: word_val_cases)

lemma styled_border_styled: "styled_border b = Some b' \<Longrightarrow> styled_border b' = Some b'"
  by (auto simp: styled_border_def border_zero_def split: if_splits)

lemma bit_if_map [simp]: "bit_if (map_option g vo) k = bit_if vo k"
  by (cases vo) (simp_all add: bit_if_def)

lemma patch_bits:
  "bit_if (when_val (vo \<noteq> None \<or> (case vo of None \<Rightarrow> False | Some v \<Rightarrow> v)) x) k = bit_if vo k"
  "bit_if (when_val (so \<noteq> None \<or> (case so of None \<Rightarrow> [] | Some v \<Rightarrow> v) \<noteq> []) y) k = bit_if so k"
  "bit_if (word_val norm (so \<noteq> None) (case so of None \<Rightarrow> [] | Some v \<Rightarrow> norm v)) k = bit_if so k"
  "bit_if (when_val (bo \<noteq> None \<or> (case bo of None \<Rightarrow> None | Some b \<Rightarrow> styled_border b) \<noteq> None) z) k =
     bit_if bo k"
  by (simp_all only: word_val_patch bit_if_map) (auto simp: bit_if_def when_val_def split: option.splits)

text \<open>
  Laying a patch's bag over a format is applying the patch to it: the bits of a bag
  carry every write of the patch, also of false and of the empty text, and no other field.
\<close>

lemma overlay_of_patch: "overlay (apply_patch p no_format) f = apply_patch p f"
proof (rule cell_format.equality)
  show "cf_known (overlay (apply_patch p no_format) f) = cf_known (apply_patch p f)"
    by (simp only: overlay_known apply_patch_known [of p f] has_bit_patch apply_patch_sel no_format_sel
        patch_bits)
qed (auto simp: word_val_cases split: option.split dest: styled_border_styled)

section \<open>Fingerprint\<close>

text \<open>
  CellFormat.writeFingerprint: the bytes of a bag in the hash of its grid. Fields end at a
  NUL; which fields were written (\<open>cf_known\<close>) is not part of them.
\<close>

definition sep_byte :: char where
  "sep_byte = CHR 0x00"

definition flag_byte :: "bool \<Rightarrow> string" where
  "flag_byte b = (if b then ''1'' else [])"

definition write_fingerprint :: "cell_format \<Rightarrow> string" where
  "write_fingerprint f =
     (if format_is_zero f then []
      else cf_number f @ [sep_byte] @ flag_byte (cf_bold f) @ [sep_byte] @ flag_byte (cf_italic f) @ [sep_byte]
        @ flag_byte (cf_strike f) @ [sep_byte] @ flag_byte (cf_underline f) @ [sep_byte]
        @ cf_fill f @ [sep_byte] @ cf_color f @ [sep_byte] @ cf_align f @ [sep_byte] @ cf_valign f @ [sep_byte]
        @ cf_wrap f
        @ (case cf_border f of
             None \<Rightarrow> []
           | Some b \<Rightarrow>
               if border_zero b then []
               else [sep_byte] @ cb_style b @ [sep_byte] @ cb_color b @ [sep_byte] @ cb_edges b))"

definition format_fields :: "cell_format \<Rightarrow> string list" where
  "format_fields f =
     [cf_number f, flag_byte (cf_bold f), flag_byte (cf_italic f), flag_byte (cf_strike f),
      flag_byte (cf_underline f), cf_fill f, cf_color f, cf_align f, cf_valign f, cf_wrap f]
     @ (if border_value f = no_border then []
        else [cb_style (border_value f), cb_color (border_value f), cb_edges (border_value f)])"

text \<open>No field holds the byte that ends a field.\<close>

definition fields_clean :: "cell_format \<Rightarrow> bool" where
  "fields_clean f \<longleftrightarrow> sep_byte \<notin> set (concat (format_fields f))"

lemma write_fingerprint_join:
  "\<not> format_is_zero f \<Longrightarrow> write_fingerprint f = join_text [sep_byte] (format_fields f)"
  by (auto simp: write_fingerprint_def format_fields_def border_value_def border_zero_no_border
      split: option.split)

lemma flag_byte_eq [simp]: "flag_byte a = flag_byte b \<longleftrightarrow> a = b"
  by (simp add: flag_byte_def)

lemma border_value_known [simp]: "border_value (f\<lparr>cf_known := k\<rparr>) = border_value f"
  by (simp add: border_value_def)

lemma format_equal_iff:
  "format_equal f g \<longleftrightarrow>
     cf_number f = cf_number g \<and> cf_bold f = cf_bold g \<and> cf_italic f = cf_italic g \<and>
     cf_strike f = cf_strike g \<and> cf_underline f = cf_underline g \<and> cf_fill f = cf_fill g \<and>
     cf_color f = cf_color g \<and> cf_align f = cf_align g \<and> cf_valign f = cf_valign g \<and>
     cf_wrap f = cf_wrap g \<and> cf_known f = cf_known g \<and> border_value f = border_value g"
  by (cases f; cases g) (simp add: format_equal_def)

lemma border_fields_eq:
  "(if a = no_border then [] else [cb_style a, cb_color a, cb_edges a]) =
   (if b = no_border then [] else [cb_style b, cb_color b, cb_edges b]) \<longleftrightarrow> a = b"
  by (auto intro: cell_border.equality)

lemma format_fields_eq:
  "format_fields f = format_fields g \<longleftrightarrow> format_equal (f\<lparr>cf_known := 0\<rparr>) (g\<lparr>cf_known := 0\<rparr>)"
  by (simp add: format_fields_def format_equal_iff border_fields_eq)

lemma format_fields_not_Nil [simp]: "format_fields f \<noteq> []"
  by (simp add: format_fields_def)

lemma fingerprint_nonzero:
  assumes "fields_clean f" "fields_clean g" "\<not> format_is_zero f" "\<not> format_is_zero g"
  shows "write_fingerprint f = write_fingerprint g \<longleftrightarrow> format_fields f = format_fields g"
proof -
  have "split_on sep_byte (write_fingerprint h) = format_fields h"
    if "fields_clean h" "\<not> format_is_zero h" for h
    using that split_join_text [of "format_fields h" sep_byte]
    by (simp add: fields_clean_def write_fingerprint_join)
  then show ?thesis using assms write_fingerprint_join by metis
qed

lemma fingerprint_zero_iff: "write_fingerprint f = [] \<longleftrightarrow> format_is_zero f"
  by (simp add: write_fingerprint_def)

text \<open>
  Two bags give the grid's hash the same bytes exactly when both are zero, or both are
  not and they agree in every field and in the border's value. What the hash does not see is
  which fields were written: clearing a field that is already clear leaves it alone.
\<close>

lemma fingerprint_eq_iff:
  assumes "fields_clean f" "fields_clean g"
  shows "write_fingerprint f = write_fingerprint g \<longleftrightarrow>
     format_is_zero f = format_is_zero g \<and>
     (format_is_zero f \<or> format_equal (f\<lparr>cf_known := 0\<rparr>) (g\<lparr>cf_known := 0\<rparr>))"
  using fingerprint_nonzero [OF assms] fingerprint_zero_iff [of f] fingerprint_zero_iff [of g]
  by (auto simp: format_fields_eq)

definition demo_italic :: cell_format where
  "demo_italic = no_format\<lparr>cf_italic := True, cf_known := fmt_italic\<rparr>"

definition demo_clear :: format_patch where
  "demo_clear = \<lparr>fp_number = None, fp_bold = Some False, fp_italic = None, fp_strike = None,
     fp_underline = None, fp_fill = None, fp_color = None, fp_align = None, fp_valign = None,
     fp_wrap = None, fp_border = None\<rparr>"

lemma demo_clean:
  "fields_clean demo_italic" "fields_clean (apply_patch demo_clear demo_italic)"
  by (simp_all add: fields_clean_def format_fields_def border_value_def demo_italic_def demo_clear_def
      flag_byte_def sep_byte_def)

section \<open>Colours\<close>

text \<open>
  ParseRGB reads six hexadecimal digits, or the last six of eight, after an optional sign;
  FormatRGB writes the six of a colour.
\<close>

type_synonym rgb = "8 word \<times> 8 word \<times> 8 word"

definition parse_rgb :: "string \<Rightarrow> rgb option" where
  "parse_rgb s =
     (let s = trim_prefix (trim_space s) ''#'';
          s = (if length s = 8 then drop 2 s else s)
      in if length s \<noteq> 6 then None
         else (case parse_hex 0 s of
                 None \<Rightarrow> None
               | Some n \<Rightarrow>
                   Some (word_of_nat (drop_bit 16 n AND 0xFF), word_of_nat (drop_bit 8 n AND 0xFF),
                         word_of_nat (n AND 0xFF))))"

definition hex_pair :: "8 word \<Rightarrow> string" where
  "hex_pair w = [hex_digits ! unat (drop_bit 4 w), hex_digits ! unat (w AND 15)]"

definition format_rgb :: "rgb \<Rightarrow> string" where
  "format_rgb = (\<lambda>(r, g, b). ''#'' @ hex_pair r @ hex_pair g @ hex_pair b)"

definition hex_color :: "string \<Rightarrow> string" where
  "hex_color s = (case parse_rgb s of None \<Rightarrow> [] | Some c \<Rightarrow> format_rgb c)"

definition excel_argb :: "string \<Rightarrow> string" where
  "excel_argb s =
     (case parse_rgb s of None \<Rightarrow> ''FF000000'' | Some c \<Rightarrow> ''FF'' @ upper_ascii (drop 1 (format_rgb c)))"

lemma nibbles:
  fixes w :: "8 word"
  shows "unat (drop_bit 4 w) = unat w div 16" "unat (w AND 15) = unat w mod 16" "unat w < 256"
proof -
  have "unat w < 2 ^ 8" using unsigned_less [of w] by simp
  then show "unat w < 256" by simp
  show "unat (drop_bit 4 w) = unat w div 16" 
    using drop_bit_eq_div [of 4 "unat w"] by (simp add: unat_drop_bit_eq)
  have "w AND 15 = take_bit 4 w" by (simp add: take_bit_eq_mask mask_eq_exp_minus_1)
  then show "unat (w AND 15) = unat w mod 16" 
    using take_bit_eq_mod [of 4 "unat w"] by (simp only: unsigned_take_bit_eq) simp
qed

lemma hex_pair_plain: "c \<in> set (hex_pair w) \<Longrightarrow> plain c"
  using nibbles [of w] by (auto simp: hex_pair_def)

lemma parse_hex_pair:
  "parse_hex acc (hex_pair w @ s) = parse_hex (acc * 256 + unat w) s"
  using nibbles [of w] by (simp add: hex_pair_def algebra_simps)

lemma byte_of_nat:
  fixes w :: "8 word"
  shows "(word_of_nat ((m * 256 + unat w) AND 0xFF) :: 8 word) = w"
proof -
  have "(m * 256 + unat w) AND 0xFF = take_bit 8 (m * 256 + unat w)"
    by (simp add: take_bit_eq_mask mask_eq_exp_minus_1)
  also have "\<dots> = unat w" using nibbles(3) [of w] by (simp add: take_bit_eq_mod)
  finally show ?thesis by simp
qed

definition six_digits :: "rgb \<Rightarrow> string" where
  "six_digits = (\<lambda>(r, g, b). hex_pair r @ hex_pair g @ hex_pair b)"

lemma hex_value_upper: "i < 16 \<Longrightarrow> hex_value (upper_char (hex_digits ! i)) = Some i"
  by (auto simp: hex_value_def upper_char_def hex_digit_code Let_def)

lemma hex_digit_no_sign: "i < 16 \<Longrightarrow> hex_digits ! i \<noteq> CHR ''#''"
  by (drule less_16_cases) (auto simp: hex_digits_def)

lemma upper_char_plain: "plain c \<Longrightarrow> plain (upper_char c)"
  by (auto simp: plain_def upper_char_def Let_def mod_less)

lemma parse_hex_upper: "parse_hex acc (upper_ascii (hex_pair w) @ s) = parse_hex (acc * 256 + unat w) s"
  using nibbles [of w] by (simp add: hex_pair_def upper_ascii_def hex_value_upper algebra_simps)

lemma length_hex_pair [simp]: "length (hex_pair w) = 2"
  by (simp add: hex_pair_def)

text \<open>The text inside: six digits, in lower or in upper case.\<close>

lemma parse_rgb_digits:
  assumes "length s = 6" "parse_hex 0 s = Some ((unat r * 256 + unat g) * 256 + unat b)"
    "t = s \<or> (\<exists>x y. t = x # y # s)" "\<forall>c \<in> set t. plain c" "u = t \<or> u = ''#'' @ t" "hd t \<noteq> CHR ''#''"
  shows "parse_rgb u = Some (r, g, b)"
proof -
  let ?n = "(unat r * 256 + unat g) * 256 + unat b"
  have t: "trim_prefix (trim_space u) ''#'' = t"
    using assms by (cases t) (auto simp: trim_prefix_def has_prefix_def plain_eval)
  have "(if length t = 8 then drop 2 t else t) = s" using assms by auto
  moreover have "drop_bit 16 ?n = unat r" "drop_bit 8 ?n = unat r * 256 + unat g"
    using nibbles(3) [of g] nibbles(3) [of b] by (simp_all add: drop_bit_eq_div)
  ultimately show ?thesis
    using t assms(1,2) byte_of_nat [of 0 r] byte_of_nat [of "unat r" g]
      byte_of_nat [of "unat r * 256 + unat g" b]
    by (simp add: parse_rgb_def Let_def)
qed

lemma parse_format_rgb: "parse_rgb (format_rgb (r, g, b)) = Some (r, g, b)"
proof (rule parse_rgb_digits [where s = "six_digits (r, g, b)" and t = "six_digits (r, g, b)"])
  show "\<forall>c \<in> set (six_digits (r, g, b)). plain c"
    using hex_pair_plain by (auto simp: six_digits_def)
  show "hd (six_digits (r, g, b)) \<noteq> CHR ''#''"
    using nibbles [of r] by (simp add: six_digits_def hex_pair_def hex_digit_no_sign)
qed (simp_all add: six_digits_def format_rgb_def parse_hex_pair parse_hex_pair [where s = "[]", simplified])

lemma parse_excel_digits: "parse_rgb (''FF'' @ upper_ascii (six_digits (r, g, b))) = Some (r, g, b)"
proof (rule parse_rgb_digits [where s = "upper_ascii (six_digits (r, g, b))"])
  show "\<forall>c \<in> set (''FF'' @ upper_ascii (six_digits (r, g, b))). plain c"
    using hex_pair_plain upper_char_plain by (auto simp: six_digits_def upper_ascii_def plain_eval)
qed (simp_all add: six_digits_def upper_ascii_def parse_hex_upper [unfolded upper_ascii_def]
     parse_hex_upper [where s = "[]", simplified, unfolded upper_ascii_def])

lemma parse_black: "parse_rgb ''FF000000'' = Some (0, 0, 0)"
  by (rule parse_rgb_digits [where s = "''000000''" and t = "''FF000000''"])
    (simp_all add: hex_value_def plain_eval Let_def)

lemma parse_rgb_Nil [simp]: "parse_rgb [] = None"
  by (simp add: parse_rgb_def trim_prefix_def)

text \<open>
  A colour FormatRGB writes is read back by ParseRGB; the Office form of any text reads as
  the colour of the text, and as black when it has none; and HexColor is a normal form.
\<close>

lemma rgb_roundtrip:
  "parse_rgb (format_rgb c) = Some c \<and>
   parse_rgb (excel_argb s) = (case parse_rgb s of None \<Rightarrow> Some (0, 0, 0) | Some c \<Rightarrow> Some c) \<and>
   hex_color (hex_color s) = hex_color s"
proof -
  obtain r g b where c: "c = (r, g, b)" by (cases c)
  have "drop 1 (format_rgb d) = six_digits d" for d
    by (simp add: format_rgb_def six_digits_def split: prod.split)
  then show ?thesis
    using parse_format_rgb parse_excel_digits parse_black
    by (auto simp: c excel_argb_def hex_color_def split: option.split)
qed

end
