(* ===== verification/A1.thy ===== *)
theory A1
  imports Text
begin

text \<open>
  Cell addresses (vfs/tabular.go): the parser of A1 and A1:C3 on 64-bit columns, the writer
  with its eight-letter buffer, and the addresses Sheet!A1 a block id holds. Errors are
  kept without their texts; None is a panic.
\<close>

datatype grid_error =
    BadA1 | UnknownSheet | NotSingleCell | LineRange | MergeWrite | GridTooLarge | Projected
  | TabMismatch | NothingToWrite | SheetNotSupported

section \<open>Reading\<close>

definition letter_value :: "char \<Rightarrow> nat option" where
  "letter_value c =
     (let n = of_char c; r = (if 97 \<le> n \<and> n \<le> 122 then n - 32 else n)
      in if r < 65 \<or> 90 < r then None else Some (r - 64))"

text \<open>The loop over the letters, with the column wrapping at 64 bits: the column, and what follows.\<close>

fun a1_letters :: "64 word \<Rightarrow> string \<Rightarrow> 64 word \<times> string" where
  "a1_letters col [] = (col, [])"
| "a1_letters col (c # s) =
     (case letter_value c of
        None \<Rightarrow> (col, c # s)
      | Some v \<Rightarrow> a1_letters (col * 26 + of_nat v) s)"

definition parse_a1_cell :: "string \<Rightarrow> grid_error + int \<times> int" where
  "parse_a1_cell s0 =
     (let s = trim_space s0; (col, rest) = a1_letters 0 s
      in if length rest = length s \<or> rest = [] then Inl BadA1
         else (case atoi rest of
                 None \<Rightarrow> Inl BadA1
               | Some row \<Rightarrow> if row < 1 \<or> sint col < 1 then Inl BadA1 else Inr (row, sint col)))"

definition parse_a1 :: "string \<Rightarrow> grid_error + int \<times> int \<times> int \<times> int" where
  "parse_a1 s0 =
     (let s = trim_space s0
      in if s = [] then Inl BadA1
         else case cut_at (CHR '':'') s of
           (left, right, is_range) \<Rightarrow>
             (case parse_a1_cell left of
                Inl e \<Rightarrow> Inl e
              | Inr (r1, c1) \<Rightarrow>
                  if \<not> is_range then Inr (r1, c1, r1, c1)
                  else (case parse_a1_cell right of
                          Inl e \<Rightarrow> Inl e
                        | Inr (r2, c2) \<Rightarrow>
                            if r2 < r1 \<or> c2 < c1 then Inl BadA1 else Inr (r1, c1, r2, c2))))"

section \<open>Writing\<close>

text \<open>The loop that fills the buffer from its end: with no slot left the write panics.\<close>

fun col_loop :: "nat \<Rightarrow> int \<Rightarrow> string \<Rightarrow> string option" where
  "col_loop slots col b =
     (if col \<le> 0 then Some b
      else case slots of
        0 \<Rightarrow> None
      | Suc n \<Rightarrow> col_loop n ((col - 1) div 26) (char_of (65 + nat ((col - 1) mod 26)) # b))"

declare col_loop.simps [simp del]

definition col_letters :: "int \<Rightarrow> string option" where
  "col_letters col = (if col < 1 then Some [] else col_loop 8 col [])"

definition format_a1 :: "int \<Rightarrow> int \<Rightarrow> string option" where
  "format_a1 row col = map_option (\<lambda>l. l @ itoa row) (col_letters col)"

definition quote_sheet_title :: "string \<Rightarrow> string" where
  "quote_sheet_title title =
     (if contains_any title '' '![]''
      then [CHR 0x27] @ concat (map (\<lambda>c. if c = CHR 0x27 then [c, c] else [c]) title) @ [CHR 0x27]
      else title)"

definition sheet_a1 :: "string \<Rightarrow> int \<Rightarrow> int \<Rightarrow> int \<Rightarrow> int \<Rightarrow> string option" where
  "sheet_a1 title r1 c1 r2 c2 =
     (let q = quote_sheet_title title
      in if r1 = r2 \<and> c1 = c2 then map_option (\<lambda>a. q @ ''!'' @ a) (format_a1 r1 c1)
         else (case (format_a1 r1 c1, format_a1 r2 c2) of
                 (Some a, Some b) \<Rightarrow> Some (q @ ''!'' @ a @ '':'' @ b)
               | _ \<Rightarrow> None))"

definition split_sheet_addr :: "string \<Rightarrow> string \<times> string" where
  "split_sheet_addr s =
     (let b = trim_space s;
          plain_split = (case last_index (CHR ''!'') b of Some i \<Rightarrow> (take i b, drop (i + 1) b) | None \<Rightarrow> (b, []))
      in if b = [] then ([], [])
         else if has_prefix b [CHR 0x27]
         then (case index_sub (drop 1 b) [CHR 0x27, CHR ''!''] of
                 Some i \<Rightarrow> (take i (drop 1 b), drop (i + 3) b)
               | None \<Rightarrow> plain_split)
         else plain_split)"

section \<open>What is written is read back\<close>

fun letters_cap :: "nat \<Rightarrow> int" where
  "letters_cap 0 = 0"
| "letters_cap (Suc n) = 26 * letters_cap n + 26"

definition max_cols :: int where
  "max_cols = 217180147158"

lemma max_cols_cap: "max_cols = letters_cap 8"
  by (simp add: max_cols_def eval_nat_numeral)

lemma col_loop_fits: "col_loop n col b \<noteq> None \<longleftrightarrow> col \<le> letters_cap n"
proof (induction n arbitrary: col b)
  case 0
  then show ?case by (subst col_loop.simps) simp
next
  case (Suc n)
  have "0 \<le> letters_cap n" by (induction n) auto
  then show ?case using Suc.IH by (subst col_loop.simps) auto
qed

lemma letter_value_char [simp]: "v < 26 \<Longrightarrow> letter_value (char_of (65 + v :: nat)) = Some (v + 1)"
  by (simp add: letter_value_def Let_def)

lemma letter_plain: "v < 26 \<Longrightarrow> plain (char_of (65 + v :: nat))"
  by (simp add: plain_def)

lemma word_step: "word_of_int k * 26 + of_nat m = (word_of_int (k * 26 + int m) :: 64 word)"
  by simp

text \<open>Reading what the loop wrote gives its column, and goes on behind the letters.\<close>

lemma a1_letters_col_loop:
  "col_loop n col b = Some ls \<Longrightarrow> 0 \<le> col \<Longrightarrow>
   a1_letters 0 (ls @ r) = a1_letters (word_of_int col) (b @ r)"
proof (induction n arbitrary: col b)
  case 0
  then show ?case by (subst (asm) col_loop.simps) (auto split: if_splits)
next
  case (Suc n)
  show ?case
  proof (cases "col = 0")
    case True
    with Suc.prems show ?thesis by (subst (asm) col_loop.simps) simp
  next
    case False
    let ?v = "nat ((col - 1) mod 26)"
    from False Suc.prems have l: "col_loop n ((col - 1) div 26) (char_of (65 + ?v) # b) = Some ls"
      by (subst (asm) col_loop.simps) simp
    have v: "?v < 26" by simp
    have c: "(col - 1) div 26 * 26 + (int ?v + 1) = col" by simp
    have w: "(word_of_int ((col - 1) div 26) * 26 + of_nat (?v + 1) :: 64 word) = word_of_int col"
      unfolding word_step using c by (metis of_nat_Suc Suc_eq_plus1 add.commute)
    have "a1_letters 0 (ls @ r) = a1_letters (word_of_int ((col - 1) div 26)) (char_of (65 + ?v) # b @ r)"
      using Suc.IH [OF l] Suc.prems False by simp
    also have "\<dots> = a1_letters (word_of_int col) (b @ r)"
      using w v by (simp only: a1_letters.simps letter_value_char option.case)
    finally show ?thesis .
  qed
qed

lemma col_loop_plain: "col_loop n col b = Some ls \<Longrightarrow> \<forall>c \<in> set b. plain c \<Longrightarrow> \<forall>c \<in> set ls. plain c"
proof (induction n arbitrary: col b)
  case 0
  then show ?case by (subst (asm) col_loop.simps) (auto split: if_splits)
next
  case (Suc n)
  show ?case
  proof (cases "col \<le> 0")
    case True
    with Suc.prems show ?thesis by (subst (asm) col_loop.simps) simp
  next
    case False
    have "plain (char_of (65 + nat ((col - 1) mod 26)))" by (rule letter_plain) simp
    then show ?thesis
      using Suc.IH [of "(col - 1) div 26" "char_of (65 + nat ((col - 1) mod 26)) # b"] Suc.prems False
      by (subst (asm) (2) col_loop.simps) simp
  qed
qed

lemma col_loop_not_Nil: "col_loop n col b = Some ls \<Longrightarrow> 0 < col \<or> b \<noteq> [] \<Longrightarrow> ls \<noteq> []"
proof (induction n arbitrary: col b)
  case 0
  then show ?case by (subst (asm) col_loop.simps) (auto split: if_splits)
next
  case (Suc n)
  then show ?case by (subst (asm) (2) col_loop.simps) (auto split: if_splits)
qed

lemma letter_value_digit: "c \<in> set (digits_of n) \<Longrightarrow> letter_value c = None"
  using digits_of_range [of c n] by (simp add: letter_value_def Let_def)

lemma a1_letters_digits: "a1_letters col (digits_of n) = (col, digits_of n)"
  using letter_value_digit [of "hd (digits_of n)" n] by (cases "digits_of n") auto

text \<open>An address in range: written, it is plain text that holds no separator, and is read back.\<close>

definition in_range :: "int \<Rightarrow> int \<Rightarrow> bool" where
  "in_range row col \<longleftrightarrow> 1 \<le> row \<and> row < 2 ^ 63 \<and> 1 \<le> col \<and> col < 2 ^ 63"

definition cell_text :: "string \<Rightarrow> bool" where
  "cell_text s \<longleftrightarrow> s \<noteq> [] \<and> (\<forall>c \<in> set s. plain c \<and> c \<noteq> CHR '':'' \<and> c \<noteq> CHR ''!'' \<and> c \<noteq> CHR 0x27)"

lemma format_a1_None: "1 \<le> col \<Longrightarrow> format_a1 row col = None \<longleftrightarrow> max_cols < col"
  using col_loop_fits [of 8 col "[]"] by (auto simp: format_a1_def col_letters_def max_cols_cap)

lemma col_loop_upper:
  "col_loop n col b = Some ls \<Longrightarrow> \<forall>c \<in> set b. 65 \<le> (of_char c :: nat) \<Longrightarrow> \<forall>c \<in> set ls. 65 \<le> (of_char c :: nat)"
proof (induction n arbitrary: col b)
  case 0
  then show ?case by (subst (asm) col_loop.simps) (auto split: if_splits)
next
  case (Suc n)
  show ?case
  proof (cases "col \<le> 0")
    case True
    with Suc.prems show ?thesis by (subst (asm) col_loop.simps) simp
  next
    case False
    let ?v = "nat ((col - 1) mod 26)"
    have "?v < 26" by simp
    then have "65 \<le> (of_char (char_of (65 + ?v)) :: nat)" by (simp del: nat_less_iff)
    then show ?thesis
      using Suc.IH [of "(col - 1) div 26" "char_of (65 + nat ((col - 1) mod 26)) # b"] Suc.prems False
      by (subst (asm) (2) col_loop.simps) simp
  qed
qed

lemma format_a1_cell_text:
  assumes "format_a1 row col = Some s" "1 \<le> row" "1 \<le> col"
  shows "cell_text s"
proof -
  obtain ls where ls: "col_loop 8 col [] = Some ls" "s = ls @ digits_of (nat row)"
    using assms by (auto simp: format_a1_def col_letters_def itoa_def)
  have "c \<noteq> CHR '':'' \<and> c \<noteq> CHR ''!'' \<and> c \<noteq> CHR 0x27" if "c \<in> set s" for c
    using that ls col_loop_upper [OF ls(1)] digits_of_range [of c "nat row"] by (auto simp: of_char_Char)
  then show ?thesis
    using ls col_loop_plain [OF ls(1)] by (auto simp: cell_text_def)
qed

lemma parse_format_cell:
  assumes "format_a1 row col = Some s" "in_range row col"
  shows "parse_a1_cell s = Inr (row, col)"
proof -
  obtain ls where ls: "col_loop 8 col [] = Some ls" "s = ls @ digits_of (nat row)"
    using assms by (auto simp: format_a1_def col_letters_def itoa_def in_range_def)
  have "cell_text s"
    by (rule format_a1_cell_text [OF assms(1)]) (use assms(2) in \<open>simp_all add: in_range_def\<close>)
  then have t: "trim_space s = s" by (simp add: cell_text_def)
  have "ls \<noteq> []" using col_loop_not_Nil [OF ls(1)] assms(2) by (simp add: in_range_def)
  moreover have "a1_letters 0 s = (word_of_int col, digits_of (nat row))"
    using a1_letters_col_loop [OF ls(1), of "digits_of (nat row)"] a1_letters_digits ls(2) assms(2)
    by (simp add: in_range_def)
  moreover have "sint (word_of_int col :: 64 word) = col"
    using assms(2) by (simp add: in_range_def signed_of_int signed_take_bit_int_eq_self)
  moreover have "atoi (digits_of (nat row)) = Some row"
    using atoi_itoa [of row] assms(2) by (simp add: itoa_def in_range_def int_fits_def)
  ultimately show ?thesis
    using assms(2) ls(2) t by (simp add: parse_a1_cell_def Let_def in_range_def)
qed

lemma parse_a1_texts:
  assumes "cell_text s" "parse_a1_cell s = Inr (r1, c1)"
  shows "parse_a1 s = Inr (r1, c1, r1, c1)"
    and "cell_text t \<Longrightarrow> parse_a1_cell t = Inr (r2, c2) \<Longrightarrow> r1 \<le> r2 \<Longrightarrow> c1 \<le> c2 \<Longrightarrow>
         parse_a1 (s @ '':'' @ t) = Inr (r1, c1, r2, c2)"
proof -
  have s: "CHR '':'' \<notin> set s" "trim_space s = s" "s \<noteq> []" using assms(1) by (auto simp: cell_text_def)
  then show "parse_a1 s = Inr (r1, c1, r1, c1)"
    using assms(2) by (simp add: parse_a1_def cut_at_free Let_def)
  assume t: "cell_text t" "parse_a1_cell t = Inr (r2, c2)" "r1 \<le> r2" "c1 \<le> c2"
  have "trim_space (s @ '':'' @ t) = s @ '':'' @ t"
    by (rule trim_space_all_plain) (use assms(1) t(1) in \<open>auto simp: cell_text_def plain_eval\<close>)
  then show "parse_a1 (s @ '':'' @ t) = Inr (r1, c1, r2, c2)"
    using assms(2) t s by (simp add: parse_a1_def Let_def)
qed

lemma a1_roundtrip_texts:
  assumes "in_range r1 c1" "in_range r2 c2" "r1 \<le> r2" "c1 \<le> c2"
    and ab: "format_a1 r1 c1 = Some a" "format_a1 r2 c2 = Some b"
  shows "parse_a1 a = Inr (r1, c1, r1, c1) \<and> parse_a1 (a @ '':'' @ b) = Inr (r1, c1, r2, c2)"
proof -
  note texts = format_a1_cell_text [OF ab(1)] format_a1_cell_text [OF ab(2)]
    parse_format_cell [OF ab(1) assms(1)] parse_format_cell [OF ab(2) assms(2)]
  show ?thesis
    using texts parse_a1_texts [OF texts(1) texts(3)] assms by (simp add: in_range_def)
qed

text \<open>
  Addresses: with a column of at most eight letters FormatA1 writes what ParseA1 reads
  back, and two such addresses joined by a colon read as the range they span; with a larger
  column FormatA1 panics, at the write before its buffer.
\<close>

lemma a1_roundtrip:
  assumes "in_range r1 c1" "in_range r2 c2" "r1 \<le> r2" "c1 \<le> c2"
  shows "case (format_a1 r1 c1, format_a1 r2 c2) of
           (Some a, Some b) \<Rightarrow>
             c2 \<le> max_cols \<and> parse_a1 a = Inr (r1, c1, r1, c1) \<and>
             parse_a1 (a @ '':'' @ b) = Inr (r1, c1, r2, c2)
         | _ \<Rightarrow> max_cols < c2"
proof (cases "max_cols < c2")
  case True
  then show ?thesis
    using format_a1_None [of c2 r2] assms by (auto simp: in_range_def split: option.split)
next
  case False
  then obtain a b where ab: "format_a1 r1 c1 = Some a" "format_a1 r2 c2 = Some b"
    using format_a1_None [of c1 r1] format_a1_None [of c2 r2] assms by (auto simp: in_range_def)
  show ?thesis using False ab a1_roundtrip_texts [OF assms ab] by simp
qed

section \<open>Addresses with a sheet\<close>

lemma space_runes_no_bang: "p \<in> set space_runes \<Longrightarrow> CHR ''!'' \<notin> set p"
  using space_runes_not_plain by (fastforce simp: plain_eval)

text \<open>What TrimSpace leaves of a title it leaves of an address that begins with it.\<close>

lemma trim_left_space_bang:
  assumes "trim_left_space s = s"
  shows "trim_left_space (s @ ''!'' @ t) = s @ ''!'' @ t"
proof (cases s)
  case Nil
  have "plain (CHR ''!'')" by (simp add: plain_eval)
  then show ?thesis using Nil by simp
next
  case (Cons c w)
  let ?P = "\<lambda>u p. p \<noteq> [] \<and> has_prefix u p"
  have "find (?P (c # w)) space_runes = None"
  proof (rule ccontr)
    assume "find (?P (c # w)) space_runes \<noteq> None"
    then obtain p where p: "find (?P (c # w)) space_runes = Some p" by blast
    have "trim_left_space (c # w) = trim_left_of space_runes (drop (length p - 1) w)"
      by (simp add: trim_left_space_def p)
    then have "length (trim_left_space (c # w)) \<le> length w"
      using trim_left_of_length [of space_runes "drop (length p - 1) w"] by simp
    with assms Cons show False by simp
  qed
  then have none: "\<not> prefix p s" if "p \<in> set space_runes" for p
    using that space_runes_not_Nil Cons by (auto simp: find_None_iff has_prefix_prefix)
  have "\<not> prefix p (s @ ''!'' @ t)" if "p \<in> set space_runes" for p
    using none [OF that] space_runes_no_bang [OF that] by (auto simp: prefix_append prefix_Cons)
  then have "find (?P (c # w @ ''!'' @ t)) space_runes = None"
    using Cons by (auto simp: find_None_iff has_prefix_prefix)
  then show ?thesis using Cons by (simp add: trim_left_space_def)
qed

definition addr_text :: "string \<Rightarrow> bool" where
  "addr_text a \<longleftrightarrow> cell_text a \<or> (\<exists>b c. cell_text b \<and> cell_text c \<and> a = b @ '':'' @ c)"

lemma cell_text_last: "cell_text a \<Longrightarrow> a \<noteq> [] \<and> plain (last a)"
  using last_in_set [of a] by (simp add: cell_text_def)

lemma cell_text_no_bang: "cell_text a \<Longrightarrow> CHR ''!'' \<notin> set a"
  unfolding cell_text_def by blast

lemma addr_text_last: "addr_text a \<Longrightarrow> a \<noteq> [] \<and> plain (last a)"
  unfolding addr_text_def
proof (elim disjE exE conjE)
  fix b c
  assume "cell_text c" "a = b @ '':'' @ c"
  then show "a \<noteq> [] \<and> plain (last a)" using cell_text_last [of c] by simp
qed (rule cell_text_last)

lemma addr_text_bang: "addr_text a \<Longrightarrow> CHR ''!'' \<notin> set a"
  unfolding addr_text_def by (elim disjE exE conjE) (simp_all add: cell_text_no_bang)

lemma trim_bang_text:
  assumes "trim_left_space s = s" "addr_text a"
  shows "trim_space (s @ ''!'' @ a) = s @ ''!'' @ a"
  using trim_left_space_bang [OF assms(1), of a] addr_text_last [OF assms(2)]
    trim_right_space_plain [of "last a" "s @ ''!'' @ butlast a"]
  by (simp add: trim_space_def)

lemma split_sheet_text:
  assumes "CHR 0x27 \<notin> set title" "trim_left_space title = title \<or> contains_any title '' '![]''"
    and a: "addr_text a"
  shows "split_sheet_addr (quote_sheet_title title @ ''!'' @ a) = (title, a)"
proof (cases "contains_any title '' '![]''")
  case True
  have "concat (map (\<lambda>c. if c = CHR 0x27 then [c, c] else [c]) title) = concat (map (\<lambda>c. [c]) title)"
    using assms(1) by (intro arg_cong [where f = concat] map_cong) auto
  then have q: "quote_sheet_title title = CHR 0x27 # title @ [CHR 0x27]"
    using True by (simp add: quote_sheet_title_def)
  have "plain (CHR 0x27)" by (simp add: plain_eval)
  then have "trim_space (quote_sheet_title title @ ''!'' @ a) = quote_sheet_title title @ ''!'' @ a"
    by (intro trim_bang_text a) (simp add: q)
  moreover have "index_sub (title @ [CHR 0x27, CHR ''!''] @ a) [CHR 0x27, CHR ''!''] = Some (length title)"
    by (rule index_sub_first [OF refl assms(1)])
  moreover have "drop (length title + 3) (CHR 0x27 # title @ [CHR 0x27, CHR ''!''] @ a) = a"
    by (simp add: numeral_3_eq_3)
  ultimately show ?thesis by (simp add: split_sheet_addr_def q has_prefix_def Let_def)
next
  case False
  then have q: "quote_sheet_title title = title" by (simp add: quote_sheet_title_def)
  have "trim_space (title @ ''!'' @ a) = title @ ''!'' @ a"
    by (rule trim_bang_text) (use assms False in auto)
  moreover have "\<not> has_prefix (title @ ''!'' @ a) [CHR 0x27]"
    using assms(1) by (cases title) (auto simp: has_prefix_def)
  moreover have "CHR ''!'' \<notin> set a" using a by (rule addr_text_bang)
  ultimately show ?thesis by (simp add: split_sheet_addr_def q Let_def)
qed

text \<open>
  An address sheetA1 writes, of a title without a quote that TrimSpace leaves alone,
  splits into the title and an address that reads as the range.
\<close>

lemma sheet_a1_roundtrip:
  assumes "CHR 0x27 \<notin> set title" "trim_left_space title = title"
    and "in_range r1 c1" "in_range r2 c2" "r1 \<le> r2" "c1 \<le> c2" "sheet_a1 title r1 c1 r2 c2 = Some s"
  shows "\<exists>a. split_sheet_addr s = (title, a) \<and> parse_a1 a = Inr (r1, c1, r2, c2)"
proof (cases "r1 = r2 \<and> c1 = c2")
  case True
  then obtain a where a: "format_a1 r1 c1 = Some a" "s = quote_sheet_title title @ ''!'' @ a"
    using assms(7) by (auto simp: sheet_a1_def Let_def)
  have "cell_text a" using format_a1_cell_text [OF a(1)] assms(3) by (simp add: in_range_def)
  then show ?thesis
    using split_sheet_text [of title a] assms(1,2) a True addr_text_def parse_a1_texts(1) [of a] parse_format_cell [OF a(1) assms(3)]
    by auto
next
  case False
  then obtain a b where ab: "format_a1 r1 c1 = Some a" "format_a1 r2 c2 = Some b"
    "s = quote_sheet_title title @ ''!'' @ a @ '':'' @ b"
    using assms(7) by (auto simp: sheet_a1_def Let_def split: option.splits)
  have t: "cell_text a" "cell_text b"
    using format_a1_cell_text [OF ab(1)] format_a1_cell_text [OF ab(2)] assms(3,4) by (simp_all add: in_range_def)
  have "parse_a1 (a @ '':'' @ b) = Inr (r1, c1, r2, c2)"
    using parse_a1_texts(2) [OF t(1) parse_format_cell [OF ab(1) assms(3)] t(2) parse_format_cell [OF ab(2) assms(4)]]
      assms(5,6) by simp
  then show ?thesis using split_sheet_text [of title "a @ '':'' @ b"] assms(1,2) ab(3) t addr_text_def by auto
qed

end
