(* ===== verification/Tool_Text.thy ===== *)
theory Tool_Text
  imports Text
begin

text \<open>
  The text form of rows the agent reads and writes (vfs/tabular.go): cells escaped and
  joined by tabs, rows by newlines, and the parser of such a text.
\<close>

definition tab :: char where "tab = CHR 0x09"
definition nl :: char where "nl = CHR 0x0A"
definition cr :: char where "cr = CHR 0x0D"
definition backslash :: char where "backslash = CHR 0x5C"

lemmas ctl_defs = tab_def nl_def cr_def backslash_def

definition tool_special :: string where
  "tool_special = [tab, nl, cr, backslash]"

fun escape_chars :: "string \<Rightarrow> string" where
  "escape_chars [] = []"
| "escape_chars (c # s) =
     (if c = backslash then [backslash, backslash]
      else if c = tab then [backslash, CHR ''t'']
      else if c = nl then [backslash, CHR ''n'']
      else if c = cr then [backslash, CHR ''r'']
      else [c]) @ escape_chars s"

definition escape_tool_cell :: "string \<Rightarrow> string" where
  "escape_tool_cell s = (if contains_any s tool_special then escape_chars s else s)"

fun unescape_chars :: "string \<Rightarrow> string" where
  "unescape_chars [] = []"
| "unescape_chars [c] = [c]"
| "unescape_chars (c # d # s) =
     (if c \<noteq> backslash then c # unescape_chars (d # s)
      else if d = CHR ''t'' then tab # unescape_chars s
      else if d = CHR ''n'' then nl # unescape_chars s
      else if d = CHR ''r'' then cr # unescape_chars s
      else if d = backslash then backslash # unescape_chars s
      else c # unescape_chars (d # s))"

definition unescape_tool_cell :: "string \<Rightarrow> string" where
  "unescape_tool_cell s = (if backslash \<in> set s then unescape_chars s else s)"

definition encode_tool_texts :: "string list \<Rightarrow> string" where
  "encode_tool_texts row = join_text [tab] (map escape_tool_cell row)"

definition split_tool_row :: "string \<Rightarrow> string list" where
  "split_tool_row line = map unescape_tool_cell (split_on tab line)"

definition pad_string_grid :: "string list list \<Rightarrow> string list list" where
  "pad_string_grid rows =
     (let cols = foldr (max \<circ> length) rows 0
      in map (\<lambda>row. row @ replicate (cols - length row) []) rows)"

text \<open>strings.TrimRight with a set of bytes.\<close>

definition trim_right_any :: "string \<Rightarrow> string \<Rightarrow> string" where
  "trim_right_any s cs = rev (dropWhile (\<lambda>c. c \<in> set cs) (rev s))"

definition parse_tool_tsv :: "string \<Rightarrow> string list list" where
  "parse_tool_tsv t =
     pad_string_grid
       (map (\<lambda>line. split_tool_row (trim_suffix line [cr])) (split_on nl (trim_right_any t [cr, nl])))"

section \<open>What is written is read back\<close>

lemma escape_free: "\<not> contains_any s tool_special \<Longrightarrow> escape_chars s = s"
  by (induction s) (auto simp: contains_any_def tool_special_def)

lemma escape_tool_cell_chars [simp]: "escape_tool_cell s = escape_chars s"
  by (simp add: escape_tool_cell_def escape_free)

lemma unescape_free: "backslash \<notin> set s \<Longrightarrow> unescape_chars s = s"
  by (induction s rule: unescape_chars.induct) auto

lemma unescape_tool_cell_chars: "unescape_tool_cell s = unescape_chars s"
  by (simp add: unescape_tool_cell_def unescape_free)

lemma unescape_keep: "c \<noteq> backslash \<Longrightarrow> unescape_chars (c # s) = c # unescape_chars s"
  by (cases s) auto

lemma unescape_escape: "unescape_chars (escape_chars s) = s"
  by (induction s) (auto simp: unescape_keep, simp_all add: ctl_defs)

lemma escape_chars_clean: "c \<in> {tab, nl, cr} \<Longrightarrow> c \<notin> set (escape_chars s)"
  by (induction s) (auto simp: ctl_defs split: if_splits)

lemma set_join_text: "set (join_text sep ws) \<subseteq> set sep \<union> (\<Union>w \<in> set ws. set w)"
  by (induction sep ws rule: join_text.induct) auto

lemma encode_tool_clean: "c \<in> {nl, cr} \<Longrightarrow> c \<notin> set (encode_tool_texts row)"
proof -
  assume c: "c \<in> {nl, cr}"
  then have "c \<noteq> tab" by (auto simp: ctl_defs)
  moreover have "c \<notin> set (escape_chars s)" for s using c by (intro escape_chars_clean) auto
  ultimately show ?thesis
    using set_join_text [of "[tab]" "map escape_tool_cell row"] by (auto simp: encode_tool_texts_def)
qed

lemma split_encode_row: "row \<noteq> [] \<Longrightarrow> split_tool_row (encode_tool_texts row) = row"
proof -
  assume row: "row \<noteq> []"
  have "split_on tab (encode_tool_texts row) = map escape_chars row"
    unfolding encode_tool_texts_def
    by (subst split_join_text) (use row escape_chars_clean in auto)
  then show ?thesis
    by (simp add: split_tool_row_def unescape_tool_cell_chars unescape_escape map_idI o_def)
qed

lemma foldr_max_le: "\<forall>row \<in> set rows. length row \<le> n \<Longrightarrow> foldr (max \<circ> length) rows 0 \<le> n"
  by (induction rows) auto

lemma pad_uniform:
  "\<forall>row \<in> set rows. length row = n \<Longrightarrow> pad_string_grid rows = rows"
  using foldr_max_le [of rows n] by (auto simp: pad_string_grid_def Let_def intro!: map_idI)

lemma pad_shape:
  "row \<in> set (pad_string_grid rows) \<Longrightarrow> length row = foldr (max \<circ> length) rows 0"
proof -
  assume "row \<in> set (pad_string_grid rows)"
  then obtain r where r: "r \<in> set rows"
    "row = r @ replicate (foldr (max \<circ> length) rows 0 - length r) []"
    by (auto simp: pad_string_grid_def Let_def)
  have "length r \<le> foldr (max \<circ> length) rows 0"
    using r(1) by (induction rows) auto
  with r(2) show ?thesis by simp
qed

lemma trim_right_any_clean: "s \<noteq> [] \<Longrightarrow> last s \<notin> set cs \<Longrightarrow> trim_right_any s cs = s"
  by (cases s rule: rev_cases) (auto simp: trim_right_any_def)

lemma trim_suffix_clean: "c \<notin> set s \<Longrightarrow> trim_suffix s [c] = s"
  by (cases s rule: rev_cases) (auto simp: trim_suffix_def has_suffix_def)

lemma join_text_not_Nil: "ws \<noteq> [] \<Longrightarrow> last ws \<noteq> [] \<Longrightarrow> join_text sep ws \<noteq> []"
  by (induction sep ws rule: join_text.induct) auto

lemma last_join_text: "ws \<noteq> [] \<Longrightarrow> last ws \<noteq> [] \<Longrightarrow> last (join_text sep ws) = last (last ws)"
proof (induction sep ws rule: join_text.induct)
  case (3 sep s t ts)
  then have "join_text sep (t # ts) \<noteq> []" using join_text_not_Nil [of "t # ts" sep] by simp
  with 3 show ?case by simp
qed simp_all

lemma escape_Nil_iff [simp]: "escape_chars s = [] \<longleftrightarrow> s = []"
  by (cases s) auto

lemma encode_Nil_iff: "encode_tool_texts row = [] \<longleftrightarrow> row = [] \<or> row = [[]]"
  by (cases row; cases "tl row") (auto simp: encode_tool_texts_def)

text \<open>
  The rows of a grid, each written as escaped cells joined by tabs and the rows joined by
  newlines, are read back by parseToolTSV, whatever bytes the cells hold. Only a last row of
  one empty cell is lost, with the newlines at the end.
\<close>

lemma tool_tsv_roundtrip:
  assumes "rows \<noteq> []" "\<forall>row \<in> set rows. length row = n" "0 < n" "last rows \<noteq> [[]]"
  shows "parse_tool_tsv (join_text [nl] (map encode_tool_texts rows)) = rows"
proof -
  let ?t = "join_text [nl] (map encode_tool_texts rows)"
  have ne: "row \<noteq> []" if "row \<in> set rows" for row using assms(2,3) that by auto
  have last: "encode_tool_texts (last rows) \<noteq> []"
    using assms(1,4) ne by (simp add: encode_Nil_iff)
  have lt: "?t \<noteq> []" "last ?t = last (encode_tool_texts (last rows))"
    using assms(1) last by (simp_all add: join_text_not_Nil last_join_text last_map)
  then have "last ?t \<notin> {cr, nl}"
    using encode_tool_clean [of "last ?t" "last rows"] last_in_set [OF last] by auto
  with lt(1) have "trim_right_any ?t [cr, nl] = ?t" by (intro trim_right_any_clean) auto
  moreover have "split_on nl ?t = map encode_tool_texts rows"
    using assms(1) encode_tool_clean by (intro split_join_text) auto
  moreover have "split_tool_row (trim_suffix (encode_tool_texts row) [cr]) = row" if "row \<in> set rows" for row
    using ne [OF that] encode_tool_clean [of cr row] by (simp add: trim_suffix_clean split_encode_row)
  ultimately have "map (\<lambda>line. split_tool_row (trim_suffix line [cr])) (split_on nl (trim_right_any ?t [cr, nl])) = rows"
    by (simp add: map_idI)
  then show ?thesis
    using pad_uniform [OF assms(2)] by (simp add: parse_tool_tsv_def)
qed

end
