(* ===== verification/Runes.thy ===== *)
theory Runes
  imports Text
begin

text \<open>
  Runes of a string (package utf8), and the slugs of titles (vfs/structure.go). The tables of
  package unicode, which are generated data, are a parameter: what is a letter or a number,
  and lower case.
\<close>

record unicode =
  uc_lower :: "nat \<Rightarrow> nat"
  uc_word :: "nat \<Rightarrow> bool"

text \<open>What the tables say of ASCII.\<close>

definition ascii_word :: "nat \<Rightarrow> bool" where
  "ascii_word r \<longleftrightarrow> 48 \<le> r \<and> r \<le> 57 \<or> 65 \<le> r \<and> r \<le> 90 \<or> 97 \<le> r \<and> r \<le> 122"

definition ascii_lower :: "nat \<Rightarrow> nat" where
  "ascii_lower r = (if 65 \<le> r \<and> r \<le> 90 then r + 32 else r)"

definition tables_ok :: "unicode \<Rightarrow> bool" where
  "tables_ok u \<longleftrightarrow> (\<forall>r < 128. uc_lower u r = ascii_lower r \<and> uc_word u r = ascii_word r)"

section \<open>UTF-8\<close>

definition rune_error :: nat where
  "rune_error = 0xFFFD"

definition byte_in :: "nat \<Rightarrow> nat \<Rightarrow> nat list \<Rightarrow> nat \<Rightarrow> bool" where
  "byte_in lo hi bs i \<longleftrightarrow> i < length bs \<and> lo \<le> bs ! i \<and> bs ! i \<le> hi"

text \<open>utf8.DecodeRune: the rune at the front and its width, or the error rune and one byte.\<close>

definition decode_rune :: "nat list \<Rightarrow> nat \<times> nat" where
  "decode_rune bs =
     (let b0 = hd bs; cont = byte_in 0x80 0xBF bs; low = (\<lambda>i. bs ! i mod 64)
      in if b0 < 0x80 then (b0, 1)
         else if 0xC2 \<le> b0 \<and> b0 \<le> 0xDF \<and> cont 1 then (b0 mod 32 * 64 + low 1, 2)
         else if 0xE0 \<le> b0 \<and> b0 \<le> 0xEF
                 \<and> byte_in (if b0 = 0xE0 then 0xA0 else 0x80) (if b0 = 0xED then 0x9F else 0xBF) bs 1 \<and> cont 2
         then (b0 mod 16 * 4096 + low 1 * 64 + low 2, 3)
         else if 0xF0 \<le> b0 \<and> b0 \<le> 0xF4
                 \<and> byte_in (if b0 = 0xF0 then 0x90 else 0x80) (if b0 = 0xF4 then 0x8F else 0xBF) bs 1
                 \<and> cont 2 \<and> cont 3
         then (b0 mod 8 * 262144 + low 1 * 4096 + low 2 * 64 + low 3, 4)
         else (rune_error, 1))"

lemma decode_rune_width: "1 \<le> snd (decode_rune bs)"
  by (simp add: decode_rune_def Let_def)

function runes_of :: "nat list \<Rightarrow> nat list" where
  "runes_of [] = []"
| "runes_of (b # bs) =
     (case decode_rune (b # bs) of (r, w) \<Rightarrow> r # runes_of (drop (w - 1) bs))"
  by pat_completeness auto
termination by (relation "measure length") auto

definition runes :: "string \<Rightarrow> nat list" where
  "runes s = runes_of (map of_char s)"

definition encode_rune :: "nat \<Rightarrow> string" where
  "encode_rune r =
     (if r < 0x80 then [char_of r]
      else if r < 0x800 then [char_of (0xC0 + r div 64), char_of (0x80 + r mod 64)]
      else if 0x10FFFF < r \<or> 0xD800 \<le> r \<and> r \<le> 0xDFFF then [CHR 0xEF, CHR 0xBF, CHR 0xBD]
      else if r < 0x10000
      then [char_of (0xE0 + r div 4096), char_of (0x80 + r div 64 mod 64), char_of (0x80 + r mod 64)]
      else [char_of (0xF0 + r div 262144), char_of (0x80 + r div 4096 mod 64),
            char_of (0x80 + r div 64 mod 64), char_of (0x80 + r mod 64)])"

text \<open>strings.ToLower.\<close>

definition lower_runes :: "unicode \<Rightarrow> string \<Rightarrow> string" where
  "lower_runes u s = concat (map (encode_rune \<circ> uc_lower u) (runes s))"

section \<open>Slugs\<close>

text \<open>The loop of Slugify: what is built, and whether it ends in a dash of the loop.\<close>

fun slug_loop :: "unicode \<Rightarrow> nat list \<Rightarrow> string \<Rightarrow> bool \<Rightarrow> string" where
  "slug_loop u [] b prev_dash = b"
| "slug_loop u (r # rs) b prev_dash =
     (if uc_word u r then slug_loop u rs (b @ encode_rune r) False
      else if \<not> prev_dash \<and> b \<noteq> [] then slug_loop u rs (b @ ''-'') True
      else slug_loop u rs b prev_dash)"

definition trim_any :: "string \<Rightarrow> string \<Rightarrow> string" where
  "trim_any s cs = rev (dropWhile (\<lambda>c. c \<in> set cs) (rev (dropWhile (\<lambda>c. c \<in> set cs) s)))"

definition slugify :: "unicode \<Rightarrow> string \<Rightarrow> string" where
  "slugify u s = trim_any (slug_loop u (runes (lower_runes u (trim_space s))) [] False) ''-''"

section \<open>ASCII text\<close>

definition ascii :: "string \<Rightarrow> bool" where
  "ascii s \<longleftrightarrow> (\<forall>c \<in> set s. (of_char c :: nat) < 128)"

lemma runes_of_ascii: "\<forall>b \<in> set bs. b < 128 \<Longrightarrow> runes_of bs = bs"
  by (induction bs rule: runes_of.induct) (auto simp: decode_rune_def)

lemma runes_ascii: "ascii s \<Longrightarrow> runes s = map of_char s"
  unfolding runes_def by (rule runes_of_ascii) (auto simp: ascii_def)

lemma encode_ascii [simp]: "(of_char c :: nat) < 128 \<Longrightarrow> encode_rune (of_char c) = [c]"
  by (simp add: encode_rune_def)

lemma lower_ascii_text:
  assumes "tables_ok u" "ascii s"
  shows "lower_runes u s = map lower_char s"
proof -
  have "encode_rune (uc_lower u (of_char c)) = [lower_char c]" if "(of_char c :: nat) < 128" for c
    using assms(1) that
    by (auto simp: tables_ok_def ascii_lower_def encode_rune_def lower_char_def Let_def)
  then show ?thesis
    using assms(2) by (simp add: lower_runes_def runes_ascii ascii_def)
      (induction s; simp)
qed

text \<open>The words a plain text is cut into, for the slugs of such a text.\<close>

lemma slug_loop_word:
  assumes "tables_ok u" "\<forall>c \<in> set w. ascii_word (of_char c)"
  shows "slug_loop u (map of_char w @ rs) b d = slug_loop u rs (b @ w) (d \<and> w = [])"
  using assms(2)
proof (induction w arbitrary: b d)
  case (Cons c w)
  then have "(of_char c :: nat) < 128" by (simp add: ascii_word_def) linarith
  with Cons assms(1) show ?case by (simp add: tables_ok_def)
qed simp

lemma dropWhile_none: "\<forall>c \<in> set s. \<not> P c \<Longrightarrow> dropWhile P s = s"
  by (cases s) auto

lemma trim_any_none: "\<forall>c \<in> set s. c \<notin> set cs \<Longrightarrow> trim_any s cs = s"
  by (simp add: trim_any_def dropWhile_none)

lemma slug_ascii_word:
  assumes "tables_ok u" "w \<noteq> []" "\<forall>c \<in> set w. ascii_word (of_char c) \<and> lower_char c = c \<and> plain c"
  shows "slugify u w = w"
proof -
  have as: "ascii w" using assms(3) by (auto simp: ascii_def plain_def)
  have "map lower_char w = w" using assms(3) by (auto intro: map_idI)
  with assms as have "lower_runes u (trim_space w) = w" by (simp add: lower_ascii_text)
  then have "slug_loop u (runes (lower_runes u (trim_space w))) [] False = w"
    using slug_loop_word [OF assms(1), of w "[]" "[]" False] as assms(2,3) by (simp add: runes_ascii)
  moreover have "c \<noteq> CHR ''-''" if "c \<in> set w" for c
    using assms(3) that by (auto simp: ascii_word_def of_char_Char)
  then have "trim_any w ''-'' = w" by (intro trim_any_none) auto
  ultimately show ?thesis by (simp add: slugify_def)
qed

lemma trim_any_ends:
  "trim_any s cs \<noteq> [] \<Longrightarrow> hd (trim_any s cs) \<notin> set cs \<and> last (trim_any s cs) \<notin> set cs"
proof -
  let ?P = "\<lambda>c. c \<in> set cs"
  let ?t = "dropWhile ?P s"
  assume ne: "trim_any s cs \<noteq> []"
  then have d: "dropWhile ?P (rev ?t) \<noteq> []" by (simp add: trim_any_def)
  then have "\<not> ?P (hd (dropWhile ?P (rev ?t)))" by (rule hd_dropWhile)
  with d have l: "last (trim_any s cs) \<notin> set cs" by (simp add: trim_any_def last_rev)
  obtain x y where xy: "?t = x @ y" "trim_any s cs = x"
    using suffix_dropWhile [of ?P "rev ?t"] by (auto simp: suffix_def trim_any_def)
      (metis rev_append rev_rev_ident)
  with ne have "hd (trim_any s cs) = hd ?t" "?t \<noteq> []" by auto
  moreover from \<open>?t \<noteq> []\<close> have "\<not> ?P (hd ?t)" by (rule hd_dropWhile)
  ultimately show ?thesis using l by simp
qed

end
