(* ===== verification/Lines.thy ===== *)
theory Lines
  imports Tool_Text Runes
begin

text \<open>
  Documents as lines (vfs/document.go, vfs/lines.go, vfs/mutate.go): the index of line
  starts, reading and replacing lines by it, blocks of lines, and the two ways a window of
  lines is read, from a whole body and from a stream.
\<close>

datatype line_error = OutOfRange | InvalidLine | LineTooLong | ScanLimit | InvalidUtf8

section \<open>The line index\<close>

fun starts_from :: "nat \<Rightarrow> string \<Rightarrow> nat list" where
  "starts_from i [] = []"
| "starts_from i (c # s) = (if c = nl then [Suc i] else []) @ starts_from (Suc i) s"

definition line_starts :: "string \<Rightarrow> nat list" where
  "line_starts t = (if t = [] then [] else 0 # starts_from 0 t)"

definition line_at :: "string \<Rightarrow> nat list \<Rightarrow> nat \<Rightarrow> string" where
  "line_at t starts i =
     (if i + 1 < length starts then take (starts ! (i + 1) - 1 - starts ! i) (drop (starts ! i) t)
      else drop (starts ! i) t)"

definition doc_line :: "string \<Rightarrow> nat list \<Rightarrow> int \<Rightarrow> line_error + string" where
  "doc_line t starts n =
     (if n < 1 \<or> int (length starts) < n then Inl OutOfRange else Inr (line_at t starts (nat n - 1)))"

definition doc_lines :: "string \<Rightarrow> nat list \<Rightarrow> int \<Rightarrow> int \<Rightarrow> line_error + string list" where
  "doc_lines t starts start fin =
     (if start < 1 \<or> fin < start \<or> int (length starts) + 1 < fin then Inl OutOfRange
      else if start = fin then Inr []
      else Inr (map (\<lambda>i. line_at t starts (nat start - 1 + i)) [0..<nat (fin - start)]))"

text \<open>spliceLines: what is kept before the range, the new lines, what is kept after it.\<close>

definition splice_lines :: "string \<Rightarrow> nat list \<Rightarrow> int \<Rightarrow> int \<Rightarrow> string list \<Rightarrow> line_error + string" where
  "splice_lines t starts start fin new =
     (let n = length starts
      in if start < 1 \<or> fin < start \<or> int n + 1 < fin then Inl OutOfRange
         else if \<exists>l \<in> set new. nl \<in> set l then Inl InvalidLine
         else if n = 0 then Inr (join_text [nl] new)
         else
           let before = nat start - 1; after = n - (nat fin - 1); more = (new \<noteq> [] \<or> 0 < after);
               front = (if 0 < before
                        then (if before = n then t @ (if more then [nl] else [])
                              else if more then take (starts ! before) t
                              else take (starts ! before - 1) t)
                        else []);
               behind = (if 0 < after
                       then (if new \<noteq> [] then [nl] else []) @ drop (starts ! (nat fin - 1)) t else [])
           in Inr (front @ join_text [nl] new @ behind))"

definition replacement_lines :: "string list \<Rightarrow> string option \<Rightarrow> string list" where
  "replacement_lines ls body =
     (if ls \<noteq> [] then ls
      else case body of
        None \<Rightarrow> ls
      | Some b \<Rightarrow>
          if b = [] then ls
          else let out = split_on nl b
               in if has_suffix b [nl] \<and> out \<noteq> [] \<and> last out = [] then butlast out else out)"

text \<open>The text body: its payload and its index.\<close>

record text_body =
  tb_payload :: string
  tb_starts :: "nat list"

definition set_text :: "string \<Rightarrow> text_body" where
  "set_text t = \<lparr>tb_payload = t, tb_starts = line_starts t\<rparr>"

definition replace_lines :: "text_body \<Rightarrow> int \<Rightarrow> int \<Rightarrow> string list \<Rightarrow> text_body \<times> line_error option" where
  "replace_lines b start fin new =
     (case splice_lines (tb_payload b) (tb_starts b) start fin new of
        Inl e \<Rightarrow> (b, Some e)
      | Inr t \<Rightarrow> (set_text t, None))"

definition set_line :: "text_body \<Rightarrow> int \<Rightarrow> string \<Rightarrow> text_body \<times> line_error option" where
  "set_line b n line = replace_lines b n (n + 1) [line]"

section \<open>The index finds the lines\<close>

definition lines_of :: "string \<Rightarrow> string list" where
  "lines_of t = (if t = [] then [] else split_on nl t)"

definition ended :: "string list \<Rightarrow> string" where
  "ended ws = concat (map (\<lambda>w. w @ [nl]) ws)"

lemma ended_simps [simp]: "ended [] = []" "ended (w # ws) = w @ nl # ended ws"
  by (simp_all add: ended_def)

lemma starts_from_free: "nl \<notin> set w \<Longrightarrow> starts_from i w = []"
  by (induction w arbitrary: i) auto

lemma starts_from_word:
  "nl \<notin> set w \<Longrightarrow> starts_from i (w @ nl # s) = Suc (i + length w) # starts_from (Suc (i + length w)) s"
  by (induction w arbitrary: i) auto

lemma starts_from_join:
  "ws \<noteq> [] \<Longrightarrow> \<forall>w \<in> set ws. nl \<notin> set w \<Longrightarrow>
   starts_from i (join_text [nl] ws) = map (\<lambda>k. i + length (ended (take k ws))) [1..<length ws]"
proof (induction "[nl]" ws arbitrary: i rule: join_text.induct)
  case (2 s)
  then show ?case by (simp add: starts_from_free)
next
  case (3 s t ts)
  have "[1..<length (s # t # ts)] = 1 # map Suc [1..<length (t # ts)]"
    by (simp only: map_Suc_upt length_Cons upt_conv_Cons [of 1 "Suc (Suc (length ts))"])
  with 3 show ?case by (simp add: starts_from_word o_def)
qed simp

lemma line_starts_lines:
  "t \<noteq> [] \<Longrightarrow> line_starts t = map (\<lambda>k. length (ended (take k (lines_of t)))) [0..<length (lines_of t)]"
proof -
  assume t: "t \<noteq> []"
  have j: "join_text [nl] (lines_of t) = t" using t by (simp add: lines_of_def join_split_on)
  have ne: "lines_of t \<noteq> []" using t by (simp add: lines_of_def)
  have "\<forall>w \<in> set (lines_of t). nl \<notin> set w" using split_on_no_sep by (auto simp: lines_of_def)
  from starts_from_join [OF ne this, of 0] j
  have "starts_from 0 t = map (\<lambda>k. length (ended (take k (lines_of t)))) [1..<length (lines_of t)]" by simp
  moreover have "[0..<length (lines_of t)] = 0 # [1..<length (lines_of t)]"
    using ne by (simp add: upt_conv_Cons)
  ultimately show ?thesis using t by (simp add: line_starts_def)
qed

lemma length_line_starts [simp]: "length (line_starts t) = length (lines_of t)"
  by (cases "t = []") (simp_all add: line_starts_lines, simp_all add: line_starts_def lines_of_def)

lemma line_start_nth: "k < length (lines_of t) \<Longrightarrow> line_starts t ! k = length (ended (take k (lines_of t)))"
  by (cases "t = []") (simp_all add: line_starts_lines, simp add: lines_of_def)

lemma join_cut: "k < length ws \<Longrightarrow> join_text [nl] ws = ended (take k ws) @ join_text [nl] (drop k ws)"
proof (induction ws arbitrary: k)
  case (Cons w ws)
  then show ?case by (cases k; cases "ws = []") (auto simp: join_text_Cons)
qed simp

lemma text_cut:
  "k < length (lines_of t) \<Longrightarrow> t = ended (take k (lines_of t)) @ join_text [nl] (drop k (lines_of t))"
  using join_cut [of k "lines_of t"] by (cases "t = []") (simp_all add: lines_of_def join_split_on)

lemma take_start: "k < length (lines_of t) \<Longrightarrow> take (line_starts t ! k) t = ended (take k (lines_of t))"
  using text_cut [of k t] by (metis append_eq_conv_conj line_start_nth)

lemma drop_start: "k < length (lines_of t) \<Longrightarrow> drop (line_starts t ! k) t = join_text [nl] (drop k (lines_of t))"
  using text_cut [of k t] by (metis append_eq_conv_conj line_start_nth)

lemma ended_join: "ws \<noteq> [] \<Longrightarrow> ended ws = join_text [nl] ws @ [nl]"
  by (induction "[nl]" ws rule: join_text.induct) auto

lemma ended_append: "ended (xs @ ys) = ended xs @ ended ys"
  by (simp add: ended_def)

lemma ended_join_append: "ys \<noteq> [] \<Longrightarrow> ended xs @ join_text [nl] ys = join_text [nl] (xs @ ys)"
  by (induction xs) (auto simp: join_text_Cons)

lemma line_at_nth: "i < length (lines_of t) \<Longrightarrow> line_at t (line_starts t) i = lines_of t ! i"
proof -
  assume i: "i < length (lines_of t)"
  let ?L = "lines_of t"
  have d: "drop i ?L = ?L ! i # drop (Suc i) ?L" using i by (simp add: Cons_nth_drop_Suc)
  show ?thesis
  proof (cases "i + 1 < length ?L")
    case True
    have "take (Suc i) ?L = take i ?L @ [?L ! i]" using i by (simp add: take_Suc_conv_app_nth)
    then have "line_starts t ! (i + 1) - 1 - line_starts t ! i = length (?L ! i)"
      using True by (simp add: line_start_nth ended_append)
    moreover have "drop (Suc i) ?L \<noteq> []" using True by simp
    ultimately show ?thesis
      using True i d by (simp add: line_at_def drop_start join_text_Cons)
  next
    case False
    then show ?thesis using i d by (simp add: line_at_def drop_start)
  qed
qed

section \<open>Replacing lines\<close>

lemma lines_of_free: "w \<in> set (lines_of t) \<Longrightarrow> nl \<notin> set w"
  using split_on_no_sep by (auto simp: lines_of_def split: if_splits)

lemma join_lines_of [simp]: "join_text [nl] (lines_of t) = t"
  by (simp add: lines_of_def join_split_on)

lemma lines_of_Nil [simp]: "lines_of [] = []"
  by (simp add: lines_of_def)

lemma lines_of_Nil_iff [simp]: "lines_of t = [] \<longleftrightarrow> t = []"
  by (simp add: lines_of_def)

lemma join_append_sep:
  "join_text [nl] xs @ (if xs \<noteq> [] then [nl] else []) = ended xs"
  by (cases "xs = []") (simp_all add: ended_join)

lemma take_before_start: "0 < k \<Longrightarrow> k < length (lines_of t) \<Longrightarrow>
   take (line_starts t ! k - 1) t = join_text [nl] (take k (lines_of t))"
proof -
  assume k: "0 < k" "k < length (lines_of t)"
  then have "take k (lines_of t) \<noteq> []" by auto
  then have e: "ended (take k (lines_of t)) = join_text [nl] (take k (lines_of t)) @ [nl]"
    by (rule ended_join)
  have "take (line_starts t ! k - 1) t = take (line_starts t ! k - 1) (take (line_starts t ! k) t)"
    by simp
  also have "\<dots> = join_text [nl] (take k (lines_of t))"
    using take_start [OF k(2)] line_start_nth [OF k(2)] e by simp
  finally show ?thesis .
qed

text \<open>
  Replacing the lines [start, end) of a text by the index of its line starts is joining
  the lines before start, the new lines and the lines from end on; it is refused exactly when
  the range is not within the lines or a new line holds a newline.
\<close>

lemma splice_lines_spec:
  "splice_lines t (line_starts t) start fin new =
     (if start < 1 \<or> fin < start \<or> int (length (lines_of t)) + 1 < fin then Inl OutOfRange
      else if \<exists>l \<in> set new. nl \<in> set l then Inl InvalidLine
      else Inr (join_text [nl] (take (nat start - 1) (lines_of t) @ new @ drop (nat fin - 1) (lines_of t))))"
proof (cases "start < 1 \<or> fin < start \<or> int (length (lines_of t)) + 1 < fin \<or> (\<exists>l \<in> set new. nl \<in> set l)")
  case True
  then show ?thesis by (auto simp: splice_lines_def Let_def)
next
  case False
  define L where "L = lines_of t"
  define p where "p = nat start - 1"
  define q where "q = nat fin - 1"
  have pq: "p \<le> q" "q \<le> length L" using False by (auto simp: p_def q_def L_def)
  show ?thesis
  proof (cases "L = []")
    case True
    with False show ?thesis by (simp add: splice_lines_def L_def Let_def)
  next
    case ne: False
    let ?front = "if 0 < p then (if p = length L then t @ (if new \<noteq> [] \<or> 0 < length L - q then [nl] else [])
        else if new \<noteq> [] \<or> 0 < length L - q then take (line_starts t ! p) t
        else take (line_starts t ! p - 1) t) else []"
    let ?behind = "if 0 < length L - q then (if new \<noteq> [] then [nl] else []) @ drop (line_starts t ! q) t else []"
    have "splice_lines t (line_starts t) start fin new = Inr (?front @ join_text [nl] new @ ?behind)"
      using False ne by (simp add: splice_lines_def L_def p_def q_def Let_def)
    moreover have front: "?front = (if new \<noteq> [] \<or> drop q L \<noteq> [] then ended (take p L) else join_text [nl] (take p L))"
      using pq ne take_start [of p t] take_before_start [of p t] ended_join [of L]
      by (auto simp: L_def)
    moreover have "join_text [nl] new @ ?behind = join_text [nl] (new @ drop q L)"
      using pq drop_start [of q t] ended_join_append [of "drop q L" new] ended_join [of new]
      by (auto simp: L_def)
    moreover have "(if new \<noteq> [] \<or> drop q L \<noteq> [] then ended (take p L) else join_text [nl] (take p L))
        @ join_text [nl] (new @ drop q L) = join_text [nl] (take p L @ new @ drop q L)"
      using ended_join_append [of "new @ drop q L" "take p L"] by simp
    ultimately show ?thesis using False by (simp add: L_def p_def q_def)
  qed
qed

lemma doc_lines_spec:
  "doc_lines t (line_starts t) start fin =
     (if start < 1 \<or> fin < start \<or> int (length (lines_of t)) + 1 < fin then Inl OutOfRange
      else Inr (take (nat (fin - start)) (drop (nat start - 1) (lines_of t))))"
proof (cases "start < 1 \<or> fin < start \<or> int (length (lines_of t)) + 1 < fin \<or> start = fin")
  case True
  then show ?thesis by (auto simp: doc_lines_def)
next
  case False
  let ?L = "lines_of t" and ?k = "nat (fin - start)" and ?s = "nat start - 1"
  have le: "?s + ?k \<le> length ?L" using False by auto
  have "map (\<lambda>i. line_at t (line_starts t) (?s + i)) [0..<?k] = map (\<lambda>i. ?L ! (?s + i)) [0..<?k]"
    using le by (intro map_cong) (auto simp: line_at_nth)
  also have "\<dots> = take ?k (drop ?s ?L)"
    using le by (intro nth_equalityI) auto
  finally show ?thesis using False by (simp add: doc_lines_def)
qed

definition body_ok :: "text_body \<Rightarrow> bool" where
  "body_ok b \<longleftrightarrow> tb_starts b = line_starts (tb_payload b)"

text \<open>
  C29. A text body keeps its index true, and what is written is read: after a replacement that
  succeeds, the lines are the old lines with the range replaced, unless that leaves one empty
  line, which is the empty text and has none.
\<close>

theorem replace_lines_then_read:
  assumes "body_ok b" "replace_lines b start fin new = (b', None)"
  defines "ws \<equiv> take (nat start - 1) (lines_of (tb_payload b)) @ new @ drop (nat fin - 1) (lines_of (tb_payload b))"
  shows "body_ok b' \<and> doc_lines (tb_payload b') (tb_starts b') 1 (int (length (tb_starts b')) + 1) =
     Inr (if ws = [[]] then [] else ws)"
proof -
  have new: "\<forall>w \<in> set new. nl \<notin> set w" and b': "b' = set_text (join_text [nl] ws)"
    using assms(1,2) by (auto simp: replace_lines_def body_ok_def splice_lines_spec ws_def split: if_splits)
  then have t: "tb_payload b' = join_text [nl] ws" and ok: "tb_starts b' = line_starts (tb_payload b')"
    by (simp_all add: set_text_def)
  have "w \<in> set new \<or> w \<in> set (lines_of (tb_payload b))" if "w \<in> set ws" for w
    using that by (auto simp: ws_def dest: in_set_takeD in_set_dropD)
  then have free: "\<forall>w \<in> set ws. nl \<notin> set w" using new lines_of_free by blast
  have "lines_of (join_text [nl] ws) = (if ws = [[]] then [] else ws)"
  proof (cases "join_text [nl] ws = []")
    case True
    then have "ws = [] \<or> ws = [[]]" by (cases ws; cases "tl ws") auto
    then show ?thesis by (auto simp: lines_of_def)
  next
    case False
    then have "ws \<noteq> []" by auto
    then show ?thesis using False split_join_text [OF _ free] by (auto simp: lines_of_def)
  qed
  then show ?thesis using t ok by (simp add: body_ok_def doc_lines_spec)
qed

definition demo_body :: text_body where
  "demo_body = set_text (''a'' @ [nl] @ ''b'' @ [nl] @ ''c'')"

theorem replace_lines_then_read_witness:
  "doc_lines (tb_payload (fst (replace_lines demo_body 2 3 [''x'', ''y''])))
     (tb_starts (fst (replace_lines demo_body 2 3 [''x'', ''y'']))) 1
     (int (length (tb_starts (fst (replace_lines demo_body 2 3 [''x'', ''y''])))) + 1)
   = Inr [''a'', ''x'', ''y'', ''c'']"
proof -
  have ok: "body_ok demo_body" by (simp add: body_ok_def demo_body_def set_text_def)
  have L: "lines_of (tb_payload demo_body) = [''a'', ''b'', ''c'']"
    by (simp add: demo_body_def set_text_def lines_of_def nl_def)
  have nl: "nl \<notin> set ''x''" "nl \<notin> set ''y''" by (simp_all add: nl_def)
  have r: "replace_lines demo_body 2 3 [''x'', ''y'']
      = (fst (replace_lines demo_body 2 3 [''x'', ''y'']), None)"
    using ok nl L by (simp add: replace_lines_def body_ok_def splice_lines_spec)
  show ?thesis using replace_lines_then_read [OF ok r] L by simp
qed

end
