(* ===== verification/Line_Window.thy ===== *)
theory Line_Window
  imports Lines
begin

text \<open>
  Windows of lines (vfs/lines.go): progressive reading of a file from its body, when it is
  small, or from its stream; and the blocks of lines a structured document names
  (vfs/document.go). Paths and hashes of a window are left out.
\<close>

definition max_line_scan_bytes :: nat where "max_line_scan_bytes = 67108864"
definition max_lines_per_window :: int where "max_lines_per_window = 500"
definition max_line_bytes :: nat where "max_line_bytes = 1048576"

record line_window =
  lw_start :: int
  lw_end :: int
  lw_lines :: "string list"
  lw_returned :: int
  lw_eof :: bool
  lw_next :: int

definition line_window_from_doc :: "string \<Rightarrow> int \<Rightarrow> int \<Rightarrow> line_error + line_window" where
  "line_window_from_doc t start fin0 =
     (let n = int (length (line_starts t))
      in if n + 1 < start then Inl OutOfRange
         else
           let eof = (n + 1 < fin0); fin = (if eof then n + 1 else fin0)
           in case doc_lines t (line_starts t) start fin of
                Inl e \<Rightarrow> Inl e
              | Inr ls \<Rightarrow>
                  if \<exists>l \<in> set ls. max_line_bytes < length l then Inl LineTooLong
                  else Inr \<lparr>lw_start = start, lw_end = fin, lw_lines = ls, lw_returned = int (length ls),
                            lw_eof = eof, lw_next = start + int (length ls)\<rparr>)"

fun valid_from :: "nat list \<Rightarrow> nat \<Rightarrow> bool" where
  "valid_from bs 0 = True"
| "valid_from bs (Suc fuel) =
     (case bs of
        [] \<Rightarrow> True
      | b # _ \<Rightarrow>
          case decode_rune bs of (r, w) \<Rightarrow> \<not> (r = rune_error \<and> w = 1) \<and> valid_from (drop w bs) fuel)"

text \<open>utf8.ValidString: no byte decodes to the error rune; a rune takes at least one byte.\<close>

definition valid_utf8 :: "string \<Rightarrow> bool" where
  "valid_utf8 s = valid_from (map of_char s) (length s)"

text \<open>bufio's ReadString: the bytes to the first newline and with it, and what is left.\<close>

definition read_string :: "string \<Rightarrow> string \<times> string" where
  "read_string s =
     (let l = takeWhile (\<lambda>c. c \<noteq> nl) s; r = dropWhile (\<lambda>c. c \<noteq> nl) s
      in case r of [] \<Rightarrow> (l, []) | c # r' \<Rightarrow> (l @ [c], r'))"

lemma read_string_shorter: "s \<noteq> [] \<Longrightarrow> length (snd (read_string s)) < length s"
proof -
  assume s: "s \<noteq> []"
  have "length (dropWhile (\<lambda>c. c \<noteq> nl) s) \<le> length s" by (rule length_dropWhile_le)
  then show ?thesis using s by (auto simp: read_string_def Let_def split: list.split)
qed

text \<open>
  The loop of readLineRange over what is left of the stream: lines counted so far, bytes
  scanned and lines kept.
\<close>

function stream_loop :: "int \<Rightarrow> int \<Rightarrow> string \<Rightarrow> int \<Rightarrow> nat \<Rightarrow> string list \<Rightarrow> line_error + line_window" where
  "stream_loop start fin s line_no scanned out =
     (let at_eof = (\<lambda>n out.
            if n + 1 < start then Inl OutOfRange
            else Inr \<lparr>lw_start = start, lw_end = fin, lw_lines = out, lw_returned = int (length out),
                      lw_eof = True, lw_next = start + int (length out)\<rparr>)
      in if s = [] then at_eof line_no out
         else
           let (chunk, rest) = read_string s;
               ended_nl = (last chunk = nl);
               scanned' = scanned + length chunk;
               l = (if ended_nl then butlast chunk else chunk);
               n = line_no + 1;
               out' = (if start \<le> n \<and> n < fin then out @ [l] else out)
           in if max_line_scan_bytes < scanned' then Inl ScanLimit
              else if max_line_bytes < length l then Inl LineTooLong
              else if \<not> valid_utf8 l then Inl InvalidUtf8
              else if start < fin \<and> fin - 1 \<le> n
              then Inr \<lparr>lw_start = start, lw_end = fin, lw_lines = out', lw_returned = int (length out'),
                        lw_eof = False, lw_next = start + int (length out')\<rparr>
              else if \<not> ended_nl then at_eof n out'
              else stream_loop start fin rest n scanned' out')"
  by pat_completeness auto
termination
  by (relation "measure (\<lambda>(start, fin, s, _). length s)") (auto dest: read_string_shorter simp: prod_eq_iff)

declare stream_loop.simps [simp del]

definition read_line_range :: "string \<Rightarrow> int \<Rightarrow> int \<Rightarrow> line_error + line_window" where
  "read_line_range s start fin = stream_loop start fin s 0 0 []"

text \<open>
  Route.ReadLines: \<open>body\<close> is the text of a file that is small enough to be read whole and has
  one, \<open>content\<close> what its stream holds.
\<close>

definition read_lines :: "string option \<Rightarrow> string \<Rightarrow> int \<Rightarrow> int \<Rightarrow> line_error + line_window" where
  "read_lines body content start fin0 =
     (if start < 1 \<or> fin0 < start then Inl OutOfRange
      else
        let fin = (if max_lines_per_window < fin0 - start then start + max_lines_per_window else fin0)
        in case body of
             Some t \<Rightarrow> line_window_from_doc t start fin
           | None \<Rightarrow>
               if start = 1 \<and> fin = 1
               then Inr \<lparr>lw_start = 1, lw_end = 1, lw_lines = [], lw_returned = 0, lw_eof = False, lw_next = 1\<rparr>
               else read_line_range content start fin)"

section \<open>The lines of a stream\<close>

text \<open>A stream has no line after its last newline.\<close>

definition stream_lines :: "string \<Rightarrow> string list" where
  "stream_lines s = (if has_suffix s [nl] then butlast (lines_of s) else lines_of s)"

definition line_ok :: "string \<Rightarrow> bool" where
  "line_ok l \<longleftrightarrow> length l \<le> max_line_bytes \<and> valid_utf8 l"

definition readable :: "string \<Rightarrow> bool" where
  "readable s \<longleftrightarrow> length s \<le> max_line_scan_bytes \<and>
     (\<forall>l \<in> set (stream_lines s). line_ok l)"

lemma has_suffix_nl: "has_suffix s [nl] \<longleftrightarrow> s \<noteq> [] \<and> last s = nl"
  by (cases s rule: rev_cases) (auto simp: has_suffix_def)

lemma cut_nl: "nl \<notin> set l \<Longrightarrow> takeWhile (\<lambda>c. c \<noteq> nl) (l @ nl # r) = l"
  "nl \<notin> set l \<Longrightarrow> dropWhile (\<lambda>c. c \<noteq> nl) (l @ nl # r) = nl # r"
  "nl \<notin> set l \<Longrightarrow> takeWhile (\<lambda>c. c \<noteq> nl) l = l" "nl \<notin> set l \<Longrightarrow> dropWhile (\<lambda>c. c \<noteq> nl) l = []"
  by (induction l) auto

lemma read_string_nl: "nl \<notin> set l \<Longrightarrow> read_string (l @ nl # r) = (l @ [nl], r)"
  by (simp add: read_string_def cut_nl Let_def)

lemma read_string_last: "nl \<notin> set l \<Longrightarrow> read_string l = (l, [])"
  by (simp add: read_string_def cut_nl Let_def)

lemma first_line:
  obtains (only) l where "s = l" "nl \<notin> set l"
  | (more) l r where "s = l @ nl # r" "nl \<notin> set l"
  by (metis split_list_first)

lemma lines_of_cons: "nl \<notin> set l \<Longrightarrow> lines_of (l @ nl # r) = l # (if r = [] then [[]] else lines_of r)"
  by (simp add: lines_of_def split_on_append)

lemma stream_lines_cons: "nl \<notin> set l \<Longrightarrow> stream_lines (l @ nl # r) = l # stream_lines r"
proof -
  assume l: "nl \<notin> set l"
  have "has_suffix (l @ nl # r) [nl] \<longleftrightarrow> r = [] \<or> has_suffix r [nl]" by (auto simp: has_suffix_nl)
  then show ?thesis using l by (auto simp: stream_lines_def lines_of_cons has_suffix_def)
qed

lemma stream_lines_last: "nl \<notin> set l \<Longrightarrow> stream_lines l = (if l = [] then [] else [l])"
proof -
  assume l: "nl \<notin> set l"
  have "last l \<noteq> nl" if "l \<noteq> []" using last_in_set [OF that] l by metis
  then show ?thesis using l by (auto simp: stream_lines_def lines_of_def split_on_free has_suffix_nl)
qed

definition window :: "int \<Rightarrow> int \<Rightarrow> string list \<Rightarrow> bool \<Rightarrow> line_window" where
  "window start fin ls eof =
     \<lparr>lw_start = start, lw_end = fin, lw_lines = ls, lw_returned = int (length ls), lw_eof = eof,
      lw_next = start + int (length ls)\<rparr>"

fun pick :: "int \<Rightarrow> int \<Rightarrow> int \<Rightarrow> 'a list \<Rightarrow> 'a list" where
  "pick start fin n [] = []"
| "pick start fin n (l # ls) = (if start \<le> n + 1 \<and> n + 1 < fin then [l] else []) @ pick start fin (n + 1) ls"

lemma pick_late: "fin \<le> n + 1 \<Longrightarrow> pick start fin n ls = []"
  by (induction ls arbitrary: n) auto

lemma pick_from: "start \<le> n + 1 \<Longrightarrow> pick start fin n ls = take (nat (fin - 1 - n)) ls"
proof (induction ls arbitrary: n)
  case (Cons l ls)
  show ?case
  proof (cases "n + 1 < fin")
    case True
    then have "nat (fin - 1 - n) = Suc (nat (fin - 1 - (n + 1)))" by simp
    with True Cons show ?thesis by simp
  next
    case False
    then show ?thesis by (simp add: pick_late)
  qed
qed simp

lemma pick_range: "n + 1 \<le> start \<Longrightarrow> pick start fin n ls = take (nat (fin - start)) (drop (nat (start - 1 - n)) ls)"
proof (induction ls arbitrary: n)
  case (Cons l ls)
  show ?case
  proof (cases "start = n + 1")
    case True
    then have "nat (fin - 1 - n) = nat (fin - start)" "nat (start - 1 - n) = 0" by simp_all
    then show ?thesis using pick_from [of start n fin "l # ls"] True by (simp del: pick.simps)
  next
    case False
    with Cons.prems have "nat (start - 1 - n) = Suc (nat (start - 1 - (n + 1)))" by simp
    with False Cons show ?thesis by simp
  qed
qed simp

text \<open>One turn of the loop, on a line that is readable.\<close>

definition at_eof :: "int \<Rightarrow> int \<Rightarrow> int \<Rightarrow> string list \<Rightarrow> line_error + line_window" where
  "at_eof start fin n out = (if n + 1 < start then Inl OutOfRange else Inr (window start fin out True))"

definition keep_line :: "int \<Rightarrow> int \<Rightarrow> int \<Rightarrow> string \<Rightarrow> string list \<Rightarrow> string list" where
  "keep_line start fin n l out = (if start \<le> n + 1 \<and> n + 1 < fin then out @ [l] else out)"

lemma stream_loop_Nil: "stream_loop start fin [] n sc out = at_eof start fin n out"
  by (subst stream_loop.simps) (simp add: at_eof_def window_def)

lemma stream_loop_line:
  assumes "s \<noteq> []" "read_string s = (chunk, rest)" "sc + length chunk \<le> max_line_scan_bytes"
    and "l = (if last chunk = nl then butlast chunk else chunk)" "line_ok l"
  shows "stream_loop start fin s n sc out =
     (if start < fin \<and> fin - 1 \<le> n + 1 then Inr (window start fin (keep_line start fin n l out) False)
      else if last chunk \<noteq> nl then at_eof start fin (n + 1) (keep_line start fin n l out)
      else stream_loop start fin rest (n + 1) (sc + length chunk) (keep_line start fin n l out))"
proof -
  have "\<not> max_line_scan_bytes < sc + length chunk" "\<not> max_line_bytes < length l" "valid_utf8 l"
    using assms(3,5) by (simp_all add: line_ok_def)
  then show ?thesis
    unfolding stream_loop.simps [of start fin s n sc out] Let_def assms(2) prod.case
      assms(4) [symmetric] at_eof_def [symmetric] keep_line_def [symmetric] window_def [symmetric]
    using assms(1) by (simp only: if_False not_True_eq_False simp_thms)
qed

lemma pick_keep: "keep_line start fin n l out @ pick start fin (n + 1) ls = out @ pick start fin n (l # ls)"
  by (simp add: keep_line_def)

text \<open>What the loop returns from a stream whose lines are all readable.\<close>

definition stream_result :: "int \<Rightarrow> int \<Rightarrow> int \<Rightarrow> string list \<Rightarrow> string list \<Rightarrow> line_error + line_window" where
  "stream_result start fin n ls out =
     (if start < fin \<and> fin - 1 \<le> n + int (length ls) then Inr (window start fin (out @ pick start fin n ls) False)
      else at_eof start fin (n + int (length ls)) (out @ pick start fin n ls))"

lemma stream_result_line:
  "stream_result start fin n (l # ls) out =
     (if start < fin \<and> fin - 1 \<le> n + 1 then Inr (window start fin (keep_line start fin n l out) False)
      else stream_result start fin (n + 1) ls (keep_line start fin n l out))"
proof (cases "start < fin \<and> fin - 1 \<le> n + 1")
  case True
  then have "pick start fin (n + 1) ls = []" by (intro pick_late) simp
  then show ?thesis
    using True pick_keep [of start fin n l out ls] by (simp add: stream_result_def del: pick.simps)
next
  case False
  have len: "n + int (length (l # ls)) = n + 1 + int (length ls)" by simp
  show ?thesis
    unfolding stream_result_def len pick_keep [symmetric] using False by (simp only: if_False)
qed

lemma stream_loop_lines:
  assumes "sc + length s \<le> max_line_scan_bytes" "\<forall>l \<in> set (stream_lines s). line_ok l"
    and "\<not> (start < fin \<and> fin - 1 \<le> n)"
  shows "stream_loop start fin s n sc out = stream_result start fin n (stream_lines s) out"
  using assms
proof (induction "length s" arbitrary: s n sc out rule: less_induct)
  case less
  show ?case
  proof (cases s rule: first_line)
    case (only l)
    show ?thesis
    proof (cases "l = []")
      case True
      then show ?thesis
        using only less(4) by (auto simp: stream_loop_Nil stream_lines_last stream_result_def)
    next
      case False
      then have "last l \<noteq> nl" using last_in_set [OF False] only(2) by metis
      moreover have L: "stream_lines s = [l]" using only False by (simp add: stream_lines_last)
      moreover have "stream_result start fin (n + 1) [] o' = at_eof start fin (n + 1) o'"
        if "\<not> (start < fin \<and> fin - 1 \<le> n + 1)" for o'
        using that by (auto simp: stream_result_def)
      ultimately show ?thesis
        using stream_loop_line [of s l "[]" sc l start fin n out] less(2,3) only False
        by (simp add: read_string_last stream_result_line)
    qed
  next
    case (more l r)
    have L: "stream_lines s = l # stream_lines r" using more by (simp add: stream_lines_cons)
    have step: "stream_loop start fin s n sc out =
       (if start < fin \<and> fin - 1 \<le> n + 1 then Inr (window start fin (keep_line start fin n l out) False)
        else stream_loop start fin r (n + 1) (sc + length (l @ [nl])) (keep_line start fin n l out))"
      using stream_loop_line [of s "l @ [nl]" r sc l start fin n out] more less(2,3) L
      by (simp add: read_string_nl)
    have "stream_loop start fin r (n + 1) (sc + length (l @ [nl])) (keep_line start fin n l out) =
        stream_result start fin (n + 1) (stream_lines r) (keep_line start fin n l out)"
      if "\<not> (start < fin \<and> fin - 1 \<le> n + 1)"
      by (rule less(1)) (use more less(2,3) L that in auto)
    then show ?thesis using step by (simp add: L stream_result_line)
  qed
qed

text \<open>The window of a list of lines: out of range behind the place after the last one.\<close>

definition lines_window :: "int \<Rightarrow> int \<Rightarrow> int \<Rightarrow> string list \<Rightarrow> line_error + line_window" where
  "lines_window start fin shown ls =
     (if int (length ls) + 1 < start then Inl OutOfRange
      else Inr (window start shown (take (nat (fin - start)) (drop (nat (start - 1)) ls))
                 (int (length ls) + 1 < fin)))"

definition cut_end :: "int \<Rightarrow> int \<Rightarrow> int" where
  "cut_end start fin = min fin (start + max_lines_per_window)"

lemma lines_stream_lines: "lines_of t = stream_lines t @ (if has_suffix t [nl] then [[]] else [])"
proof (cases "has_suffix t [nl]")
  case True
  then obtain u where u: "t = u @ [nl]" by (cases t rule: rev_cases) (auto simp: has_suffix_nl)
  then show ?thesis using True by (simp add: stream_lines_def lines_of_def split_on_snoc)
qed (simp add: stream_lines_def)

lemma doc_window:
  assumes "readable t" "1 \<le> start" "start < fin"
  shows "line_window_from_doc t start fin =
     lines_window start fin (min fin (int (length (lines_of t)) + 1)) (lines_of t)"
proof -
  let ?B = "lines_of t"
  have "length l \<le> max_line_bytes" if "l \<in> set ?B" for l
    using that assms(1) lines_stream_lines [of t] by (auto simp: readable_def line_ok_def split: if_splits)
  then have long: "\<not> (\<exists>l \<in> set (take k (drop j ?B)). max_line_bytes < length l)" for k j
    by (meson in_set_dropD in_set_takeD linorder_not_less)
  have cut: "nat (start - 1) = nat start - 1" by simp
  show ?thesis
  proof (cases "int (length ?B) + 1 < fin")
    case True
    then have "take (nat (int (length ?B) + 1 - start)) (drop (nat start - 1) ?B) =
        take (nat (fin - start)) (drop (nat start - 1) ?B)"
      by simp
    then show ?thesis
      using assms long [of "nat (int (length ?B) + 1 - start)" "nat start - 1"] True
      by (auto simp: line_window_from_doc_def lines_window_def doc_lines_spec window_def cut Let_def)
  next
    case False
    then show ?thesis
      using assms long [of "nat (fin - start)" "nat start - 1"]
      by (auto simp: line_window_from_doc_def lines_window_def doc_lines_spec window_def cut Let_def)
  qed
qed

lemma stream_window:
  assumes "readable t" "1 \<le> start" "start < fin"
  shows "read_line_range t start fin = lines_window start fin fin (stream_lines t)"
proof -
  have "read_line_range t start fin = stream_result start fin 0 (stream_lines t) []"
    unfolding read_line_range_def
    by (rule stream_loop_lines) (use assms in \<open>simp_all add: readable_def\<close>)
  moreover have "pick start fin 0 (stream_lines t) = take (nat (fin - start)) (drop (nat (start - 1)) (stream_lines t))"
    using pick_range [of 0 start fin "stream_lines t"] assms(2) by simp
  ultimately show ?thesis
    using assms(3) by (auto simp: stream_result_def lines_window_def at_eof_def)
qed

text \<open>
  C31. ReadLines on a readable text gives the window of its lines whether the file is read from
  its body or from its stream, with one difference: in the body the end after a last newline
  counts as one more, empty, line, which the stream does not have. The window is cut at 500
  lines, EOF is set only when the range reaches past the lines, and a start past the place
  after the last line is refused.
\<close>

theorem read_lines_windows:
  assumes "readable t" "1 \<le> start" "start < fin"
  defines "e \<equiv> cut_end start fin"
  shows "read_lines (Some t) t start fin =
      lines_window start e (min e (int (length (lines_of t)) + 1)) (lines_of t) \<and>
    read_lines None t start fin = lines_window start e e (stream_lines t) \<and>
    lines_of t = stream_lines t @ (if has_suffix t [nl] then [[]] else [])"
proof -
  have e: "start < e" using assms(3) by (simp add: e_def cut_end_def max_lines_per_window_def)
  have cut: "(if max_lines_per_window < fin - start then start + max_lines_per_window else fin) = e"
    by (simp add: e_def cut_end_def)
  show ?thesis
    using doc_window [OF assms(1,2) e] stream_window [OF assms(1,2) e] assms(2,3) e
      lines_stream_lines [of t]
    by (simp add: read_lines_def cut Let_def)
qed

definition demo_text :: string where
  "demo_text = ''a'' @ [nl] @ ''b'' @ [nl]"

lemma demo_text_lines: "lines_of demo_text = [''a'', ''b'', []]" "stream_lines demo_text = [''a'', ''b'']"
  by (simp_all add: demo_text_def stream_lines_def lines_of_def nl_def has_suffix_def)

lemma demo_readable: "readable demo_text"
  unfolding readable_def demo_text_lines
  by (simp add: line_ok_def valid_utf8_def decode_rune_def rune_error_def of_char_Char
      max_line_scan_bytes_def max_line_bytes_def demo_text_def)

theorem read_lines_windows_witness:
  "read_lines (Some demo_text) demo_text 1 4 = Inr (window 1 4 [''a'', ''b'', []] False) \<and>
   read_lines None demo_text 1 4 = Inr (window 1 4 [''a'', ''b''] True)"
  using read_lines_windows [OF demo_readable, of 1 4]
  by (simp add: lines_window_def demo_text_lines cut_end_def max_lines_per_window_def)

section \<open>Blocks of lines\<close>

record block =
  bl_id :: string
  bl_kind :: string
  bl_text :: string
  bl_level :: int
  bl_start :: int
  bl_end :: int
  bl_attrs :: "(string, string) gomap"

definition block_attr :: "block \<Rightarrow> string \<Rightarrow> string" where
  "block_attr b key = (case map_of (bl_attrs b) key of None \<Rightarrow> [] | Some v \<Rightarrow> v)"

definition find_block :: "block list \<Rightarrow> string \<Rightarrow> block option" where
  "find_block bs key0 =
     (let key = trim_space key0
      in if key = [] then None
         else find (\<lambda>b. bl_id b = key \<or> block_attr b ''heading_path'' = key) bs)"

definition block_replace_span :: "block \<Rightarrow> bool \<Rightarrow> line_error + int \<times> int" where
  "block_replace_span b include_heading =
     (if bl_start b < 1 \<or> bl_end b < bl_start b then Inl OutOfRange
      else if bl_kind b = ''heading'' \<and> \<not> include_heading then Inr (bl_start b + 1, bl_end b)
      else Inr (bl_start b, bl_end b))"

end
