(* ===== verification/Grid.thy ===== *)
theory Grid
  imports Cell_Format A1 Line_Window
begin

text \<open>
  The spreadsheet body (vfs/tabular.go): sheets as grids of cells with a tight shape, growing
  and trimming, reading by rows and addresses, one-cell writes under the cell limit, and the
  text the grid is projected to.
\<close>

section \<open>Cells\<close>

record cell =
  cl_input :: string
  cl_value :: string
  cl_format :: cell_format

definition zero_cell :: cell where
  "zero_cell = \<lparr>cl_input = [], cl_value = [], cl_format = no_format\<rparr>"

definition cell_empty :: "cell \<Rightarrow> bool" where
  "cell_empty c \<longleftrightarrow> cl_input c = [] \<and> cl_value c = [] \<and> format_is_zero (cl_format c)"

definition display :: "cell \<Rightarrow> string" where
  "display c =
     (if has_prefix (cl_input c) ''='' then cl_input c
      else if cl_value c \<noteq> [] then cl_value c else cl_input c)"

definition apply_cell_overlay :: "string option \<Rightarrow> format_patch option \<Rightarrow> cell \<Rightarrow> cell" where
  "apply_cell_overlay input patch c0 =
     (let c = (case input of
                 None \<Rightarrow> c0
               | Some i \<Rightarrow> c0\<lparr>cl_input := i, cl_value := (if has_prefix i ''='' then [] else i)\<rparr>)
      in case patch of None \<Rightarrow> c | Some p \<Rightarrow> c\<lparr>cl_format := apply_patch p (cl_format c)\<rparr>)"

record named_range =
  nr_name :: string
  nr_sheet :: string
  nr_a1 :: string

record grid_merge =
  gm_r1 :: int
  gm_c1 :: int
  gm_r2 :: int
  gm_c2 :: int

record sheet =
  sh_id :: string
  sh_title :: string
  sh_index :: int
  sh_rows :: nat
  sh_cols :: nat
  sh_cells :: "cell list list"
  sh_merges :: "grid_merge list"

record grid_body =
  gb_sheets :: "sheet list"
  gb_named :: "named_range list"
  gb_proj :: string
  gb_starts :: "nat list"

definition max_sheet_cells :: nat where
  "max_sheet_cells = 200000"

definition cells_from_strings :: "string list list \<Rightarrow> cell list list" where
  "cells_from_strings = map (map (\<lambda>s. \<lparr>cl_input = s, cl_value = s, cl_format = no_format\<rparr>))"

text \<open>
  cloneSheet and cloneCellFormat copy what pointers share; records are values, so the copy of
  a sheet is the sheet.
\<close>

definition clone_format :: "cell_format \<Rightarrow> cell_format" where
  "clone_format f = (case cf_border f of None \<Rightarrow> f | Some b \<Rightarrow> f\<lparr>cf_border := Some b\<rparr>)"

definition clone_sheet :: "sheet \<Rightarrow> sheet" where
  "clone_sheet sh = sh\<lparr>sh_cells := map (map (\<lambda>c. c\<lparr>cl_format := clone_format (cl_format c)\<rparr>)) (sh_cells sh)\<rparr>"

section \<open>Shape\<close>

definition extend_cells :: "nat \<Rightarrow> cell list \<Rightarrow> cell list" where
  "extend_cells cols row = row @ replicate (cols - length row) zero_cell"

definition normalize_shape :: "sheet \<Rightarrow> sheet" where
  "normalize_shape sh =
     (let cols = foldl (\<lambda>n row. if n < length row then length row else n) (sh_cols sh) (sh_cells sh)
      in sh\<lparr>sh_cells := map (extend_cells cols) (sh_cells sh), sh_rows := length (sh_cells sh), sh_cols := cols\<rparr>)"

text \<open>The scan for the last used row and column: one more than lastR and lastC.\<close>

fun scan_row :: "nat \<Rightarrow> nat \<Rightarrow> cell list \<Rightarrow> nat \<times> nat \<Rightarrow> nat \<times> nat" where
  "scan_row r c [] u = u"
| "scan_row r c (x # xs) u =
     scan_row r (Suc c) xs (if cell_empty x then u else (max (fst u) (Suc r), max (snd u) (Suc c)))"

fun scan_rows :: "nat \<Rightarrow> cell list list \<Rightarrow> nat \<times> nat \<Rightarrow> nat \<times> nat" where
  "scan_rows r [] u = u"
| "scan_rows r (row # rows) u = scan_rows (Suc r) rows (scan_row r 0 row u)"

definition trim_sheet :: "sheet \<Rightarrow> sheet" where
  "trim_sheet sh0 =
     (let sh = normalize_shape sh0; (ur, uc) = scan_rows 0 (sh_cells sh) (0, 0)
      in if ur = 0 then sh\<lparr>sh_cells := [], sh_rows := 0, sh_cols := 0\<rparr>
         else sh\<lparr>sh_rows := ur, sh_cols := uc, sh_cells := map (take uc) (take ur (sh_cells sh))\<rparr>)"

text \<open>growSheet: None is the panic of a sheet that still has no row.\<close>

definition grow_sheet :: "sheet \<Rightarrow> nat \<Rightarrow> nat \<Rightarrow> sheet option" where
  "grow_sheet sh rows0 cols0 =
     (let rows = max rows0 (sh_rows sh); cols = max cols0 (sh_cols sh);
          cells = map (extend_cells cols)
                    (sh_cells sh @ replicate (rows - length (sh_cells sh)) (replicate cols zero_cell))
      in if cells = [] then None
         else Some (sh\<lparr>sh_cells := cells, sh_rows := length cells, sh_cols := length (hd cells)\<rparr>))"

definition merge_slave :: "sheet \<Rightarrow> int \<Rightarrow> int \<Rightarrow> bool" where
  "merge_slave sh r c =
     (case find (\<lambda>m. gm_r1 m \<le> r \<and> r < gm_r2 m \<and> gm_c1 m \<le> c \<and> c < gm_c2 m) (sh_merges sh) of
        None \<Rightarrow> False
      | Some m \<Rightarrow> r \<noteq> gm_r1 m \<or> c \<noteq> gm_c1 m)"

definition with_merge :: "sheet \<Rightarrow> int \<Rightarrow> int \<Rightarrow> int \<Rightarrow> int \<Rightarrow> sheet" where
  "with_merge sh r1 c1 r2 c2 =
     sh\<lparr>sh_merges := sh_merges sh @ [\<lparr>gm_r1 = r1, gm_c1 = c1, gm_r2 = r2, gm_c2 = c2\<rparr>]\<rparr>"

definition merge_bounds :: "sheet \<Rightarrow> (int \<times> int \<times> int \<times> int) list" where
  "merge_bounds sh = map (\<lambda>m. (gm_r1 m, gm_c1 m, gm_r2 m, gm_c2 m)) (sh_merges sh)"

text \<open>cellAt: 1-based, the zero cell outside the sheet.\<close>

definition cell_at :: "sheet \<Rightarrow> int \<Rightarrow> int \<Rightarrow> cell" where
  "cell_at sh row col =
     (if row < 1 \<or> col < 1 \<or> int (sh_rows sh) < row \<or> int (sh_cols sh) < col then zero_cell
      else sh_cells sh ! nat (row - 1) ! nat (col - 1))"

section \<open>Projection\<close>

definition encode_tool_row :: "cell list \<Rightarrow> string" where
  "encode_tool_row row = encode_tool_texts (map display row)"

definition sheet_text :: "sheet \<Rightarrow> string" where
  "sheet_text sh = ''# Sheet: '' @ sh_title sh @ concat (map (\<lambda>row. nl # encode_tool_row row) (sh_cells sh))"

definition project_tabular_tsv :: "sheet list \<Rightarrow> string" where
  "project_tabular_tsv sheets = join_text [nl] (map sheet_text sheets)"

definition reproject :: "grid_body \<Rightarrow> grid_body" where
  "reproject d =
     (let p = project_tabular_tsv (gb_sheets d) in d\<lparr>gb_proj := p, gb_starts := line_starts p\<rparr>)"

definition cell_count :: "sheet list \<Rightarrow> nat" where
  "cell_count sheets = sum_list (map (\<lambda>sh. sh_rows sh * sh_cols sh) sheets)"

definition finish_mut :: "grid_body \<Rightarrow> grid_body \<times> grid_error option" where
  "finish_mut d =
     (if max_sheet_cells < cell_count (gb_sheets d) then (d, Some GridTooLarge) else (reproject d, None))"

definition adopt_tabular :: "sheet list \<Rightarrow> named_range list \<Rightarrow> grid_error + grid_body" where
  "adopt_tabular sheets named =
     (let trimmed = map trim_sheet sheets
      in if max_sheet_cells < cell_count trimmed then Inl GridTooLarge
         else Inr (reproject \<lparr>gb_sheets = trimmed, gb_named = named, gb_proj = [], gb_starts = []\<rparr>))"

definition new_tabular :: "sheet list \<Rightarrow> named_range list \<Rightarrow> grid_error + grid_body" where
  "new_tabular sheets named = adopt_tabular (map clone_sheet sheets) named"

section \<open>Writing one cell\<close>

definition set_cell :: "nat \<Rightarrow> nat \<Rightarrow> cell \<Rightarrow> sheet \<Rightarrow> sheet" where
  "set_cell r c x sh = sh\<lparr>sh_cells := (sh_cells sh)[r := (sh_cells sh ! r)[c := x]]\<rparr>"

text \<open>overlayCell, of a 1-based place: None is a panic.\<close>

definition overlay_cell :: "grid_body \<Rightarrow> nat \<Rightarrow> nat \<Rightarrow> nat \<Rightarrow> string option \<Rightarrow> format_patch option \<Rightarrow>
  (grid_body \<times> grid_error option) option" where
  "overlay_cell d idx row col input patch =
     (if length (gb_sheets d) \<le> idx then None
      else if merge_slave (gb_sheets d ! idx) (int row - 1) (int col - 1) then Some (d, Some MergeWrite)
      else case grow_sheet (gb_sheets d ! idx) row col of
        None \<Rightarrow> None
      | Some sh \<Rightarrow>
          if row = 0 \<or> col = 0 then None
          else
            let x = apply_cell_overlay input patch (sh_cells sh ! (row - 1) ! (col - 1));
                sh' = trim_sheet (set_cell (row - 1) (col - 1) x sh)
            in Some (finish_mut (d\<lparr>gb_sheets := (gb_sheets d)[idx := sh']\<rparr>)))"

section \<open>What a scan finds\<close>

definition used_len :: "('a \<Rightarrow> bool) \<Rightarrow> 'a list \<Rightarrow> nat" where
  "used_len P xs = length (dropWhile P (rev xs))"

definition row_blank :: "cell list \<Rightarrow> bool" where
  "row_blank row = list_all cell_empty row"

definition used_cols :: "cell list list \<Rightarrow> nat" where
  "used_cols rows = foldr (\<lambda>row n. max (used_len cell_empty row) n) rows 0"

lemma used_Nil [simp]: "used_len P [] = 0"
  by (simp add: used_len_def)

lemma used_snoc [simp]: "used_len P (xs @ [x]) = (if P x then used_len P xs else Suc (length xs))"
  by (simp add: used_len_def)

lemma used_le: "used_len P xs \<le> length xs"
  by (induction xs rule: rev_induct) auto

lemma used_beyond: "used_len P xs \<le> i \<Longrightarrow> i < length xs \<Longrightarrow> P (xs ! i)"
  by (induction xs rule: rev_induct) (auto simp: nth_append less_Suc_eq split: if_splits)

lemma used_last: "0 < used_len P xs \<Longrightarrow> \<not> P (xs ! (used_len P xs - 1))"
proof (induction xs rule: rev_induct)
  case (snoc x xs)
  then show ?case using used_le [of P xs] by (auto simp: nth_append)
qed simp

lemma used_all: "(\<forall>x \<in> set xs. P x) \<longleftrightarrow> used_len P xs = 0"
  by (induction xs rule: rev_induct) auto

lemma used_full: "xs \<noteq> [] \<Longrightarrow> used_len P xs = length xs \<longleftrightarrow> \<not> P (last xs)"
proof (induction xs rule: rev_induct)
  case (snoc x xs)
  then show ?case using used_le [of P xs] by auto
qed simp

lemma used_cols_append: "used_cols (rows @ [row]) = max (used_cols rows) (used_len cell_empty row)"
  by (induction rows) (auto simp: used_cols_def)

lemma used_cols_Nil [simp]: "used_cols [] = 0"
  by (simp add: used_cols_def)

lemma used_cols_le: "\<forall>row \<in> set rows. length row \<le> n \<Longrightarrow> used_cols rows \<le> n"
  by (induction rows) (auto simp: used_cols_def intro: order_trans [OF used_le])

lemma used_cols_ge: "row \<in> set rows \<Longrightarrow> used_len cell_empty row \<le> used_cols rows"
  by (induction rows) (auto simp: used_cols_def)

lemma used_cols_row: "0 < used_cols rows \<Longrightarrow> \<exists>row \<in> set rows. used_len cell_empty row = used_cols rows"
proof (induction rows rule: rev_induct)
  case (snoc row rows)
  then show ?case by (cases "used_cols rows \<le> used_len cell_empty row") (auto simp: used_cols_append max_def)
qed simp

lemma scan_row_append: "scan_row r c (xs @ ys) u = scan_row r (c + length xs) ys (scan_row r c xs u)"
  by (induction xs arbitrary: c u) auto

lemma scan_row_used:
  "scan_row r 0 xs u =
     (if used_len cell_empty xs = 0 then u else (max (fst u) (Suc r), max (snd u) (used_len cell_empty xs)))"
proof (induction xs rule: rev_induct)
  case (snoc x xs)
  then show ?case using used_le [of cell_empty xs] by (auto simp: scan_row_append)
qed simp

lemma scan_rows_append: "scan_rows r (xs @ ys) u = scan_rows (r + length xs) ys (scan_rows r xs u)"
  by (induction xs arbitrary: r u) auto

text \<open>The scan of the code is the closed form: trailing blank rows, and trailing empty cells of each row.\<close>

lemma scan_rows_used: "scan_rows 0 rows (0, 0) = (used_len row_blank rows, used_cols rows)"
proof (induction rows rule: rev_induct)
  case (snoc row rows)
  have "row_blank row \<longleftrightarrow> used_len cell_empty row = 0"
    using used_all [of row cell_empty] by (simp add: row_blank_def list_all_iff)
  moreover have "used_len row_blank rows \<le> length rows" by (rule used_le)
  ultimately show ?case using snoc by (auto simp: scan_rows_append scan_row_used used_cols_append)
qed simp

section \<open>Shape\<close>

definition grid_cell :: "cell list list \<Rightarrow> nat \<Rightarrow> nat \<Rightarrow> cell" where
  "grid_cell cells r c =
     (if r < length cells \<and> c < length (cells ! r) then cells ! r ! c else zero_cell)"

definition same_cell :: "cell \<Rightarrow> cell \<Rightarrow> bool" where
  "same_cell a b \<longleftrightarrow> a = b \<or> cell_empty a \<and> cell_empty b"

lemma same_cell_refl [simp]: "same_cell a a"
  by (simp add: same_cell_def)

lemma same_cell_trans: "same_cell a b \<Longrightarrow> same_cell b c \<Longrightarrow> same_cell a c"
  by (auto simp: same_cell_def)

lemma cell_empty_zero [simp]: "cell_empty zero_cell"
  by (simp add: cell_empty_def zero_cell_def format_is_zero_def)

text \<open>A tight sheet: a rectangle whose last row and whose last column hold a cell that is not empty.\<close>

definition sheet_tight :: "sheet \<Rightarrow> bool" where
  "sheet_tight sh \<longleftrightarrow>
     sh_rows sh = length (sh_cells sh) \<and> (\<forall>row \<in> set (sh_cells sh). length row = sh_cols sh) \<and>
     (if sh_cells sh = [] then sh_cols sh = 0
      else (\<exists>x \<in> set (last (sh_cells sh)). \<not> cell_empty x) \<and>
           (\<exists>row \<in> set (sh_cells sh). row \<noteq> [] \<and> \<not> cell_empty (last row)))"

lemma sheet_tight_used:
  "sheet_tight sh \<longleftrightarrow>
     sh_rows sh = length (sh_cells sh) \<and> (\<forall>row \<in> set (sh_cells sh). length row = sh_cols sh) \<and>
     used_len row_blank (sh_cells sh) = sh_rows sh \<and> used_cols (sh_cells sh) = sh_cols sh"
proof (cases "sh_cells sh = []")
  case True
  then show ?thesis by (auto simp: sheet_tight_def)
next
  case False
  have blank: "used_len row_blank (sh_cells sh) = length (sh_cells sh) \<longleftrightarrow> (\<exists>x \<in> set (last (sh_cells sh)). \<not> cell_empty x)"
    using used_full [OF False, of row_blank] by (auto simp: row_blank_def list_all_iff)
  have "used_cols (sh_cells sh) = sh_cols sh \<longleftrightarrow> (\<exists>row \<in> set (sh_cells sh). row \<noteq> [] \<and> \<not> cell_empty (last row))"
    if len: "\<forall>row \<in> set (sh_cells sh). length row = sh_cols sh"
      and ne: "\<exists>x \<in> set (last (sh_cells sh)). \<not> cell_empty x"
  proof -
    have cols: "0 < sh_cols sh" using len ne last_in_set [OF False] by (cases "last (sh_cells sh)") auto
    have le: "used_cols (sh_cells sh) \<le> sh_cols sh" by (rule used_cols_le) (use len in simp)
    show ?thesis
    proof
      assume eq: "used_cols (sh_cells sh) = sh_cols sh"
      then obtain row where row: "row \<in> set (sh_cells sh)" "used_len cell_empty row = sh_cols sh"
        using used_cols_row [of "sh_cells sh"] cols by auto
      then have "row \<noteq> []" using cols by auto
      then have "row \<noteq> [] \<and> \<not> cell_empty (last row)"
        using used_full [of row cell_empty] row len by simp
      with row(1) show "\<exists>row \<in> set (sh_cells sh). row \<noteq> [] \<and> \<not> cell_empty (last row)" by blast
    next
      assume "\<exists>row \<in> set (sh_cells sh). row \<noteq> [] \<and> \<not> cell_empty (last row)"
      then obtain row where row: "row \<in> set (sh_cells sh)" "row \<noteq> []" "\<not> cell_empty (last row)" by blast
      then have "used_len cell_empty row = sh_cols sh"
        using used_full [OF row(2), of cell_empty] len by simp
      then show "used_cols (sh_cells sh) = sh_cols sh"
        using used_cols_ge [OF row(1)] le by simp
    qed
  qed
  then show ?thesis using False blank by (auto simp: sheet_tight_def)
qed

lemma foldl_max_ge:
  "n \<le> foldl (\<lambda>n row. if n < length row then length row else n) n rows \<and>
   (\<forall>row \<in> set rows. length row \<le> foldl (\<lambda>n row. if n < length row then length row else n) n rows)"
proof (induction rows arbitrary: n)
  case (Cons row rows)
  show ?case using Cons.IH [of n] Cons.IH [of "length row"] by auto
qed simp

lemma normalize_cols: "row \<in> set (sh_cells sh) \<Longrightarrow> length row \<le> sh_cols (normalize_shape sh)"
  using foldl_max_ge [of "sh_cols sh" "sh_cells sh"] by (simp add: normalize_shape_def Let_def)

lemma normalize_shape_cells [simp]:
  "sh_rows (normalize_shape sh) = length (sh_cells sh)"
  "length (sh_cells (normalize_shape sh)) = length (sh_cells sh)"
  "sh_merges (normalize_shape sh) = sh_merges sh" "sh_id (normalize_shape sh) = sh_id sh"
  "sh_title (normalize_shape sh) = sh_title sh" "sh_index (normalize_shape sh) = sh_index sh"
  by (simp_all add: normalize_shape_def Let_def)

lemma normalize_row: "row \<in> set (sh_cells (normalize_shape sh)) \<Longrightarrow> length row = sh_cols (normalize_shape sh)"
proof -
  assume "row \<in> set (sh_cells (normalize_shape sh))"
  then obtain r where "r \<in> set (sh_cells sh)" "row = extend_cells (sh_cols (normalize_shape sh)) r"
    by (auto simp: normalize_shape_def Let_def)
  then show ?thesis using normalize_cols by (simp add: extend_cells_def)
qed

lemma extend_cells_nth:
  "c < length (extend_cells n row) \<Longrightarrow> extend_cells n row ! c = (if c < length row then row ! c else zero_cell)"
  by (auto simp: extend_cells_def nth_append)

lemma grid_cell_extend: "grid_cell (map (extend_cells n) rows) r c = grid_cell rows r c"
  by (auto simp: grid_cell_def extend_cells_nth) (auto simp: extend_cells_def)

lemma grid_cell_normalize: "grid_cell (sh_cells (normalize_shape sh)) r c = grid_cell (sh_cells sh) r c"
  by (simp add: normalize_shape_def Let_def grid_cell_extend)

text \<open>Cutting to the used rectangle only drops empty cells.\<close>

lemma grid_cell_cut:
  "same_cell (grid_cell (map (take (used_cols rows)) (take (used_len row_blank rows) rows)) r c) (grid_cell rows r c)"
proof (cases "r < length rows \<and> c < length (rows ! r) \<and> (used_len row_blank rows \<le> r \<or> used_cols rows \<le> c)")
  case True
  have "cell_empty (rows ! r ! c)"
  proof (cases "used_len row_blank rows \<le> r")
    case True': True
    then have "row_blank (rows ! r)" using used_beyond True by blast
    then show ?thesis using True by (simp add: row_blank_def list_all_iff)
  next
    case False
    then have "used_len cell_empty (rows ! r) \<le> c"
      using True used_cols_ge [of "rows ! r" rows] by simp
    then show ?thesis using used_beyond True by blast
  qed
  then show ?thesis using True by (auto simp: grid_cell_def same_cell_def)
next
  case False
  then show ?thesis by (auto simp: grid_cell_def same_cell_def)
qed

lemma trim_sheet_cells:
  "sh_cells (trim_sheet sh) =
     (let rows = sh_cells (normalize_shape sh) in map (take (used_cols rows)) (take (used_len row_blank rows) rows))"
  by (simp add: trim_sheet_def scan_rows_used Let_def)

lemma trim_sheet_frame [simp]:
  "sh_merges (trim_sheet sh) = sh_merges sh" "sh_id (trim_sheet sh) = sh_id sh"
  "sh_title (trim_sheet sh) = sh_title sh" "sh_index (trim_sheet sh) = sh_index sh"
  by (simp_all add: trim_sheet_def scan_rows_used Let_def)

lemma used_take: "used_len P (take (used_len P xs) xs) = used_len P xs"
proof (induction xs rule: rev_induct)
  case (snoc x xs)
  then show ?case using used_le [of P xs] by auto
qed simp

lemma used_take_ge: "used_len P xs \<le> n \<Longrightarrow> used_len P (take n xs) = used_len P xs"
proof (induction xs rule: rev_induct)
  case (snoc x xs)
  then show ?case by (cases "length xs < n") (auto split: if_splits)
qed simp

lemma used_map: "\<forall>x \<in> set xs. P (f x) = Q x \<Longrightarrow> used_len P (map f xs) = used_len Q xs"
  by (induction xs rule: rev_induct) auto

lemma used_cols_map: "\<forall>x \<in> set xs. used_len cell_empty (f x) = used_len cell_empty x \<Longrightarrow> used_cols (map f xs) = used_cols xs"
  by (induction xs) (auto simp: used_cols_def)

lemma used_cols_take: "used_cols (take (used_len row_blank rows) rows) = used_cols rows"
proof (induction rows rule: rev_induct)
  case (snoc row rows)
  have "row_blank row \<Longrightarrow> used_len cell_empty row = 0"
    using used_all [of row cell_empty] by (simp add: row_blank_def list_all_iff)
  then show ?case using snoc used_le [of row_blank rows] by (auto simp: used_cols_append)
qed simp

lemma blank_cols: "used_len row_blank rows = 0 \<Longrightarrow> used_cols rows = 0"
  using used_cols_take [of rows] by simp

lemma trim_sheet_shape:
  "sh_rows (trim_sheet sh) = used_len row_blank (sh_cells (normalize_shape sh))"
  "sh_cols (trim_sheet sh) = used_cols (sh_cells (normalize_shape sh))"
  using blank_cols by (simp_all add: trim_sheet_def scan_rows_used Let_def)

lemma trim_sheet_tight: "sheet_tight (trim_sheet sh)"
proof -
  define N where "N = sh_cells (normalize_shape sh)"
  define T where "T = take (used_len row_blank N) N"
  let ?uc = "used_cols N"
  have cells: "sh_cells (trim_sheet sh) = map (take ?uc) T"
    by (simp add: trim_sheet_cells N_def T_def Let_def)
  have TN: "row \<in> set N" if "row \<in> set T" for row using that by (auto simp: T_def dest: in_set_takeD)
  have ge: "used_len cell_empty row \<le> ?uc" if "row \<in> set T" for row
    using used_cols_ge [OF TN [OF that]] by simp
  have uc: "?uc \<le> length row" if "row \<in> set T" for row
  proof -
    have "?uc \<le> sh_cols (normalize_shape sh)"
      by (rule used_cols_le) (use normalize_row in \<open>auto simp: N_def\<close>)
    then show ?thesis using normalize_row TN [OF that] by (simp add: N_def)
  qed
  have "row_blank (take ?uc row) = row_blank row" if "row \<in> set T" for row
    using used_all [of "take ?uc row" cell_empty] used_all [of row cell_empty] used_take_ge [OF ge [OF that]]
    by (simp add: row_blank_def list_all_iff)
  then have "used_len row_blank (map (take ?uc) T) = used_len row_blank T" by (intro used_map) simp
  moreover have "used_len row_blank T = used_len row_blank N" by (simp add: T_def used_take)
  moreover have "used_cols (map (take ?uc) T) = used_cols T"
    using used_take_ge ge by (intro used_cols_map) blast
  moreover have "used_cols T = ?uc" by (simp add: T_def used_cols_take)
  moreover have "length T = used_len row_blank N" using used_le [of row_blank N] by (simp add: T_def)
  ultimately show ?thesis
    using uc by (auto simp: sheet_tight_used cells trim_sheet_shape N_def [symmetric])
qed

lemma cell_at_grid:
  "sheet_tight sh \<Longrightarrow> cell_at sh row col =
     (if row < 1 \<or> col < 1 then zero_cell else grid_cell (sh_cells sh) (nat (row - 1)) (nat (col - 1)))"
  by (auto simp: cell_at_def grid_cell_def sheet_tight_def)

lemma normalize_tight: "sheet_tight sh \<Longrightarrow> normalize_shape sh = sh"
proof -
  assume t: "sheet_tight sh"
  have "foldl (\<lambda>n row. if n < length row then length row else n) n rows = n"
    if "\<forall>row \<in> set rows. length row = n" for n :: nat and rows :: "cell list list"
    using that by (induction rows) auto
  with t have "foldl (\<lambda>n row. if n < length row then length row else n) (sh_cols sh) (sh_cells sh) = sh_cols sh"
    by (simp add: sheet_tight_def)
  moreover have "map (extend_cells (sh_cols sh)) (sh_cells sh) = sh_cells sh"
    using t by (intro map_idI) (auto simp: sheet_tight_def extend_cells_def)
  ultimately show ?thesis using t by (simp add: normalize_shape_def sheet_tight_def)
qed

lemma trim_tight: "sheet_tight sh \<Longrightarrow> trim_sheet sh = sh"
proof -
  assume t: "sheet_tight sh"
  have n: "normalize_shape sh = sh" by (rule normalize_tight [OF t])
  have "map (take (used_cols (sh_cells sh))) (take (used_len row_blank (sh_cells sh)) (sh_cells sh)) = sh_cells sh"
    using t by (auto simp: sheet_tight_used intro!: map_idI)
  then show ?thesis
    using t trim_sheet_cells [of sh] trim_sheet_shape [of sh] n
    by (intro sheet.equality) (auto simp: sheet_tight_used Let_def)
qed

lemma trim_sheet_at:
  "same_cell (cell_at (trim_sheet sh) (int r + 1) (int c + 1)) (grid_cell (sh_cells sh) r c)"
  using trim_sheet_tight [of sh] grid_cell_cut [of "sh_cells (normalize_shape sh)" r c]
  by (simp add: cell_at_grid trim_sheet_cells grid_cell_normalize Let_def)

text \<open>
  C33. Trimming leaves a tight sheet: a rectangle, or nothing, whose last row and last column
  hold a cell that is not empty. It loses only empty cells: every place reads the cell that
  was there. A tight sheet is left as it is, so trimming twice is trimming once.
\<close>

theorem trim_sheet_spec:
  "sheet_tight (trim_sheet sh) \<and> trim_sheet (trim_sheet sh) = trim_sheet sh \<and>
   same_cell (cell_at (trim_sheet sh) (int r + 1) (int c + 1)) (grid_cell (sh_cells sh) r c)"
  using trim_sheet_tight [of sh] trim_tight [OF trim_sheet_tight] trim_sheet_at [of sh r c] by simp

section \<open>Writing one cell\<close>

lemma grow_sheet_some:
  assumes "sheet_tight sh" "1 \<le> row" "1 \<le> col"
  obtains g where "grow_sheet sh row col = Some g" "row \<le> length (sh_cells g)"
    "\<forall>l \<in> set (sh_cells g). col \<le> length l" "sh_merges g = sh_merges sh" "sh_id g = sh_id sh"
    "sh_title g = sh_title sh" "sh_index g = sh_index sh"
    "\<forall>r c. grid_cell (sh_cells g) r c = grid_cell (sh_cells sh) r c"
proof -
  let ?rows = "max row (sh_rows sh)" and ?cols = "max col (sh_cols sh)"
  let ?more = "sh_cells sh @ replicate (?rows - length (sh_cells sh)) (replicate ?cols zero_cell)"
  let ?cells = "map (extend_cells ?cols) ?more"
  let ?g = "sh\<lparr>sh_cells := ?cells, sh_rows := length ?cells, sh_cols := length (hd ?cells)\<rparr>"
  have len: "length ?cells = ?rows" using assms by (simp add: sheet_tight_def)
  then have "0 < length ?cells" using assms(2) by (simp only: len)
  then have "?cells \<noteq> []" by (rule length_greater_0_conv [THEN iffD1])
  then have "grow_sheet sh row col = Some ?g" by (simp add: grow_sheet_def Let_def)
  moreover have "row \<le> length (sh_cells ?g)" using len by simp
  moreover have "\<forall>l \<in> set (sh_cells ?g). col \<le> length l" by (auto simp: extend_cells_def)
  moreover have "grid_cell ?more r c = grid_cell (sh_cells sh) r c" for r c
    by (auto simp: grid_cell_def nth_append)
  then have more: "grid_cell ?cells r c = grid_cell (sh_cells sh) r c" for r c
    by (simp only: grid_cell_extend)
  have "sh_cells ?g = ?cells" by simp
  then have "\<forall>r c. grid_cell (sh_cells ?g) r c = grid_cell (sh_cells sh) r c"
    by (simp only: more) blast
  ultimately show ?thesis using that [of ?g] by simp
qed

lemma grow_sheet_ex: "sheet_tight sh \<Longrightarrow> 1 \<le> row \<Longrightarrow> 1 \<le> col \<Longrightarrow> \<exists>g. grow_sheet sh row col = Some g"
  by (erule grow_sheet_some, assumption, assumption) (rule exI)

lemma grid_cell_set:
  "r < length cells \<Longrightarrow> c < length (cells ! r) \<Longrightarrow>
   grid_cell (cells[r := (cells ! r)[c := x]]) r' c' = (if r' = r \<and> c' = c then x else grid_cell cells r' c')"
  by (auto simp: grid_cell_def nth_list_update)

definition sheets_tight :: "grid_body \<Rightarrow> bool" where
  "sheets_tight d \<longleftrightarrow> (\<forall>sh \<in> set (gb_sheets d). sheet_tight sh)"

definition projected :: "grid_body \<Rightarrow> bool" where
  "projected d \<longleftrightarrow> gb_proj d = project_tabular_tsv (gb_sheets d) \<and> gb_starts d = line_starts (gb_proj d)"

text \<open>What one write does to the sheet it goes to.\<close>

definition wrote :: "sheet \<Rightarrow> int \<Rightarrow> int \<Rightarrow> string option \<Rightarrow> format_patch option \<Rightarrow> sheet \<Rightarrow> bool" where
  "wrote sh row col input patch sh' \<longleftrightarrow>
     sheet_tight sh' \<and> sh_title sh' = sh_title sh \<and> sh_id sh' = sh_id sh \<and> sh_merges sh' = sh_merges sh \<and>
     same_cell (cell_at sh' row col) (apply_cell_overlay input patch (cell_at sh row col)) \<and>
     (\<forall>r c. (r, c) \<noteq> (row, col) \<longrightarrow> same_cell (cell_at sh' r c) (cell_at sh r c))"

lemma overlay_wrote:
  assumes "sheet_tight sh" "1 \<le> row" "1 \<le> col" "grow_sheet sh row col = Some g"
  shows "wrote sh (int row) (int col) input patch
     (trim_sheet (set_cell (row - 1) (col - 1) (apply_cell_overlay input patch (sh_cells g ! (row - 1) ! (col - 1))) g))"
proof -
  obtain g' where g': "grow_sheet sh row col = Some g'" "row \<le> length (sh_cells g')"
    "\<forall>l \<in> set (sh_cells g'). col \<le> length l" "sh_merges g' = sh_merges sh" "sh_id g' = sh_id sh"
    "sh_title g' = sh_title sh" "sh_index g' = sh_index sh"
    "\<forall>r c. grid_cell (sh_cells g') r c = grid_cell (sh_cells sh) r c"
    by (rule grow_sheet_some [OF assms(1-3)])
  with assms(4) have g: "row - 1 < length (sh_cells g)" "col - 1 < length (sh_cells g ! (row - 1))"
    "sh_merges g = sh_merges sh" "sh_id g = sh_id sh" "sh_title g = sh_title sh"
    "\<And>r c. grid_cell (sh_cells g) r c = grid_cell (sh_cells sh) r c"
    using assms(2,3) nth_mem [of "row - 1" "sh_cells g'"] by (auto, fastforce)
  define x where "x = apply_cell_overlay input patch (sh_cells g ! (row - 1) ! (col - 1))"
  let ?s = "set_cell (row - 1) (col - 1) x g"
  have "sh_cells g ! (row - 1) ! (col - 1) = cell_at sh (int row) (int col)"
    using g(6) [of "row - 1" "col - 1"] g(1,2) assms(2,3) cell_at_grid [OF assms(1), of "int row" "int col"]
    by (simp add: grid_cell_def nat_diff_distrib)
  then have x: "x = apply_cell_overlay input patch (cell_at sh (int row) (int col))" by (simp add: x_def)
  have cells: "grid_cell (sh_cells ?s) r c =
      (if r = row - 1 \<and> c = col - 1 then x else grid_cell (sh_cells sh) r c)" for r c
    using grid_cell_set [OF g(1,2)] g(6) by (simp add: set_cell_def)
  have at: "same_cell (cell_at (trim_sheet ?s) (int r + 1) (int c + 1))
      (if r = row - 1 \<and> c = col - 1 then x else grid_cell (sh_cells sh) r c)" for r c
    using trim_sheet_at [of ?s r c] cells by simp
  have "same_cell (cell_at (trim_sheet ?s) (int row) (int col)) x"
    using at [of "row - 1" "col - 1"] assms(2,3) by (simp add: of_nat_diff)
  moreover have "same_cell (cell_at (trim_sheet ?s) r c) (cell_at sh r c)" if "(r, c) \<noteq> (int row, int col)" for r c
  proof (cases "r < 1 \<or> c < 1")
    case True
    then show ?thesis by (auto simp: cell_at_def)
  next
    case False
    then have other: "\<not> (nat (r - 1) = row - 1 \<and> nat (c - 1) = col - 1)" using that assms(2,3) by auto
    show ?thesis
      using at [of "nat (r - 1)" "nat (c - 1)", unfolded if_not_P [OF other]] False
        cell_at_grid [OF assms(1), of r c] by simp
  qed
  ultimately have "wrote sh (int row) (int col) input patch (trim_sheet ?s)"
    unfolding wrote_def x [symmetric] using g(3-5) trim_sheet_tight [of ?s]
    by (auto simp: set_cell_def)
  then show ?thesis by (simp only: x_def)
qed

text \<open>
  Writing one cell of a grid of tight sheets, at a place that is not inside a merge: the
  cell becomes the old one with the input and the format patch laid over it, every other cell
  of the sheet reads as before (empty cells may come or go with the shape), the other sheets
  are left alone and all sheets are tight. Past the limit of cells the write reports it is
  too large; else the projected text and its line index are those of the new sheets.
\<close>

lemma overlay_cell_spec:
  assumes "sheets_tight d" "idx < length (gb_sheets d)" "1 \<le> row" "1 \<le> col"
    and "\<not> merge_slave (gb_sheets d ! idx) (int row - 1) (int col - 1)"
  shows "\<exists>d' e. overlay_cell d idx row col input patch = Some (d', e) \<and> sheets_tight d' \<and>
     (\<exists>sh'. gb_sheets d' = (gb_sheets d)[idx := sh'] \<and>
        wrote (gb_sheets d ! idx) (int row) (int col) input patch sh') \<and>
     (if cell_count (gb_sheets d') \<le> max_sheet_cells then e = None \<and> projected d' else e = Some GridTooLarge)"
proof -
  let ?sh = "gb_sheets d ! idx"
  have t: "sheet_tight ?sh" using assms(1,2) by (simp add: sheets_tight_def)
  obtain g where g: "grow_sheet ?sh row col = Some g"
    using grow_sheet_ex [OF t assms(3,4)] by (rule exE)
  define sh' where "sh' = trim_sheet (set_cell (row - 1) (col - 1)
    (apply_cell_overlay input patch (sh_cells g ! (row - 1) ! (col - 1))) g)"
  have w: "wrote ?sh (int row) (int col) input patch sh'"
    unfolding sh'_def by (rule overlay_wrote [OF t assms(3,4) g])
  let ?d = "d\<lparr>gb_sheets := (gb_sheets d)[idx := sh']\<rparr>"
  have r: "overlay_cell d idx row col input patch = Some (finish_mut ?d)"
    using assms g by (simp add: overlay_cell_def sh'_def Let_def)
  have s: "gb_sheets (fst (finish_mut ?d)) = (gb_sheets d)[idx := sh']"
    by (simp add: finish_mut_def reproject_def Let_def)
  have tight: "sheet_tight sh'" using w by (simp add: wrote_def)
  have "sheet_tight x" if "x \<in> set ((gb_sheets d)[idx := sh'])" for x
  proof -
    have "x \<in> insert sh' (set (gb_sheets d))" by (rule subsetD [OF set_update_subset_insert that])
    then show ?thesis using tight assms(1) by (auto simp: sheets_tight_def)
  qed
  then have "sheets_tight (fst (finish_mut ?d))" by (simp only: sheets_tight_def s) simp
  moreover have "if cell_count (gb_sheets (fst (finish_mut ?d))) \<le> max_sheet_cells
      then snd (finish_mut ?d) = None \<and> projected (fst (finish_mut ?d)) else snd (finish_mut ?d) = Some GridTooLarge"
    by (simp add: finish_mut_def reproject_def projected_def Let_def)
  ultimately show ?thesis
    using r s w by (intro exI [of _ "fst (finish_mut ?d)"] exI [of _ "snd (finish_mut ?d)"]) auto
qed

definition demo_grid :: grid_body where
  "demo_grid =
     reproject \<lparr>gb_sheets = [\<lparr>sh_id = ''0'', sh_title = ''Plan'', sh_index = 0, sh_rows = 0, sh_cols = 0,
                              sh_cells = [], sh_merges = []\<rparr>],
                gb_named = [], gb_proj = [], gb_starts = []\<rparr>"

lemma demo_grid_ok:
  "sheets_tight demo_grid" "length (gb_sheets demo_grid) = 1" "sh_merges (gb_sheets demo_grid ! 0) = []"
  "sh_title (gb_sheets demo_grid ! 0) = ''Plan''" "sh_id (gb_sheets demo_grid ! 0) = ''0''"
  by (simp_all add: demo_grid_def reproject_def sheets_tight_def sheet_tight_def Let_def)

end
