(* ===== verification/Markdown.thy ===== *)
theory Markdown
  imports Line_Window
begin

text \<open>
  The block view of a Markdown body (vfs/structure.go): headings outside fences, nested by
  level, each a block that reaches to the next heading of its level or above, with ids from
  the slugs of their titles.
\<close>

section \<open>Headings\<close>

definition hash :: char where "hash = CHR ''#''"

text \<open>The title behind the hashes, without hashes that close it.\<close>

definition atx_title :: "string \<Rightarrow> string" where
  "atx_title after =
     (let title = trim_space after;
          j = length (dropWhile (\<lambda>c. c = hash) (rev title))
      in if has_suffix title ''#'' \<and> 0 < j \<and> (title ! (j - 1) = CHR '' '' \<or> title ! (j - 1) = tab)
         then trim_space (take j title) else title)"

definition atx_heading :: "string \<Rightarrow> (nat \<times> string) option" where
  "atx_heading line =
     (let i = min 3 (length (takeWhile (\<lambda>c. c = CHR '' '') line));
          rest = drop i line;
          level = length (takeWhile (\<lambda>c. c = hash) rest);
          after = drop level rest
      in if level < 1 \<or> 6 < level then None
         else if after \<noteq> [] \<and> hd after \<noteq> CHR '' '' \<and> hd after \<noteq> tab then None
         else Some (level, atx_title after))"

definition fence_open :: "string \<Rightarrow> string option" where
  "fence_open t =
     (if has_prefix t (replicate 3 (CHR 0x60)) then Some (replicate 3 (CHR 0x60))
      else if has_prefix t ''~~~'' then Some ''~~~'' else None)"

definition fence_close :: "string \<Rightarrow> string \<Rightarrow> bool" where
  "fence_close t mark \<longleftrightarrow> mark \<noteq> [] \<and> has_prefix t mark"

record head =
  hd_line :: nat
  hd_level :: nat
  hd_title :: string

text \<open>The scan of the lines: the mark of the fence it is in, if any, and the headings.\<close>

fun scan_heads :: "nat \<Rightarrow> string option \<Rightarrow> string list \<Rightarrow> head list" where
  "scan_heads n fence [] = []"
| "scan_heads n None (line # ls) =
     (case fence_open (trim_space line) of
        Some mark \<Rightarrow> scan_heads (Suc n) (Some mark) ls
      | None \<Rightarrow>
          (case atx_heading line of
             Some (level, title) \<Rightarrow>
               \<lparr>hd_line = n, hd_level = level, hd_title = title\<rparr> # scan_heads (Suc n) None ls
           | None \<Rightarrow> scan_heads (Suc n) None ls))"
| "scan_heads n (Some mark) (line # ls) =
     (if fence_close (trim_space line) mark then scan_heads (Suc n) None ls
      else scan_heads (Suc n) (Some mark) ls)"

section \<open>Blocks\<close>

text \<open>A count per id, as the map \<open>used\<close> keeps it.\<close>

definition count_up :: "string \<Rightarrow> (string, nat) gomap \<Rightarrow> nat \<times> (string, nat) gomap" where
  "count_up k used =
     (let n = (case map_of used k of None \<Rightarrow> 0 | Some m \<Rightarrow> m) + 1 in (n, AList.update k n used))"

definition numbered :: "string \<Rightarrow> nat \<Rightarrow> string" where
  "numbered seg n = seg @ ''-'' @ digits_of n"

text \<open>The end of a heading's region: the line of the next heading that is not below it.\<close>

definition region_end :: "nat \<Rightarrow> head \<Rightarrow> head list \<Rightarrow> nat" where
  "region_end eof h later =
     (case find (\<lambda>g. hd_level g \<le> hd_level h) later of None \<Rightarrow> eof | Some g \<Rightarrow> hd_line g)"

type_synonym frame = "nat \<times> string"

text \<open>\<open>slices\<close> of the stack: its top is the last element in the code, the first one here.\<close>

fun head_blocks :: "unicode \<Rightarrow> nat \<Rightarrow> frame list \<Rightarrow> (string, nat) gomap \<Rightarrow> head list \<Rightarrow> block list" where
  "head_blocks u eof stack used [] = []"
| "head_blocks u eof stack used (h # hs) =
     (let stack = dropWhile (\<lambda>f. hd_level h \<le> fst f) stack;
          seg = (let s = slugify u (hd_title h) in if s = [] then ''section'' else s);
          under = (\<lambda>leaf. case stack of [] \<Rightarrow> leaf | f # _ \<Rightarrow> snd f @ ''/'' @ leaf);
          (n, used) = count_up (under seg) used;
          ident = (if 1 < n then under (numbered seg n) else under seg)
      in \<lparr>bl_id = ident, bl_kind = ''heading'', bl_text = hd_title h, bl_level = int (hd_level h),
          bl_start = int (hd_line h), bl_end = int (region_end eof h hs),
          bl_attrs = [(''heading_path'', ident)]\<rparr>
         # head_blocks u eof ((hd_level h, ident) # stack) used hs)"

definition preamble_block :: "nat \<Rightarrow> block" where
  "preamble_block pre_end =
     \<lparr>bl_id = ''preamble'', bl_kind = ''preamble'', bl_text = [], bl_level = 0, bl_start = 1,
      bl_end = int pre_end, bl_attrs = [(''heading_path'', ''preamble'')]\<rparr>"

definition blocks_from_markdown :: "unicode \<Rightarrow> string \<Rightarrow> nat list \<Rightarrow> block list" where
  "blocks_from_markdown u t starts =
     (let n = length starts
      in if n = 0 then []
         else
           let hs = scan_heads 1 None (map (line_at t starts) [0..<n]);
               pre_end = (case hs of [] \<Rightarrow> n + 1 | h # _ \<Rightarrow> hd_line h)
           in (if 1 < pre_end then [preamble_block pre_end] else []) @ head_blocks u (n + 1) [] [] hs)"

definition structure_for :: "unicode \<Rightarrow> string \<Rightarrow> string \<Rightarrow> nat list \<Rightarrow> block list" where
  "structure_for u media t starts =
     (if media = ''text/markdown'' then blocks_from_markdown u t starts else [])"

section \<open>Regions\<close>

text \<open>Lines of headings grow, and stay within the body.\<close>

lemma atx_level: "atx_heading line = Some (level, title) \<Longrightarrow> 1 \<le> level \<and> level \<le> 6"
  unfolding atx_heading_def Let_def
  by (simp only: option.inject prod.inject option.distinct split: if_split_asm) (elim conjE; simp)

lemma scan_heads_bounds:
  "h \<in> set (scan_heads n fence ls) \<Longrightarrow> n \<le> hd_line h \<and> hd_line h < n + length ls \<and> 1 \<le> hd_level h \<and> hd_level h \<le> 6"
proof (induction n fence ls rule: scan_heads.induct)
  case (2 n line ls)
  consider (fence) mark where "fence_open (trim_space line) = Some mark"
    | (none) "fence_open (trim_space line) = None" "atx_heading line = None"
    | (head) level title where "fence_open (trim_space line) = None" "atx_heading line = Some (level, title)"
    by (cases "fence_open (trim_space line)"; cases "atx_heading line") auto
  then show ?case
  proof cases
    case fence
    then have "h \<in> set (scan_heads (Suc n) (Some mark) ls)" using "2.prems" by simp
    with "2.IH" fence show ?thesis by fastforce
  next
    case none
    then have "h \<in> set (scan_heads (Suc n) None ls)" using "2.prems" by simp
    with "2.IH" none show ?thesis by fastforce
  next
    case head
    show ?thesis
    proof (cases "h = \<lparr>hd_line = n, hd_level = level, hd_title = title\<rparr>")
      case True
      then show ?thesis using atx_level [OF head(2)] by simp
    next
      case False
      then have "h \<in> set (scan_heads (Suc n) None ls)" using "2.prems" head by simp
      with "2.IH" head show ?thesis by fastforce
    qed
  qed
next
  case (3 n mark line ls)
  then show ?case by (fastforce split: if_splits)
qed simp

lemma scan_heads_sorted: "sorted_wrt (<) (map hd_line (scan_heads n fence ls))"
proof (induction n fence ls rule: scan_heads.induct)
  case (2 n line ls)
  have "n < hd_line h" if "h \<in> set (scan_heads (Suc n) None ls)" for h
    using scan_heads_bounds [OF that] by simp
  with 2 show ?case by (auto split: option.split)
qed auto

text \<open>The block of a heading: its place in the list of headings decides its region.\<close>

fun regions :: "nat \<Rightarrow> head list \<Rightarrow> (nat \<times> nat) list" where
  "regions eof [] = []"
| "regions eof (h # hs) = (hd_line h, region_end eof h hs) # regions eof hs"

lemma head_blocks_regions:
  "map (\<lambda>b. (bl_start b, bl_end b)) (head_blocks u eof stack used hs) =
   map (\<lambda>(a, b). (int a, int b)) (regions eof hs)"
  by (induction hs arbitrary: stack used) (simp_all add: Let_def split: prod.split)

lemma length_regions [simp]: "length (regions eof hs) = length hs"
  by (induction hs) auto

lemma regions_nth: "i < length hs \<Longrightarrow> regions eof hs ! i = (hd_line (hs ! i), region_end eof (hs ! i) (drop (Suc i) hs))"
  by (induction hs arbitrary: i) (auto simp: nth_Cons split: nat.split)

lemma region_end_le: "\<forall>g \<in> set hs. hd_line g < eof \<Longrightarrow> region_end eof h hs \<le> eof"
  by (auto simp: region_end_def find_Some_iff dest!: nth_mem split: option.split)

lemma region_end_gt: "\<forall>g \<in> set hs. n < hd_line g \<Longrightarrow> n < eof \<Longrightarrow> n < region_end eof h hs"
  by (auto simp: region_end_def find_Some_iff dest!: nth_mem split: option.split)

lemma find_append:
  "find P (xs @ ys) = (case find P xs of Some x \<Rightarrow> Some x | None \<Rightarrow> find P ys)"
  by (induction xs) auto

lemma find_SomeD: "find P xs = Some x \<Longrightarrow> x \<in> set xs \<and> P x"
  by (induction xs) (auto split: if_splits)

lemma region_end_Cons:
  "region_end eof h (x # xs) = (if hd_level x \<le> hd_level h then hd_line x else region_end eof h xs)"
  by (simp add: region_end_def)

lemma region_end_mono:
  assumes "hd_level h \<le> hd_level g" "sorted_wrt (<) (map hd_line hs)" "\<forall>x \<in> set hs. hd_line x < eof"
  shows "region_end eof g hs \<le> region_end eof h hs"
  using assms
proof (induction hs)
  case (Cons x xs)
  have gt: "hd_line x < region_end eof h xs" by (rule region_end_gt) (use Cons.prems in auto)
  have "region_end eof g xs \<le> region_end eof h xs" by (rule Cons.IH) (use Cons.prems in auto)
  then show ?case
  proof (cases "hd_level x \<le> hd_level h")
    case True
    then have "hd_level x \<le> hd_level g" using Cons.prems(1) by (rule order_trans)
    with True show ?thesis by (simp add: region_end_Cons)
  qed (use gt in \<open>auto simp: region_end_Cons\<close>)
qed (simp add: region_end_def)

text \<open>A later heading is inside the region of an earlier one, or behind it.\<close>

lemma region_nested:
  assumes "hs = xs @ g # gs" "sorted_wrt (<) (map hd_line hs)" "\<forall>x \<in> set hs. hd_line x < eof"
  shows "region_end eof h hs \<le> hd_line g \<or> region_end eof g gs \<le> region_end eof h hs"
proof (cases "find (\<lambda>x. hd_level x \<le> hd_level h) (xs @ [g])")
  case (Some x)
  then have "x \<in> set (xs @ [g])" using find_SomeD by fast
  then have "hd_line x \<le> hd_line g"
    using assms(1,2) by (auto simp: sorted_wrt_append)
  moreover have "region_end eof h hs = hd_line x"
    using Some assms(1) find_append [of _ "xs @ [g]" gs] by (simp add: region_end_def)
  ultimately show ?thesis by simp
next
  case None
  then have "hd_level h \<le> hd_level g" by (auto simp: find_None_iff)
  moreover have "region_end eof h hs = region_end eof h gs"
    using None assms(1) find_append [of _ "xs @ [g]" gs] by (simp add: region_end_def)
  ultimately show ?thesis
    using region_end_mono [of h g gs eof] assms by (simp add: sorted_wrt_append)
qed

definition laminar :: "nat \<times> nat \<Rightarrow> nat \<times> nat \<Rightarrow> bool" where
  "laminar a b \<longleftrightarrow> fst a < fst b \<and> (snd a \<le> fst b \<or> snd b \<le> snd a)"

definition heads_ok :: "nat \<Rightarrow> head list \<Rightarrow> bool" where
  "heads_ok eof hs \<longleftrightarrow> sorted_wrt (<) (map hd_line hs) \<and> (\<forall>h \<in> set hs. 1 \<le> hd_line h \<and> hd_line h < eof)"

lemma heads_ok_Cons:
  "heads_ok eof (h # hs) \<longleftrightarrow>
     (\<forall>g \<in> set hs. hd_line h < hd_line g) \<and> 1 \<le> hd_line h \<and> hd_line h < eof \<and> heads_ok eof hs"
  by (auto simp: heads_ok_def)

lemma regions_span: "heads_ok eof hs \<Longrightarrow> r \<in> set (regions eof hs) \<Longrightarrow> 1 \<le> fst r \<and> fst r < snd r \<and> snd r \<le> eof"
proof (induction hs)
  case (Cons h hs)
  then show ?case
    using region_end_gt [of hs "hd_line h" eof h] region_end_le [of hs eof h]
    by (auto simp: heads_ok_Cons heads_ok_def)
qed simp

lemma regions_in: "r \<in> set (regions eof hs) \<Longrightarrow> \<exists>xs g gs. hs = xs @ g # gs \<and> r = (hd_line g, region_end eof g gs)"
proof (induction hs)
  case (Cons h hs)
  then show ?case by (metis append_Cons append_Nil regions.simps(2) set_ConsD)
qed simp

lemma regions_laminar: "heads_ok eof hs \<Longrightarrow> sorted_wrt laminar (regions eof hs)"
proof (induction hs)
  case (Cons h hs)
  have "laminar (hd_line h, region_end eof h hs) r" if r: "r \<in> set (regions eof hs)" for r
  proof -
    obtain xs g gs where g: "hs = xs @ g # gs" "r = (hd_line g, region_end eof g gs)"
      using regions_in [OF r] by blast
    have "region_end eof h hs \<le> hd_line g \<or> region_end eof g gs \<le> region_end eof h hs"
      by (rule region_nested [OF g(1)]) (use Cons.prems in \<open>auto simp: heads_ok_Cons heads_ok_def\<close>)
    then show ?thesis using Cons.prems g by (auto simp: laminar_def heads_ok_Cons)
  qed
  then show ?case using Cons by (simp add: heads_ok_Cons)
qed simp

text \<open>The spans of all blocks, the preamble's first.\<close>

definition spans :: "nat \<Rightarrow> head list \<Rightarrow> (nat \<times> nat) list" where
  "spans n hs =
     (let pre_end = (case hs of [] \<Rightarrow> n + 1 | h # _ \<Rightarrow> hd_line h)
      in (if 1 < pre_end then [(1, pre_end)] else []) @ regions (n + 1) hs)"

lemma spans_laminar: "heads_ok (n + 1) hs \<Longrightarrow> sorted_wrt laminar (spans n hs)"
proof (cases hs)
  case (Cons h tl)
  assume ok: "heads_ok (n + 1) hs"
  have "hd_line h \<le> fst r" if r: "r \<in> set (regions (n + 1) hs)" for r
    using regions_in [OF r] ok Cons by (auto simp: heads_ok_Cons Cons_eq_append_conv less_imp_le)
  then have "\<forall>r \<in> set (regions (n + 1) hs). 1 < hd_line h \<longrightarrow> laminar (1, hd_line h) r"
    by (fastforce simp: laminar_def)
  moreover have "spans n hs = (if 1 < hd_line h then [(1, hd_line h)] else []) @ regions (n + 1) hs"
    using Cons by (simp add: spans_def Let_def)
  ultimately show ?thesis
    using regions_laminar [OF ok] by (simp add: sorted_wrt_append)
qed (simp add: spans_def)

lemma spans_span:
  assumes "heads_ok (n + 1) hs" "r \<in> set (spans n hs)"
  shows "1 \<le> fst r \<and> fst r < snd r \<and> snd r \<le> n + 1"
proof (cases "r \<in> set (regions (n + 1) hs)")
  case True
  then show ?thesis using regions_span [OF assms(1)] by blast
next
  case False
  then show ?thesis
    using assms by (cases hs) (auto simp: spans_def heads_ok_Cons Let_def split: if_splits)
qed

lemma block_spans:
  "t \<noteq> [] \<Longrightarrow> \<exists>hs. heads_ok (length (lines_of t) + 1) hs \<and>
     map (\<lambda>b. (bl_start b, bl_end b)) (blocks_from_markdown u t (line_starts t)) =
     map (\<lambda>(a, b). (int a, int b)) (spans (length (lines_of t)) hs)"
proof -
  assume t: "t \<noteq> []"
  let ?n = "length (lines_of t)"
  let ?ls = "map (line_at t (line_starts t)) [0..<?n]"
  let ?hs = "scan_heads 1 None ?ls"
  have "heads_ok (?n + 1) ?hs"
    unfolding heads_ok_def
  proof (intro conjI ballI scan_heads_sorted)
    fix h
    assume "h \<in> set ?hs"
    from scan_heads_bounds [OF this] show "1 \<le> hd_line h" "hd_line h < ?n + 1" by auto
  qed
  moreover have "map (\<lambda>b. (bl_start b, bl_end b)) (blocks_from_markdown u t (line_starts t)) =
     map (\<lambda>(a, b). (int a, int b)) (spans ?n ?hs)"
    using t by (simp add: blocks_from_markdown_def spans_def head_blocks_regions preamble_block_def Let_def)
  ultimately show ?thesis by blast
qed

lemma block_span_nth:
  assumes "t \<noteq> []"
  obtains hs where "heads_ok (length (lines_of t) + 1) hs"
    and "length (spans (length (lines_of t)) hs) = length (blocks_from_markdown u t (line_starts t))"
    and "\<And>k. k < length (blocks_from_markdown u t (line_starts t)) \<Longrightarrow>
      (bl_start (blocks_from_markdown u t (line_starts t) ! k), bl_end (blocks_from_markdown u t (line_starts t) ! k))
      = (int (fst (spans (length (lines_of t)) hs ! k)), int (snd (spans (length (lines_of t)) hs ! k)))"
proof -
  let ?B = "blocks_from_markdown u t (line_starts t)" and ?n = "length (lines_of t)"
  obtain hs where ok: "heads_ok (?n + 1) hs"
    and eq: "map (\<lambda>b. (bl_start b, bl_end b)) ?B = map (\<lambda>(a, b). (int a, int b)) (spans ?n hs)"
    using block_spans [OF assms] by blast
  let ?S = "spans ?n hs"
  have len: "length ?S = length ?B" using arg_cong [OF eq, of length] by simp
  have "(bl_start (?B ! k), bl_end (?B ! k)) = (int (fst (?S ! k)), int (snd (?S ! k)))" if "k < length ?B" for k
  proof -
    have "map (\<lambda>b. (bl_start b, bl_end b)) ?B ! k = map (\<lambda>(a, b). (int a, int b)) ?S ! k"
      by (simp only: eq)
    then show ?thesis using that len by (simp only: nth_map len case_prod_beta)
  qed
  with ok len show ?thesis by (rule that)
qed

lemma block_bounds:
  assumes "i < length (blocks_from_markdown u t (line_starts t))"
  defines "a \<equiv> blocks_from_markdown u t (line_starts t) ! i"
  shows "1 \<le> bl_start a \<and> bl_start a < bl_end a \<and> bl_end a \<le> int (length (lines_of t)) + 1"
proof -
  have t: "t \<noteq> []" using assms(1) by (auto simp: blocks_from_markdown_def)
  show ?thesis
  proof (rule block_span_nth [OF t, of u])
    fix hs
    assume hs: "heads_ok (length (lines_of t) + 1) hs"
      "length (spans (length (lines_of t)) hs) = length (blocks_from_markdown u t (line_starts t))"
      and at: "\<And>k. k < length (blocks_from_markdown u t (line_starts t)) \<Longrightarrow>
        (bl_start (blocks_from_markdown u t (line_starts t) ! k), bl_end (blocks_from_markdown u t (line_starts t) ! k))
        = (int (fst (spans (length (lines_of t)) hs ! k)), int (snd (spans (length (lines_of t)) hs ! k)))"
    have "spans (length (lines_of t)) hs ! i \<in> set (spans (length (lines_of t)) hs)" using assms(1) hs(2) by simp
    from spans_span [OF hs(1) this] at [OF assms(1)] show ?thesis by (simp add: a_def)
  qed
qed

lemma block_nested:
  assumes "i < j" "j < length (blocks_from_markdown u t (line_starts t))"
  defines "a \<equiv> blocks_from_markdown u t (line_starts t) ! i"
    and "b \<equiv> blocks_from_markdown u t (line_starts t) ! j"
  shows "bl_start a < bl_start b \<and> (bl_end a \<le> bl_start b \<or> bl_end b \<le> bl_end a)"
proof -
  have t: "t \<noteq> []" using assms(2) by (auto simp: blocks_from_markdown_def)
  have i: "i < length (blocks_from_markdown u t (line_starts t))" using assms(1,2) by simp
  show ?thesis
  proof (rule block_span_nth [OF t, of u])
    fix hs
    assume hs: "heads_ok (length (lines_of t) + 1) hs"
      "length (spans (length (lines_of t)) hs) = length (blocks_from_markdown u t (line_starts t))"
      and at: "\<And>k. k < length (blocks_from_markdown u t (line_starts t)) \<Longrightarrow>
        (bl_start (blocks_from_markdown u t (line_starts t) ! k), bl_end (blocks_from_markdown u t (line_starts t) ! k))
        = (int (fst (spans (length (lines_of t)) hs ! k)), int (snd (spans (length (lines_of t)) hs ! k)))"
    have "laminar (spans (length (lines_of t)) hs ! i) (spans (length (lines_of t)) hs ! j)"
      using spans_laminar [OF hs(1)] assms(1,2) hs(2) by (simp add: sorted_wrt_iff_nth_less)
    then show ?thesis using at [OF i] at [OF assms(2)] by (simp add: laminar_def a_def b_def)
  qed
qed

text \<open>The end of a heading's region is the first heading that is not below it.\<close>

lemma region_end_first:
  assumes "sorted_wrt (<) (map hd_line hs)" "\<forall>g \<in> set hs. hd_line g < eof" "i < length hs"
  defines "e \<equiv> region_end eof (hs ! i) (drop (Suc i) hs)"
  shows "(\<forall>j. i < j \<and> j < length hs \<and> hd_line (hs ! j) < e \<longrightarrow> hd_level (hs ! i) < hd_level (hs ! j))
    \<and> (e = eof \<or> (\<exists>j. i < j \<and> j < length hs \<and> hd_line (hs ! j) = e \<and> hd_level (hs ! j) \<le> hd_level (hs ! i)))"
proof (cases "find (\<lambda>g. hd_level g \<le> hd_level (hs ! i)) (drop (Suc i) hs)")
  case None
  have "hd_level (hs ! i) < hd_level (hs ! j)" if "i < j" "j < length hs" for j
  proof -
    have "drop (Suc i) hs ! (j - Suc i) = hs ! j" "j - Suc i < length (drop (Suc i) hs)" using that by simp_all
    then have "hs ! j \<in> set (drop (Suc i) hs)" by (metis nth_mem)
    then have "\<not> hd_level (hs ! j) \<le> hd_level (hs ! i)" using None unfolding find_None_iff by blast
    then show ?thesis by simp
  qed
  then show ?thesis using None by (simp add: e_def region_end_def)
next
  case (Some g)
  then obtain k where k: "k < length (drop (Suc i) hs)" "hd_level (drop (Suc i) hs ! k) \<le> hd_level (hs ! i)"
      "g = drop (Suc i) hs ! k" "\<forall>m<k. \<not> hd_level (drop (Suc i) hs ! m) \<le> hd_level (hs ! i)"
    unfolding find_Some_iff by blast
  define j0 where "j0 = Suc i + k"
  have j0: "i < j0" "j0 < length hs" "g = hs ! j0" "hd_level (hs ! j0) \<le> hd_level (hs ! i)"
    using k(1-3) by (simp_all add: j0_def)
  have e: "e = hd_line (hs ! j0)" using Some j0(3) by (simp add: e_def region_end_def)
  have "hd_level (hs ! i) < hd_level (hs ! j)" if j: "i < j" "j < length hs" "hd_line (hs ! j) < e" for j
  proof -
    have "j < j0"
    proof (rule ccontr)
      assume "\<not> j < j0"
      then have "j = j0 \<or> j0 < j" by auto
      then have "hd_line (hs ! j0) \<le> hd_line (hs ! j)"
      proof
        assume "j0 < j"
        then have "hd_line (hs ! j0) < hd_line (hs ! j)"
          using assms(1) j(2) by (simp add: sorted_wrt_map sorted_wrt_iff_nth_less)
        then show ?thesis by simp
      qed simp
      then show False using j(3) e by simp
    qed
    then have "j - Suc i < k" "drop (Suc i) hs ! (j - Suc i) = hs ! j" using j(1,2) by (simp_all add: j0_def)
    then have "\<not> hd_level (hs ! j) \<le> hd_level (hs ! i)" using k(4) by metis
    then show ?thesis by simp
  qed
  then show ?thesis using e j0 by blast
qed

definition head_of :: "nat \<Rightarrow> head list \<Rightarrow> nat \<Rightarrow> int \<times> int \<times> int \<times> string \<times> string" where
  "head_of eof hs i = (int (hd_line (hs ! i)), int (region_end eof (hs ! i) (drop (Suc i) hs)), int (hd_level (hs ! i)), hd_title (hs ! i), ''heading'')"

definition block_face :: "block \<Rightarrow> int \<times> int \<times> int \<times> string \<times> string" where
  "block_face b = (bl_start b, bl_end b, bl_level b, bl_text b, bl_kind b)"

lemma length_head_blocks [simp]: "length (head_blocks u eof stack used hs) = length hs"
  by (induction hs arbitrary: stack used) (simp_all add: Let_def split: prod.split)

lemma head_blocks_nth: "i < length hs \<Longrightarrow> block_face (head_blocks u eof stack used hs ! i) = head_of eof hs i"
proof (induction hs arbitrary: stack used i)
  case (Cons h hs)
  then show ?case
    by (cases i) (simp_all add: Let_def block_face_def head_of_def split: prod.split)
qed simp

text \<open>The blocks: the preamble, when the body does not begin with a heading, and the headings.\<close>

definition preamble_of :: "nat \<Rightarrow> head list \<Rightarrow> block list" where
  "preamble_of n hs =
     (let pre_end = (case hs of [] \<Rightarrow> n + 1 | h # _ \<Rightarrow> hd_line h) in if 1 < pre_end then [preamble_block pre_end] else [])"

lemma body_heads:
  assumes "t \<noteq> []"
  shows "blocks_from_markdown u t (line_starts t) = preamble_of (length (lines_of t)) (scan_heads 1 None (lines_of t))
      @ head_blocks u (length (lines_of t) + 1) [] [] (scan_heads 1 None (lines_of t))"
    and "heads_ok (length (lines_of t) + 1) (scan_heads 1 None (lines_of t))"
proof -
  have lines: "map (line_at t (line_starts t)) [0..<length (lines_of t)] = lines_of t"
    by (rule nth_equalityI) (simp_all add: line_at_nth)
  show "blocks_from_markdown u t (line_starts t) = preamble_of (length (lines_of t)) (scan_heads 1 None (lines_of t))
      @ head_blocks u (length (lines_of t) + 1) [] [] (scan_heads 1 None (lines_of t))"
    using assms lines by (simp add: blocks_from_markdown_def preamble_of_def Let_def)
  show "heads_ok (length (lines_of t) + 1) (scan_heads 1 None (lines_of t))"
    unfolding heads_ok_def
  proof (intro conjI ballI scan_heads_sorted)
    fix h assume "h \<in> set (scan_heads 1 None (lines_of t))"
    from scan_heads_bounds [OF this] show "1 \<le> hd_line h" "hd_line h < length (lines_of t) + 1" by simp_all
  qed
qed

lemma preamble_kinds: "b \<in> set (preamble_of n hs) \<Longrightarrow> bl_kind b = ''preamble''"
  by (auto simp: preamble_of_def preamble_block_def Let_def split: if_splits)

lemma head_block_at:
  assumes "t \<noteq> []"
  defines "hs \<equiv> scan_heads 1 None (lines_of t)" and "m \<equiv> length (preamble_of (length (lines_of t)) (scan_heads 1 None (lines_of t)))"
  assumes "m \<le> i" "i < length (blocks_from_markdown u t (line_starts t))"
  shows "i - m < length hs \<and> block_face (blocks_from_markdown u t (line_starts t) ! i) = head_of (length (lines_of t) + 1) hs (i - m)"
  using assms(4,5) unfolding body_heads(1) [OF assms(1)] hs_def m_def
  by (simp add: nth_append head_blocks_nth not_less less_diff_conv2)

lemma heading_region:
  assumes "i < length (blocks_from_markdown u t (line_starts t))" "bl_kind (blocks_from_markdown u t (line_starts t) ! i) = ''heading''"
  defines "bs \<equiv> blocks_from_markdown u t (line_starts t)"
  shows "(\<forall>j. i < j \<and> j < length bs \<and> bl_start (bs ! j) < bl_end (bs ! i) \<longrightarrow> bl_level (bs ! i) < bl_level (bs ! j))
    \<and> (bl_end (bs ! i) = int (length (lines_of t)) + 1
       \<or> (\<exists>j. i < j \<and> j < length bs \<and> bl_start (bs ! j) = bl_end (bs ! i) \<and> bl_level (bs ! j) \<le> bl_level (bs ! i)))"
proof -
  have t: "t \<noteq> []" using assms(1) by (auto simp: blocks_from_markdown_def)
  let ?hs = "scan_heads 1 None (lines_of t)"
  define m where "m = length (preamble_of (length (lines_of t)) ?hs)"
  have "m \<le> i"
  proof (rule ccontr)
    assume "\<not> m \<le> i"
    then have "bs ! i \<in> set (preamble_of (length (lines_of t)) ?hs)"
      by (simp add: bs_def body_heads(1) [OF t] m_def nth_append)
    then show False using preamble_kinds assms(2) by (fastforce simp: bs_def)
  qed
  note at = head_block_at [OF t, folded m_def bs_def]
  have i: "i - m < length ?hs" "block_face (bs ! i) = head_of (length (lines_of t) + 1) ?hs (i - m)"
    using at [of i] \<open>m \<le> i\<close> assms(1) by (simp_all add: bs_def)
  have len: "length bs = m + length ?hs" by (simp add: bs_def body_heads(1) [OF t] m_def)
  have ok: "sorted_wrt (<) (map hd_line ?hs)" "\<forall>g \<in> set ?hs. hd_line g < length (lines_of t) + 1"
    using body_heads(2) [OF t] by (simp_all add: heads_ok_def)
  note first = region_end_first [OF ok i(1)]
  have face: "block_face (bs ! (m + k)) = head_of (length (lines_of t) + 1) ?hs k" if "k < length ?hs" for k
    using at [of "m + k"] that len by (simp add: bs_def)
  have "bl_level (bs ! i) < bl_level (bs ! j)" if j: "i < j" "j < length bs" "bl_start (bs ! j) < bl_end (bs ! i)" for j
  proof -
    have k: "j = m + (j - m)" "i - m < j - m" "j - m < length ?hs" using j(1,2) \<open>m \<le> i\<close> len by auto
    have "block_face (bs ! j) = head_of (length (lines_of t) + 1) ?hs (j - m)" using face [OF k(3)] k(1) by simp
    then show ?thesis using first k(2,3) i(2) j(3) by (simp add: block_face_def head_of_def)
  qed
  moreover have "bl_end (bs ! i) = int (length (lines_of t)) + 1
       \<or> (\<exists>j. i < j \<and> j < length bs \<and> bl_start (bs ! j) = bl_end (bs ! i) \<and> bl_level (bs ! j) \<le> bl_level (bs ! i))"
  proof (cases "region_end (length (lines_of t) + 1) (?hs ! (i - m)) (drop (Suc (i - m)) ?hs) = length (lines_of t) + 1")
    case True
    then show ?thesis using i(2) by (simp add: block_face_def head_of_def)
  next
    case False
    then obtain k where k: "i - m < k" "k < length ?hs"
        "hd_line (?hs ! k) = region_end (length (lines_of t) + 1) (?hs ! (i - m)) (drop (Suc (i - m)) ?hs)"
        "hd_level (?hs ! k) \<le> hd_level (?hs ! (i - m))"
      using first by blast
    have "i < m + k" "m + k < length bs" using k(1,2) \<open>m \<le> i\<close> len by auto
    moreover have "bl_start (bs ! (m + k)) = bl_end (bs ! i)" "bl_level (bs ! (m + k)) \<le> bl_level (bs ! i)"
      using face [OF k(2)] i(2) k(3,4) by (simp_all add: block_face_def head_of_def)
    ultimately show ?thesis by blast
  qed
  ultimately show ?thesis by blast
qed

lemma preamble_region:
  assumes "i < length (blocks_from_markdown u t (line_starts t))" "bl_kind (blocks_from_markdown u t (line_starts t) ! i) \<noteq> ''heading''"
  defines "bs \<equiv> blocks_from_markdown u t (line_starts t)"
  shows "i = 0 \<and> bl_start (bs ! i) = 1
    \<and> (length bs = 1 \<and> bl_end (bs ! i) = int (length (lines_of t)) + 1 \<or> 1 < length bs \<and> bl_start (bs ! 1) = bl_end (bs ! i))"
proof -
  have t: "t \<noteq> []" using assms(1) by (auto simp: blocks_from_markdown_def)
  let ?hs = "scan_heads 1 None (lines_of t)" and ?n = "length (lines_of t)"
  have "i < length (preamble_of ?n ?hs)"
  proof (rule ccontr)
    assume "\<not> i < length (preamble_of ?n ?hs)"
    then have "block_face (bs ! i) = head_of (?n + 1) ?hs (i - length (preamble_of ?n ?hs))"
      using head_block_at [OF t, of i u] assms(1) by (simp add: bs_def)
    then show False using assms(2) by (simp add: block_face_def head_of_def bs_def)
  qed
  then have i: "i = 0" "preamble_of ?n ?hs = [preamble_block (case ?hs of [] \<Rightarrow> ?n + 1 | h # _ \<Rightarrow> hd_line h)]"
    by (auto simp: preamble_of_def Let_def split: if_splits)
  show ?thesis
  proof (cases ?hs)
    case Nil
    then have "bs = [preamble_block (?n + 1)]" using i(2) by (simp only: bs_def body_heads(1) [OF t]) simp
    then show ?thesis using i(1) by (simp add: preamble_block_def)
  next
    case (Cons h tl)
    have bs: "bs = preamble_block (hd_line h) # head_blocks u (?n + 1) [] [] ?hs"
      by (simp only: bs_def body_heads(1) [OF t] i(2)) (simp only: Cons list.case append_Cons append_Nil)
    have "block_face (head_blocks u (?n + 1) [] [] ?hs ! 0) = head_of (?n + 1) ?hs 0"
      by (rule head_blocks_nth) (simp only: Cons list.size)
    then have "bl_start (bs ! 1) = int (hd_line h)" using Cons
      by (simp only: bs) (simp add: block_face_def head_of_def del: head_blocks.simps)
    moreover have "1 < length bs" by (simp only: bs list.size length_head_blocks Cons)
    moreover have "bl_end (bs ! i) = int (hd_line h)" "bl_start (bs ! i) = 1"
      by (simp_all only: bs i(1)) (simp_all add: preamble_block_def)
    ultimately show ?thesis using i(1) by simp
  qed
qed

lemma heading_list:
  "map (\<lambda>b. (bl_start b, bl_level b, bl_text b)) (filter (\<lambda>b. bl_kind b = ''heading'') (head_blocks u eof stack used hs))
    = map (\<lambda>h. (int (hd_line h), int (hd_level h), hd_title h)) hs"
proof -
  let ?H = "head_blocks u eof stack used hs"
  have "bl_kind b = ''heading''" if b: "b \<in> set ?H" for b
  proof -
    obtain k where "k < length hs" "?H ! k = b" using b unfolding in_set_conv_nth length_head_blocks by blast
    then show ?thesis using head_blocks_nth [of k hs u eof stack used] by (simp add: block_face_def head_of_def)
  qed
  then have "filter (\<lambda>b. bl_kind b = ''heading'') ?H = ?H" by simp
  moreover have "map (\<lambda>b. (bl_start b, bl_level b, bl_text b)) ?H = map (\<lambda>h. (int (hd_line h), int (hd_level h), hd_title h)) hs"
    by (rule nth_equalityI) (use head_blocks_nth [of _ hs u eof stack used] in \<open>simp_all add: block_face_def head_of_def\<close>)
  ultimately show ?thesis by simp
qed


section \<open>Ids\<close>

text \<open>Slugs of ASCII titles, without the tables.\<close>

fun ascii_slug :: "string \<Rightarrow> string \<Rightarrow> bool \<Rightarrow> string" where
  "ascii_slug [] b prev_dash = b"
| "ascii_slug (c # s) b prev_dash =
     (if ascii_word (of_char c) then ascii_slug s (b @ [c]) False
      else if \<not> prev_dash \<and> b \<noteq> [] then ascii_slug s (b @ ''-'') True
      else ascii_slug s b prev_dash)"

lemma slug_loop_ascii:
  "tables_ok u \<Longrightarrow> ascii s \<Longrightarrow> slug_loop u (map of_char s) b d = ascii_slug s b d"
  by (induction s arbitrary: b d) (auto simp: tables_ok_def ascii_def)

lemma lower_char_ascii: "(of_char c :: nat) < 128 \<Longrightarrow> (of_char (lower_char c) :: nat) < 128"
  by (auto simp: lower_char_def Let_def)

lemma slugify_ascii:
  assumes "tables_ok u" "ascii (trim_space t)"
  shows "slugify u t = trim_any (ascii_slug (map lower_char (trim_space t)) [] False) ''-''"
proof -
  have "ascii (map lower_char (trim_space t))"
    using assms(2) lower_char_ascii by (auto simp: ascii_def)
  then show ?thesis
    using assms by (simp add: slugify_def lower_ascii_text runes_ascii slug_loop_ascii del: map_map)
qed

definition demo_heads :: string where
  "demo_heads = ''# a'' @ [nl] @ ''# a'' @ [nl] @ ''# a 2''"

definition demo_tables :: unicode where
  "demo_tables = \<lparr>uc_lower = ascii_lower, uc_word = ascii_word\<rparr>"

lemma demo_tables_ok: "tables_ok demo_tables"
  by (simp add: tables_ok_def demo_tables_def)

lemma digits_2: "digits_of 2 = ''2''"
proof -
  have "(of_char (CHR ''2'') :: nat) = 50" by (simp add: of_char_Char)
  then have "char_of (50 :: nat) = CHR ''2''" by (metis char_of_char)
  then show ?thesis by (subst digits_of.simps) simp
qed

lemma demo_heads_lines: "lines_of demo_heads = [''# a'', ''# a'', ''# a 2'']"
  by (simp add: demo_heads_def lines_of_def nl_def)

lemma demo_scan:
  "scan_heads 1 None [''# a'', ''# a'', ''# a 2''] =
     [\<lparr>hd_line = 1, hd_level = 1, hd_title = ''a''\<rparr>, \<lparr>hd_line = 2, hd_level = 1, hd_title = ''a''\<rparr>,
      \<lparr>hd_line = 3, hd_level = 1, hd_title = ''a 2''\<rparr>]"
proof -
  have p: "trim_space ''a'' = ''a''" "trim_space ''a 2'' = ''a 2''"
    "trim_space ''# a'' = ''# a''" "trim_space ''# a 2'' = ''# a 2''"
    by (rule trim_space_plain; simp add: plain_eval)+
  then have t: "trim_space '' a'' = ''a''" "trim_space '' a 2'' = ''a 2''"
    by (simp_all add: trim_space_blank)
  then have "atx_title '' a'' = ''a''" "atx_title '' a 2'' = ''a 2''"
    by (simp_all add: atx_title_def has_suffix_def hash_def Let_def)
  with p show ?thesis
    by (simp add: atx_heading_def fence_open_def has_prefix_def hash_def tab_def Let_def eval_nat_numeral)
qed

lemma demo_slugs: "tables_ok u \<Longrightarrow> slugify u ''a'' = ''a''" "tables_ok u \<Longrightarrow> slugify u ''a 2'' = ''a-2''"
proof -
  assume u: "tables_ok u"
  have t: "trim_space ''a'' = ''a''" "trim_space ''a 2'' = ''a 2''"
    by (rule trim_space_plain; simp add: plain_eval)+
  have "ascii ''a''" "ascii ''a 2''" by (simp_all add: ascii_def of_char_Char)
  with u t show "slugify u ''a'' = ''a''" "slugify u ''a 2'' = ''a-2''"
    by (simp_all add: slugify_ascii lower_char_def ascii_word_def of_char_Char trim_any_def Let_def)
qed

lemma demo_blocks:
  assumes "tables_ok u"
  shows "map bl_id (blocks_from_markdown u demo_heads (line_starts demo_heads)) = [''a'', ''a-2'', ''a-2'']"
    and "map_option bl_start (find_block (blocks_from_markdown u demo_heads (line_starts demo_heads)) ''a-2'') = Some 2"
proof -
  have ls: "map (line_at demo_heads (line_starts demo_heads)) [0..<3] = [''# a'', ''# a'', ''# a 2'']"
    using line_at_nth [of 0 demo_heads] line_at_nth [of 1 demo_heads] line_at_nth [of 2 demo_heads]
    by (simp add: demo_heads_lines upt_rec numeral_2_eq_2)
  have len: "length (line_starts demo_heads) = 3" by (simp add: demo_heads_lines)
  have b: "blocks_from_markdown u demo_heads (line_starts demo_heads) = head_blocks u 4 [] []
     [\<lparr>hd_line = 1, hd_level = 1, hd_title = ''a''\<rparr>, \<lparr>hd_line = 2, hd_level = 1, hd_title = ''a''\<rparr>,
      \<lparr>hd_line = 3, hd_level = 1, hd_title = ''a 2''\<rparr>]"
    unfolding blocks_from_markdown_def len Let_def ls demo_scan by simp
  have "trim_space ''a-2'' = ''a-2''" by (rule trim_space_plain) (simp_all add: plain_eval)
  then show "map bl_id (blocks_from_markdown u demo_heads (line_starts demo_heads)) = [''a'', ''a-2'', ''a-2'']"
    "map_option bl_start (find_block (blocks_from_markdown u demo_heads (line_starts demo_heads)) ''a-2'') = Some 2"
    unfolding b
    by (simp_all add: demo_slugs [OF assms] count_up_def numbered_def digits_2 [unfolded numeral_2_eq_2] find_block_def block_attr_def Let_def)
qed

text \<open>
  Ids of Markdown headings are not unique: a heading whose title ends in a number can have
  the id that an earlier repeated heading was given to tell it from the first, and a block
  asked for by that id is the earlier one.
\<close>

lemma heading_ids_collide:
  assumes "tables_ok u"
  shows "map bl_id (blocks_from_markdown u demo_heads (line_starts demo_heads)) = [''a'', ''a-2'', ''a-2''] \<and>
     map_option bl_start (find_block (blocks_from_markdown u demo_heads (line_starts demo_heads)) ''a-2'') = Some 2"
  using demo_blocks [OF assms] by blast


end
