(* ===== verification/Grid_Read.thy ===== *)
theory Grid_Read
  imports Grid Markdown
begin

text \<open>
  Reading a grid by sheet and address (vfs/tabular.go), its outline, and the one write the
  agent has, a cell named Sheet!A1 (vfs/mutate.go). Staging the written document is left to
  the mount session, which is not modelled.
\<close>

section \<open>Outline\<close>

definition sheet_block_id :: "unicode \<Rightarrow> string \<Rightarrow> (string, nat) gomap \<Rightarrow> string \<times> (string, nat) gomap" where
  "sheet_block_id u title used =
     (let seg = (let s = slugify u title in if s = [] then ''sheet'' else s);
          (n, used') = count_up seg used
      in (if 1 < n then numbered seg n else seg, used'))"

definition header_preview :: nat where
  "header_preview = 80"

definition ellipsis :: string where
  "ellipsis = [CHR 0xE2, CHR 0x80, CHR 0xA6]"

fun preview_loop :: "cell list \<Rightarrow> bool \<Rightarrow> nat \<Rightarrow> string" where
  "preview_loop [] first n = []"
| "preview_loop (c # cs) first n =
     (if \<not> first \<and> header_preview \<le> n then ellipsis
      else
        let gap = (if first then [] else [tab]); n' = n + length gap; d = display c
        in if header_preview < n' + length d then gap @ take (header_preview - n') d @ ellipsis
           else gap @ d @ preview_loop cs False (n' + length d))"

definition sheet_preview :: "sheet \<Rightarrow> string" where
  "sheet_preview sh =
     ''rows='' @ digits_of (sh_rows sh) @ '' cols='' @ digits_of (sh_cols sh)
     @ (if sh_rows sh = 0 \<or> sh_cols sh = 0 then []
        else '' | '' @ preview_loop (take (sh_cols sh) (sh_cells sh ! 0)) True 0)"

fun sheet_blocks :: "unicode \<Rightarrow> nat \<Rightarrow> (string, nat) gomap \<Rightarrow> sheet list \<Rightarrow> block list" where
  "sheet_blocks u i used [] = []"
| "sheet_blocks u i used (sh # shs) =
     (case sheet_block_id u (sh_title sh) used of
        (ident, used') \<Rightarrow>
          \<lparr>bl_id = ident, bl_kind = ''sheet'', bl_text = sheet_preview sh, bl_level = int i, bl_start = 0,
           bl_end = 0,
           bl_attrs = [(''sheet_id'', sh_id sh), (''title'', sh_title sh), (''rows'', digits_of (sh_rows sh)),
                       (''cols'', digits_of (sh_cols sh))]\<rparr>
          # sheet_blocks u (Suc i) used' shs)"

definition grid_blocks :: "unicode \<Rightarrow> grid_body \<Rightarrow> block list" where
  "grid_blocks u d = sheet_blocks u 0 [] (gb_sheets d)"

section \<open>Finding a sheet\<close>

fun find_slug :: "unicode \<Rightarrow> string \<Rightarrow> nat \<Rightarrow> (string, nat) gomap \<Rightarrow> sheet list \<Rightarrow> nat option" where
  "find_slug u key i used [] = None"
| "find_slug u key i used (sh # shs) =
     (case sheet_block_id u (sh_title sh) used of
        (ident, used') \<Rightarrow> if ident = key then Some i else find_slug u key (Suc i) used' shs)"

definition find_sheet :: "unicode \<Rightarrow> grid_body \<Rightarrow> string \<Rightarrow> nat option" where
  "find_sheet u d key0 =
     (let key = trim_space key0
      in if key = [] then (if length (gb_sheets d) = 1 then Some 0 else None)
         else case index_of (\<lambda>sh. sh_id sh = key \<or> sh_title sh = key) (gb_sheets d) of
           Some i \<Rightarrow> Some i
         | None \<Rightarrow> find_slug u key 0 [] (gb_sheets d))"

section \<open>Reading\<close>

definition read_rows :: "unicode \<Rightarrow> grid_body \<Rightarrow> string \<Rightarrow> int \<Rightarrow> int \<Rightarrow> grid_error + sheet \<times> string list" where
  "read_rows u d key start fin0 =
     (case find_sheet u d key of
        None \<Rightarrow> Inl UnknownSheet
      | Some i \<Rightarrow>
          let sh = gb_sheets d ! i; n = int (sh_rows sh)
          in if start < 1 \<or> fin0 < start then Inl LineRange
             else if n + 1 < start then Inl LineRange
             else let fin = (if n + 1 < fin0 then n + 1 else fin0)
                  in Inr (sh, map (\<lambda>r. encode_tool_row (sh_cells sh ! r)) [nat start - 1..<nat fin - 1]))"

definition grid_cell_of :: "unicode \<Rightarrow> grid_body \<Rightarrow> string \<Rightarrow> string \<Rightarrow> grid_error + cell" where
  "grid_cell_of u d key a1 =
     (case find_sheet u d key of
        None \<Rightarrow> Inl UnknownSheet
      | Some i \<Rightarrow>
          (case parse_a1 a1 of
             Inl e \<Rightarrow> Inl e
           | Inr (r1, c1, r2, c2) \<Rightarrow>
               if r1 \<noteq> r2 \<or> c1 \<noteq> c2 then Inl NotSingleCell else Inr (cell_at (gb_sheets d ! i) r1 c1)))"

definition read_cell :: "unicode \<Rightarrow> grid_body \<Rightarrow> string \<Rightarrow> string \<Rightarrow> grid_error + string" where
  "read_cell u d key a1 =
     (case grid_cell_of u d key a1 of Inl e \<Rightarrow> Inl e | Inr c \<Rightarrow> Inr (display c))"

text \<open>The size ReadRangeTSV grows its builder by, in 64-bit arithmetic: a negative one panics.\<close>

definition range_size :: "int \<Rightarrow> int \<Rightarrow> int \<Rightarrow> int \<Rightarrow> int" where
  "range_size r1 c1 r2 c2 = sint (word_of_int ((r2 - r1 + 1) * (c2 - c1 + 1) * 8) :: 64 word)"

definition range_cells :: "sheet \<Rightarrow> int \<Rightarrow> int \<Rightarrow> int \<Rightarrow> int \<Rightarrow> string list list" where
  "range_cells sh r1 c1 r2 c2 = map (\<lambda>r. map (\<lambda>c. display (cell_at sh r c)) [c1..c2]) [r1..r2]"

definition read_range_tsv :: "unicode \<Rightarrow> grid_body \<Rightarrow> string \<Rightarrow> string \<Rightarrow> (grid_error + string) option" where
  "read_range_tsv u d key a1 =
     (case find_sheet u d key of
        None \<Rightarrow> Some (Inl UnknownSheet)
      | Some i \<Rightarrow>
          (case parse_a1 a1 of
             Inl e \<Rightarrow> Some (Inl e)
           | Inr (r1, c1, r2, c2) \<Rightarrow>
               if range_size r1 c1 r2 c2 < 0 then None
               else Some (Inr (join_text [nl]
                 (map encode_tool_texts (range_cells (gb_sheets d ! i) r1 c1 r2 c2))))))"

section \<open>Writing a cell by its address\<close>

definition apply_tabular_block :: "unicode \<Rightarrow> grid_body \<Rightarrow> string \<Rightarrow> string \<Rightarrow> string list \<Rightarrow> string option \<Rightarrow>
  format_patch option \<Rightarrow> (grid_body \<times> grid_error option) option" where
  "apply_tabular_block u d block_id tab_id ls body patch0 =
     (case split_sheet_addr block_id of
        (key, a1) \<Rightarrow>
          (case find_sheet u d key of
             None \<Rightarrow> Some (d, Some UnknownSheet)
           | Some idx \<Rightarrow>
               let sid = sh_id (gb_sheets d ! idx);
                   has_value = (body \<noteq> None \<or> ls \<noteq> []);
                   patch = (if patch_empty patch0 then None else patch0)
               in if tab_id \<noteq> [] \<and> sid \<noteq> [] \<and> sid \<noteq> tab_id then Some (d, Some TabMismatch)
                  else if \<not> has_value \<and> patch = None then Some (d, Some NothingToWrite)
                  else if a1 = [] then Some (d, Some SheetNotSupported)
                  else case parse_a1 a1 of
                    Inl e \<Rightarrow> Some (d, Some e)
                  | Inr (r1, c1, r2, c2) \<Rightarrow>
                      if r1 \<noteq> r2 \<or> c1 \<noteq> c2 then Some (d, Some SheetNotSupported)
                      else overlay_cell d idx (nat r1) (nat c1)
                             (if has_value then Some (join_text [nl] (replacement_lines ls body)) else None) patch))"

section \<open>Sheets from blocks and strings\<close>

definition empty_sheet :: "string \<Rightarrow> sheet" where
  "empty_sheet title =
     \<lparr>sh_id = [], sh_title = title, sh_index = 0, sh_rows = 0, sh_cols = 0, sh_cells = [], sh_merges = []\<rparr>"

definition sheet_of_block :: "string \<Rightarrow> block \<Rightarrow> sheet" where
  "sheet_of_block fallback b =
     (let title = block_attr b ''title''; title = (if title = [] then bl_id b else title);
          title = (if title = [] then fallback else title)
      in trim_sheet ((empty_sheet title)\<lparr>sh_id := block_attr b ''sheet_id'',
           sh_cells := cells_from_strings (parse_tool_tsv (bl_text b))\<rparr>))"

definition sheets_from_blocks :: "block list \<Rightarrow> string \<Rightarrow> sheet list" where
  "sheets_from_blocks bs fallback =
     (let out = map (sheet_of_block fallback) (filter (\<lambda>b. bl_kind b = [] \<or> bl_kind b = ''sheet'') bs)
      in if out = [] then [empty_sheet fallback] else out)"

section \<open>What is read\<close>

lemma length_upto: "length [a..b] = nat (b - a + 1)"
  by simp

lemma range_cells_shape: "row \<in> set (range_cells sh r1 c1 r2 c2) \<Longrightarrow> length row = nat (c2 - c1 + 1)"
  by (auto simp: range_cells_def)

text \<open>
  What the agent reads of a range is the displayed cells of the range, row by row, and
  reading that text as rows gives them back, unless the last row is one empty cell.
\<close>

lemma read_range_back:
  assumes "find_sheet u d key = Some i" "parse_a1 a1 = Inr (r1, c1, r2, c2)" "r1 \<le> r2" "c1 \<le> c2"
    and "0 \<le> range_size r1 c1 r2 c2" "last (range_cells (gb_sheets d ! i) r1 c1 r2 c2) \<noteq> [[]]"
  shows "\<exists>t. read_range_tsv u d key a1 = Some (Inr t) \<and>
     parse_tool_tsv t = map (\<lambda>r. map (\<lambda>c. display (cell_at (gb_sheets d ! i) r c)) [c1..c2]) [r1..r2]"
proof -
  let ?rows = "range_cells (gb_sheets d ! i) r1 c1 r2 c2"
  have "parse_tool_tsv (join_text [nl] (map encode_tool_texts ?rows)) = ?rows"
    by (rule tool_tsv_roundtrip [where n = "nat (c2 - c1 + 1)"])
      (use assms(3,4,6) range_cells_shape in \<open>auto simp: range_cells_def\<close>)
  then show ?thesis using assms(1,2,5) by (simp add: read_range_tsv_def range_cells_def)
qed

lemma demo_find: "find_sheet u demo_grid [] = Some 0"
  by (simp add: find_sheet_def demo_grid_ok)

lemma demo_a1_range:
  "\<exists>a. parse_a1 a = Inr (1, 1, 2, 2)"
  using a1_roundtrip_texts [of 1 1 2 2] format_a1_None [of 1 1] format_a1_None [of 2 2]
  by (fastforce simp: in_range_def max_cols_def)

text \<open>
  An address of the largest row there is, A1:A9223372036854775807, makes ReadRangeTSV panic
  on any sheet: the size it grows its text by wraps to a negative number.
\<close>

lemma read_range_panics:
  assumes "find_sheet u d key = Some i"
  shows "\<exists>a1. parse_a1 a1 = Inr (1, 1, 2 ^ 63 - 1, 1) \<and> read_range_tsv u d key a1 = None"
proof -
  obtain a b where ab: "format_a1 1 1 = Some a" "format_a1 (2 ^ 63 - 1) 1 = Some b"
    using format_a1_None [of 1 1] format_a1_None [of 1 "2 ^ 63 - 1"] by (auto simp: max_cols_def)
  have p: "parse_a1 (a @ '':'' @ b) = Inr (1, 1, 2 ^ 63 - 1, 1)"
    using a1_roundtrip_texts [of 1 1 "2 ^ 63 - 1" 1 a b] ab by (simp add: in_range_def)
  have "range_size 1 1 (2 ^ 63 - 1) 1 = - 8"
    by (simp add: range_size_def signed_of_int)
  then have "read_range_tsv u d key (a @ '':'' @ b) = None"
    using p assms by (simp add: read_range_tsv_def)
  with p show ?thesis by blast
qed

text \<open>The header preview holds at most its limit of bytes, and the mark that it was cut.\<close>

lemma preview_loop_length:
  "n \<le> header_preview \<Longrightarrow> length (preview_loop cs first n) \<le> header_preview - n + length ellipsis"
proof (induction cs first n rule: preview_loop.induct)
  case (2 c cs first n)
  let ?n = "n + length (if first then [] else [tab])"
  show ?case
  proof (cases "\<not> first \<and> header_preview \<le> n \<or> header_preview < ?n + length (display c)")
    case True
    then show ?thesis using 2(2) by (auto simp: Let_def)
  next
    case False
    then have "length (preview_loop cs False (?n + length (display c)))
        \<le> header_preview - (?n + length (display c)) + length ellipsis"
      by (intro 2(1)) auto
    then show ?thesis using False by (auto simp: Let_def)
  qed
qed simp

section \<open>What is written\<close>

lemma replacement_body: "join_text [nl] (replacement_lines [] (Some b)) = trim_suffix b [nl]"
proof (cases "has_suffix b [nl]")
  case True
  then obtain v where v: "b = v @ [nl]" by (cases b rule: rev_cases) (auto simp: has_suffix_nl)
  then show ?thesis
    using True by (simp add: replacement_lines_def split_on_snoc join_split_on trim_suffix_def Let_def)
next
  case False
  then show ?thesis
    by (cases "b = []") (auto simp: replacement_lines_def join_split_on trim_suffix_def Let_def)
qed

text \<open>
  C32. The agent's cell write, from the address to the sheet: a block id that is the address of
  one cell of a sheet, with a body, writes that cell of that sheet, as one cell is written, with
  the body less one newline at its end, and the patch if it has a field.
\<close>

theorem apply_tabular_block_spec:
  assumes "sheets_tight d" "find_sheet u d title = Some idx" "idx < length (gb_sheets d)"
    and "CHR 0x27 \<notin> set title" "trim_left_space title = title" "in_range row col"
    and "sheet_a1 title row col row col = Some addr"
    and "\<not> merge_slave (gb_sheets d ! idx) (row - 1) (col - 1)"
  shows "\<exists>d' e sh'. apply_tabular_block u d addr [] [] (Some b) patch = Some (d', e) \<and>
     gb_sheets d' = (gb_sheets d)[idx := sh'] \<and>
     wrote (gb_sheets d ! idx) row col (Some (trim_suffix b [nl]))
       (if patch_empty patch then None else patch) sh' \<and>
     (if cell_count (gb_sheets d') \<le> max_sheet_cells then e = None \<and> projected d' else e = Some GridTooLarge)"
proof -
  let ?patch = "if patch_empty patch then None else patch"
  obtain a where a: "split_sheet_addr addr = (title, a)" "parse_a1 a = Inr (row, col, row, col)"
    using sheet_a1_roundtrip [OF assms(4,5,6,6) _ _ assms(7)] by auto
  have "a \<noteq> []" using a(2) by (auto simp: parse_a1_def)
  then have r: "apply_tabular_block u d addr [] [] (Some b) patch =
      overlay_cell d idx (nat row) (nat col) (Some (trim_suffix b [nl])) ?patch"
    using a assms(2) by (simp add: apply_tabular_block_def replacement_body Let_def)
  have i: "int (nat row) = row" "int (nat col) = col" "1 \<le> nat row" "1 \<le> nat col"
    using assms(6) by (auto simp: in_range_def)
  obtain d' e sh' where
    "overlay_cell d idx (nat row) (nat col) (Some (trim_suffix b [nl])) ?patch = Some (d', e)"
    "gb_sheets d' = (gb_sheets d)[idx := sh']"
    "wrote (gb_sheets d ! idx) row col (Some (trim_suffix b [nl])) ?patch sh'"
    "if cell_count (gb_sheets d') \<le> max_sheet_cells then e = None \<and> projected d' else e = Some GridTooLarge"
    using overlay_cell_spec [OF assms(1,3) i(3,4), unfolded i(1,2), OF assms(8)] by blast
  with r show ?thesis by (intro exI conjI) auto
qed

lemma demo_find_title: "find_sheet u demo_grid ''Plan'' = Some 0"
proof -
  have t: "trim_space ''Plan'' = ''Plan''" by (rule trim_space_plain) (simp_all add: plain_eval)
  obtain sh where sh: "gb_sheets demo_grid = [sh]" "sh_title sh = ''Plan''"
    using demo_grid_ok(2,4) by (cases "gb_sheets demo_grid") auto
  then show ?thesis by (simp add: find_sheet_def t)
qed

theorem apply_tabular_block_spec_witness:
  "\<exists>addr d' e. sheet_a1 ''Plan'' 2 3 2 3 = Some addr \<and>
     apply_tabular_block demo_tables demo_grid addr [] [] (Some ''7'') None = Some (d', e)"
proof -
  obtain addr where addr: "sheet_a1 ''Plan'' 2 3 2 3 = Some addr"
    using format_a1_None [of 3 2] by (auto simp: sheet_a1_def max_cols_def Let_def)
  have p: "trim_left_space ''Plan'' = ''Plan''" by (simp add: plain_eval)
  show ?thesis
    using apply_tabular_block_spec [OF demo_grid_ok(1) demo_find_title _ _ p _ addr,
        where b = "''7''" and patch = None and u = demo_tables]
      demo_grid_ok addr by (auto simp: in_range_def merge_slave_def)
qed

end
