(* ===== verification/Grid_Batch.thy ===== *)
theory Grid_Batch
  imports Grid_Read
begin

text \<open>
  Writing a grid back (vfs/sheets_api.go, vfs/tabular.go): the rectangles of one format a sheet
  is cut into, the batches of values and formats, and the store in memory that applies them
  (vfs/sheets_memory.go).
\<close>

section \<open>Rectangles of one format\<close>

record format_rect =
  fr_r1 :: nat
  fr_c1 :: nat
  fr_r2 :: nat
  fr_c2 :: nat
  fr_format :: cell_format

definition format_at :: "sheet \<Rightarrow> nat \<Rightarrow> nat \<Rightarrow> cell_format" where
  "format_at sh r c = cl_format (sh_cells sh ! r ! c)"

text \<open>The cells seen, as the table \<open>visited\<close> of the code holds them.\<close>

type_synonym visited = "nat \<Rightarrow> nat \<Rightarrow> bool"

definition takes :: "sheet \<Rightarrow> visited \<Rightarrow> cell_format \<Rightarrow> nat \<Rightarrow> nat \<Rightarrow> bool" where
  "takes sh v f r c \<longleftrightarrow> \<not> v r c \<and> format_equal (format_at sh r c) f"

definition run_width :: "sheet \<Rightarrow> visited \<Rightarrow> nat \<Rightarrow> nat \<Rightarrow> nat \<Rightarrow> nat" where
  "run_width sh v cols r c = 1 + length (takeWhile (takes sh v (format_at sh r c) r) [c + 1..<cols])"

definition run_height :: "sheet \<Rightarrow> visited \<Rightarrow> nat \<Rightarrow> nat \<Rightarrow> nat \<Rightarrow> nat \<Rightarrow> nat" where
  "run_height sh v rows r c w =
     1 + length (takeWhile (\<lambda>y. list_all (takes sh v (format_at sh r c) y) [c..<c + w]) [r + 1..<rows])"

definition in_rect :: "format_rect \<Rightarrow> nat \<Rightarrow> nat \<Rightarrow> bool" where
  "in_rect fr r c \<longleftrightarrow> fr_r1 fr \<le> r \<and> r < fr_r2 fr \<and> fr_c1 fr \<le> c \<and> c < fr_c2 fr"

definition rect_step :: "sheet \<Rightarrow> nat \<Rightarrow> nat \<Rightarrow> visited \<times> format_rect list \<Rightarrow> nat \<times> nat \<Rightarrow> visited \<times> format_rect list" where
  "rect_step sh rows cols st p =
     (case (st, p) of
        ((v, out), (r, c)) \<Rightarrow>
          if v r c \<or> format_is_zero (format_at sh r c) then (v, out)
          else
            let w = run_width sh v cols r c; h = run_height sh v rows r c w;
                fr = \<lparr>fr_r1 = r, fr_c1 = c, fr_r2 = r + h, fr_c2 = c + w, fr_format = format_at sh r c\<rparr>
            in (\<lambda>y x. in_rect fr y x \<or> v y x, out @ [fr]))"

definition format_rects :: "sheet \<Rightarrow> nat \<Rightarrow> nat \<Rightarrow> format_rect list" where
  "format_rects sh rows cols =
     snd (foldl (rect_step sh rows cols) (\<lambda>_ _. False, []) (List.product [0..<rows] [0..<cols]))"

lemma takeWhile_upt: "a \<le> y \<Longrightarrow> y < a + length (takeWhile P [a..<b]) \<Longrightarrow> P y \<and> y < b"
proof -
  assume y: "a \<le> y" "y < a + length (takeWhile P [a..<b])"
  have "length (takeWhile P [a..<b]) \<le> b - a"
    using length_takeWhile_le [of P "[a..<b]"] by simp
  with y have "y < b" "takeWhile P [a..<b] ! (y - a) = y"
    by (auto simp: takeWhile_nth)
  moreover have "takeWhile P [a..<b] ! (y - a) \<in> set (takeWhile P [a..<b])"
    using y by (intro nth_mem) auto
  ultimately show ?thesis by (metis set_takeWhileD)
qed

lemma format_equal_refl [simp]: "format_equal f f"
  by (simp add: format_equal_def)

lemma format_is_zero_border:
  "format_is_zero f \<longleftrightarrow> cf_known f = 0 \<and> cf_number f = [] \<and> \<not> cf_bold f \<and> \<not> cf_italic f \<and> \<not> cf_strike f \<and>
     \<not> cf_underline f \<and> cf_fill f = [] \<and> cf_color f = [] \<and> cf_align f = [] \<and> cf_valign f = [] \<and>
     cf_wrap f = [] \<and> border_value f = no_border"
  by (auto simp: format_is_zero_def border_value_def border_zero_no_border split: option.split)

lemma format_equal_zero: "format_equal f g \<Longrightarrow> format_is_zero f \<longleftrightarrow> format_is_zero g"
  by (simp add: format_equal_iff format_is_zero_border)

text \<open>All that a rectangle takes in was free and has its format.\<close>

lemma new_rect_takes:
  assumes "\<not> v r c" "r < rows" "c < cols"
    and "y \<in> {r..<r + run_height sh v rows r c w}" "x \<in> {c..<c + w}" "w = run_width sh v cols r c"
  shows "takes sh v (format_at sh r c) y x \<and> y < rows \<and> x < cols"
proof -
  let ?f = "format_at sh r c"
  have row: "takes sh v ?f r x' \<and> x' < cols" if "c \<le> x'" "x' < c + w" for x'
  proof (cases "x' = c")
    case True
    then show ?thesis using assms(1,3) by (simp add: takes_def)
  next
    case False
    then show ?thesis
      using takeWhile_upt [of "c + 1" x' "takes sh v ?f r" cols] that assms(6)
      by (simp add: run_width_def)
  qed
  show ?thesis
  proof (cases "y = r")
    case True
    then show ?thesis using row [of x] assms(2,5) by simp
  next
    case False
    then have "list_all (takes sh v ?f y) [c..<c + w] \<and> y < rows"
      using takeWhile_upt [of "r + 1" y "\<lambda>y. list_all (takes sh v ?f y) [c..<c + w]" rows] assms(4)
      by (simp add: run_height_def)
    then show ?thesis using row [of x] assms(5) by (simp add: list_all_iff)
  qed
qed

definition disjoint_rects :: "format_rect \<Rightarrow> format_rect \<Rightarrow> bool" where
  "disjoint_rects a b \<longleftrightarrow> (\<forall>r c. \<not> (in_rect a r c \<and> in_rect b r c))"

definition rects_ok :: "sheet \<Rightarrow> nat \<Rightarrow> nat \<Rightarrow> (nat \<times> nat) set \<Rightarrow> visited \<times> format_rect list \<Rightarrow> bool" where
  "rects_ok sh rows cols seen st \<longleftrightarrow>
     (\<forall>r c. fst st r c \<longleftrightarrow> (\<exists>fr \<in> set (snd st). in_rect fr r c)) \<and>
     sorted_wrt disjoint_rects (snd st) \<and>
     (\<forall>fr \<in> set (snd st). \<not> format_is_zero (fr_format fr) \<and>
        (\<forall>r c. in_rect fr r c \<longrightarrow> r < rows \<and> c < cols \<and> format_equal (format_at sh r c) (fr_format fr))) \<and>
     (\<forall>r c. (r, c) \<in> seen \<longrightarrow> fst st r c \<or> format_is_zero (format_at sh r c))"

lemma rect_step_ok:
  assumes ok: "rects_ok sh rows cols seen st" and rc: "r < rows" "c < cols"
  shows "rects_ok sh rows cols (insert (r, c) seen) (rect_step sh rows cols st (r, c))"
proof (cases "fst st r c \<or> format_is_zero (format_at sh r c)")
  case True
  then have "rect_step sh rows cols st (r, c) = st" by (cases st) (simp add: rect_step_def)
  moreover have "rects_ok sh rows cols (insert (r, c) seen) st"
    using ok True unfolding rects_ok_def by blast
  ultimately show ?thesis by simp
next
  case False
  obtain v out where st: "st = (v, out)" by (cases st)
  let ?w = "run_width sh v cols r c"
  let ?h = "run_height sh v rows r c ?w"
  define fr where "fr = \<lparr>fr_r1 = r, fr_c1 = c, fr_r2 = r + ?h, fr_c2 = c + ?w, fr_format = format_at sh r c\<rparr>"
  have step: "rect_step sh rows cols st (r, c) = (\<lambda>y x. in_rect fr y x \<or> v y x, out @ [fr])"
    using False by (simp add: rect_step_def st fr_def Let_def)
  have free: "\<not> v y x \<and> y < rows \<and> x < cols \<and> format_equal (format_at sh y x) (fr_format fr)"
    if "in_rect fr y x" for y x
    using new_rect_takes [of v r c rows cols y sh ?w x] that False rc
    by (simp add: in_rect_def fr_def st takes_def)
  have here: "in_rect fr r c" by (simp add: in_rect_def fr_def run_height_def run_width_def)
  have v: "v y x \<longleftrightarrow> (\<exists>fr \<in> set out. in_rect fr y x)" for y x using ok by (simp add: rects_ok_def st)
  have "disjoint_rects g fr" if "g \<in> set out" for g
    using free v that unfolding disjoint_rects_def by blast
  then have "sorted_wrt disjoint_rects (out @ [fr])"
    using ok by (simp add: rects_ok_def st sorted_wrt_append)
  moreover have "\<not> format_is_zero (fr_format fr)" using False by (simp add: fr_def)
  ultimately show ?thesis
    using ok free here unfolding step unfolding rects_ok_def st by (auto simp: v)
qed

lemma rects_fold_ok:
  "rects_ok sh rows cols seen st \<Longrightarrow> \<forall>(r, c) \<in> set ps. r < rows \<and> c < cols \<Longrightarrow>
   rects_ok sh rows cols (seen \<union> set ps) (foldl (rect_step sh rows cols) st ps)"
proof (induction ps arbitrary: seen st)
  case (Cons p ps)
  obtain r c where p: "p = (r, c)" by (cases p)
  have "rects_ok sh rows cols (insert p seen \<union> set ps) (foldl (rect_step sh rows cols) (rect_step sh rows cols st p) ps)"
    by (rule Cons.IH) (use Cons.prems rect_step_ok p in auto)
  then show ?case by (simp add: insert_commute Un_insert_left)
qed simp

text \<open>
  C34. formatRects cuts a sheet into rectangles of one format: they do not overlap, every cell
  of one has its format, and a cell is in one exactly when its format is not zero.
\<close>

theorem format_rects_partition:
  assumes "r < rows" "c < cols"
  shows "sorted_wrt disjoint_rects (format_rects sh rows cols) \<and>
     (if format_is_zero (format_at sh r c) then \<forall>fr \<in> set (format_rects sh rows cols). \<not> in_rect fr r c
      else \<exists>fr \<in> set (format_rects sh rows cols). in_rect fr r c \<and> format_equal (format_at sh r c) (fr_format fr))"
proof -
  define st where "st = foldl (rect_step sh rows cols) (\<lambda>_ _. False, []) (List.product [0..<rows] [0..<cols])"
  have "rects_ok sh rows cols ({} \<union> set (List.product [0..<rows] [0..<cols])) st"
    unfolding st_def by (rule rects_fold_ok) (auto simp: rects_ok_def)
  then have ok: "rects_ok sh rows cols ({0..<rows} \<times> {0..<cols}) st" by simp
  have rects: "format_rects sh rows cols = snd st" by (simp add: format_rects_def st_def)
  have seen: "fst st r c \<or> format_is_zero (format_at sh r c)"
    using ok assms unfolding rects_ok_def by fastforce
  show ?thesis
  proof (cases "format_is_zero (format_at sh r c)")
    case True
    have "\<not> in_rect fr r c" if "fr \<in> set (snd st)" for fr
      using ok that True format_equal_zero unfolding rects_ok_def by blast
    then show ?thesis using ok True rects by (simp add: rects_ok_def)
  next
    case False
    then obtain fr where "fr \<in> set (snd st)" "in_rect fr r c"
      using ok seen unfolding rects_ok_def by blast
    moreover from this have "format_equal (format_at sh r c) (fr_format fr)"
      using ok unfolding rects_ok_def by blast
    moreover have "sorted_wrt disjoint_rects (snd st)" using ok unfolding rects_ok_def by blast
    ultimately show ?thesis using False unfolding rects by auto
  qed
qed

definition demo_styled :: sheet where
  "demo_styled = (empty_sheet ''S'')\<lparr>sh_rows := 1, sh_cols := 2,
     sh_cells := [[zero_cell, zero_cell\<lparr>cl_format := demo_italic\<rparr>]]\<rparr>"

theorem format_rects_partition_witness:
  "\<exists>fr \<in> set (format_rects demo_styled 1 2). in_rect fr 0 1 \<and> format_equal demo_italic (fr_format fr)"
proof -
  have "format_at demo_styled 0 1 = demo_italic" "\<not> format_is_zero demo_italic"
    by (simp_all add: format_at_def demo_styled_def empty_sheet_def demo_italic_def format_is_zero_def)
  then show ?thesis using format_rects_partition [of 0 1 1 2 demo_styled] by simp
qed

section \<open>Batches\<close>

record value_range =
  vr_range :: string
  vr_values :: "string list list"

record repeat_cell =
  rc_sheet :: int
  rc_r1 :: nat
  rc_c1 :: nat
  rc_r2 :: nat
  rc_c2 :: nat
  rc_format :: cell_format

text \<open>The inputs of a sheet, blank under a merge.\<close>

definition sheet_inputs :: "sheet \<Rightarrow> string list list" where
  "sheet_inputs sh =
     map (\<lambda>r. map (\<lambda>c. if r < length (sh_cells sh) \<and> c < length (sh_cells sh ! r)
                             \<and> \<not> merge_slave sh (int r) (int c)
                          then cl_input (sh_cells sh ! r ! c) else [])
                 [0..<sh_cols sh]) [0..<sh_rows sh]"

text \<open>tabularOverlayBatch: None is the panic of an address that cannot be written.\<close>

fun overlay_batch :: "sheet list \<Rightarrow> value_range list option" where
  "overlay_batch [] = Some []"
| "overlay_batch (sh # shs) =
     (if sh_rows sh = 0 \<or> sh_cols sh = 0 then overlay_batch shs
      else
        let title = (if sh_title sh = [] then ''Sheet1'' else sh_title sh)
        in case sheet_a1 title 1 1 (int (sh_rows sh)) (int (sh_cols sh)) of
             None \<Rightarrow> None
           | Some a \<Rightarrow> map_option ((#) \<lparr>vr_range = a, vr_values = sheet_inputs sh\<rparr>) (overlay_batch shs))"

definition format_batch :: "sheet list \<Rightarrow> repeat_cell list" where
  "format_batch shs = concat (map (\<lambda>sh.
     let i = (case atoi (sh_id sh) of None \<Rightarrow> 0 | Some n \<Rightarrow> n)
     in map (\<lambda>fr. \<lparr>rc_sheet = i, rc_r1 = fr_r1 fr, rc_c1 = fr_c1 fr, rc_r2 = fr_r2 fr, rc_c2 = fr_c2 fr,
                     rc_format = fr_format fr\<rparr>)
           (format_rects sh (sh_rows sh) (sh_cols sh))) shs)"

section \<open>The store in memory\<close>

definition find_memory_sheet :: "sheet list \<Rightarrow> string \<Rightarrow> nat option" where
  "find_memory_sheet shs key =
     (case index_of (\<lambda>sh. sh_title sh = key \<or> sh_id sh = key) shs of
        Some i \<Rightarrow> Some i
      | None \<Rightarrow> if key = [] \<and> length shs = 1 then Some 0 else None)"

text \<open>A value goes into a cell as its input, and as its value unless it is a formula.\<close>

definition put_value :: "string \<Rightarrow> cell \<Rightarrow> cell" where
  "put_value s c = (let c = c\<lparr>cl_input := s\<rparr> in if has_prefix s ''='' then c else c\<lparr>cl_value := s\<rparr>)"

fun put_row :: "nat \<Rightarrow> string list \<Rightarrow> cell list \<Rightarrow> cell list" where
  "put_row c [] row = row"
| "put_row c (s # ss) row = put_row (Suc c) ss (row[c := put_value s (row ! c)])"

fun put_rows :: "nat \<Rightarrow> nat \<Rightarrow> nat \<Rightarrow> string list list \<Rightarrow> cell list list \<Rightarrow> cell list list" where
  "put_rows r c need [] cells = cells"
| "put_rows r c need (vs # vss) cells =
     put_rows (Suc r) c need vss (cells[r := put_row c vs (extend_cells need (cells ! r))])"

definition start_of :: "string \<Rightarrow> int \<times> int" where
  "start_of a1 =
     (if a1 = [] then (1, 1)
      else case parse_a1 (fst (cut_at (CHR '':'') a1)) of
        Inl e \<Rightarrow> (1, 1)
      | Inr (r, c, _, _) \<Rightarrow> (r, c))"

definition put_values :: "int \<Rightarrow> int \<Rightarrow> string list list \<Rightarrow> sheet \<Rightarrow> sheet" where
  "put_values r1 c1 vss sh =
     (let r0 = nat (r1 - 1); c0 = nat (c1 - 1);
          need_r = r0 + length vss;
          need_c = foldl (\<lambda>n vs. if n < c0 + length vs then c0 + length vs else n) c0 vss;
          cells = put_rows r0 c0 need_c vss (sh_cells sh @ replicate (need_r - length (sh_cells sh)) [])
      in sh\<lparr>sh_cells := cells, sh_rows := length cells,
            sh_cols := foldl (\<lambda>n row. if n < length row then length row else n) 0 cells\<rparr>)"

definition apply_value_range :: "value_range \<Rightarrow> sheet list \<Rightarrow> sheet list" where
  "apply_value_range vr shs0 =
     (case split_sheet_addr (vr_range vr) of
        (title, a1) \<Rightarrow>
          let (shs, idx) = (case find_memory_sheet shs0 title of
                              Some i \<Rightarrow> (shs0, i)
                            | None \<Rightarrow> (shs0 @ [empty_sheet title], length shs0));
              (r1, c1) = start_of a1
          in shs[idx := put_values r1 c1 (vr_values vr) (shs ! idx)])"

definition apply_memory_values :: "value_range list \<Rightarrow> sheet list \<Rightarrow> sheet list" where
  "apply_memory_values = fold apply_value_range"

definition put_format :: "cell_format \<Rightarrow> nat \<Rightarrow> nat \<Rightarrow> nat \<Rightarrow> cell list \<Rightarrow> cell list" where
  "put_format f need c1 c2 row0 =
     (let row = extend_cells need row0
      in map (\<lambda>c. if c1 \<le> c \<and> c < c2 then (row ! c)\<lparr>cl_format := overlay f (cl_format (row ! c))\<rparr> else row ! c)
           [0..<length row])"

definition apply_repeat :: "repeat_cell \<Rightarrow> sheet list \<Rightarrow> sheet list" where
  "apply_repeat rc shs =
     (case find_memory_sheet shs (itoa (rc_sheet rc)) of
        None \<Rightarrow> shs
      | Some i \<Rightarrow>
          let sh = shs ! i; cells = sh_cells sh @ replicate (rc_r2 rc - length (sh_cells sh)) [];
              cells = map (\<lambda>r. if rc_r1 rc \<le> r \<and> r < rc_r2 rc
                                then put_format (rc_format rc) (rc_c2 rc) (rc_c1 rc) (rc_c2 rc) (cells ! r)
                                else cells ! r) [0..<length cells]
          in shs[i := sh\<lparr>sh_cells := cells,
                         sh_rows := (if sh_rows sh < length cells then length cells else sh_rows sh)\<rparr>])"

definition apply_memory_formats :: "repeat_cell list \<Rightarrow> sheet list \<Rightarrow> sheet list" where
  "apply_memory_formats = fold apply_repeat"

record sheets_snapshot =
  ss_id :: string
  ss_revision :: string
  ss_sheets :: "sheet list"
  ss_named :: "named_range list"

type_synonym memory_sheets = "(string, sheets_snapshot) gomap"

definition fresh_snapshot :: "string \<Rightarrow> sheets_snapshot" where
  "fresh_snapshot i =
     \<lparr>ss_id = i, ss_revision = [], ss_sheets = [(empty_sheet ''Sheet1'')\<lparr>sh_id := ''0''\<rparr>], ss_named = []\<rparr>"

definition clone_snapshot :: "sheets_snapshot \<Rightarrow> sheets_snapshot" where
  "clone_snapshot s = s\<lparr>ss_sheets := map clone_sheet (ss_sheets s)\<rparr>"

definition ms_seed :: "string \<Rightarrow> sheets_snapshot \<Rightarrow> memory_sheets \<Rightarrow> memory_sheets" where
  "ms_seed i s m =
     AList.update i (clone_snapshot (if ss_id s = [] then s\<lparr>ss_id := i\<rparr> else s)) m"

definition ms_get :: "string \<Rightarrow> memory_sheets \<Rightarrow> sheets_snapshot \<times> memory_sheets" where
  "ms_get i m =
     (case map_of m i of
        Some s \<Rightarrow> (clone_snapshot s, m)
      | None \<Rightarrow> let s = fresh_snapshot i in (clone_snapshot s, AList.update i s m))"

definition ms_loaded :: "string \<Rightarrow> memory_sheets \<Rightarrow> sheets_snapshot" where
  "ms_loaded i m = (case map_of m i of Some s \<Rightarrow> s | None \<Rightarrow> fresh_snapshot i)"

definition ms_batch_update :: "string \<Rightarrow> repeat_cell list \<Rightarrow> memory_sheets \<Rightarrow> memory_sheets" where
  "ms_batch_update i rcs m =
     (let s = ms_loaded i m in AList.update i (s\<lparr>ss_sheets := apply_memory_formats rcs (ss_sheets s)\<rparr>) m)"

definition ms_batch_values :: "string \<Rightarrow> value_range list \<Rightarrow> memory_sheets \<Rightarrow> memory_sheets" where
  "ms_batch_values i vrs m =
     (let s = ms_loaded i m in AList.update i (s\<lparr>ss_sheets := apply_memory_values vrs (ss_sheets s)\<rparr>) m)"

section \<open>What a batch leaves in the store\<close>

lemma put_row_nth:
  "c + length ss \<le> length row \<Longrightarrow>
   length (put_row c ss row) = length row \<and>
   (\<forall>j < length row. put_row c ss row ! j = (if c \<le> j \<and> j < c + length ss then put_value (ss ! (j - c)) (row ! j) else row ! j))"
proof (induction c ss row rule: put_row.induct)
  case (2 c s ss row)
  then have IH: "length (put_row (Suc c) ss (row[c := put_value s (row ! c)])) = length row \<and>
     (\<forall>j < length row. put_row (Suc c) ss (row[c := put_value s (row ! c)]) ! j =
        (if Suc c \<le> j \<and> j < Suc c + length ss then put_value (ss ! (j - Suc c)) (row[c := put_value s (row ! c)] ! j)
         else row[c := put_value s (row ! c)] ! j))"
    by simp
  show ?case
  proof (intro conjI allI impI)
    show "length (put_row c (s # ss) row) = length row" using IH by simp
    fix j
    assume j: "j < length row"
    show "put_row c (s # ss) row ! j =
        (if c \<le> j \<and> j < c + length (s # ss) then put_value ((s # ss) ! (j - c)) (row ! j) else row ! j)"
    proof (cases "j = c")
      case True
      then show ?thesis using IH j by simp
    next
      case False
      then have "c \<le> j \<Longrightarrow> (s # ss) ! (j - c) = ss ! (j - Suc c)" by (simp add: nth_Cons' diff_Suc)
      then show ?thesis using IH j False by auto
    qed
  qed
qed auto

lemma put_rows_nth:
  "r + length vss \<le> length cells \<Longrightarrow>
   length (put_rows r c need vss cells) = length cells \<and>
   (\<forall>i < length cells. put_rows r c need vss cells ! i =
      (if r \<le> i \<and> i < r + length vss then put_row c (vss ! (i - r)) (extend_cells need (cells ! i)) else cells ! i))"
proof (induction r c need vss cells rule: put_rows.induct)
  case (2 r c need vs vss cells)
  let ?cells = "cells[r := put_row c vs (extend_cells need (cells ! r))]"
  have IH: "length (put_rows (Suc r) c need vss ?cells) = length cells \<and>
     (\<forall>i < length cells. put_rows (Suc r) c need vss ?cells ! i =
        (if Suc r \<le> i \<and> i < Suc r + length vss then put_row c (vss ! (i - Suc r)) (extend_cells need (?cells ! i))
         else ?cells ! i))"
    using 2 by simp
  show ?case
  proof (intro conjI allI impI)
    show "length (put_rows r c need (vs # vss) cells) = length cells" using IH by simp
    fix i
    assume i: "i < length cells"
    show "put_rows r c need (vs # vss) cells ! i =
        (if r \<le> i \<and> i < r + length (vs # vss)
         then put_row c ((vs # vss) ! (i - r)) (extend_cells need (cells ! i)) else cells ! i)"
    proof (cases "i = r")
      case True
      then show ?thesis using IH i by simp
    next
      case False
      then have "r \<le> i \<Longrightarrow> (vs # vss) ! (i - r) = vss ! (i - Suc r)" by (simp add: nth_Cons' diff_Suc)
      then show ?thesis using IH i False by auto
    qed
  qed
qed auto

lemma grid_cell_row:
  "r < length cells \<Longrightarrow>
   (if c < length (extend_cells n (cells ! r)) then extend_cells n (cells ! r) ! c else zero_cell) = grid_cell cells r c"
  by (auto simp: grid_cell_def extend_cells_nth) (auto simp: extend_cells_def)

lemma grid_cell_cong:
  "length a = length b \<Longrightarrow> (r < length b \<Longrightarrow> a ! r = b ! r) \<Longrightarrow> grid_cell a r c = grid_cell b r c"
  by (auto simp: grid_cell_def)

text \<open>The cells after a rectangle of values was put at the first cell.\<close>

lemma put_values_cells:
  assumes "\<forall>vs \<in> set vss. length vs = n"
  shows "grid_cell (sh_cells (put_values 1 1 vss sh)) r c =
     (if r < length vss \<and> c < n then put_value (vss ! r ! c) (grid_cell (sh_cells sh) r c)
      else grid_cell (sh_cells sh) r c)"
proof -
  let ?need = "foldl (\<lambda>n vs. if n < length vs then length vs else n) 0 vss"
  let ?cells = "sh_cells sh @ replicate (length vss - length (sh_cells sh)) []"
  have need: "length vs \<le> ?need" if "vs \<in> set vss" for vs
    using foldl_max_ge [of 0 vss] that by blast
  have cells: "sh_cells (put_values 1 1 vss sh) = put_rows 0 0 ?need vss ?cells"
    by (simp add: put_values_def Let_def cong: if_cong)
  have old: "grid_cell ?cells r c = grid_cell (sh_cells sh) r c" by (auto simp: grid_cell_def nth_append)
  have rows: "length (put_rows 0 0 ?need vss ?cells) = length ?cells"
    "\<And>i. i < length ?cells \<Longrightarrow> put_rows 0 0 ?need vss ?cells ! i =
      (if i < length vss then put_row 0 (vss ! i) (extend_cells ?need (?cells ! i)) else ?cells ! i)"
    using put_rows_nth [of 0 vss ?cells 0 ?need] by auto
  show ?thesis
  proof (cases "r < length vss")
    case True
    let ?row = "extend_cells ?need (?cells ! r)"
    have vs: "vss ! r \<in> set vss" "length (vss ! r) = n" using True assms by auto
    have row: "put_rows 0 0 ?need vss ?cells ! r = put_row 0 (vss ! r) ?row" using rows(2) [of r] True by simp
    have len: "length (vss ! r) \<le> length ?row" using need [OF vs(1)] by (simp add: extend_cells_def)
    have pr: "length (put_row 0 (vss ! r) ?row) = length ?row"
      "\<And>j. j < length ?row \<Longrightarrow> put_row 0 (vss ! r) ?row ! j = (if j < n then put_value (vss ! r ! j) (?row ! j) else ?row ! j)"
      using put_row_nth [of 0 "vss ! r" ?row] len vs(2) by auto
    have ext: "(if c < length ?row then ?row ! c else zero_cell) = grid_cell ?cells r c"
      using True by (intro grid_cell_row) simp
    have "grid_cell (put_rows 0 0 ?need vss ?cells) r c =
        (if c < length ?row then put_row 0 (vss ! r) ?row ! c else zero_cell)"
      using True rows(1) row pr(1) by (simp add: grid_cell_def)
    also have "\<dots> = (if c < n then put_value (vss ! r ! c) (grid_cell ?cells r c) else grid_cell ?cells r c)"
      using pr(2) [of c] ext len vs(2) by auto
    finally show ?thesis using True cells old by simp
  next
    case False
    then have "grid_cell (put_rows 0 0 ?need vss ?cells) r c = grid_cell ?cells r c"
      using rows(2) [of r] by (intro grid_cell_cong rows(1)) simp
    then show ?thesis using False cells old by simp
  qed
qed

text \<open>
  The shape of the sheet then: as many rows as its cells, as many columns as its longest row,
  rows enough for the values and wide enough where they go.
\<close>

lemma foldl_max: "foldl (\<lambda>n row. if n < length row then length row else n) m rows = foldr max (map length rows) m"
proof -
  have swap: "foldr max xs (max x m) = max x (foldr max xs m)" for xs :: "nat list" and x m
    by (induction xs) simp_all
  have "(\<lambda>n row. if n < length row then length row else n) = (\<lambda>n row :: 'a list. max (length row) n)"
    by (auto simp: fun_eq_iff max_def)
  moreover have "foldl (\<lambda>n row. max (length row) n) m rows = foldr max (map length rows) m"
    by (induction rows arbitrary: m) (simp_all add: swap)
  ultimately show ?thesis by simp
qed

lemma foldr_max_same: "vss \<noteq> [] \<Longrightarrow> \<forall>vs \<in> set vss. length vs = n \<Longrightarrow> foldr max (map length vss) 0 = n"
  by (induction vss rule: list_nonempty_induct) auto

lemma length_put_row [simp]: "length (put_row c vs row) = length row"
  by (induction c vs row rule: put_row.induct) simp_all

lemma put_values_shape:
  fixes sh :: sheet
  assumes "\<forall>vs \<in> set vss. length vs = n" "vss \<noteq> []"
  defines "sh' \<equiv> put_values 1 1 vss sh"
  shows "sh' = sh\<lparr>sh_cells := sh_cells sh', sh_rows := length (sh_cells sh'), sh_cols := foldr max (map length (sh_cells sh')) 0\<rparr>
    \<and> length (sh_cells sh') = max (length (sh_cells sh)) (length vss)
    \<and> (\<forall>r < length (sh_cells sh'). length (sh_cells sh' ! r) =
          max (if r < length (sh_cells sh) then length (sh_cells sh ! r) else 0) (if r < length vss then n else 0))"
proof -
  let ?need = "foldl (\<lambda>n vs. if n < length vs then length vs else n) 0 vss"
  let ?cells = "sh_cells sh @ replicate (length vss - length (sh_cells sh)) []"
  have need: "?need = n" using foldr_max_same [OF assms(2,1)] by (simp only: foldl_max)
  have cells: "sh_cells sh' = put_rows 0 0 n vss ?cells"
    using need by (simp add: sh'_def put_values_def Let_def cong: if_cong)
  have rows: "length (put_rows 0 0 n vss ?cells) = length ?cells"
    "\<And>i. i < length ?cells \<Longrightarrow> put_rows 0 0 n vss ?cells ! i =
      (if i < length vss then put_row 0 (vss ! i) (extend_cells n (?cells ! i)) else ?cells ! i)"
    using put_rows_nth [of 0 vss ?cells 0 n] by auto
  have len: "length (sh_cells sh') = max (length (sh_cells sh)) (length vss)" using rows(1) by (simp add: cells)
  have "length (sh_cells sh' ! r) =
          max (if r < length (sh_cells sh) then length (sh_cells sh ! r) else 0) (if r < length vss then n else 0)"
    if r: "r < length (sh_cells sh')" for r
  proof -
    have "r < length ?cells" using r rows(1) by (simp add: cells)
    moreover have "length (?cells ! r) = (if r < length (sh_cells sh) then length (sh_cells sh ! r) else 0)"
      using r rows(1) by (auto simp: nth_append cells)
    moreover have "length (extend_cells n row) = max (length row) n" for row by (simp add: extend_cells_def)
    ultimately show ?thesis using rows(2) [of r] by (simp add: cells)
  qed
  moreover have "sh' = sh\<lparr>sh_cells := sh_cells sh', sh_rows := length (sh_cells sh'), sh_cols := foldr max (map length (sh_cells sh')) 0\<rparr>"
    by (simp add: sh'_def put_values_def Let_def foldl_max cong: if_cong)
  ultimately show ?thesis using len by blast
qed

lemma start_of_texts:
  assumes "format_a1 1 1 = Some a"
  shows "start_of a = (1, 1)" "cell_text b \<Longrightarrow> start_of (a @ '':'' @ b) = (1, 1)"
proof -
  have t: "cell_text a" using format_a1_cell_text [OF assms] by simp
  then have free: "CHR '':'' \<notin> set a" "a \<noteq> []" by (auto simp: cell_text_def)
  have p: "parse_a1 a = Inr (1, 1, 1, 1)"
    using parse_a1_texts(1) [OF t parse_format_cell [OF assms]] by (simp add: in_range_def)
  show "start_of a = (1, 1)" using free p by (simp add: start_of_def cut_at_free)
  show "start_of (a @ '':'' @ b) = (1, 1)" using free p by (simp add: start_of_def)
qed

text \<open>
  The address of a whole sheet in a batch splits into its title and an address that starts at
  the first cell, unless the title holds a quote.
\<close>

lemma batch_address:
  assumes "CHR 0x27 \<notin> set title" "trim_left_space title = title" "1 \<le> rows" "1 \<le> cols"
    and "sheet_a1 title 1 1 rows cols = Some addr"
  shows "\<exists>a. split_sheet_addr addr = (title, a) \<and> start_of a = (1, 1)"
proof (cases "rows = 1 \<and> cols = 1")
  case True
  then obtain a where a: "format_a1 1 1 = Some a" "addr = quote_sheet_title title @ ''!'' @ a"
    using assms(5) by (auto simp: sheet_a1_def Let_def)
  moreover have "addr_text a" using format_a1_cell_text [OF a(1)] by (simp add: addr_text_def)
  ultimately show ?thesis using split_sheet_text [of title a] assms(1,2) start_of_texts(1) by auto
next
  case False
  then have ne: "\<not> (1 = rows \<and> 1 = cols)" by auto
  obtain a b where ab: "format_a1 1 1 = Some a" "format_a1 rows cols = Some b"
    "addr = quote_sheet_title title @ ''!'' @ a @ '':'' @ b"
    using assms(5) ne unfolding sheet_a1_def Let_def if_not_P [OF ne] by (auto split: option.splits)
  have t: "cell_text a" "cell_text b"
    using format_a1_cell_text [OF ab(1)] format_a1_cell_text [OF ab(2)] assms(3,4) by simp_all
  then have "addr_text (a @ '':'' @ b)" by (auto simp: addr_text_def)
  then show ?thesis
    using split_sheet_text [of title "a @ '':'' @ b"] assms(1,2) ab(3) start_of_texts(2) [OF ab(1) t(2)] by auto
qed

lemma sheet_inputs_shape:
  "length (sheet_inputs sh) = sh_rows sh" "vs \<in> set (sheet_inputs sh) \<Longrightarrow> length vs = sh_cols sh"
  by (auto simp: sheet_inputs_def)


definition demo_written :: sheet where
  "demo_written = (empty_sheet ''S'')\<lparr>sh_rows := 1, sh_cols := 1,
     sh_cells := [[zero_cell\<lparr>cl_input := ''7'', cl_value := ''7''\<rparr>]]\<rparr>"


definition quoted_title :: string where
  "quoted_title = [CHR ''a'', CHR 0x27, CHR ''b'']"

text \<open>
  A title with a quote is written with the quote doubled and not read back so: applying the
  batch of a sheet named a'b to a store that holds it leaves that sheet alone and adds a sheet
  named a''b.
\<close>

lemma batch_values_quote:
  assumes "vr_range vr = addr" "sheet_a1 quoted_title 1 1 1 1 = Some addr"
  shows "\<exists>sh'. apply_value_range vr [empty_sheet quoted_title] = [empty_sheet quoted_title, sh'] \<and>
     sh_title sh' = [CHR ''a'', CHR 0x27, CHR 0x27, CHR ''b'']"
proof -
  obtain a where a: "format_a1 1 1 = Some a"
    "addr = [CHR 0x27, CHR ''a'', CHR 0x27, CHR 0x27, CHR ''b'', CHR 0x27] @ ''!'' @ a"
    using assms(2) by (auto simp: sheet_a1_def quote_sheet_title_def contains_any_def quoted_title_def Let_def)
  have t: "addr_text a" using format_a1_cell_text [OF a(1)] by (simp add: addr_text_def)
  let ?q = "[CHR 0x27, CHR ''a'', CHR 0x27, CHR 0x27, CHR ''b'', CHR 0x27]"
  have "plain (CHR 0x27)" by (simp add: plain_eval)
  then have trim: "trim_space (?q @ ''!'' @ a) = ?q @ ''!'' @ a"
    by (intro trim_bang_text t) simp
  have split: "split_sheet_addr addr = ([CHR ''a'', CHR 0x27, CHR 0x27, CHR ''b''], a)"
    unfolding a(2) split_sheet_addr_def trim Let_def by (simp add: has_prefix_def eval_nat_numeral)
  have "find_memory_sheet [empty_sheet quoted_title] [CHR ''a'', CHR 0x27, CHR 0x27, CHR ''b''] = None"
    by (simp add: find_memory_sheet_def empty_sheet_def quoted_title_def)
  then show ?thesis
    using split start_of_texts(1) [OF a(1)]
    by (simp add: apply_value_range_def assms(1) put_values_def empty_sheet_def Let_def)
qed

end
