(* ===== verification/Chunks.thy ===== *)
theory Chunks
  imports Line_Window "HOL-Library.Word"
begin

unbundle bit_operations_syntax

text \<open>
  Content-defined chunks of a file (vfsindex/chunk.go): the Gear rolling hash and its table,
  the cutter that a byte is pushed to, and the loop that reads a file. A Go int is an
  unbounded integer here; the hash is a 64-bit word. The reader is its bytes and the error
  after them, none for the end of the file; the context is its error at each check.
\<close>

section \<open>Sizes\<close>

record chunk_sizes =
  cs_min :: int
  cs_avg :: int
  cs_max :: int

definition utf_max :: int where
  "utf_max = 4"

definition cmp_or :: "int \<Rightarrow> int \<Rightarrow> int" where
  "cmp_or a b = (if a \<noteq> 0 then a else b)"

definition default_chunk_sizes :: chunk_sizes where
  "default_chunk_sizes = \<lparr>cs_min = 1024, cs_avg = 2048, cs_max = 8192\<rparr>"

definition chunk_with_defaults :: "chunk_sizes \<Rightarrow> chunk_sizes option" where
  "chunk_with_defaults z =
     (let d = default_chunk_sizes;
          c = \<lparr>cs_min = cmp_or (cs_min z) (cs_min d), cs_avg = cmp_or (cs_avg z) (cs_avg d),
               cs_max = cmp_or (cs_max z) (cs_max d)\<rparr>
      in if cs_min c \<le> 0 \<or> cs_avg c \<le> cs_min c \<or> cs_max c < cs_avg c \<or> cs_max c < utf_max then None
         else Some c)"

definition sizes_ok :: "chunk_sizes \<Rightarrow> bool" where
  "sizes_ok z \<longleftrightarrow> 0 < cs_min z \<and> cs_min z < cs_avg z \<and> cs_avg z \<le> cs_max z \<and> 4 \<le> cs_max z"

lemma with_defaults_ok: "chunk_with_defaults z = Some c \<Longrightarrow> sizes_ok c"
  by (auto simp: chunk_with_defaults_def sizes_ok_def utf_max_def Let_def split: if_splits)

section \<open>The Gear hash\<close>

definition golden :: "64 word" where
  "golden = 0x9e3779b97f4a7c15"

definition splitmix :: "64 word \<Rightarrow> 64 word" where
  "splitmix x =
     (let z = (x XOR drop_bit 30 x) * 0xbf58476d1ce4e5b9;
          z' = (z XOR drop_bit 27 z) * 0x94d049bb133111eb
      in z' XOR drop_bit 31 z')"

fun gear_rows :: "nat \<Rightarrow> 64 word \<Rightarrow> 64 word list" where
  "gear_rows 0 x = []"
| "gear_rows (Suc n) x = splitmix (x + golden) # gear_rows n (x + golden)"

definition gear_table :: "64 word list" where
  "gear_table = gear_rows 256 golden"

definition gear :: "char \<Rightarrow> 64 word" where
  "gear b = gear_table ! of_char b"

definition roll :: "64 word \<Rightarrow> char \<Rightarrow> 64 word" where
  "roll h b = push_bit 1 h + gear b"

fun bits_len :: "nat \<Rightarrow> nat" where
  "bits_len n = (if n = 0 then 0 else Suc (bits_len (n div 2)))"

declare bits_len.simps [simp del]

definition cut_mask :: "chunk_sizes \<Rightarrow> 64 word" where
  "cut_mask z = push_bit (64 - bits_len (nat (cs_avg z - cs_min z) - 1)) (NOT 0)"

section \<open>Runes at the end of a buffer\<close>

definition is_rune_start :: "char \<Rightarrow> bool" where
  "is_rune_start c \<longleftrightarrow> of_char c div 64 \<noteq> (2 :: nat)"

text \<open>utf8.FullRune: invalid bytes are a full rune, of one byte.\<close>

definition full_rune :: "nat list \<Rightarrow> bool" where
  "full_rune bs =
     (bs \<noteq> [] \<and>
      (let b0 = hd bs;
           n = (if 0xC2 \<le> b0 \<and> b0 \<le> 0xDF then 2 else if 0xE0 \<le> b0 \<and> b0 \<le> 0xEF then 3
                else if 0xF0 \<le> b0 \<and> b0 \<le> 0xF4 then 4 else 1);
           lo = (if b0 = 0xE0 then 0xA0 else if b0 = 0xF0 then 0x90 else 0x80);
           hi = (if b0 = 0xED then 0x9F else if b0 = 0xF4 then 0x8F else 0xBF)
       in n \<le> length bs \<or> (1 < length bs \<and> \<not> byte_in lo hi bs 1) \<or>
          (2 < length bs \<and> \<not> byte_in 0x80 0xBF bs 2)))"

fun rune_start_loop :: "string \<Rightarrow> nat \<Rightarrow> nat \<Rightarrow> nat" where
  "rune_start_loop b n 0 = n"
| "rune_start_loop b n (Suc j) =
     (if n - Suc j < 4 then
        if is_rune_start (b ! j) then
          (if full_rune (map of_char (take (n - j) (drop j b))) then n else j)
        else rune_start_loop b n j
      else n)"

definition rune_start :: "string \<Rightarrow> nat \<Rightarrow> nat" where
  "rune_start b n = rune_start_loop b n n"

definition is_binary_sample :: "string \<Rightarrow> bool" where
  "is_binary_sample s \<longleftrightarrow>
     s \<noteq> [] \<and> (CHR 0x00 \<in> set s \<or> \<not> valid_utf8 (take (rune_start s (length s)) s))"

section \<open>The cutter\<close>

record chunk =
  ch_text :: string
  ch_start_line :: nat
  ch_end_line :: nat
  ch_byte_start :: nat
  ch_byte_end :: nat

record cutter =
  ct_sizes :: chunk_sizes
  ct_mask :: "64 word"
  ct_hash :: "64 word"
  ct_pending :: bool
  ct_buf :: string
  ct_last_nl :: nat
  ct_line :: nat
  ct_offset :: nat

definition after_last_nl :: "string \<Rightarrow> nat" where
  "after_last_nl s = (case last_index nl s of None \<Rightarrow> 0 | Some i \<Rightarrow> i + 1)"

definition flush :: "nat \<Rightarrow> cutter \<Rightarrow> chunk option \<times> cutter" where
  "flush n c =
     (if n = 0 then (None, c)
      else
        let span = take n (ct_buf c); lines = count_list span nl;
            fin = ct_line c + lines - (if last span = nl then 1 else 0);
            rest = drop n (ct_buf c)
        in (Some \<lparr>ch_text = trim_suffix (trim_suffix span [nl]) [cr], ch_start_line = ct_line c,
                  ch_end_line = fin, ch_byte_start = ct_offset c, ch_byte_end = ct_offset c + n\<rparr>,
            c\<lparr>ct_line := ct_line c + lines, ct_offset := ct_offset c + n, ct_buf := rest,
              ct_last_nl := after_last_nl rest, ct_pending := False\<rparr>))"

definition push :: "cutter \<Rightarrow> char \<Rightarrow> chunk option \<times> cutter" where
  "push c0 b =
     (let buf = ct_buf c0 @ [b]; h = roll (ct_hash c0) b; z = ct_sizes c0;
          pend = (ct_pending c0 \<or> cs_min z \<le> int (length buf) \<and> h AND ct_mask c0 = 0);
          c = c0\<lparr>ct_buf := buf, ct_hash := h, ct_pending := pend,
                 ct_last_nl := if b = nl then length buf else ct_last_nl c0\<rparr>
      in if b = nl \<and> pend then flush (length buf) c
         else if int (length buf) < cs_max z then (None, c)
         else if cs_min z \<le> int (ct_last_nl c) then flush (ct_last_nl c) c
         else flush (rune_start buf (length buf)) c)"

definition new_cutter :: "chunk_sizes \<Rightarrow> cutter" where
  "new_cutter z = \<lparr>ct_sizes = z, ct_mask = cut_mask z, ct_hash = 0, ct_pending = False, ct_buf = [],
                   ct_last_nl = 0, ct_line = 1, ct_offset = 0\<rparr>"

definition add_chunk :: "chunk option \<Rightarrow> chunk list \<times> 'e option \<Rightarrow> chunk list \<times> 'e option" where
  "add_chunk ch r = ((case ch of None \<Rightarrow> fst r | Some x \<Rightarrow> x # fst r), snd r)"

fun chunk_loop :: "(nat \<Rightarrow> 'e option) \<Rightarrow> int \<Rightarrow> nat \<Rightarrow> cutter \<Rightarrow> string \<Rightarrow> 'e option \<Rightarrow>
  chunk list \<times> 'e option" where
  "chunk_loop ctx mx k c bs e =
     (if mx \<le> 0 \<or> int k < mx then
        if k mod 65536 = 0 \<and> ctx k \<noteq> None then ([], ctx k)
        else (case bs of
                [] \<Rightarrow> (case e of
                         None \<Rightarrow> add_chunk (fst (flush (length (ct_buf c)) c)) ([], None)
                       | Some x \<Rightarrow> ([], Some x))
              | b # bs' \<Rightarrow>
                  (let (ch, c') = push c b in add_chunk ch (chunk_loop ctx mx (k + 1) c' bs' e)))
      else add_chunk (fst (flush (length (ct_buf c)) c)) ([], None))"

declare chunk_loop.simps [simp del]

definition chunks :: "(nat \<Rightarrow> 'e option) \<Rightarrow> string \<Rightarrow> 'e option \<Rightarrow> chunk_sizes \<Rightarrow> int \<Rightarrow> chunk list \<times> 'e option" where
  "chunks ctx bs e z mx = chunk_loop ctx mx 0 (new_cutter z) bs e"

section \<open>What a flush and a push do\<close>

text \<open>The chunk of a span that starts at a line and an offset.\<close>

definition chunk_of :: "nat \<Rightarrow> nat \<Rightarrow> string \<Rightarrow> chunk" where
  "chunk_of l off sp =
     \<lparr>ch_text = trim_suffix (trim_suffix sp [nl]) [cr], ch_start_line = l,
      ch_end_line = l + count_list sp nl - (if last sp = nl then 1 else 0),
      ch_byte_start = off, ch_byte_end = off + length sp\<rparr>"

fun number_spans :: "nat \<Rightarrow> nat \<Rightarrow> string list \<Rightarrow> chunk list" where
  "number_spans l off [] = []"
| "number_spans l off (sp # sps) =
     chunk_of l off sp # number_spans (l + count_list sp nl) (off + length sp) sps"

lemma last_index_less: "last_index c s = Some i \<Longrightarrow> i < length s"
  by (induction s arbitrary: i) (auto split: option.splits if_splits)

lemma last_index_snoc: "last_index c (s @ [b]) = (if b = c then Some (length s) else last_index c s)"
  by (induction s) (auto split: option.splits)

lemma after_last_nl_le: "after_last_nl s \<le> length s"
  by (auto simp: after_last_nl_def Suc_le_eq split: option.splits dest: last_index_less)

definition taken :: "nat \<Rightarrow> cutter \<Rightarrow> cutter" where
  "taken n c = c\<lparr>ct_line := ct_line c + count_list (take n (ct_buf c)) nl, ct_offset := ct_offset c + n,
     ct_buf := drop n (ct_buf c), ct_last_nl := after_last_nl (drop n (ct_buf c)), ct_pending := False\<rparr>"

lemma flush_span:
  assumes "0 < n" "n \<le> length (ct_buf c)"
  shows "flush n c = (Some (chunk_of (ct_line c) (ct_offset c) (take n (ct_buf c))), taken n c)"
  using assms by (simp add: flush_def chunk_of_def taken_def Let_def min_absorb2)

lemma full_rune_4: "4 \<le> length bs \<Longrightarrow> full_rune bs"
  by (auto simp: full_rune_def Let_def)

lemma rune_start_loop_bounds:
  assumes "j \<le> n" "n \<le> length b"
  shows "rune_start_loop b n j \<le> n \<and> n - 3 \<le> rune_start_loop b n j"
  using assms(1)
proof (induction j)
  case (Suc j)
  show ?case
  proof (cases "full_rune (map of_char (take (n - j) (drop j b)))")
    case True
    then show ?thesis using Suc by simp
  next
    case False
    then have "\<not> 4 \<le> length (map of_char (take (n - j) (drop j b)) :: nat list)" using full_rune_4 by blast
    then have "n - j < 4" using Suc.prems assms(2) by simp
    then show ?thesis using Suc by auto
  qed
qed simp

lemma rune_start_bounds: "n \<le> length b \<Longrightarrow> rune_start b n \<le> n \<and> n - 3 \<le> rune_start b n"
  unfolding rune_start_def by (rule rune_start_loop_bounds) simp_all

text \<open>The invariant of a cutter between two bytes.\<close>

definition cut_ok :: "cutter \<Rightarrow> bool" where
  "cut_ok c \<longleftrightarrow> sizes_ok (ct_sizes c) \<and> ct_last_nl c = after_last_nl (ct_buf c)
     \<and> int (length (ct_buf c)) < cs_max (ct_sizes c)
     \<and> (ct_pending c \<longrightarrow> cs_min (ct_sizes c) \<le> int (length (ct_buf c)))"

lemma after_last_nl_snoc:
  "after_last_nl (s @ [b]) = (if b = nl then Suc (length s) else after_last_nl s)"
  by (simp add: after_last_nl_def last_index_snoc)

lemma cut_ok_taken:
  assumes "sizes_ok (ct_sizes c)" "0 < n" "int (length (ct_buf c)) \<le> cs_max (ct_sizes c)" "ct_buf c \<noteq> []"
  shows "cut_ok (taken n c)"
proof -
  have "length (drop n (ct_buf c)) < length (ct_buf c)" using assms(2,4) by simp
  then show ?thesis using assms(1,3) by (simp add: cut_ok_def taken_def)
qed

text \<open>Where a push cuts: nowhere, or after so many bytes of the buffer with the byte.\<close>

definition cut_point :: "chunk_sizes \<Rightarrow> bool \<Rightarrow> string \<Rightarrow> nat option" where
  "cut_point z pend buf =
     (if last buf = nl \<and> pend then Some (length buf)
      else if int (length buf) < cs_max z then None
      else if cs_min z \<le> int (after_last_nl buf) then Some (after_last_nl buf)
      else Some (rune_start buf (length buf)))"

definition pend_after :: "cutter \<Rightarrow> char \<Rightarrow> bool" where
  "pend_after c b = (ct_pending c \<or> cs_min (ct_sizes c) \<le> int (length (ct_buf c) + 1) \<and>
     roll (ct_hash c) b AND ct_mask c = 0)"

definition pushed :: "cutter \<Rightarrow> char \<Rightarrow> cutter" where
  "pushed c b = c\<lparr>ct_buf := ct_buf c @ [b], ct_hash := roll (ct_hash c) b, ct_pending := pend_after c b,
     ct_last_nl := after_last_nl (ct_buf c @ [b])\<rparr>"

lemma push_cuts:
  assumes "cut_ok c"
  shows "push c b =
    (case cut_point (ct_sizes c) (pend_after c b) (ct_buf c @ [b]) of
       None \<Rightarrow> (None, pushed c b) | Some n \<Rightarrow> flush n (pushed c b))"
  using assms
  by (auto simp: push_def cut_point_def pend_after_def pushed_def cut_ok_def after_last_nl_snoc Let_def)

lemma cut_point_bounds:
  assumes "sizes_ok z" "cut_point z pend buf = Some n" "buf \<noteq> []" "int (length buf) \<le> cs_max z"
    and "pend \<Longrightarrow> cs_min z \<le> int (length buf)"
  shows "0 < n \<and> n \<le> length buf \<and> (cs_min z \<le> int n \<or> cs_max z - 3 \<le> int n)"
proof -
  have r: "rune_start buf (length buf) \<le> length buf \<and> length buf - 3 \<le> rune_start buf (length buf)"
    by (rule rune_start_bounds) simp
  have a: "after_last_nl buf \<le> length buf" by (rule after_last_nl_le)
  show ?thesis
  proof (cases "last buf = nl \<and> pend")
    case True
    then show ?thesis using assms by (auto simp: cut_point_def)
  next
    case False
    then have full: "int (length buf) = cs_max z" using assms(2,4) by (auto simp: cut_point_def split: if_splits)
    then have "n = (if cs_min z \<le> int (after_last_nl buf) then after_last_nl buf else rune_start buf (length buf))"
      using assms(2) False by (auto simp: cut_point_def split: if_splits)
    with full r a assms(1) show ?thesis by (auto simp: sizes_ok_def)
  qed
qed

text \<open>The spans that a cutter cuts a file into.\<close>

fun spans :: "cutter \<Rightarrow> string \<Rightarrow> string list" where
  "spans c [] = (if ct_buf c = [] then [] else [ct_buf c])"
| "spans c (b # bs) =
     (case cut_point (ct_sizes c) (pend_after c b) (ct_buf c @ [b]) of
        None \<Rightarrow> spans (pushed c b) bs
      | Some n \<Rightarrow> take n (ct_buf c @ [b]) # spans (taken n (pushed c b)) bs)"

lemma pushed_simps [simp]:
  "ct_sizes (pushed c b) = ct_sizes c" "ct_mask (pushed c b) = ct_mask c" "ct_buf (pushed c b) = ct_buf c @ [b]"
  "ct_hash (pushed c b) = roll (ct_hash c) b" "ct_pending (pushed c b) = pend_after c b"
  "ct_line (pushed c b) = ct_line c" "ct_offset (pushed c b) = ct_offset c"
  "ct_last_nl (pushed c b) = after_last_nl (ct_buf c @ [b])"
  by (simp_all add: pushed_def)

lemma taken_simps [simp]:
  "ct_sizes (taken n c) = ct_sizes c" "ct_mask (taken n c) = ct_mask c" "ct_buf (taken n c) = drop n (ct_buf c)"
  "ct_hash (taken n c) = ct_hash c" "ct_pending (taken n c) = False"
  "ct_line (taken n c) = ct_line c + count_list (take n (ct_buf c)) nl" "ct_offset (taken n c) = ct_offset c + n"
  by (simp_all add: taken_def)

lemma pend_after_min: "cut_ok c \<Longrightarrow> pend_after c b \<Longrightarrow> cs_min (ct_sizes c) \<le> int (length (ct_buf c @ [b]))"
  by (auto simp: cut_ok_def pend_after_def)

lemma cut_bounds:
  assumes "cut_ok c" "cut_point (ct_sizes c) (pend_after c b) (ct_buf c @ [b]) = Some n"
  shows "0 < n" "n \<le> length (ct_buf c @ [b])"
    "cs_min (ct_sizes c) \<le> int n \<or> cs_max (ct_sizes c) - 3 \<le> int n" "cut_ok (taken n (pushed c b))"
proof -
  have z: "sizes_ok (ct_sizes c)" "int (length (ct_buf c @ [b])) \<le> cs_max (ct_sizes c)"
    using assms(1) by (auto simp: cut_ok_def)
  from cut_point_bounds [OF z(1) assms(2) _ z(2) pend_after_min [OF assms(1)]]
  show n: "0 < n" "n \<le> length (ct_buf c @ [b])"
    "cs_min (ct_sizes c) \<le> int n \<or> cs_max (ct_sizes c) - 3 \<le> int n" by simp_all
  show "cut_ok (taken n (pushed c b))" by (rule cut_ok_taken) (use z n(1) in simp_all)
qed

lemma no_cut_ok:
  assumes "cut_ok c" "cut_point (ct_sizes c) (pend_after c b) (ct_buf c @ [b]) = None"
  shows "cut_ok (pushed c b)"
  using assms pend_after_min [OF assms(1), of b] by (auto simp: cut_ok_def cut_point_def split: if_splits)

lemma chunk_loop_end:
  "ctx k = None \<Longrightarrow> chunk_loop ctx mx k c [] None = add_chunk (fst (flush (length (ct_buf c)) c)) ([], None)"
  by (simp add: chunk_loop.simps [of ctx mx k c "[]" None])

lemma chunk_loop_stop:
  "\<not> (mx \<le> 0 \<or> int k < mx) \<Longrightarrow>
    chunk_loop ctx mx k c bs e = add_chunk (fst (flush (length (ct_buf c)) c)) ([], None)"
  by (simp add: chunk_loop.simps [of ctx mx k c bs e])

lemma chunk_loop_next:
  "ctx k = None \<Longrightarrow> mx \<le> 0 \<or> int k < mx \<Longrightarrow> chunk_loop ctx mx k c (b # bs) e =
    (let (ch, c') = push c b in add_chunk ch (chunk_loop ctx mx (k + 1) c' bs e))"
  by (simp add: chunk_loop.simps [of ctx mx k c "b # bs" e])

lemma flush_all:
  "add_chunk (fst (flush (length (ct_buf c)) c)) ([], None) =
    (number_spans (ct_line c) (ct_offset c) (spans c []), None)"
proof (cases "ct_buf c = []")
  case False
  then have "0 < length (ct_buf c)" by simp
  from flush_span [OF this order_refl] False show ?thesis by (simp add: add_chunk_def)
qed (simp add: add_chunk_def flush_def)

lemma chunk_loop_spans:
  assumes "cut_ok c" "\<And>k. ctx k = None"
  shows "chunk_loop ctx mx k c bs None =
    (number_spans (ct_line c) (ct_offset c)
       (spans c (if mx \<le> 0 then bs else take (nat (mx - int k)) bs)), None)"
  using assms(1)
proof (induction bs arbitrary: c k)
  case Nil
  show ?case by (simp add: chunk_loop_end assms(2) flush_all del: spans.simps)
next
  case (Cons b bs)
  show ?case
  proof (cases "mx \<le> 0 \<or> int k < mx")
    case False
    show ?thesis using False by (simp add: chunk_loop_stop [OF False] flush_all del: spans.simps)
  next
    case go: True
    have rest: "(if mx \<le> 0 then b # bs else take (nat (mx - int k)) (b # bs)) =
        b # (if mx \<le> 0 then bs else take (nat (mx - int (k + 1))) bs)"
    proof (cases "mx \<le> 0")
      case False
      with go have "nat (mx - int k) = Suc (nat (mx - int (k + 1)))" by simp
      then show ?thesis using False by simp
    qed simp
    show ?thesis
    proof (cases "cut_point (ct_sizes c) (pend_after c b) (ct_buf c @ [b])")
      case None
      have "push c b = (None, pushed c b)" using push_cuts [OF Cons.prems, of b] None by simp
      with go Cons.IH [OF no_cut_ok [OF Cons.prems None], of "k + 1"] None show ?thesis
        unfolding rest chunk_loop_next [OF assms(2) go] by (simp add: add_chunk_def)
    next
      case (Some n)
      note b = cut_bounds [OF Cons.prems Some]
      have m: "min (length (ct_buf c)) n + (n - length (ct_buf c)) = n" using b(2) by simp
      have "push c b = (Some (chunk_of (ct_line c) (ct_offset c) (take n (ct_buf c @ [b]))), taken n (pushed c b))"
        using push_cuts [OF Cons.prems, of b] Some b(1,2) by (simp add: flush_span)
      with go Cons.IH [OF b(4), of "k + 1"] Some b(2) show ?thesis
        unfolding rest chunk_loop_next [OF assms(2) go] by (simp add: add_chunk_def m)
    qed
  qed
qed

lemma concat_spans: "concat (spans c bs) = ct_buf c @ bs"
proof (induction bs arbitrary: c)
  case (Cons b bs)
  show ?case
  proof (cases "cut_point (ct_sizes c) (pend_after c b) (ct_buf c @ [b])")
    case (Some n)
    then have "concat (spans c (b # bs)) = (take n (ct_buf c @ [b]) @ drop n (ct_buf c @ [b])) @ bs"
      using Cons.IH [of "taken n (pushed c b)"] by simp
    also have "\<dots> = ct_buf c @ b # bs" by (subst append_take_drop_id) simp
    finally show ?thesis .
  qed (use Cons.IH [of "pushed c b"] in simp)
qed simp

lemma spans_sizes:
  assumes "cut_ok c"
  shows "\<forall>sp \<in> set (spans c bs). sp \<noteq> [] \<and> int (length sp) \<le> cs_max (ct_sizes c)"
    and "\<forall>sp \<in> set (butlast (spans c bs)). cs_min (ct_sizes c) \<le> int (length sp) \<or> cs_max (ct_sizes c) - 3 \<le> int (length sp)"
  using assms
proof (induction bs arbitrary: c)
  case Nil
  case 1 then show ?case by (auto simp: cut_ok_def)
next
  case Nil
  case 2 then show ?case by simp
next
  case (Cons b bs)
  have m: "int (length (ct_buf c @ [b])) \<le> cs_max (ct_sizes c)" if "cut_ok c" for c b
    using that by (simp add: cut_ok_def)
  case 1
  show ?case
  proof (cases "cut_point (ct_sizes c) (pend_after c b) (ct_buf c @ [b])")
    case None
    then show ?thesis using Cons.IH(1) [OF no_cut_ok [OF 1 None]] by simp
  next
    case (Some n)
    then show ?thesis using Cons.IH(1) [OF cut_bounds(4) [OF 1 Some]] cut_bounds(1,2) [OF 1 Some] m [OF 1, of b] by auto
  qed
next
  case (Cons b bs)
  case 2
  show ?case
  proof (cases "cut_point (ct_sizes c) (pend_after c b) (ct_buf c @ [b])")
    case None
    then show ?thesis using Cons.IH(2) [OF no_cut_ok [OF 2 None]] by simp
  next
    case (Some n)
    then show ?thesis using Cons.IH(2) [OF cut_bounds(4) [OF 2 Some]] cut_bounds(2,3) [OF 2 Some]
      by (auto simp: min_absorb2)
  qed
qed

section \<open>The hash sees the last 64 bytes\<close>

lemma roll_sum:
  "foldl roll h bs = push_bit (length bs) h + foldl roll 0 bs"
proof (induction bs rule: rev_induct)
  case (snoc b bs)
  have "push_bit 1 (push_bit (length bs) h + foldl roll 0 bs) =
      push_bit (Suc (length bs)) h + push_bit 1 (foldl roll 0 bs)"
    by (simp add: push_bit_eq_mult algebra_simps)
  with snoc show ?case by (simp add: roll_def add.assoc)
qed simp

lemma roll_64: "64 \<le> length bs \<Longrightarrow> foldl roll h bs = foldl roll 0 bs"
proof -
  assume "64 \<le> length bs"
  then have "push_bit (length bs) h = 0"
    by (intro bit_word_eqI) (simp add: bit_push_bit_iff)
  then show ?thesis by (subst roll_sum) simp
qed

text \<open>
  Two cutters that hold the same bytes, and whose hashes are those of these bytes when there
  are enough of them, cut the rest of a file the same way.
\<close>

definition hash_of_buf :: "cutter \<Rightarrow> bool" where
  "hash_of_buf c \<longleftrightarrow> (\<exists>h. ct_hash c = foldl roll h (ct_buf c))"

definition same_cuts :: "cutter \<Rightarrow> cutter \<Rightarrow> bool" where
  "same_cuts c d \<longleftrightarrow> ct_sizes c = ct_sizes d \<and> ct_mask c = ct_mask d \<and> ct_buf c = ct_buf d
     \<and> ct_pending c = ct_pending d \<and> hash_of_buf c \<and> hash_of_buf d"

lemma hash_of_buf_pushed: "hash_of_buf c \<Longrightarrow> hash_of_buf (pushed c b)"
  by (auto simp: hash_of_buf_def)

lemma hash_of_buf_taken: "hash_of_buf c \<Longrightarrow> hash_of_buf (taken n c)"
  unfolding hash_of_buf_def taken_simps by (metis append_take_drop_id foldl_append)

lemma same_pend:
  assumes "same_cuts c d" "64 \<le> cs_min (ct_sizes c)"
  shows "pend_after c b = pend_after d b"
proof -
  have "roll (ct_hash c) b = roll (ct_hash d) b" if "64 \<le> length (ct_buf c) + 1"
  proof -
    obtain h k where "ct_hash c = foldl roll h (ct_buf c)" "ct_hash d = foldl roll k (ct_buf c)"
      using assms(1) by (auto simp: same_cuts_def hash_of_buf_def)
    then have "roll (ct_hash c) b = foldl roll h (ct_buf c @ [b])" "roll (ct_hash d) b = foldl roll k (ct_buf c @ [b])"
      by simp_all
    then show ?thesis using roll_64 [of "ct_buf c @ [b]" h] roll_64 [of "ct_buf c @ [b]" k] that by simp
  qed
  then show ?thesis using assms by (auto simp: pend_after_def same_cuts_def)
qed

lemma same_spans:
  assumes "same_cuts c d" "64 \<le> cs_min (ct_sizes c)"
  shows "spans c bs = spans d bs"
  using assms
proof (induction bs arbitrary: c d)
  case Nil
  then show ?case by (simp add: same_cuts_def)
next
  case (Cons b bs)
  note p = same_pend [OF Cons.prems, of b]
  have e: "ct_sizes c = ct_sizes d" "ct_buf c = ct_buf d" using Cons.prems(1) by (simp_all add: same_cuts_def)
  have "same_cuts (pushed c b) (pushed d b)"
    using Cons.prems(1) p by (simp add: same_cuts_def hash_of_buf_pushed)
  moreover have "same_cuts (taken n (pushed c b)) (taken n (pushed d b))" for n
    using Cons.prems(1) by (simp add: same_cuts_def hash_of_buf_pushed hash_of_buf_taken)
  ultimately show ?case
    using Cons.IH [of "pushed c b" "pushed d b"] Cons.IH [of "taken _ (pushed c b)" "taken _ (pushed d b)"] Cons.prems(2)
    by (simp add: p e split: option.splits)
qed

text \<open>The cutter after a part of a file.\<close>

fun after_bytes :: "cutter \<Rightarrow> string \<Rightarrow> cutter" where
  "after_bytes c [] = c"
| "after_bytes c (b # bs) = after_bytes (snd (push c b)) bs"

lemma push_step:
  assumes "cut_ok c"
  shows "cut_ok (snd (push c b)) \<and> snd (push c b) =
    (case cut_point (ct_sizes c) (pend_after c b) (ct_buf c @ [b]) of
       None \<Rightarrow> pushed c b | Some n \<Rightarrow> taken n (pushed c b))"
proof (cases "cut_point (ct_sizes c) (pend_after c b) (ct_buf c @ [b])")
  case None
  then show ?thesis using push_cuts [OF assms, of b] no_cut_ok [OF assms None] by simp
next
  case (Some n)
  note n = cut_bounds [OF assms Some]
  have "push c b = (Some (chunk_of (ct_line c) (ct_offset c) (take n (ct_buf c @ [b]))), taken n (pushed c b))"
    using push_cuts [OF assms, of b] Some n(1,2) by (simp add: flush_span)
  then show ?thesis using Some n(4) by simp
qed

lemma spans_split:
  assumes "cut_ok c" "hash_of_buf c" "ct_buf (after_bytes c p) = []"
  shows "spans c (p @ s) = spans c p @ spans (after_bytes c p) s \<and> cut_ok (after_bytes c p)
    \<and> hash_of_buf (after_bytes c p) \<and> ct_sizes (after_bytes c p) = ct_sizes c \<and> ct_mask (after_bytes c p) = ct_mask c"
  using assms
proof (induction p arbitrary: c)
  case (Cons b p)
  note st = push_step [OF Cons.prems(1), of b]
  show ?case
  proof (cases "cut_point (ct_sizes c) (pend_after c b) (ct_buf c @ [b])")
    case None
    then have "snd (push c b) = pushed c b" using st by simp
    with Cons.IH [of "pushed c b"] st Cons.prems None show ?thesis by (simp add: hash_of_buf_pushed)
  next
    case (Some n)
    then have "snd (push c b) = taken n (pushed c b)" using st by simp
    with Cons.IH [of "taken n (pushed c b)"] st Cons.prems Some show ?thesis
      by (simp add: hash_of_buf_pushed hash_of_buf_taken)
  qed
qed simp

section \<open>Properties\<close>

abbreviation whole_chunks :: "chunk_sizes \<Rightarrow> string \<Rightarrow> chunk list" where
  "whole_chunks z s \<equiv> fst (chunks (\<lambda>_. None :: string option) s None z 0)"

lemma new_cutter_ok: "sizes_ok z \<Longrightarrow> cut_ok (new_cutter z)"
  by (simp add: cut_ok_def new_cutter_def sizes_ok_def after_last_nl_def)

lemma new_cutter_buf [simp]: "ct_buf (new_cutter z) = []" "ct_line (new_cutter z) = 1"
  "ct_offset (new_cutter z) = 0" "ct_sizes (new_cutter z) = z" "ct_mask (new_cutter z) = cut_mask z"
  "ct_pending (new_cutter z) = False" "ct_hash (new_cutter z) = 0"
  by (simp_all add: new_cutter_def)

lemma new_cutter_hash: "hash_of_buf (new_cutter z)"
  by (simp add: hash_of_buf_def)

lemma whole_chunks_spans: "sizes_ok z \<Longrightarrow> whole_chunks z s = number_spans 1 0 (spans (new_cutter z) s)"
  by (simp add: chunks_def chunk_loop_spans new_cutter_ok)

lemma text_of_spans:
  "map ch_text (number_spans l off sps) = map (\<lambda>sp. trim_suffix (trim_suffix sp [nl]) [cr]) sps"
  by (induction sps arbitrary: l off) (simp_all add: chunk_of_def)

text \<open>
  C27. The chunks of a file are the file: with valid sizes, the chunks that a read without
  errors yields are the consecutive spans of the bytes up to the limit, none empty and none
  longer than Max, each but the last at least Min long (or Max less the three bytes of a cut
  rune), numbered from line 1 and byte 0 by the line ends and bytes before them.
\<close>

theorem chunks_cover:
  assumes "sizes_ok z" and "\<And>k. ctx k = None"
  shows "\<exists>sps. chunks ctx s None z mx = (number_spans 1 0 sps, None) \<and>
    concat sps = (if mx \<le> 0 then s else take (nat mx) s) \<and>
    (\<forall>sp \<in> set sps. sp \<noteq> [] \<and> int (length sp) \<le> cs_max z) \<and>
    (\<forall>sp \<in> set (butlast sps). cs_min z \<le> int (length sp) \<or> cs_max z - 3 \<le> int (length sp))"
proof -
  let ?s = "if mx \<le> 0 then s else take (nat mx) s"
  have ok: "cut_ok (new_cutter z)" by (rule new_cutter_ok [OF assms(1)])
  have "chunks ctx s None z mx = (number_spans 1 0 (spans (new_cutter z) ?s), None)"
    using chunk_loop_spans [OF ok assms(2), where mx = mx and k = 0 and bs = s] by (simp add: chunks_def)
  then show ?thesis using concat_spans [of "new_cutter z" ?s] spans_sizes [OF ok, of ?s]
    by (intro exI [of _ "spans (new_cutter z) ?s"]) simp
qed

definition demo_sizes :: chunk_sizes where
  "demo_sizes = \<lparr>cs_min = 64, cs_avg = 65, cs_max = 70\<rparr>"

lemma demo_sizes_ok: "sizes_ok demo_sizes"
  by (simp add: demo_sizes_def sizes_ok_def)

theorem chunks_cover_witness:
  "\<exists>sps. chunks (\<lambda>_. None :: string option) ''a few bytes'' None demo_sizes 5 = (number_spans 1 0 sps, None)
    \<and> concat sps = ''a few''"
  using chunks_cover [OF demo_sizes_ok, of "\<lambda>_. None :: string option" "''a few bytes''" 5]
  by (auto simp: numeral_eq_Suc)

text \<open>
  C28. An edit changes the chunks around it: when Min is at least the 64 bytes that the hash
  sees and a cut falls at the end of a prefix, the chunks of the whole file have the texts of
  the chunks of the prefix, then the texts of the chunks of the rest read as a file of its own.
  So the rest keeps its texts, and its ids and vectors, whatever is written before the cut.
\<close>

theorem chunks_resync:
  assumes "sizes_ok z" and "64 \<le> cs_min z" and "ct_buf (after_bytes (new_cutter z) p) = []"
  shows "map ch_text (whole_chunks z (p @ s)) =
    map ch_text (whole_chunks z p) @ map ch_text (whole_chunks z s)"
proof -
  let ?c = "new_cutter z" and ?d = "after_bytes (new_cutter z) p"
  note sp = spans_split [OF new_cutter_ok [OF assms(1)] new_cutter_hash assms(3)]
  have "\<not> ct_pending ?d" using sp [of s] assms(2,3) by (auto simp: cut_ok_def)
  then have "same_cuts ?d ?c" using sp [of s] assms(3) new_cutter_hash [of z] by (simp add: same_cuts_def)
  then have "spans ?d s = spans ?c s" by (rule same_spans) (use sp [of s] assms(2) in simp)
  then have "spans ?c (p @ s) = spans ?c p @ spans ?c s" using sp [of s] by simp
  then show ?thesis by (simp add: whole_chunks_spans [OF assms(1)] text_of_spans)
qed

text \<open>A line of 64 bytes, cut where it ends.\<close>

definition demo_line :: string where
  "demo_line = replicate 63 CHR ''a'' @ [nl]"

lemma demo_mask: "cut_mask demo_sizes = 0"
  by (rule bit_word_eqI) (simp add: cut_mask_def demo_sizes_def bits_len.simps bit_simps)

lemma fill_buf:
  assumes "b \<noteq> nl" "length (ct_buf c) + n < 64" "ct_sizes c = demo_sizes" "\<not> ct_pending c"
  shows "ct_buf (after_bytes c (replicate n b)) = ct_buf c @ replicate n b \<and>
    ct_sizes (after_bytes c (replicate n b)) = demo_sizes \<and> ct_mask (after_bytes c (replicate n b)) = ct_mask c"
  using assms
proof (induction n arbitrary: c)
  case (Suc n)
  have st: "snd (push c b) = c\<lparr>ct_buf := ct_buf c @ [b], ct_hash := roll (ct_hash c) b\<rparr>"
    using Suc.prems by (simp add: push_def demo_sizes_def Let_def)
  show ?case using Suc.IH [of "snd (push c b)"] Suc.prems by (simp add: st)
qed simp

lemma after_bytes_append: "after_bytes c (p @ q) = after_bytes (after_bytes c p) q"
  by (induction p arbitrary: c) simp_all

lemma demo_cut: "ct_buf (after_bytes (new_cutter demo_sizes) demo_line) = []"
proof -
  let ?c = "after_bytes (new_cutter demo_sizes) (replicate 63 CHR ''a'')"
  have "ct_buf ?c = replicate 63 CHR ''a'' \<and> ct_sizes ?c = demo_sizes \<and> ct_mask ?c = 0"
    using fill_buf [of "CHR ''a''" "new_cutter demo_sizes" 63] by (simp add: demo_mask nl_def)
  then have "ct_buf (snd (push ?c nl)) = []"
    by (simp add: push_def flush_def demo_sizes_def Let_def)
  then show ?thesis by (simp add: demo_line_def after_bytes_append)
qed

theorem chunks_resync_witness:
  "map ch_text (whole_chunks demo_sizes (demo_line @ ''more'')) =
    map ch_text (whole_chunks demo_sizes demo_line) @ map ch_text (whole_chunks demo_sizes ''more'')"
  by (rule chunks_resync [OF demo_sizes_ok _ demo_cut]) (simp add: demo_sizes_def)

text \<open>
  A chunk below Min that is not the last: a buffer of Max bytes that ends inside a rune is cut
  before the rune, which may be less than Min bytes on.
\<close>

lemma chunk_below_min:
  "map ch_text (whole_chunks \<lparr>cs_min = 3, cs_avg = 4, cs_max = 4\<rparr>
     [CHR ''a'', CHR 0xF0, CHR 0x9F, CHR 0x98, CHR 0x80]) = [''a'', [CHR 0xF0, CHR 0x9F, CHR 0x98, CHR 0x80]]"
proof -
  let ?z = "\<lparr>cs_min = 3, cs_avg = 4, cs_max = 4\<rparr>"
  have cut: "rune_start [CHR ''a'', CHR 0xF0, CHR 0x9F, CHR 0x98] (length [CHR ''a'', CHR 0xF0, CHR 0x9F, CHR 0x98]) = 1"
    by (simp add: rune_start_def is_rune_start_def full_rune_def byte_in_def of_char_Char Let_def)
  have whole: "rune_start [CHR 0xF0, CHR 0x9F, CHR 0x98, CHR 0x80] (length [CHR 0xF0, CHR 0x9F, CHR 0x98, CHR 0x80]) = 4"
    by (simp add: rune_start_def is_rune_start_def full_rune_def byte_in_def of_char_Char Let_def)
  have sizes: "sizes_ok ?z" by (simp add: sizes_ok_def)
  have sp: "spans (new_cutter ?z) [CHR ''a'', CHR 0xF0, CHR 0x9F, CHR 0x98, CHR 0x80] =
      [''a'', [CHR 0xF0, CHR 0x9F, CHR 0x98, CHR 0x80]]"
    using cut whole by (simp add: cut_point_def nl_def after_last_nl_def)
  show ?thesis
    unfolding whole_chunks_spans [OF sizes] text_of_spans sp
    by (simp add: trim_suffix_def has_suffix_def nl_def cr_def)
qed

end
