(* ===== verification/Plan.thy ===== *)
theory Plan
  imports Prelude
begin

text \<open>
  The plan and its tools (session\_plan.go, builtins.go, message.go): the todo list, which is nil
  when no plan was ever set, the plan document, and the changes that create, complete and edit
  make. A change is a function of the plan and the tool's arguments; its texts are constructors
  that carry what the code formats into them.
\<close>

section \<open>Todos\<close>

record todo =
  td_title :: string
  td_status :: string
  td_description :: string

definition st_pending :: string where
  "st_pending = ''pending''"

definition st_completed :: string where
  "st_completed = ''completed''"

definition st_in_progress :: string where
  "st_in_progress = ''in_progress''"

lemma status_distinct [simp]:
  "st_in_progress \<noteq> st_completed" "st_completed \<noteq> st_in_progress" "st_pending \<noteq> st_completed"
  "st_completed \<noteq> st_pending" "st_pending \<noteq> st_in_progress" "st_in_progress \<noteq> st_pending"
  by (simp_all add: st_pending_def st_completed_def st_in_progress_def)

definition todo_open :: "todo \<Rightarrow> bool" where
  "todo_open td \<longleftrightarrow> td_status td \<noteq> st_completed"

type_synonym plan = "todo list option \<times> string"

section \<open>Changes\<close>

datatype effect = EffectNone | EffectHandoff | EffectInstallPlan

datatype plan_output = PlanCreated | NowStarting string string | AllCompleted | PlanEdited

datatype plan_error =
    PlanTextRequired | TodosRequired
  | PlanExists nat | NoPlan | TodoNotFound string | AlreadyCompleted string | DocUnchanged
  | OrderOutOfBounds int nat | DeleteMissing string | DeleteCompleted string

datatype plan_op =
    CreatePlan string "todo list"
  | CompleteTodo string
  | EditPlan "string list" "(todo \<times> int) list" string

type_synonym plan_result = "plan_error + plan \<times> plan_output \<times> effect"

fun start_todos :: "bool \<Rightarrow> todo list \<Rightarrow> todo list" where
  "start_todos started [] = []"
| "start_todos started (td # tds) =
     (if td_status td = st_completed then td # start_todos started tds
      else if \<not> started then td\<lparr>td_status := st_in_progress\<rparr> # start_todos True tds
      else if td_status td = [] then td\<lparr>td_status := st_pending\<rparr> # start_todos started tds
      else td # start_todos started tds)"

definition create_plan_change :: "string \<Rightarrow> todo list \<Rightarrow> plan \<Rightarrow> plan_result" where
  "create_plan_change doc todos p =
     (case fst p of
        Some (td # tds) \<Rightarrow> Inl (PlanExists (Suc (length tds)))
      | _ \<Rightarrow> Inr ((Some (start_todos False todos), doc), PlanCreated, EffectInstallPlan))"

text \<open>The first open todo is marked as in progress: the todos, and that todo.\<close>

fun start_next :: "todo list \<Rightarrow> todo list \<times> todo option" where
  "start_next [] = ([], None)"
| "start_next (td # tds) =
     (if todo_open td then (let td' = td\<lparr>td_status := st_in_progress\<rparr> in (td' # tds, Some td'))
      else (let (tds', r) = start_next tds in (td # tds', r)))"

definition complete_todo_change :: "string \<Rightarrow> plan \<Rightarrow> plan_result" where
  "complete_todo_change title p =
     (case fst p of
        None \<Rightarrow> Inl NoPlan
      | Some tds \<Rightarrow>
          (case index_of (\<lambda>td. td_title td = title) tds of
             None \<Rightarrow> Inl (TodoNotFound title)
           | Some i \<Rightarrow>
               if td_status (tds ! i) = st_completed then Inl (AlreadyCompleted title)
               else
                 let tds1 = tds[i := (tds ! i)\<lparr>td_status := st_completed\<rparr>];
                     (after, next) = start_next (drop (Suc i) tds1); tds2 = take (Suc i) tds1 @ after
                 in (case next of
                       Some td \<Rightarrow> Inr ((Some tds2, snd p), NowStarting (td_title td) (td_description td), EffectHandoff)
                     | None \<Rightarrow> Inr ((Some tds2, snd p), AllCompleted, EffectNone))))"

fun add_todos :: "todo list \<Rightarrow> (todo \<times> int) list \<Rightarrow> plan_error + todo list" where
  "add_todos tds [] = Inr tds"
| "add_todos tds ((td, i) # es) =
     (if i < 0 \<or> int (length tds) < i then Inl (OrderOutOfBounds i (length tds))
      else add_todos (insert_nth (nat i) td tds) es)"

fun delete_todos :: "todo list \<Rightarrow> string list \<Rightarrow> plan_error + todo list" where
  "delete_todos tds [] = Inr tds"
| "delete_todos tds (title # ts) =
     (case index_of (\<lambda>td. td_title td = title) tds of
        None \<Rightarrow> Inl (DeleteMissing title)
      | Some i \<Rightarrow>
          if td_status (tds ! i) = st_completed then Inl (DeleteCompleted title)
          else delete_todos (remove_nth i tds) ts)"

definition edit_plan_change :: "string list \<Rightarrow> (todo \<times> int) list \<Rightarrow> string \<Rightarrow> plan \<Rightarrow> plan_result" where
  "edit_plan_change dels adds doc p =
     (case fst p of
        None \<Rightarrow> Inl NoPlan
      | Some tds \<Rightarrow>
          let revised = trim_space doc in
          if revised \<noteq> [] \<and> revised = trim_space (snd p) then Inl DocUnchanged
          else case add_todos tds adds of
                 Inl e \<Rightarrow> Inl e
               | Inr tds1 \<Rightarrow>
                   (case delete_todos tds1 dels of
                      Inl e \<Rightarrow> Inl e
                    | Inr tds2 \<Rightarrow>
                        if revised \<noteq> [] then Inr ((Some tds2, doc), PlanEdited, EffectHandoff)
                        else Inr ((Some tds2, snd p), PlanEdited, EffectNone)))"

fun plan_change :: "plan_op \<Rightarrow> plan \<Rightarrow> plan_result" where
  "plan_change (CreatePlan doc todos) p = create_plan_change doc todos p"
| "plan_change (CompleteTodo title) p = complete_todo_change title p"
| "plan_change (EditPlan dels adds doc) p = edit_plan_change dels adds doc p"

text \<open>What the create tool checks before its change.\<close>

definition create_plan_args :: "string \<Rightarrow> todo list \<Rightarrow> plan_error option" where
  "create_plan_args doc todos =
     (if trim_space doc = [] then Some PlanTextRequired else if todos = [] then Some TodosRequired else None)"

section \<open>The plan store\<close>

record plan_store =
  ps_todos :: "todo list option"
  ps_document :: string
  ps_updated :: bool

definition new_plan_store :: plan_store where
  "new_plan_store = \<lparr>ps_todos = None, ps_document = [], ps_updated = False\<rparr>"

definition has_active :: "plan_store \<Rightarrow> bool" where
  "has_active s \<longleftrightarrow> (case ps_todos s of None \<Rightarrow> False | Some tds \<Rightarrow> tds \<noteq> [])"

definition plan_of :: "plan_store \<Rightarrow> plan" where
  "plan_of s = (ps_todos s, ps_document s)"

definition change_plan :: "(plan \<Rightarrow> plan_error + plan) \<Rightarrow> plan_store \<Rightarrow> plan_error option \<times> plan_store" where
  "change_plan f s =
     (case f (plan_of s) of
        Inl e \<Rightarrow> (Some e, s)
      | Inr (tds, doc) \<Rightarrow> (None, \<lparr>ps_todos = tds, ps_document = doc, ps_updated = True\<rparr>))"

definition consume_updated :: "plan_store \<Rightarrow> todo list option option \<times> plan_store" where
  "consume_updated s =
     (if ps_updated s then (Some (ps_todos s), s\<lparr>ps_updated := False\<rparr>) else (None, s))"

definition restore_plan :: "todo list option \<Rightarrow> string \<Rightarrow> plan_store \<Rightarrow> plan_store" where
  "restore_plan tds doc s = \<lparr>ps_todos = tds, ps_document = doc, ps_updated = False\<rparr>"

definition replay_plan_op :: "plan_store \<Rightarrow> plan_op \<Rightarrow> plan_store" where
  "replay_plan_op s op =
     snd (change_plan (\<lambda>p. case plan_change op p of Inl e \<Rightarrow> Inl e | Inr (p', _) \<Rightarrow> Inr p') s)"

definition open_todos :: "todo list \<Rightarrow> nat" where
  "open_todos tds = length (filter todo_open tds)"


section \<open>Properties\<close>

definition completed :: "todo \<Rightarrow> todo" where
  "completed td = td\<lparr>td_status := st_completed\<rparr>"

lemma todo_open_set [simp]:
  "\<not> todo_open (completed td)" "todo_open (td\<lparr>td_status := st_in_progress\<rparr>)"
  "td_title (completed td) = td_title td"
  by (simp_all add: todo_open_def completed_def)

lemma start_next_keeps:
  "map td_title (fst (start_next tds)) = map td_title tds \<and> map todo_open (fst (start_next tds)) = map todo_open tds
    \<and> map completed (fst (start_next tds)) = map completed tds"
  by (induction tds) (auto simp: Let_def completed_def split: prod.splits)

lemma start_next_None: "snd (start_next tds) = None \<longleftrightarrow> (\<forall>td \<in> set tds. \<not> todo_open td)"
  by (induction tds) (auto simp: Let_def split: prod.splits)

lemma filter_open_map:
  "map todo_open xs = map todo_open ys \<Longrightarrow> map td_title xs = map td_title ys \<Longrightarrow>
    map td_title (filter todo_open xs) = map td_title (filter todo_open ys)"
proof (induction xs arbitrary: ys)
  case (Cons x xs)
  then obtain y zs where "ys = y # zs" by (cases ys) auto
  with Cons show ?case by auto
qed simp

lemma index_of_first:
  "\<forall>x \<in> set xs. \<not> P x \<Longrightarrow> P y \<Longrightarrow> index_of P (xs @ y # ys) = Some (length xs)"
  by (induction xs) auto

lemma complete_at:
  assumes "\<forall>x \<in> set xs. td_title x \<noteq> td_title td" "todo_open td"
  shows "complete_todo_change (td_title td) (Some (xs @ td # ys), doc) =
    Inr ((Some (xs @ completed td # fst (start_next ys)), doc),
      (case snd (start_next ys) of None \<Rightarrow> AllCompleted | Some n \<Rightarrow> NowStarting (td_title n) (td_description n)),
      (case snd (start_next ys) of None \<Rightarrow> EffectNone | Some n \<Rightarrow> EffectHandoff))"
proof -
  have "index_of (\<lambda>x. td_title x = td_title td) (xs @ td # ys) = Some (length xs)"
    by (rule index_of_first) (use assms(1) in auto)
  then show ?thesis using assms(2)
    by (simp add: complete_todo_change_def todo_open_def completed_def Let_def list_update_append
        split: prod.splits option.splits)
qed

text \<open>The outcomes of changes made one after another, and the plan they leave.\<close>

fun run_changes :: "plan_op list \<Rightarrow> plan \<Rightarrow> plan_output list \<times> plan" where
  "run_changes [] p = ([], p)"
| "run_changes (op # ops) p =
     (case plan_change op p of
        Inl e \<Rightarrow> run_changes ops p
      | Inr (p', out, _) \<Rightarrow> (let (outs, p'') = run_changes ops p' in (out # outs, p'')))"

lemma filter_Cons_split:
  assumes "filter P xs = y # ys"
  shows "\<exists>us vs. xs = us @ y # vs \<and> (\<forall>u \<in> set us. \<not> P u) \<and> P y \<and> ys = filter P vs"
  using assms by (simp add: filter_eq_Cons_iff)

lemma finish_plan:
  assumes "distinct (map td_title tds)" "map td_title (filter todo_open tds) = ts"
  shows "snd (run_changes (map CompleteTodo ts) (Some tds, doc)) = (Some (map completed tds), doc) \<and>
    length (fst (run_changes (map CompleteTodo ts) (Some tds, doc))) = length ts \<and>
    (ts \<noteq> [] \<longrightarrow> last (fst (run_changes (map CompleteTodo ts) (Some tds, doc))) = AllCompleted)"
  using assms
proof (induction ts arbitrary: tds)
  case Nil
  then have "\<forall>td \<in> set tds. \<not> todo_open td" by (simp add: filter_empty_conv)
  then have "map completed tds = tds" by (auto simp: todo_open_def completed_def intro!: map_idI)
  then show ?case by simp
next
  case (Cons t ts)
  obtain td rest where f: "filter todo_open tds = td # rest" and t: "t = td_title td" "map td_title rest = ts"
    using Cons.prems(2) by (cases "filter todo_open tds") auto
  obtain xs ys where tds: "tds = xs @ td # ys" and xs: "\<forall>u \<in> set xs. \<not> todo_open u" and td: "todo_open td"
    and rest: "rest = filter todo_open ys"
    using filter_Cons_split [OF f] by blast
  let ?new = "xs @ completed td # fst (start_next ys)"
  have nx: "\<forall>x \<in> set xs. td_title x \<noteq> td_title td" using Cons.prems(1) tds
    by (auto simp: image_iff)
  note step = complete_at [OF nx td, of ys doc]
  note sk = start_next_keeps [of ys]
  have titles: "map td_title ?new = map td_title tds" using sk tds by simp
  then have "distinct (map td_title ?new)" using Cons.prems(1) by simp
  moreover have "map td_title (filter todo_open ?new) = ts"
    using filter_open_map [of "fst (start_next ys)" ys] sk xs t(2) rest by simp
  ultimately have IH: "snd (run_changes (map CompleteTodo ts) (Some ?new, doc)) = (Some (map completed ?new), doc)"
    "length (fst (run_changes (map CompleteTodo ts) (Some ?new, doc))) = length ts"
    "ts \<noteq> [] \<longrightarrow> last (fst (run_changes (map CompleteTodo ts) (Some ?new, doc))) = AllCompleted"
    using Cons.IH [of ?new] by auto
  have same: "map completed ?new = map completed tds" using sk tds by (simp add: completed_def)
  have last: "snd (start_next ys) = None" if "ts = []"
    using that t(2) rest by (simp add: start_next_None filter_empty_conv)
  obtain outs p where run: "run_changes (map CompleteTodo ts) (Some ?new, doc) = (outs, p)"
    by (cases "run_changes (map CompleteTodo ts) (Some ?new, doc)")
  have "run_changes (map CompleteTodo (t # ts)) (Some tds, doc) =
      ((case snd (start_next ys) of None \<Rightarrow> AllCompleted | Some n \<Rightarrow> NowStarting (td_title n) (td_description n)) # outs, p)"
    using step run by (simp add: t(1) tds)
  moreover have "ts \<noteq> [] \<Longrightarrow> outs \<noteq> []" using IH(2) run by auto
  ultimately show ?case using IH run same last by auto
qed

text \<open>
  A plan worked in order comes to its end: when the titles are unique, completing every
  open todo in list order succeeds each time, leaves every todo completed and nothing else
  changed, and the last answer is that all todos are completed.
\<close>

lemma plan_finishes:
  assumes "distinct (map td_title tds)" and "map td_title (filter todo_open tds) = ts" and "ts \<noteq> []"
  shows "\<exists>outs. run_changes (map CompleteTodo ts) (Some tds, doc) =
      (outs @ [AllCompleted], (Some (map completed tds), doc)) \<and> length outs + 1 = length ts"
proof -
  note f = finish_plan [OF assms(1,2), of doc]
  obtain outs p where r: "run_changes (map CompleteTodo ts) (Some tds, doc) = (outs, p)"
    by (cases "run_changes (map CompleteTodo ts) (Some tds, doc)")
  with f assms(3) have "outs \<noteq> []" "last outs = AllCompleted" "length outs = length ts" "p = (Some (map completed tds), doc)"
    by auto
  moreover from this have "outs = butlast outs @ [AllCompleted]" using append_butlast_last_id [of outs] by simp
  moreover have "length (butlast outs) + 1 = length ts" using calculation assms(3) by (cases ts) simp_all
  ultimately show ?thesis using r by (intro exI [of _ "butlast outs"]) simp
qed

definition demo_plan :: "todo list" where
  "demo_plan = [\<lparr>td_title = ''a'', td_status = st_in_progress, td_description = []\<rparr>,
                \<lparr>td_title = ''b'', td_status = st_pending, td_description = []\<rparr>]"

text \<open>
  Completing the last todo answers that all todos are completed, and asks for no handoff, also
  when an earlier one is open: only the todos after the completed one are looked at.
\<close>

lemma complete_leaves_open:
  "complete_todo_change ''b'' (Some demo_plan, ''doc'') =
    Inr ((Some [hd demo_plan, completed (demo_plan ! 1)], ''doc''), AllCompleted, EffectNone)"
  by (simp add: complete_todo_change_def demo_plan_def todo_open_def completed_def Let_def)

end
