(* ===== verification/Stream.thy ===== *)
theory Stream
  imports Plan Calls Text
begin

text \<open>
  The model's stream (message.go, model\_tasks.go, agent.go, durable\_steps.go): the chunks a
  provider sends, the assembler of their text, the events and the reply one inference makes of
  them, and the two requests that rebuild a window, a collapse's summary and a plan's handoff.
  A provider is the list of what the harness receives from it; the JSON of a call's arguments
  is a parameter.
\<close>

section \<open>Chunks\<close>

record model_chunk =
  ck_turn_id :: string
  ck_message_id :: string
  ck_calls :: "tool_call list"
  ck_type :: "event_type option"
  ck_content :: string
  ck_complete :: bool
  ck_error :: "gerr option"
  ck_input :: int
  ck_output :: int
  ck_reasoning :: int
  ck_cached :: int
  ck_cache_write :: int
  ck_encrypted :: string

text \<open>A chunk's failure: its own, or its text when it is an error chunk without one.\<close>

definition chunk_err :: "model_chunk \<Rightarrow> gerr option" where
  "chunk_err c =
     (case ck_error c of
        Some e \<Rightarrow> Some e
      | None \<Rightarrow>
          if ck_type c = Some EventError
          then Some (mk_err (if ck_content c \<noteq> [] then ck_content c else ''model stream failed'') [])
          else None)"

definition tag_after_tools :: "gerr \<Rightarrow> model_chunk \<Rightarrow> model_chunk" where
  "tag_after_tools e c =
     (let e' = (if errors_is e ModelAfterTools then e
                else mk_err (''model request failed after tools completed: '' @ err_text e) (ModelAfterTools # err_is e))
      in c\<lparr>ck_error := Some e', ck_content := err_text e'\<rparr>)"

section \<open>The assembler\<close>

definition is_text :: "event_type option \<Rightarrow> bool" where
  "is_text ty \<longleftrightarrow> ty = Some EventMessage \<or> ty = Some EventReasoning"

definition is_delta :: "model_chunk \<Rightarrow> bool" where
  "is_delta c \<longleftrightarrow> \<not> ck_complete c \<and> ck_content c \<noteq> [] \<and> is_text (ck_type c)"

text \<open>The texts of the types, whose key in the buffer is the type, a colon and the message's id.\<close>

definition type_text :: "event_type option \<Rightarrow> string" where
  "type_text ty =
     (case ty of None \<Rightarrow> [] | Some EventMessage \<Rightarrow> ''message'' | Some EventReasoning \<Rightarrow> ''reasoning''
      | Some EventFunctionCall \<Rightarrow> ''function_call'' | Some EventToolResult \<Rightarrow> ''tool_result''
      | Some EventComplete \<Rightarrow> ''complete'' | Some EventError \<Rightarrow> ''error'' | Some EventInterrupt \<Rightarrow> ''yield''
      | Some EventToolUpdate \<Rightarrow> ''tool_update'' | Some EventPlanUpdate \<Rightarrow> ''plan_update'')"

type_synonym assembler = "(string, string) gomap"

definition stream_key :: "model_chunk \<Rightarrow> string" where
  "stream_key c = type_text (ck_type c) @ '':'' @ ck_message_id c"

definition streamed :: "assembler \<Rightarrow> model_chunk \<Rightarrow> string" where
  "streamed asm c = (case map_of asm (stream_key c) of None \<Rightarrow> [] | Some s \<Rightarrow> s)"

definition add_delta :: "model_chunk \<Rightarrow> assembler \<Rightarrow> assembler" where
  "add_delta c asm = (if is_delta c then AList.update (stream_key c) (streamed asm c @ ck_content c) asm else asm)"

definition complete_content :: "assembler \<Rightarrow> model_chunk \<Rightarrow> string" where
  "complete_content asm c = (if streamed asm c \<noteq> [] then streamed asm c else ck_content c)"

definition message_from_complete :: "assembler \<Rightarrow> model_chunk \<Rightarrow> message" where
  "message_from_complete asm c =
     (text_message (if ck_type c = Some EventReasoning then RoleReasoning else RoleAssistant) (complete_content asm c))
       \<lparr>m_tool_calls := ck_calls c, m_message_id := ck_message_id c, m_encrypted := ck_encrypted c\<rparr>"

section \<open>The title of a tool\<close>

definition ident_start :: "char \<Rightarrow> bool" where
  "ident_start c \<longleftrightarrow> (let n = of_char c :: nat in 65 \<le> n \<and> n \<le> 90 \<or> 97 \<le> n \<and> n \<le> 122 \<or> c = CHR ''_'')"

definition ident_char :: "char \<Rightarrow> bool" where
  "ident_char c \<longleftrightarrow> ident_start c \<or> digit_value c \<noteq> None"

text \<open>A parameter at the start of the text: its name, and the text after its closing brace.\<close>

definition title_param :: "string \<Rightarrow> (string \<times> string) option" where
  "title_param s =
     (case s of
        [] \<Rightarrow> None
      | b # r \<Rightarrow>
          (let name = takeWhile ident_char r; rest = dropWhile ident_char r in
           if b = CHR 0x7B \<and> name \<noteq> [] \<and> ident_start (hd name) \<and> rest \<noteq> [] \<and> hd rest = CHR 0x7D
           then Some (name, tl rest) else None))"

lemma title_param_shorter:
  assumes "title_param s = Some (name, rest)"
  shows "length rest < length s"
proof (cases s)
  case (Cons b r)
  then have "rest = tl (dropWhile ident_char r)"
    using assms by (auto simp: title_param_def Let_def split: if_splits)
  then show ?thesis using Cons length_dropWhile_le [of ident_char r] by simp
qed (use assms in \<open>simp add: title_param_def\<close>)

function fill_title :: "(string \<Rightarrow> string) \<Rightarrow> string \<Rightarrow> string" where
  "fill_title f [] = []"
| "fill_title f (c # s) =
     (case title_param (c # s) of
        Some (name, rest) \<Rightarrow> f name @ fill_title f rest
      | None \<Rightarrow> c # fill_title f s)"
  by pat_completeness auto
termination
  by (relation "measure (length \<circ> snd)") (auto dest: title_param_shorter)

text \<open>The string arguments of a call, None when the text is no JSON object.\<close>

type_synonym arg_decoder = "string \<Rightarrow> (string \<Rightarrow> string option) option"

definition resolve_tool_title :: "arg_decoder \<Rightarrow> string \<Rightarrow> string \<Rightarrow> string \<Rightarrow> string" where
  "resolve_tool_title dec display name args =
     (if display = [] then name
      else if CHR 0x7B \<notin> set display then display
      else case dec args of
             None \<Rightarrow> display
           | Some m \<Rightarrow> fill_title (\<lambda>k. case m k of None \<Rightarrow> [] | Some s \<Rightarrow> s) display)"

text \<open>What the stream reads of a tool.\<close>

record tool_info =
  ti_name :: string
  ti_namespace :: string
  ti_category :: string
  ti_display :: string
  ti_timeout :: int

definition find_tool_info :: "tool_info list \<Rightarrow> string \<Rightarrow> string \<Rightarrow> tool_info option" where
  "find_tool_info tis name ns = find (\<lambda>t. ti_name t = name \<and> ti_namespace t = ns) tis"

definition with_presentation :: "arg_decoder \<Rightarrow> tool_info list \<Rightarrow> tool_call \<Rightarrow> tool_call" where
  "with_presentation dec tis tc =
     (case find_tool_info tis (tc_name tc) (tc_namespace tc) of
        None \<Rightarrow> tc
      | Some t \<Rightarrow> tc\<lparr>tc_category := ti_category t, tc_title := resolve_tool_title dec (ti_display t) (ti_name t) (tc_arguments tc)\<rparr>)"

section \<open>One inference\<close>

definition stream_chunk :: "(tool_call \<Rightarrow> tool_call) \<Rightarrow> model_chunk \<Rightarrow> assembler \<Rightarrow> event option" where
  "stream_chunk present c asm =
     (case ck_type c of
        None \<Rightarrow> None
      | Some ty \<Rightarrow>
          if ty = EventComplete then None
          else
            let ev = (new_event ty)\<lparr>ev_turn_id := ck_turn_id c, ev_message_id := ck_message_id c,
                        ev_error := chunk_err c, ev_content := ck_content c\<rparr>;
                ev1 = (if is_delta c then ev\<lparr>ev_delta := True, ev_offset := length (streamed asm c)\<rparr>
                       else if ck_complete c \<and> is_text (ck_type c) then ev\<lparr>ev_content := complete_content asm c\<rparr>
                       else ev)
            in Some (ev1\<lparr>ev_tool_calls :=
                 (if ty = EventFunctionCall then map present (ck_calls c) else ck_calls c)\<rparr>))"

text \<open>
  What the harness finds when it waits: a chunk, the end of the stream, or the cancelled
  context. When a cancelled context also ended the stream, it may find either.
\<close>

datatype heard = Heard model_chunk | StreamEnd | CtxDone gerr

record partial =
  pt_messages :: "message list"
  pt_calls :: "tool_call list"
  pt_tokens :: int

definition no_partial :: partial where
  "no_partial = \<lparr>pt_messages = [], pt_calls = [], pt_tokens = 0\<rparr>"

definition take_chunk :: "assembler \<Rightarrow> model_chunk \<Rightarrow> partial \<Rightarrow> partial" where
  "take_chunk asm c p =
     (let p1 = p\<lparr>pt_tokens := (if ck_input c \<noteq> 0 then ck_input c else pt_tokens p)\<rparr>
      in if \<not> ck_complete c then p1
         else p1\<lparr>pt_calls := pt_calls p @ ck_calls c,
                 pt_messages := pt_messages p @
                   (if is_text (ck_type c) then [message_from_complete asm c]
                    else if ck_calls c \<noteq> [] then [(text_message RoleAssistant [])\<lparr>m_tool_calls := ck_calls c\<rparr>]
                    else [])\<rparr>)"

text \<open>The loop: its end, None while it still waits, and the events it sent.\<close>

fun infer_loop :: "(tool_call \<Rightarrow> tool_call) \<Rightarrow> bool \<Rightarrow> heard list \<Rightarrow> assembler \<Rightarrow> partial \<Rightarrow> event list \<Rightarrow>
  (gerr + partial) option \<times> event list" where
  "infer_loop present after [] asm p evs = (None, evs)"
| "infer_loop present after (CtxDone e # hs) asm p evs = (Some (Inl e), evs)"
| "infer_loop present after (StreamEnd # hs) asm p evs = (Some (Inr p), evs)"
| "infer_loop present after (Heard c0 # hs) asm p evs =
     (let c = (case chunk_err c0 of Some e \<Rightarrow> if after then tag_after_tools e c0 else c0 | None \<Rightarrow> c0);
          evs1 = evs @ (case stream_chunk present c asm of None \<Rightarrow> [] | Some ev \<Rightarrow> [ev])
      in case chunk_err c of
           Some e \<Rightarrow> (Some (Inl e), evs1)
         | None \<Rightarrow> (let asm1 = add_delta c asm in infer_loop present after hs asm1 (take_chunk asm1 c p) evs1))"

definition reply_timeouts :: "tool_info list \<Rightarrow> tool_call list \<Rightarrow> int list" where
  "reply_timeouts tis tcs =
     (let ts = map (\<lambda>tc. case find_tool_info tis (tc_name tc) (tc_namespace tc) of
                       None \<Rightarrow> 0 | Some t \<Rightarrow> max 0 (ti_timeout t)) tcs
      in if \<exists>t \<in> set ts. 0 < t then ts else [])"

definition reply_of :: "tool_info list \<Rightarrow> partial \<Rightarrow> reply" where
  "reply_of tis p =
     \<lparr>rp_messages = pt_messages p, rp_calls = pt_calls p,
      rp_result = (if pt_calls p \<noteq> [] then []
                   else case filter (\<lambda>m. m_role m = RoleAssistant \<and> m_content m \<noteq> []) (pt_messages p) of
                          [] \<Rightarrow> [] | m # ms \<Rightarrow> m_content (last (m # ms))),
      rp_timeouts = reply_timeouts tis (pt_calls p), rp_input_tokens = pt_tokens p\<rparr>"

definition infer :: "arg_decoder \<Rightarrow> tool_info list \<Rightarrow> bool \<Rightarrow> gerr + heard list \<Rightarrow> (gerr + reply) option \<times> event list" where
  "infer dec tis after invoked =
     (case invoked of
        Inl e \<Rightarrow>
          (let e' = (if after then mk_err (''model request failed after tools completed: '' @ err_text e) (ModelAfterTools # err_is e)
                     else wrap_err ''model request failed: '' e)
           in (Some (Inl e'), [(new_event EventError)\<lparr>ev_error := Some e'\<rparr>]))
      | Inr hs \<Rightarrow>
          (case infer_loop (with_presentation dec tis) after hs [] no_partial [] of
             (None, evs) \<Rightarrow> (None, evs)
           | (Some (Inl e), evs) \<Rightarrow> (Some (Inl e), evs)
           | (Some (Inr p), evs) \<Rightarrow> (Some (Inr (reply_of tis p)), evs)))"

section \<open>A reader of the events\<close>

text \<open>What a reader that joins the deltas of a message has of its text.\<close>

definition spelled :: "event list \<Rightarrow> event_type \<Rightarrow> string \<Rightarrow> string" where
  "spelled evs ty mid =
     concat (map ev_content (filter (\<lambda>e. ev_delta e \<and> ev_type e = ty \<and> ev_message_id e = mid) evs))"

lemma spelled_simps [simp]:
  "spelled [] ty mid = []"
  "spelled (xs @ ys) ty mid = spelled xs ty mid @ spelled ys ty mid"
  "spelled [e] ty mid = (if ev_delta e \<and> ev_type e = ty \<and> ev_message_id e = mid then ev_content e else [])"
  by (simp_all add: spelled_def)

text \<open>The reader can join: each delta starts where the ones before it end.\<close>

definition offsets_ok :: "event list \<Rightarrow> bool" where
  "offsets_ok evs \<longleftrightarrow>
     (\<forall>i < length evs. ev_delta (evs ! i) \<longrightarrow>
        ev_offset (evs ! i) = length (spelled (take i evs) (ev_type (evs ! i)) (ev_message_id (evs ! i))))"

text \<open>A text of the reply was sent: whole in one event, and spelled by the deltas before it, if any.\<close>

definition was_sent :: "event list \<Rightarrow> message \<Rightarrow> bool" where
  "was_sent evs m \<longleftrightarrow>
     (\<exists>i < length evs. \<not> ev_delta (evs ! i) \<and> ev_message_id (evs ! i) = m_message_id m \<and>
        ev_content (evs ! i) = m_content m \<and>
        ev_type (evs ! i) = (if m_role m = RoleReasoning then EventReasoning else EventMessage) \<and>
        (spelled (take i evs) (ev_type (evs ! i)) (m_message_id m) \<noteq> [] \<longrightarrow>
           m_content m = spelled (take i evs) (ev_type (evs ! i)) (m_message_id m)))"

definition asm_ok :: "assembler \<Rightarrow> event list \<Rightarrow> bool" where
  "asm_ok asm evs \<longleftrightarrow>
     (\<forall>c. is_text (ck_type c) \<longrightarrow> streamed asm c = spelled evs (the (ck_type c)) (ck_message_id c))"

lemma stream_key_eq:
  "is_text (ck_type c) \<Longrightarrow> is_text (ck_type d) \<Longrightarrow>
    stream_key c = stream_key d \<longleftrightarrow> ck_type c = ck_type d \<and> ck_message_id c = ck_message_id d"
  by (auto simp: stream_key_def is_text_def type_text_def)

lemma streamed_add_delta:
  "is_text (ck_type d) \<Longrightarrow> streamed (add_delta c asm) d =
    (if is_delta c \<and> ck_type c = ck_type d \<and> ck_message_id c = ck_message_id d
     then streamed asm d @ ck_content c else streamed asm d)"
  using stream_key_eq [of c d]
  by (auto simp: add_delta_def streamed_def update_conv' is_delta_def split: option.splits)

lemma offsets_ok_snoc:
  "offsets_ok evs \<Longrightarrow> (ev_delta e \<Longrightarrow> ev_offset e = length (spelled evs (ev_type e) (ev_message_id e))) \<Longrightarrow>
    offsets_ok (evs @ [e])"
  by (auto simp: offsets_ok_def nth_append less_Suc_eq)

lemma was_sent_snoc: "was_sent evs m \<Longrightarrow> was_sent (evs @ [e]) m"
  unfolding was_sent_def by (auto simp: nth_append intro!: exI)

lemma was_sent_last:
  "\<not> ev_delta e \<Longrightarrow> ev_message_id e = m_message_id m \<Longrightarrow> ev_content e = m_content m \<Longrightarrow>
    ev_type e = (if m_role m = RoleReasoning then EventReasoning else EventMessage) \<Longrightarrow>
    (spelled evs (ev_type e) (m_message_id m) \<noteq> [] \<Longrightarrow> m_content m = spelled evs (ev_type e) (m_message_id m)) \<Longrightarrow>
    was_sent (evs @ [e]) m"
  unfolding was_sent_def by (intro exI [of _ "length evs"]) (simp add: nth_append)

text \<open>The messages of a text, and what they say of the calls.\<close>

definition messages_ok :: "event list \<Rightarrow> partial \<Rightarrow> bool" where
  "messages_ok evs p \<longleftrightarrow>
     (\<forall>m \<in> set (pt_messages p). valid_message m \<and> m_role m \<in> {RoleAssistant, RoleReasoning} \<and>
        (m_content m \<noteq> [] \<longrightarrow> was_sent evs m)) \<and>
     pt_calls p = concat (map m_tool_calls (pt_messages p))"

definition loop_ok :: "assembler \<Rightarrow> partial \<Rightarrow> event list \<Rightarrow> bool" where
  "loop_ok asm p evs \<longleftrightarrow> asm_ok asm evs \<and> offsets_ok evs \<and> messages_ok evs p"

lemma event_of_chunk:
  assumes "stream_chunk present c asm = Some ev" "chunk_err c = None"
  shows "ev_delta ev \<longleftrightarrow> is_delta c" "Some (ev_type ev) = ck_type c" "ev_message_id ev = ck_message_id c"
    "is_delta c \<Longrightarrow> ev_content ev = ck_content c \<and> ev_offset ev = length (streamed asm c)"
    "ck_complete c \<Longrightarrow> is_text (ck_type c) \<Longrightarrow> ev_content ev = complete_content asm c"
  using assms by (auto simp: stream_chunk_def Let_def new_event_def is_delta_def split: option.splits if_splits)

lemma no_event_no_text: "stream_chunk present c asm = None \<Longrightarrow> \<not> is_text (ck_type c)"
  by (auto simp: stream_chunk_def Let_def is_text_def split: option.splits if_splits)

lemma asm_ok_step:
  assumes "asm_ok asm evs" "chunk_err c = None"
  shows "asm_ok (add_delta c asm) (evs @ (case stream_chunk present c asm of None \<Rightarrow> [] | Some ev \<Rightarrow> [ev]))"
proof (cases "stream_chunk present c asm")
  case None
  then have "\<not> is_delta c" using no_event_no_text by (auto simp: is_delta_def)
  then show ?thesis using assms None by (simp add: add_delta_def)
next
  case (Some ev)
  note e = event_of_chunk [OF Some assms(2)]
  show ?thesis using assms(1) Some e
    by (auto simp: asm_ok_def streamed_add_delta is_text_def)
qed

lemma message_valid:
  "valid_message (message_from_complete asm c)"
  "valid_message ((text_message RoleAssistant [])\<lparr>m_tool_calls := tcs\<rparr>)"
  by (simp_all add: message_from_complete_def valid_message_def)

lemma messages_ok_snoc:
  "messages_ok evs p \<Longrightarrow> messages_ok (evs @ [e]) p"
  by (auto simp: messages_ok_def was_sent_snoc)

lemma messages_ok_events:
  "messages_ok evs p \<Longrightarrow> messages_ok (evs @ (case x of None \<Rightarrow> [] | Some ev \<Rightarrow> [ev])) p"
  by (cases x) (simp_all add: messages_ok_snoc)

lemma text_was_sent:
  assumes "asm_ok asm evs" "stream_chunk present c asm = Some ev" "chunk_err c = None" "ck_complete c" "is_text (ck_type c)"
  shows "was_sent (evs @ [ev]) (message_from_complete asm c)"
proof (rule was_sent_last)
  note e = event_of_chunk [OF assms(2,3)]
  have ty: "ck_type c = Some (ev_type ev)" using e(2) by simp
  have st: "streamed asm c = spelled evs (ev_type ev) (ck_message_id c)"
    using assms(1,5) ty by (simp add: asm_ok_def)
  show "\<not> ev_delta ev" using e(1) assms(4) by (simp add: is_delta_def)
  show "ev_message_id ev = m_message_id (message_from_complete asm c)" using e(3) by (simp add: message_from_complete_def)
  show "ev_content ev = m_content (message_from_complete asm c)"
    using e(5) assms(4,5) by (simp add: message_from_complete_def)
  show "ev_type ev = (if m_role (message_from_complete asm c) = RoleReasoning then EventReasoning else EventMessage)"
    using ty assms(5) by (auto simp: message_from_complete_def is_text_def)
  show "m_content (message_from_complete asm c) = spelled evs (ev_type ev) (m_message_id (message_from_complete asm c))"
    if "spelled evs (ev_type ev) (m_message_id (message_from_complete asm c)) \<noteq> []"
    using that st by (simp add: message_from_complete_def complete_content_def)
qed

lemma add_delta_complete: "ck_complete c \<Longrightarrow> add_delta c asm = asm"
  by (simp add: add_delta_def is_delta_def)

lemma messages_ok_step:
  assumes "asm_ok asm evs" "messages_ok evs p" "chunk_err c = None"
  shows "messages_ok (evs @ (case stream_chunk present c asm of None \<Rightarrow> [] | Some ev \<Rightarrow> [ev])) (take_chunk (add_delta c asm) c p)"
    (is "messages_ok ?evs _")
proof -
  have old: "messages_ok ?evs p" by (rule messages_ok_events) (fact assms(2))
  show ?thesis
  proof (cases "ck_complete c")
    case False
    then show ?thesis using old by (simp add: take_chunk_def messages_ok_def)
  next
    case True
    show ?thesis
    proof (cases "is_text (ck_type c)")
      case True
      then obtain ev where ev: "stream_chunk present c asm = Some ev"
        using no_event_no_text [of present c asm] by (cases "stream_chunk present c asm") auto
      have "was_sent ?evs (message_from_complete asm c)"
        using text_was_sent [OF assms(1) ev assms(3) \<open>ck_complete c\<close> True] ev by simp
      moreover have "m_role (message_from_complete asm c) \<in> {RoleAssistant, RoleReasoning}"
        "m_tool_calls (message_from_complete asm c) = ck_calls c"
        by (simp_all add: message_from_complete_def)
      ultimately show ?thesis using old True \<open>ck_complete c\<close>
        by (auto simp: take_chunk_def Let_def add_delta_complete messages_ok_def message_valid)
    next
      case False
      then show ?thesis using old True
        by (auto simp: take_chunk_def Let_def messages_ok_def message_valid)
    qed
  qed
qed

lemma offsets_ok_step:
  assumes "asm_ok asm evs" "offsets_ok evs" "chunk_err c = None"
  shows "offsets_ok (evs @ (case stream_chunk present c asm of None \<Rightarrow> [] | Some ev \<Rightarrow> [ev]))"
proof (cases "stream_chunk present c asm")
  case (Some ev)
  note e = event_of_chunk [OF Some assms(3)]
  have "ev_offset ev = length (spelled evs (ev_type ev) (ev_message_id ev))" if "ev_delta ev"
  proof -
    have d: "is_delta c" using that e(1) by simp
    moreover from this have "is_text (ck_type c)" by (simp add: is_delta_def)
    moreover have "the (ck_type c) = ev_type ev" using e(2) by (metis option.sel)
    ultimately show ?thesis using assms(1) e(3,4) by (auto simp: asm_ok_def)
  qed
  then show ?thesis using Some assms(2) by (simp add: offsets_ok_snoc)
qed (simp add: assms)

lemma infer_loop_ok:
  assumes "infer_loop present after hs asm p evs = (Some (Inr p'), evs')" and "loop_ok asm p evs"
  shows "\<exists>asm'. loop_ok asm' p' evs'"
  using assms
proof (induction present after hs asm p evs rule: infer_loop.induct)
  case (4 present after c0 hs asm p evs)
  define c where "c = (case chunk_err c0 of Some e \<Rightarrow> if after then tag_after_tools e c0 else c0 | None \<Rightarrow> c0)"
  define evs1 where "evs1 = evs @ (case stream_chunk present c asm of None \<Rightarrow> [] | Some ev \<Rightarrow> [ev])"
  have n: "chunk_err c = None"
    using "4.prems"(1) by (cases "chunk_err c") (simp_all add: Let_def flip: c_def)
  then have r: "infer_loop present after hs (add_delta c asm) (take_chunk (add_delta c asm) c p) evs1 = (Some (Inr p'), evs')"
    using "4.prems"(1) by (simp add: Let_def evs1_def flip: c_def)
  have "loop_ok (add_delta c asm) (take_chunk (add_delta c asm) c p) evs1"
    using "4.prems"(2) n unfolding loop_ok_def evs1_def
    by (intro conjI asm_ok_step offsets_ok_step messages_ok_step) simp_all
  then show ?case using "4.IH" [OF c_def evs1_def n refl r] by blast
qed auto

lemma infer_reply:
  assumes "infer dec tis after invoked = (Some (Inr r), evs)"
  obtains p asm where "r = reply_of tis p" and "loop_ok asm p evs"
proof -
  have start: "loop_ok [] no_partial []"
    by (auto simp: loop_ok_def asm_ok_def streamed_def offsets_ok_def messages_ok_def no_partial_def)
  obtain hs p where "infer_loop (with_presentation dec tis) after hs [] no_partial [] = (Some (Inr p), evs)" "r = reply_of tis p"
    using assms by (auto simp: infer_def Let_def split: sum.splits prod.splits option.splits)
  then show ?thesis using infer_loop_ok [OF _ start] that by blast
qed

text \<open>
  C24. A reader of the events can rebuild the reply as it comes: each delta says where it
  starts, which is where the deltas of its message before it end, and each text of the reply
  was sent whole in an event that agrees with what the deltas before it spelled.
\<close>

theorem infer_spells_reply:
  assumes "infer dec tis after invoked = (Some (Inr r), evs)"
  shows "offsets_ok evs \<and> (\<forall>m \<in> set (rp_messages r). m_content m \<noteq> [] \<longrightarrow> was_sent evs m)"
proof -
  obtain p asm where "r = reply_of tis p" "loop_ok asm p evs" using infer_reply [OF assms] .
  then show ?thesis by (auto simp: loop_ok_def messages_ok_def reply_of_def)
qed

definition demo_text_chunk :: "string \<Rightarrow> bool \<Rightarrow> model_chunk" where
  "demo_text_chunk s final =
     \<lparr>ck_turn_id = [], ck_message_id = ''m'', ck_calls = [], ck_type = Some EventMessage, ck_content = s,
      ck_complete = final, ck_error = None, ck_input = 0, ck_output = 0, ck_reasoning = 0, ck_cached = 0,
      ck_cache_write = 0, ck_encrypted = []\<rparr>"

definition demo_stream :: "heard list" where
  "demo_stream = [Heard (demo_text_chunk ''Hel'' False), Heard (demo_text_chunk ''lo'' False),
                  Heard (demo_text_chunk [] True), StreamEnd]"

lemma demo_infer:
  "\<exists>r evs. infer (\<lambda>_. None) [] False (Inr demo_stream) = (Some (Inr r), evs) \<and> rp_result r = ''Hello'' \<and>
     map ev_offset evs = [0, 3, 0] \<and> map ev_content evs = [''Hel'', ''lo'', ''Hello''] \<and> rp_messages r \<noteq> [] \<and>
     map m_content (rp_messages r) = [''Hello'']"
  by (simp add: demo_stream_def infer_def demo_text_chunk_def no_partial_def chunk_err_def stream_chunk_def Let_def
      is_delta_def is_text_def streamed_def stream_key_def type_text_def add_delta_def take_chunk_def
      message_from_complete_def complete_content_def reply_of_def text_message_def new_event_def)

theorem infer_spells_reply_witness:
  "\<exists>r evs. infer (\<lambda>_. None) [] False (Inr demo_stream) = (Some (Inr r), evs) \<and> rp_result r = ''Hello'' \<and>
     offsets_ok evs \<and> (\<forall>m \<in> set (rp_messages r). was_sent evs m)"
proof -
  obtain r evs where r: "infer (\<lambda>_. None) [] False (Inr demo_stream) = (Some (Inr r), evs)" "rp_result r = ''Hello''"
    "map m_content (rp_messages r) = [''Hello'']" using demo_infer by auto
  then show ?thesis using infer_spells_reply [OF r(1)] by (intro exI [of _ r] exI [of _ evs]) auto
qed

text \<open>
  What an inference returns is a round that can be committed: its messages are valid in a
  window and are the model's, its calls are the calls those messages carry, in order, a
  timeout is never negative and there is one for each call or none, and it has a result only
  when it asks for no call.
\<close>

lemma infer_reply_shape:
  assumes "infer dec tis after invoked = (Some (Inr r), evs)"
  shows "validate_messages (map Some (rp_messages r)) = None \<and>
    (\<forall>m \<in> set (rp_messages r). m_role m \<in> {RoleAssistant, RoleReasoning}) \<and>
    rp_calls r = concat (map m_tool_calls (rp_messages r)) \<and>
    (rp_timeouts r = [] \<or> length (rp_timeouts r) = length (rp_calls r)) \<and> (\<forall>i. 0 \<le> reply_timeout r i) \<and>
    (rp_calls r \<noteq> [] \<longrightarrow> rp_result r = [])"
proof -
  obtain p asm where r: "r = reply_of tis p" and l: "loop_ok asm p evs" using infer_reply [OF assms] .
  have "0 \<le> x" if "x \<in> set (reply_timeouts tis (pt_calls p))" for x
    using that by (auto simp: reply_timeouts_def Let_def split: option.splits if_splits)
  then have "0 \<le> reply_timeout r i" for i
    using nth_mem [of i "rp_timeouts r"] by (simp add: r reply_of_def reply_timeout_def)
  moreover have "reply_timeouts tis (pt_calls p) = [] \<or> length (reply_timeouts tis (pt_calls p)) = length (pt_calls p)"
    by (simp add: reply_timeouts_def Let_def)
  ultimately show ?thesis using l
    by (auto simp: r reply_of_def loop_ok_def messages_ok_def validate_messages_def validate_from_None_iff)
qed

end
