(* ===== verification/Call_State.thy ===== *)
theory Call_State
  imports Plan Calls Text
begin

text \<open>
  A session's committed state and what one tool call does to it (session\_manager.go,
  session\_permissions.go, call.go, toolcall.go, tool\_runner.go, durable\_steps.go): a call reads
  its own writes before the committed state and writes only to its body; the commit applies the
  writes of a round's calls in call order. Values of user state are a type parameter with the
  JSON encoding they travel in; search rests and the interrupts a host registers are type
  parameters too.
\<close>

section \<open>Permissions\<close>

datatype permission = PermNone | PermAllowAlways | PermDenyAlways

record permissions =
  pm_decisions :: "(string, permission) gomap"
  pm_granted :: "(string, bool) gomap"

definition decision_of :: "permissions \<Rightarrow> string \<Rightarrow> permission" where
  "decision_of p name =
     (case map_of (pm_decisions p) name of
        Some PermAllowAlways \<Rightarrow> PermAllowAlways
      | Some PermDenyAlways \<Rightarrow> PermDenyAlways
      | _ \<Rightarrow> if map_of (pm_granted p) name = Some True then PermAllowAlways else PermNone)"

definition set_decision :: "string \<Rightarrow> permission \<Rightarrow> permissions \<Rightarrow> permissions" where
  "set_decision name d p = p\<lparr>pm_decisions := AList.update name d (pm_decisions p)\<rparr>"

definition restore_permissions :: "(string, permission) gomap \<Rightarrow> permissions \<Rightarrow> permissions" where
  "restore_permissions ds p = p\<lparr>pm_decisions := ds\<rparr>"

section \<open>Interrupts\<close>

record user_choice =
  uc_title :: string
  uc_description :: string
  uc_recommended :: bool

record permission_option =
  po_id :: string
  po_name :: string
  po_kind :: string

record tool_permission =
  tp_tool :: string
  tp_title :: string
  tp_options :: "permission_option list"
  tp_selected :: string
  tp_kind :: string
  tp_allowed :: bool

record user_selection =
  us_question :: string
  us_options :: "user_choice list"
  us_choice :: "user_choice option"

datatype interrupt =
    SelectionIntr user_selection
  | PermissionIntr tool_permission
  | AuthIntr string string
  | HostIntr string string

definition type_name :: "interrupt \<Rightarrow> string" where
  "type_name i =
     (case i of SelectionIntr _ \<Rightarrow> ''user_selection_choice'' | PermissionIntr _ \<Rightarrow> ''tool_permission''
      | AuthIntr _ _ \<Rightarrow> ''auth_expired'' | HostIntr t _ \<Rightarrow> t)"

definition allow_once :: string where "allow_once = ''allow_once''"
definition allow_always :: string where "allow_always = ''allow_always''"
definition reject_once :: string where "reject_once = ''reject_once''"
definition reject_always :: string where "reject_always = ''reject_always''"

definition default_options :: "permission_option list" where
  "default_options =
     [\<lparr>po_id = ''allow-once'', po_name = ''Allow once'', po_kind = allow_once\<rparr>,
      \<lparr>po_id = ''allow-always'', po_name = ''Allow always'', po_kind = allow_always\<rparr>,
      \<lparr>po_id = ''reject-once'', po_name = ''Reject'', po_kind = reject_once\<rparr>,
      \<lparr>po_id = ''reject-always'', po_name = ''Reject always'', po_kind = reject_always\<rparr>]"

text \<open>
  What a payload's JSON holds: the field of the answer, None when it is missing, or an error.
  A host's interrupt answers with its own function.
\<close>

datatype payload_error =
    BadPayload gerr | MissingField string | UnknownOption string | OutOfRange int nat | UnknownKind string
  | HostError gerr

text \<open>Which of them wrap ErrInvalidPayload.\<close>

definition payload_invalid :: "payload_error \<Rightarrow> bool" where
  "payload_invalid e \<longleftrightarrow>
     (case e of BadPayload _ \<Rightarrow> True | MissingField _ \<Rightarrow> True | UnknownOption _ \<Rightarrow> True
      | HostError g \<Rightarrow> errors_is g InvalidPayload | _ \<Rightarrow> False)"

record payloads =
  py_selection :: "string \<Rightarrow> gerr + int option"
  py_option :: "string \<Rightarrow> gerr + string option"
  py_host :: "string \<Rightarrow> string \<Rightarrow> string \<Rightarrow> gerr + string"

definition return_selection :: "payloads \<Rightarrow> user_selection \<Rightarrow> string \<Rightarrow> payload_error option \<times> user_selection" where
  "return_selection py u pl =
     (case py_selection py pl of
        Inl e \<Rightarrow> (Some (BadPayload e), u)
      | Inr None \<Rightarrow> (Some (MissingField ''selectionIdx''), u)
      | Inr (Some i) \<Rightarrow>
          if i < 0 \<or> int (length (us_options u)) \<le> i then (Some (OutOfRange i (length (us_options u))), u)
          else (None, u\<lparr>us_choice := Some (us_options u ! nat i)\<rparr>))"

definition return_permission :: "payloads \<Rightarrow> tool_permission \<Rightarrow> string \<Rightarrow> payload_error option \<times> tool_permission" where
  "return_permission py p pl =
     (case py_option py pl of
        Inl e \<Rightarrow> (Some (BadPayload e), p)
      | Inr None \<Rightarrow> (Some (MissingField ''optionId''), p)
      | Inr (Some oid) \<Rightarrow>
          (case find (\<lambda>opt. po_id opt = oid) (tp_options p) of
             None \<Rightarrow> (Some (UnknownOption oid), p)
           | Some opt \<Rightarrow>
               (let p1 = p\<lparr>tp_selected := po_id opt, tp_kind := po_kind opt\<rparr> in
                if po_kind opt = allow_once \<or> po_kind opt = allow_always then (None, p1\<lparr>tp_allowed := True\<rparr>)
                else if po_kind opt = reject_once \<or> po_kind opt = reject_always
                then (None, p1\<lparr>tp_allowed := False\<rparr>)
                else (Some (UnknownKind (po_kind opt)), p1))))"

definition return_intr :: "payloads \<Rightarrow> interrupt \<Rightarrow> string \<Rightarrow> payload_error option \<times> interrupt" where
  "return_intr py i pl =
     (case i of
        SelectionIntr u \<Rightarrow> (let (e, u') = return_selection py u pl in (e, SelectionIntr u'))
      | PermissionIntr p \<Rightarrow> (let (e, p') = return_permission py p pl in (e, PermissionIntr p'))
      | AuthIntr _ _ \<Rightarrow> (None, i)
      | HostIntr t s \<Rightarrow> (case py_host py t s pl of Inl e \<Rightarrow> (Some (HostError e), i) | Inr s' \<Rightarrow> (None, HostIntr t s')))"

section \<open>Writes and the committed state\<close>

record 'r call_writes =
  cw_state :: "(string \<times> string option) list"
  cw_permissions :: "(string \<times> permission) list"
  cw_rests :: "(string \<times> 'r) list"
  cw_plan :: "plan_op list"

definition no_writes :: "'r call_writes" where
  "no_writes = \<lparr>cw_state = [], cw_permissions = [], cw_rests = [], cw_plan = []\<rparr>"

record ('v, 'r) session_manager =
  sm_plan :: plan_store
  sm_user :: "(string, 'v) gomap"
  sm_permissions :: permissions
  sm_rests :: "(string, 'r) gomap"

definition new_session_manager :: "('v, 'r) session_manager" where
  "new_session_manager =
     \<lparr>sm_plan = new_plan_store, sm_user = [], sm_permissions = \<lparr>pm_decisions = [], pm_granted = []\<rparr>, sm_rests = []\<rparr>"

definition set_user_state :: "(string, 'v) gomap \<Rightarrow> ('v, 'r) session_manager \<Rightarrow> ('v, 'r) session_manager" where
  "set_user_state st s = s\<lparr>sm_user := map_copy (sm_user s) st\<rparr>"

text \<open>A JSON codec of user-state values; what does not parse decodes to the nil value.\<close>

record 'v codec =
  cd_enc :: "'v \<Rightarrow> gerr + string"
  cd_dec :: "string \<Rightarrow> 'v"

definition apply_state :: "'v codec \<Rightarrow> string \<times> string option \<Rightarrow> (string, 'v) gomap \<Rightarrow> (string, 'v) gomap" where
  "apply_state cd w m =
     (case snd w of None \<Rightarrow> AList.delete (fst w) m | Some raw \<Rightarrow> AList.update (fst w) (cd_dec cd raw) m)"

definition apply_writes :: "'v codec \<Rightarrow> 'r call_writes \<Rightarrow> ('v, 'r) session_manager \<Rightarrow> ('v, 'r) session_manager" where
  "apply_writes cd w s =
     s\<lparr>sm_user := fold (apply_state cd) (cw_state w) (sm_user s),
       sm_permissions := fold (\<lambda>(n, d). set_decision n d) (cw_permissions w) (sm_permissions s),
       sm_rests := fold (\<lambda>(k, r). AList.update k r) (cw_rests w) (sm_rests s),
       sm_plan := fold (\<lambda>op ps. replay_plan_op ps op) (cw_plan w) (sm_plan s)\<rparr>"

section \<open>The call context\<close>

record 'r call_body =
  cb_result :: "message option"
  cb_effect :: effect
  cb_park :: "(interrupt \<times> bool) option"
  cb_layers :: "(string \<times> string) list"
  cb_writes :: "'r call_writes"

definition empty_body :: "'r call_body" where
  "empty_body = \<lparr>cb_result = None, cb_effect = EffectNone, cb_park = None, cb_layers = [], cb_writes = no_writes\<rparr>"

record ('v, 'r) call_context =
  cc_session :: "('v, 'r) session_manager"
  cc_running :: "string list"
  cc_max :: int
  cc_call :: "'r call_body call"
  cc_body :: "'r call_body"
  cc_user :: "(string, 'v option) gomap"

definition load_write :: "'v codec \<Rightarrow> string \<times> string option \<Rightarrow> (string, 'v option) gomap \<Rightarrow> (string, 'v option) gomap" where
  "load_write cd w m = AList.update (fst w) (map_option (cd_dec cd) (snd w)) m"

definition new_call_context :: "'v codec \<Rightarrow> ('v, 'r) session_manager \<Rightarrow> 'r call_body call \<Rightarrow> 'r call_body \<Rightarrow>
  string list \<Rightarrow> int \<Rightarrow> ('v, 'r) call_context" where
  "new_call_context cd s c b running mx =
     \<lparr>cc_session = s, cc_running = running, cc_max = mx, cc_call = c, cc_body = b,
      cc_user = fold (load_write cd) (cw_state (cb_writes b)) []\<rparr>"

definition on_writes :: "('r call_writes \<Rightarrow> 'r call_writes) \<Rightarrow> ('v, 'r) call_context \<Rightarrow> ('v, 'r) call_context" where
  "on_writes f cc = cc\<lparr>cc_body := (cc_body cc)\<lparr>cb_writes := f (cb_writes (cc_body cc))\<rparr>\<rparr>"

definition state_get :: "('v, 'r) call_context \<Rightarrow> string \<Rightarrow> 'v option" where
  "state_get cc k =
     (case map_of (cc_user cc) k of Some v \<Rightarrow> v | None \<Rightarrow> map_of (sm_user (cc_session cc)) k)"

definition state_set :: "'v codec \<Rightarrow> string \<Rightarrow> 'v \<Rightarrow> ('v, 'r) call_context \<Rightarrow> gerr option \<times> ('v, 'r) call_context" where
  "state_set cd k v cc =
     (case cd_enc cd v of
        Inl e \<Rightarrow> (Some e, cc)
      | Inr raw \<Rightarrow>
          (None, on_writes (\<lambda>w. w\<lparr>cw_state := cw_state w @ [(k, Some raw)]\<rparr>)
                   (cc\<lparr>cc_user := AList.update k (Some v) (cc_user cc)\<rparr>)))"

definition state_delete :: "string \<Rightarrow> ('v, 'r) call_context \<Rightarrow> ('v, 'r) call_context" where
  "state_delete k cc =
     on_writes (\<lambda>w. w\<lparr>cw_state := cw_state w @ [(k, None)]\<rparr>) (cc\<lparr>cc_user := AList.update k None (cc_user cc)\<rparr>)"

definition cc_decision :: "('v, 'r) call_context \<Rightarrow> string \<Rightarrow> permission" where
  "cc_decision cc name =
     (case map_of (rev (cw_permissions (cb_writes (cc_body cc)))) name of
        Some d \<Rightarrow> d | None \<Rightarrow> decision_of (sm_permissions (cc_session cc)) name)"

definition remember_answer :: "tool_permission \<Rightarrow> ('v, 'r) call_context \<Rightarrow> ('v, 'r) call_context" where
  "remember_answer p cc =
     (if tp_kind p = allow_always
      then on_writes (\<lambda>w. w\<lparr>cw_permissions := cw_permissions w @ [(tp_tool p, PermAllowAlways)]\<rparr>) cc
      else if tp_kind p = reject_always
      then on_writes (\<lambda>w. w\<lparr>cw_permissions := cw_permissions w @ [(tp_tool p, PermDenyAlways)]\<rparr>) cc
      else cc)"

definition cc_rest :: "'r \<Rightarrow> ('v, 'r) call_context \<Rightarrow> string \<Rightarrow> 'r" where
  "cc_rest zero cc k =
     (case map_of (rev (cw_rests (cb_writes (cc_body cc)))) k of
        Some r \<Rightarrow> r
      | None \<Rightarrow> (case map_of (sm_rests (cc_session cc)) k of Some r \<Rightarrow> r | None \<Rightarrow> zero))"

definition cc_set_rest :: "string \<Rightarrow> 'r \<Rightarrow> ('v, 'r) call_context \<Rightarrow> ('v, 'r) call_context" where
  "cc_set_rest k r cc = on_writes (\<lambda>w. w\<lparr>cw_rests := cw_rests w @ [(k, r)]\<rparr>) cc"

definition apply_op :: "plan_op \<Rightarrow> plan \<Rightarrow> plan" where
  "apply_op op p = (case plan_change op p of Inl _ \<Rightarrow> p | Inr (p', _) \<Rightarrow> p')"

definition cc_plan :: "('v, 'r) call_context \<Rightarrow> plan" where
  "cc_plan cc = fold apply_op (cw_plan (cb_writes (cc_body cc))) (plan_of (sm_plan (cc_session cc)))"

definition cc_change_plan :: "plan_op \<Rightarrow> ('v, 'r) call_context \<Rightarrow>
  (plan_error + plan_output \<times> effect) \<times> ('v, 'r) call_context" where
  "cc_change_plan op cc =
     (case plan_change op (cc_plan cc) of
        Inl e \<Rightarrow> (Inl e, cc)
      | Inr (_, out) \<Rightarrow> (Inr out, on_writes (\<lambda>w. w\<lparr>cw_plan := cw_plan w @ [op]\<rparr>) cc))"


section \<open>Parks and answers\<close>

definition set_park :: "(interrupt \<times> bool) option \<Rightarrow> ('v, 'r) call_context \<Rightarrow> ('v, 'r) call_context" where
  "set_park p cc = cc\<lparr>cc_body := (cc_body cc)\<lparr>cb_park := p\<rparr>\<rparr>"

text \<open>The answered park of a type, taken off the call.\<close>

definition take_answer :: "string \<Rightarrow> ('v, 'r) call_context \<Rightarrow> interrupt option \<times> ('v, 'r) call_context" where
  "take_answer t cc =
     (case cb_park (cc_body cc) of
        Some (i, True) \<Rightarrow> if type_name i = t then (Some i, set_park None cc) else (None, cc)
      | _ \<Rightarrow> (None, cc))"

datatype park_error = UnregisteredType string | ParkedOn interrupt

definition cc_park :: "(string \<Rightarrow> bool) \<Rightarrow> interrupt \<Rightarrow> ('v, 'r) call_context \<Rightarrow>
  (park_error + interrupt) \<times> ('v, 'r) call_context" where
  "cc_park registered i cc =
     (case take_answer (type_name i) cc of
        (Some a, cc1) \<Rightarrow> (Inr a, cc1)
      | (None, cc1) \<Rightarrow>
          if \<not> registered (type_name i) then (Inl (UnregisteredType (type_name i)), cc1)
          else (Inl (ParkedOn i), set_park (Some (i, False)) cc1))"

datatype resume_error = NotParked | BadAnswer payload_error

definition cc_resume :: "payloads \<Rightarrow> string \<Rightarrow> ('v, 'r) call_context \<Rightarrow> resume_error option \<times> ('v, 'r) call_context" where
  "cc_resume py pl cc =
     (case cb_park (cc_body cc) of
        Some (i, False) \<Rightarrow>
          (case return_intr py i pl of
             (Some e, i') \<Rightarrow> (Some (BadAnswer e), set_park (Some (i', False)) cc)
           | (None, i') \<Rightarrow> (None, set_park (Some (i', True)) cc))
      | _ \<Rightarrow> (Some NotParked, cc))"

section \<open>Jobs\<close>

record job_request =
  jq_name :: string
  jq_task :: string
  jq_wait :: bool

record workforce =
  wf_session :: string
  wf_specialists :: "string list"
  wf_jobs :: "string list"

datatype job_error =
    JobNameRequired | IsSpecialist string | NotSpecialist string | NotRegistered string | TaskRequired
  | TooManyJobs string nat | JobUnknown string

definition start_job :: "workforce \<Rightarrow> job_request \<Rightarrow> bool \<Rightarrow> ('v, 'r) call_context \<Rightarrow>
  (job_error + string \<times> string) \<times> ('v, 'r) call_context" where
  "start_job wk q specialist cc =
     (let name = trim_space (jq_name q); task = trim_space (jq_task q);
          isSpec = (name \<in> set (wf_specialists wk))
      in if name = [] then (Inl JobNameRequired, cc)
         else if isSpec \<and> \<not> specialist then (Inl (IsSpecialist name), cc)
         else if \<not> isSpec \<and> specialist then (Inl (NotSpecialist name), cc)
         else if \<not> specialist \<and> name \<notin> set (wf_jobs wk) then (Inl (NotRegistered name), cc)
         else if task = [] then (Inl TaskRequired, cc)
         else
           let jid = child_id (wf_session wk) name (call_key (cc_call cc)) specialist;
               c = cc_call cc; started = (jid \<in> set (cc_running cc) \<or> (\<exists>s \<in> set (c_starts c). js_id s = jid));
               n = length (cc_running cc) + length (c_starts c)
           in if \<not> started \<and> 0 < cc_max cc \<and> cc_max cc \<le> int n then (Inl (TooManyJobs name n), cc)
              else
                let c1 = (if started then c else c\<lparr>c_starts := c_starts c @
                       [\<lparr>js_id = jid, js_name = name, js_task = task, js_specialist = specialist\<rparr>]\<rparr>);
                    c2 = (if jq_wait q then c1\<lparr>c_await := jid\<rparr> else c1)
                in (Inr (jid, name), cc\<lparr>cc_call := c2\<rparr>))"

definition cc_jobs :: "('v, 'r) call_context \<Rightarrow> (string \<times> string) list" where
  "cc_jobs cc = map (\<lambda>i. (i, [])) (cc_running cc) @ map (\<lambda>s. (js_id s, js_name s)) (c_starts (cc_call cc))"

definition cancel_job :: "string \<Rightarrow> ('v, 'r) call_context \<Rightarrow> job_error option \<times> ('v, 'r) call_context" where
  "cancel_job jid cc =
     (if jid \<notin> fst ` set (cc_jobs cc) then (Some (JobUnknown jid), cc)
      else (None, cc\<lparr>cc_call := (cc_call cc)\<lparr>c_cancels := c_cancels (cc_call cc) @ [jid]\<rparr>\<rparr>))"

datatype spawn_result = TaskMissing | SpecialistMissing | SpecialistUnknown | SpawnWaits | Spawned string string

definition spawn_specialist :: "workforce \<Rightarrow> string \<Rightarrow> string \<Rightarrow> bool option \<Rightarrow> ('v, 'r) call_context \<Rightarrow>
  spawn_result \<times> ('v, 'r) call_context" where
  "spawn_specialist wk task0 spec0 block cc =
     (let spec = trim_space spec0; task = trim_space task0; wait = (block = None \<or> block = Some True)
      in if task = [] then (TaskMissing, cc)
         else if spec = [] then (SpecialistMissing, cc)
         else case start_job wk \<lparr>jq_name = spec, jq_task = task, jq_wait = wait\<rparr> True cc of
                (Inl _, cc1) \<Rightarrow> (SpecialistUnknown, cc1)
              | (Inr (jid, name), cc1) \<Rightarrow> (if wait then SpawnWaits else Spawned jid name, cc1))"

section \<open>OnCall layers\<close>

datatype tool_error = ToolParked interrupt | PermissionDenied string | AuthExpiredErr_of gerr | ToolFailed gerr

definition layer_of :: "string \<Rightarrow> ('v, 'r) call_context \<Rightarrow> string option" where
  "layer_of t cc = map_of (cb_layers (cc_body cc)) t"

definition record_layer :: "string \<Rightarrow> string \<Rightarrow> ('v, 'r) call_context \<Rightarrow> ('v, 'r) call_context" where
  "record_layer t args cc = cc\<lparr>cc_body := (cc_body cc)\<lparr>cb_layers := cb_layers (cc_body cc) @ [(t, args)]\<rparr>\<rparr>"

definition finish_layer :: "string \<Rightarrow> string \<Rightarrow> string \<Rightarrow> bool \<Rightarrow> ('v, 'r) call_context \<Rightarrow>
  (tool_error + string) \<times> ('v, 'r) call_context" where
  "finish_layer tool t args denied cc =
     (if denied then (Inl (PermissionDenied tool), cc) else (Inr args, record_layer t args cc))"

text \<open>
  One layer: an error ends the call's run, and otherwise the arguments go on. A constructor
  sees the arguments and the call; it writes nothing to it.
\<close>

type_synonym ('v, 'r) on_call = "string \<Rightarrow> ('v, 'r) call_context \<Rightarrow> interrupt option"

definition on_call_layer :: "string \<Rightarrow> ('v, 'r) on_call \<Rightarrow> string \<Rightarrow> ('v, 'r) call_context \<Rightarrow>
  (tool_error + string) \<times> ('v, 'r) call_context" where
  "on_call_layer tool ctor args cc =
     (case ctor args cc of
        None \<Rightarrow> (Inr args, cc)
      | Some i \<Rightarrow>
          (case layer_of (type_name i) cc of
             Some args' \<Rightarrow> (Inr args', cc)
           | None \<Rightarrow>
               (case take_answer (type_name i) cc of
                  (Some a, cc1) \<Rightarrow>
                    (case a of
                       PermissionIntr p \<Rightarrow>
                         finish_layer tool (type_name i) args (\<not> tp_allowed p) (remember_answer p cc1)
                     | _ \<Rightarrow> finish_layer tool (type_name i) args False cc1)
                | (None, cc1) \<Rightarrow>
                    (case i of
                       PermissionIntr p \<Rightarrow>
                         (case cc_decision cc1 (tp_tool p) of
                            PermDenyAlways \<Rightarrow> finish_layer tool (type_name i) args True cc1
                          | PermAllowAlways \<Rightarrow> finish_layer tool (type_name i) args False cc1
                          | PermNone \<Rightarrow> (Inl (ToolParked i), set_park (Some (i, False)) cc1))
                     | _ \<Rightarrow> (Inl (ToolParked i), set_park (Some (i, False)) cc1)))))"

fun on_call_layers :: "string \<Rightarrow> ('v, 'r) on_call list \<Rightarrow> string \<Rightarrow> ('v, 'r) call_context \<Rightarrow>
  (tool_error + string) \<times> ('v, 'r) call_context" where
  "on_call_layers tool [] args cc = (Inr args, cc)"
| "on_call_layers tool (k # ks) args cc =
     (case on_call_layer tool k args cc of
        (Inl e, cc1) \<Rightarrow> (Inl e, cc1)
      | (Inr args1, cc1) \<Rightarrow> on_call_layers tool ks args1 cc1)"

text \<open>A tool: its qualified name, its layers and its handler.\<close>

record outcome =
  oc_output :: string
  oc_effect :: effect

record ('v, 'r) tool =
  tl_name :: string
  tl_on_call :: "('v, 'r) on_call list"
  tl_handler :: "string \<Rightarrow> ('v, 'r) call_context \<Rightarrow> (tool_error + outcome) \<times> ('v, 'r) call_context"

definition run_tool :: "('v, 'r) tool \<Rightarrow> string \<Rightarrow> ('v, 'r) call_context \<Rightarrow>
  (tool_error + outcome) \<times> ('v, 'r) call_context" where
  "run_tool tk args cc =
     (case on_call_layers (tl_name tk) (tl_on_call tk) args cc of
        (Inl e, cc1) \<Rightarrow> (Inl e, cc1)
      | (Inr args1, cc1) \<Rightarrow> tl_handler tk args1 cc1)"

definition permission_on_call :: "string \<Rightarrow> (string \<Rightarrow> string) \<Rightarrow> ('v, 'r) on_call" where
  "permission_on_call name title args cc =
     Some (PermissionIntr \<lparr>tp_tool = name, tp_title = title args, tp_options = default_options,
                           tp_selected = [], tp_kind = [], tp_allowed = False\<rparr>)"


section \<open>Running a call\<close>

definition tool_result :: "tool_call \<Rightarrow> string \<Rightarrow> message" where
  "tool_result tc content = (text_message RoleTool content)\<lparr>m_tool_call_id := wire_id tc\<rparr>"

definition finish_call :: "string \<Rightarrow> effect \<Rightarrow> ('v, 'r) call_context \<Rightarrow> ('v, 'r) call_context" where
  "finish_call content ef cc =
     cc\<lparr>cc_body := (cc_body cc)\<lparr>cb_result := Some (tool_result (c_tool (cc_call cc)) content), cb_effect := ef\<rparr>,
        cc_call := (cc_call cc)\<lparr>c_done := True\<rparr>\<rparr>"

definition park_call :: "(interrupt \<Rightarrow> string) \<Rightarrow> interrupt \<Rightarrow> ('v, 'r) call_context \<Rightarrow> ('v, 'r) call_context" where
  "park_call data i cc =
     cc\<lparr>cc_call := (cc_call cc)\<lparr>c_park := Some \<lparr>pk_interrupt_id = call_key (cc_call cc), pk_data = data i\<rparr>\<rparr>\<rparr>"

text \<open>The texts of the code's errors, and the JSON of a park, are parameters of the model.\<close>

record texts =
  tx_error :: "tool_error \<Rightarrow> string"
  tx_unknown_tool :: "string \<Rightarrow> string"
  tx_park :: "interrupt \<Rightarrow> string"

definition execute_tool_call :: "texts \<Rightarrow> (string \<Rightarrow> string \<Rightarrow> ('v, 'r) tool option) \<Rightarrow>
  ('v, 'r) call_context \<Rightarrow> ('v, 'r) call_context" where
  "execute_tool_call tx find_tool cc =
     (let tc = c_tool (cc_call cc) in
      case find_tool (tc_name tc) (tc_namespace tc) of
        None \<Rightarrow> finish_call (tx_unknown_tool tx (tc_name tc)) EffectNone cc
      | Some tk \<Rightarrow>
          (case run_tool tk (tc_arguments tc) cc of
             (Inl (ToolParked i), cc1) \<Rightarrow> park_call (tx_park tx) i cc1
           | (Inl (AuthExpiredErr_of g), cc1) \<Rightarrow>
               (let i = AuthIntr (tc_name tc) [] in park_call (tx_park tx) i (set_park (Some (i, False)) cc1))
           | (Inl e, cc1) \<Rightarrow> finish_call (tx_error tx e) EffectNone cc1
           | (Inr out, cc1) \<Rightarrow>
               (if c_await (cc_call cc1) \<noteq> [] then cc1
                else finish_call (oc_output out) (oc_effect out) cc1)))"

definition close_context :: "('v, 'r) call_context \<Rightarrow> 'r call_body call" where
  "close_context cc = (cc_call cc)\<lparr>c_body := Some (cc_body cc)\<rparr>"

definition run_call :: "texts \<Rightarrow> payloads \<Rightarrow> 'v codec \<Rightarrow> (string \<Rightarrow> string \<Rightarrow> ('v, 'r) tool option) \<Rightarrow>
  ('v, 'r) session_manager \<Rightarrow> 'r call_body call \<Rightarrow> resume_error option \<times> 'r call_body call" where
  "run_call tx py cd find_tool s c =
     (let c1 = c\<lparr>c_answer := None, c_job_end := None, c_jobs := [], c_max_jobs := 0,
                 c_park := None, c_await := [], c_starts := [], c_cancels := []\<rparr>;
          b = (case c_body c of None \<Rightarrow> empty_body | Some b \<Rightarrow> b);
          cc = new_call_context cd s c1 b (c_jobs c) (c_max_jobs c)
      in case c_job_end c of
           Some je \<Rightarrow> (None, close_context (finish_call (jr_output je) EffectNone cc))
         | None \<Rightarrow>
             (case c_answer c of
                None \<Rightarrow> (None, close_context (execute_tool_call tx find_tool cc))
              | Some a \<Rightarrow>
                  (case cc_resume py a cc of
                     (Some e, cc1) \<Rightarrow> (Some e, close_context cc1)
                   | (None, cc1) \<Rightarrow> (None, close_context (execute_tool_call tx find_tool cc1)))))"

section \<open>Committing a reply's round\<close>

definition cancelled_result :: string where
  "cancelled_result = ''cancelled: user interrupted the agent''"

definition max_effect :: "effect \<Rightarrow> effect \<Rightarrow> effect" where
  "max_effect a b =
     (if a = EffectInstallPlan \<or> b = EffectInstallPlan then EffectInstallPlan
      else if a = EffectHandoff \<or> b = EffectHandoff then EffectHandoff else EffectNone)"

text \<open>
  The calls of a round in order: the session with their writes, their result messages (nil for
  a done call whose body has none), the effect, and the todos of each plan update that is
  emitted; or the call whose body is missing, with the session as the calls before it left it.
\<close>

fun commit_calls :: "'v codec \<Rightarrow> 'r call_body call list \<Rightarrow> ('v, 'r) session_manager \<Rightarrow> message option list \<Rightarrow>
  effect \<Rightarrow> todo list option list \<Rightarrow>
  (string + message option list \<times> effect) \<times> ('v, 'r) session_manager \<times> todo list option list" where
  "commit_calls cd [] s ms ef ups = (Inr (ms, ef), s, ups)"
| "commit_calls cd (c # cs) s ms ef ups =
     (if c_done c \<and> c_body c = None then (Inl (call_key c), s, ups)
      else
        let (s1, r1, ef1, ups1) =
              (case c_body c of
                 None \<Rightarrow> (s, None, ef, ups)
               | Some b \<Rightarrow>
                   let s' = apply_writes cd (cb_writes b) s; (up, ps) = consume_updated (sm_plan s')
                   in (s'\<lparr>sm_plan := ps\<rparr>, cb_result b, max_effect ef (cb_effect b),
                       ups @ (case up of None \<Rightarrow> [] | Some t \<Rightarrow> [t])));
            r = (if c_done c then r1 else Some (tool_result (c_tool c) cancelled_result))
        in commit_calls cd cs s1 (ms @ [r]) ef1 ups1)"

definition commit_reply_round :: "'v codec \<Rightarrow> 'r call_body round \<Rightarrow> ('v, 'r) session_manager \<Rightarrow>
  (string + message option list \<times> effect) \<times> ('v, 'r) session_manager \<times> todo list option list" where
  "commit_reply_round cd r s =
     commit_calls cd (rd_calls r) s (map Some (rp_messages (rd_reply r))) EffectNone []"


section \<open>A call reads its own writes\<close>

text \<open>The operations a handler has on its context that write.\<close>

datatype ('v, 'r) call_op =
    SetState string 'v
  | DeleteState string
  | Remember tool_permission
  | SetRest string 'r
  | ChangePlan plan_op

fun call_step :: "'v codec \<Rightarrow> ('v, 'r) call_op \<Rightarrow> ('v, 'r) call_context \<Rightarrow> ('v, 'r) call_context" where
  "call_step cd (SetState k v) cc = snd (state_set cd k v cc)"
| "call_step cd (DeleteState k) cc = state_delete k cc"
| "call_step cd (Remember p) cc = remember_answer p cc"
| "call_step cd (SetRest k r) cc = cc_set_rest k r cc"
| "call_step cd (ChangePlan op) cc = snd (cc_change_plan op cc)"

abbreviation writes_of :: "('v, 'r) call_context \<Rightarrow> 'r call_writes" where
  "writes_of cc \<equiv> cb_writes (cc_body cc)"

definition writes_ok :: "'r call_writes \<Rightarrow> bool" where
  "writes_ok w \<longleftrightarrow> (\<forall>(n, d) \<in> set (cw_permissions w). d \<noteq> PermNone)"

text \<open>
  What the context holds in memory of the state it wrote is what its writes say; a value set in
  this run (one of \<open>sets\<close>) is held as it was given, and its write holds its encoding.
\<close>

definition user_agrees :: "'v codec \<Rightarrow> (string \<times> 'v) set \<Rightarrow> (string, 'v option) gomap \<Rightarrow> (string, 'v option) gomap \<Rightarrow> bool" where
  "user_agrees cd sets m wm \<longleftrightarrow>
     (\<forall>k. map_of m k = map_of wm k
        \<or> (\<exists>v raw. (k, v) \<in> sets \<and> cd_enc cd v = Inr raw \<and> map_of m k = Some (Some v) \<and> map_of wm k = Some (Some (cd_dec cd raw))))"

definition context_ok :: "'v codec \<Rightarrow> (string \<times> 'v) set \<Rightarrow> ('v, 'r) session_manager \<Rightarrow> ('v, 'r) call_context \<Rightarrow> bool" where
  "context_ok cd sets s cc \<longleftrightarrow>
     cc_session cc = s \<and> user_agrees cd sets (cc_user cc) (fold (load_write cd) (cw_state (writes_of cc)) []) \<and> writes_ok (writes_of cc)"

lemma user_agrees_refl: "user_agrees cd sets m m"
  by (simp add: user_agrees_def)

lemma user_agrees_update:
  "user_agrees cd sets m wm \<Longrightarrow> user_agrees cd sets (AList.update k x m) (AList.update k x wm)"
  by (auto simp: user_agrees_def update_conv')

lemma user_agrees_set:
  "user_agrees cd sets m wm \<Longrightarrow> (k, v) \<in> sets \<Longrightarrow> cd_enc cd v = Inr raw \<Longrightarrow>
    user_agrees cd sets (AList.update k (Some v) m) (AList.update k (Some (cd_dec cd raw)) wm)"
  by (auto simp: user_agrees_def update_conv')

lemma on_writes_sel [simp]:
  "cc_session (on_writes f cc) = cc_session cc" "cc_user (on_writes f cc) = cc_user cc"
  "writes_of (on_writes f cc) = f (writes_of cc)" "cc_call (on_writes f cc) = cc_call cc"
  "cb_park (cc_body (on_writes f cc)) = cb_park (cc_body cc)"
  "cb_layers (cc_body (on_writes f cc)) = cb_layers (cc_body cc)"
  by (simp_all add: on_writes_def)

lemma context_ok_new: "writes_ok (cb_writes b) \<Longrightarrow> context_ok cd sets s (new_call_context cd s c b js mx)"
  by (simp add: context_ok_def new_call_context_def user_agrees_refl)

lemma context_ok_step:
  assumes "context_ok cd sets s cc" and "\<And>k v. op = SetState k v \<Longrightarrow> (k, v) \<in> sets"
  shows "context_ok cd sets s (call_step cd op cc)"
proof (cases op)
  case (SetState k v)
  then show ?thesis using assms
    by (auto simp: state_set_def context_ok_def writes_ok_def load_write_def on_writes_def intro: user_agrees_set split: sum.splits)
next
  case (DeleteState k)
  then show ?thesis using assms
    by (auto simp: state_delete_def context_ok_def writes_ok_def load_write_def on_writes_def intro: user_agrees_update)
next
  case (Remember p)
  then show ?thesis using assms
    by (auto simp: remember_answer_def context_ok_def writes_ok_def)
next
  case (SetRest k r)
  then show ?thesis using assms
    by (auto simp: cc_set_rest_def context_ok_def writes_ok_def)
next
  case (ChangePlan op)
  then show ?thesis using assms
    by (auto simp: cc_change_plan_def context_ok_def writes_ok_def split: sum.splits)
qed

lemma context_ok_steps:
  "context_ok cd sets s cc \<Longrightarrow> (\<And>k v. SetState k v \<in> set ops \<Longrightarrow> (k, v) \<in> sets) \<Longrightarrow>
    context_ok cd sets s (fold (call_step cd) ops cc)"
  by (induction ops arbitrary: cc) (simp_all add: context_ok_step)

lemma map_of_loaded:
  "(case map_of (fold (load_write cd) ws []) k of Some v \<Rightarrow> v | None \<Rightarrow> map_of m k) =
    map_of (fold (apply_state cd) ws m) k"
proof (induction ws rule: rev_induct)
  case (snoc w ws)
  then show ?case
    by (cases "snd w") (auto simp: load_write_def apply_state_def update_conv delete_conv)
qed simp

lemma decision_of_writes:
  "\<forall>(n, d) \<in> set ws. d \<noteq> PermNone \<Longrightarrow>
    (case map_of (rev ws) n of Some d \<Rightarrow> d | None \<Rightarrow> decision_of p n) =
    decision_of (fold (\<lambda>(n, d). set_decision n d) ws p) n"
proof (induction ws rule: rev_induct)
  case (snoc w ws)
  obtain m d where "w = (m, d)" by (cases w)
  with snoc show ?case
    by (cases d) (auto simp: decision_of_def set_decision_def update_conv split: option.splits)
qed simp

lemma rest_of_writes:
  "(case map_of (rev ws) k of Some r \<Rightarrow> r | None \<Rightarrow> (case map_of m k of Some r \<Rightarrow> r | None \<Rightarrow> zero)) =
    (case map_of (fold (\<lambda>(k, r). AList.update k r) ws m) k of Some r \<Rightarrow> r | None \<Rightarrow> zero)"
proof (induction ws rule: rev_induct)
  case (snoc w ws)
  then show ?case by (cases w) (auto simp: update_conv split: option.splits)
qed simp

lemma plan_of_replay: "plan_of (replay_plan_op ps op) = apply_op op (plan_of ps)"
  by (auto simp: replay_plan_op_def change_plan_def apply_op_def plan_of_def split: sum.splits prod.splits)

lemma plan_of_replays: "plan_of (fold (\<lambda>op ps. replay_plan_op ps op) ops ps) = fold apply_op ops (plan_of ps)"
  by (induction ops arbitrary: ps) (simp_all add: plan_of_replay)

lemma context_ok_reads:
  assumes "context_ok cd sets s cc"
  defines "s' \<equiv> apply_writes cd (writes_of cc) s"
  shows "state_get cc k = map_of (sm_user s') k
      \<or> (\<exists>v raw. (k, v) \<in> sets \<and> cd_enc cd v = Inr raw \<and> state_get cc k = Some v \<and> map_of (sm_user s') k = Some (cd_dec cd raw))"
    and "cc_decision cc n = decision_of (sm_permissions s') n"
    and "cc_rest zero cc k' = (case map_of (sm_rests s') k' of Some r \<Rightarrow> r | None \<Rightarrow> zero)"
    and "cc_plan cc = plan_of (sm_plan s')"
proof -
  let ?wm = "fold (load_write cd) (cw_state (writes_of cc)) []"
  have committed: "map_of (sm_user s') k = (case map_of ?wm k of Some v \<Rightarrow> v | None \<Rightarrow> map_of (sm_user s) k)"
    by (simp add: s'_def apply_writes_def map_of_loaded)
  have "map_of (cc_user cc) k = map_of ?wm k
        \<or> (\<exists>v raw. (k, v) \<in> sets \<and> cd_enc cd v = Inr raw \<and> map_of (cc_user cc) k = Some (Some v) \<and> map_of ?wm k = Some (Some (cd_dec cd raw)))"
    using assms(1) by (simp add: context_ok_def user_agrees_def)
  moreover have "cc_session cc = s" using assms(1) by (simp add: context_ok_def)
  ultimately show "state_get cc k = map_of (sm_user s') k
      \<or> (\<exists>v raw. (k, v) \<in> sets \<and> cd_enc cd v = Inr raw \<and> state_get cc k = Some v \<and> map_of (sm_user s') k = Some (cd_dec cd raw))"
    by (auto simp: state_get_def committed)
  show "cc_decision cc n = decision_of (sm_permissions s') n"
    "cc_rest zero cc k' = (case map_of (sm_rests s') k' of Some r \<Rightarrow> r | None \<Rightarrow> zero)"
    "cc_plan cc = plan_of (sm_plan s')"
    using assms decision_of_writes [of "cw_permissions (writes_of cc)"]
    by (simp_all add: context_ok_def writes_ok_def apply_writes_def cc_decision_def cc_rest_def rest_of_writes cc_plan_def plan_of_replays)
qed

text \<open>
  C15. What a call reads during its run is what the session holds once its writes are
  committed: after any sequence of state, permission, search and plan operations, each read of
  the call equals the same read of the committed state with the call's writes applied, but for a
  value the run itself set: the call reads the value as it was set, and the session then holds
  its JSON encoding, decoded (an int comes back as a float64).
\<close>

theorem call_sees_commit:
  assumes "writes_ok (cb_writes b)"
    and "cc = fold (call_step cd) ops (new_call_context cd s c b js mx)"
    and "s' = apply_writes cd (writes_of cc) s"
  shows "(state_get cc k = map_of (sm_user s') k
        \<or> (\<exists>v raw. SetState k v \<in> set ops \<and> cd_enc cd v = Inr raw \<and> state_get cc k = Some v \<and> map_of (sm_user s') k = Some (cd_dec cd raw)))
    \<and> cc_decision cc n = decision_of (sm_permissions s') n
    \<and> cc_rest zero cc r = (case map_of (sm_rests s') r of Some x \<Rightarrow> x | None \<Rightarrow> zero) \<and> cc_plan cc = plan_of (sm_plan s')"
proof -
  have "context_ok cd {(k, v). SetState k v \<in> set ops} s cc"
    unfolding assms(2) by (intro context_ok_steps context_ok_new assms(1)) simp
  from context_ok_reads [OF this] show ?thesis unfolding assms(3) by blast
qed

definition demo_codec :: "string codec" where
  "demo_codec = \<lparr>cd_enc = (\<lambda>v. Inr v), cd_dec = (\<lambda>raw. raw)\<rparr>"

definition demo_permission :: tool_permission where
  "demo_permission = \<lparr>tp_tool = ''run'', tp_title = [], tp_options = default_options, tp_selected = ''allow-always'',
     tp_kind = allow_always, tp_allowed = True\<rparr>"

definition demo_session :: "(string, nat) session_manager" where
  "demo_session = new_session_manager\<lparr>sm_user := [(''a'', ''old''), (''b'', ''old'')]\<rparr>"

definition demo_ops :: "(string, nat) call_op list" where
  "demo_ops = [SetState ''a'' ''new'', DeleteState ''b'', Remember demo_permission, SetRest ''h'' 7,
     ChangePlan (CreatePlan ''doc'' [\<lparr>td_title = ''t'', td_status = [], td_description = []\<rparr>])]"

definition demo_tool_call :: tool_call where
  "demo_tool_call = \<lparr>tc_id = ''1'', tc_type = [], tc_call_id = ''1'', tc_name = ''run'', tc_title = [],
     tc_category = [], tc_namespace = [], tc_arguments = [], tc_status = []\<rparr>"

text \<open>A codec that, as JSON does with ints, gives back another value than it was given.\<close>

definition float_codec :: "string codec" where
  "float_codec = \<lparr>cd_enc = (\<lambda>v. Inr v), cd_dec = (\<lambda>raw. raw @ ''.0'')\<rparr>"

theorem call_sees_commit_witness:
  "\<exists>cc s'. cc = fold (call_step float_codec) demo_ops (new_call_context float_codec demo_session (new_call demo_tool_call 0) empty_body [] 0)
     \<and> s' = apply_writes float_codec (writes_of cc) demo_session
     \<and> state_get cc ''a'' = Some ''new'' \<and> map_of (sm_user s') ''a'' = Some ''new.0''
     \<and> map_of (sm_user s') ''b'' = None \<and> decision_of (sm_permissions s') ''run'' = PermAllowAlways"
proof -
  let ?c = "new_call_context float_codec demo_session (new_call demo_tool_call 0) empty_body [] 0"
  let ?cc = "fold (call_step float_codec) demo_ops ?c" and ?s' = "apply_writes float_codec (writes_of (fold (call_step float_codec) demo_ops ?c)) demo_session"
  have ok: "writes_ok (cb_writes (empty_body :: nat call_body))"
    by (simp add: writes_ok_def empty_body_def no_writes_def)
  have r: "state_get ?cc ''a'' = Some ''new''" "state_get ?cc ''b'' = None" "cc_decision ?cc ''run'' = PermAllowAlways"
    "map_of (sm_user ?s') ''a'' = Some ''new.0''"
    by (simp_all add: demo_ops_def state_get_def cc_decision_def float_codec_def state_set_def state_delete_def
        remember_answer_def demo_permission_def cc_set_rest_def cc_change_plan_def cc_plan_def create_plan_change_def
        new_call_context_def empty_body_def no_writes_def on_writes_def demo_session_def new_session_manager_def
        new_plan_store_def plan_of_def allow_always_def reject_always_def update_conv apply_writes_def apply_state_def)
  have "map_of (sm_user ?s') ''b'' = None" "decision_of (sm_permissions ?s') ''run'' = PermAllowAlways"
    using call_sees_commit [OF ok refl refl, of float_codec demo_ops demo_session "new_call demo_tool_call 0" "[]" 0 "''b''" "''run''" 0 "''h''"] r
    by auto
  then show ?thesis using r by blast
qed

section \<open>The layers guard the handler\<close>

lemma set_park_sel [simp]:
  "cc_session (set_park p cc) = cc_session cc" "writes_of (set_park p cc) = writes_of cc"
  "cb_layers (cc_body (set_park p cc)) = cb_layers (cc_body cc)" "cb_park (cc_body (set_park p cc)) = p"
  "cc_call (set_park p cc) = cc_call cc"
  by (simp_all add: set_park_def)

definition permission_type :: string where
  "permission_type = ''tool_permission''"

text \<open>The user's answer to a permission park, not taken yet, allows the tool.\<close>

definition answered_allowed :: "('v, 'r) call_context \<Rightarrow> bool" where
  "answered_allowed cc \<longleftrightarrow>
     (\<exists>p. cb_park (cc_body cc) = Some (PermissionIntr p, True) \<and> tp_allowed p)"

text \<open>Every layer that asks for a permission asks for it in the tool's name.\<close>

definition asks_for :: "string \<Rightarrow> ('v, 'r) on_call \<Rightarrow> bool" where
  "asks_for name ctor \<longleftrightarrow>
     (\<forall>args cc i. ctor args cc = Some i \<longrightarrow> type_name i = permission_type \<longrightarrow> (\<exists>p. i = PermissionIntr p \<and> tp_tool p = name))"

text \<open>What a layer of another type leaves as it was.\<close>

definition same_grant :: "('v, 'r) call_context \<Rightarrow> ('v, 'r) call_context \<Rightarrow> bool" where
  "same_grant cc cc1 \<longleftrightarrow>
     layer_of permission_type cc1 = layer_of permission_type cc \<and> cc_decision cc1 = cc_decision cc \<and>
     (answered_allowed cc1 \<longrightarrow> answered_allowed cc) \<and>
     (\<forall>i. cb_park (cc_body cc1) = Some (i, True) \<longrightarrow> cb_park (cc_body cc) = Some (i, True))"

lemma same_grant_refl [simp]: "same_grant cc cc"
  by (simp add: same_grant_def)

lemma same_grant_set_park [simp]: "same_grant cc (set_park None cc)"
  by (simp add: same_grant_def layer_of_def answered_allowed_def fun_eq_iff cc_decision_def cong: option.case_cong)

lemma record_layer_sel [simp]:
  "cc_decision (record_layer t args cc) = cc_decision cc"
  "cb_park (cc_body (record_layer t args cc)) = cb_park (cc_body cc)"
  "answered_allowed (record_layer t args cc) = answered_allowed cc"
  by (simp_all add: record_layer_def cc_decision_def answered_allowed_def fun_eq_iff cong: option.case_cong)

lemma layer_of_record: "t \<noteq> t' \<Longrightarrow> layer_of t' (record_layer t args cc) = layer_of t' cc"
  by (auto simp: layer_of_def record_layer_def map_add_def split: option.splits)

lemma same_grant_record:
  "same_grant cc cc1 \<Longrightarrow> t \<noteq> permission_type \<Longrightarrow> same_grant cc (record_layer t args cc1)"
  by (simp add: same_grant_def layer_of_record)

lemma same_grant_trans: "same_grant a b \<Longrightarrow> same_grant b c \<Longrightarrow> same_grant a c"
  by (auto simp: same_grant_def)

lemma type_name_permission [simp]: "type_name (PermissionIntr p) = permission_type"
  by (simp add: type_name_def permission_type_def)

lemma take_answer_same: "take_answer t cc = (a, cc1) \<Longrightarrow> same_grant cc cc1"
  by (auto simp: take_answer_def split: option.splits bool.splits if_splits)

lemma take_answer_Some:
  "take_answer t cc = (Some a, cc1) \<Longrightarrow> cb_park (cc_body cc) = Some (a, True) \<and> type_name a = t"
  by (auto simp: take_answer_def split: option.splits bool.splits if_splits)

text \<open>A layer of another type that lets the call on keeps the grant.\<close>

lemma other_layer:
  assumes "on_call_layer tool ctor args cc = (Inr args1, cc1)"
    and "\<And>i. ctor args cc = Some i \<Longrightarrow> type_name i \<noteq> permission_type"
  shows "same_grant cc cc1"
proof (cases "ctor args cc")
  case None
  then show ?thesis using assms(1) by (simp add: on_call_layer_def)
next
  case (Some i)
  then have t: "type_name i \<noteq> permission_type" using assms(2) by blast
  obtain a cc2 where ta: "take_answer (type_name i) cc = (a, cc2)" by (cases "take_answer (type_name i) cc")
  note same = take_answer_same [OF ta]
  have np: "a \<noteq> Some (PermissionIntr p)" "i \<noteq> PermissionIntr p" for p
    using t take_answer_Some [of "type_name i" cc "PermissionIntr p" cc2] ta by auto
  show ?thesis
    using assms(1) Some ta np t same same_grant_record [OF same t]
    by (auto simp: on_call_layer_def finish_layer_def split: option.splits interrupt.splits)
qed

text \<open>A permission layer lets the call on for one of three reasons.\<close>

lemma permission_layer:
  assumes "on_call_layer tool ctor args cc = (Inr args1, cc1)" and "ctor args cc = Some (PermissionIntr p)"
    and "\<forall>i. cb_park (cc_body cc) = Some (i, True) \<longrightarrow> type_name i = permission_type \<longrightarrow> (\<exists>q. i = PermissionIntr q)"
  shows "layer_of permission_type cc \<noteq> None \<or> answered_allowed cc \<or> cc_decision cc (tp_tool p) = PermAllowAlways"
proof (cases "layer_of permission_type cc")
  case None
  obtain a cc2 where ta: "take_answer permission_type cc = (a, cc2)" by (cases "take_answer permission_type cc")
  show ?thesis
  proof (cases a)
    case None
    then have "cc_decision cc2 = cc_decision cc" using take_answer_same [OF ta] by (simp add: same_grant_def)
    then show ?thesis using assms(1,2) \<open>layer_of permission_type cc = None\<close> ta None
      by (cases "cc_decision cc (tp_tool p)") (simp_all add: on_call_layer_def finish_layer_def)
  next
    case (Some i)
    then have i: "cb_park (cc_body cc) = Some (i, True)" "type_name i = permission_type"
      using take_answer_Some [of permission_type cc i cc2] ta by auto
    then obtain q where "i = PermissionIntr q" using assms(3) by blast
    then show ?thesis using assms(1,2) \<open>layer_of permission_type cc = None\<close> ta Some i
      by (cases "tp_allowed q") (auto simp: on_call_layer_def finish_layer_def answered_allowed_def)
  qed
qed simp

lemma layers_pass:
  assumes "on_call_layers tool ks args cc = (Inr args1, cc1)"
    and "\<forall>k \<in> set ks. asks_for name k"
    and "\<exists>k \<in> set ks. \<forall>args cc. \<exists>p. k args cc = Some (PermissionIntr p)"
    and "\<forall>i. cb_park (cc_body cc) = Some (i, True) \<longrightarrow> type_name i = permission_type \<longrightarrow> (\<exists>q. i = PermissionIntr q)"
  shows "layer_of permission_type cc \<noteq> None \<or> answered_allowed cc \<or> cc_decision cc name = PermAllowAlways"
  using assms
proof (induction ks arbitrary: args cc)
  case (Cons k ks)
  obtain r cc2 where l: "on_call_layer tool k args cc = (r, cc2)" by (cases "on_call_layer tool k args cc")
  with Cons.prems(1) obtain args2 where r: "r = Inr args2" by (cases r) auto
  show ?case
  proof (cases "\<exists>i. k args cc = Some i \<and> type_name i = permission_type")
    case True
    then obtain i where i: "k args cc = Some i" "type_name i = permission_type" by blast
    moreover have "asks_for name k" using Cons.prems(2) by simp
    ultimately obtain p where "i = PermissionIntr p" and t: "tp_tool p = name" unfolding asks_for_def by blast
    with i have p: "k args cc = Some (PermissionIntr p)" by simp
    then show ?thesis using permission_layer [OF l [unfolded r] p Cons.prems(4)] t by simp
  next
    case False
    have same: "same_grant cc cc2" by (rule other_layer [OF l [unfolded r]]) (use False in blast)
    have "\<exists>k' \<in> set ks. \<forall>args cc. \<exists>p. k' args cc = Some (PermissionIntr p)"
      using Cons.prems(3) False by (metis set_ConsD type_name_permission)
    moreover have "on_call_layers tool ks args2 cc2 = (Inr args1, cc1)" using Cons.prems(1) l r by simp
    moreover have "\<forall>i. cb_park (cc_body cc2) = Some (i, True) \<longrightarrow> type_name i = permission_type \<longrightarrow> (\<exists>q. i = PermissionIntr q)"
      using same Cons.prems(4) by (auto simp: same_grant_def)
    ultimately show ?thesis using Cons.IH [of args2 cc2] Cons.prems(2) same by (auto simp: same_grant_def)
  qed
qed simp

text \<open>An answered park of the permission type holds a permission.\<close>

definition park_typed :: "('v, 'r) call_context \<Rightarrow> bool" where
  "park_typed cc \<longleftrightarrow>
     (\<forall>i. cb_park (cc_body cc) = Some (i, True) \<longrightarrow> type_name i = permission_type \<longrightarrow> (\<exists>q. i = PermissionIntr q))"

text \<open>
  C16. A tool with a permission layer never reaches its handler unasked: when no layer of the
  call was passed before, no answer of the user that allows it waits, and no decision allows
  it always, its run ends in the same error and the same context whatever its handler is.
\<close>

theorem permission_gates_handler:
  assumes "permission_on_call name title \<in> set (tl_on_call tk)" and "\<forall>k \<in> set (tl_on_call tk). asks_for name k"
    and "park_typed cc" and "layer_of permission_type cc = None" and "\<not> answered_allowed cc"
    and "cc_decision cc name \<noteq> PermAllowAlways"
  shows "\<exists>e cc1. \<forall>h. run_tool (tk\<lparr>tl_handler := h\<rparr>) args cc = (Inl e, cc1)"
proof -
  obtain r cc1 where l: "on_call_layers (tl_name tk) (tl_on_call tk) args cc = (r, cc1)"
    by (cases "on_call_layers (tl_name tk) (tl_on_call tk) args cc")
  have asks: "\<exists>k \<in> set (tl_on_call tk). \<forall>args cc. \<exists>p. k args cc = Some (PermissionIntr p)"
    using assms(1) by (auto simp: permission_on_call_def intro!: bexI [of _ "permission_on_call name title"])
  show ?thesis
  proof (cases r)
    case (Inl e)
    then show ?thesis using l by (auto simp: run_tool_def)
  next
    case (Inr args1)
    then show ?thesis
      using layers_pass [OF l [unfolded Inr] assms(2) asks assms(3) [unfolded park_typed_def]] assms(4-6) by simp
  qed
qed

definition demo_gated :: "(string, nat) tool" where
  "demo_gated = \<lparr>tl_name = ''run'', tl_on_call = [permission_on_call ''run'' (\<lambda>args. ''Run'')],
     tl_handler = (\<lambda>args cc. (Inr \<lparr>oc_output = ''ran'', oc_effect = EffectNone\<rparr>, cc))\<rparr>"

definition demo_context :: "(string, nat) call_context" where
  "demo_context = new_call_context demo_codec demo_session (new_call demo_tool_call 0) empty_body [] 0"

theorem permission_gates_handler_witness:
  "\<exists>e cc1. \<forall>h. run_tool (demo_gated\<lparr>tl_handler := h\<rparr>) ''x'' demo_context = (Inl e, cc1)"
proof (rule permission_gates_handler)
  show "permission_on_call ''run'' (\<lambda>args. ''Run'') \<in> set (tl_on_call demo_gated)" by (simp add: demo_gated_def)
  show "\<forall>k \<in> set (tl_on_call demo_gated). asks_for ''run'' k"
    by (simp add: demo_gated_def asks_for_def permission_on_call_def)
  show "park_typed demo_context" "layer_of permission_type demo_context = None" "\<not> answered_allowed demo_context"
    "cc_decision demo_context ''run'' \<noteq> PermAllowAlways"
    by (simp_all add: demo_context_def park_typed_def layer_of_def answered_allowed_def cc_decision_def
        new_call_context_def empty_body_def no_writes_def demo_session_def new_session_manager_def decision_of_def)
qed

section \<open>A run settles its call\<close>

lemma finish_done [simp]: "c_done (cc_call (finish_call content ef cc))"
  by (simp add: finish_call_def)

lemma close_context_pending: "pending (close_context cc) \<longleftrightarrow> pending (cc_call cc)"
  by (simp add: close_context_def pending_def)

lemma execute_settles: "\<not> pending (cc_call (execute_tool_call tx find_tool cc))"
proof (cases "find_tool (tc_name (c_tool (cc_call cc))) (tc_namespace (c_tool (cc_call cc)))")
  case None
  then show ?thesis by (simp add: execute_tool_call_def Let_def pending_def)
next
  case (Some tk)
  obtain r cc1 where r: "run_tool tk (tc_arguments (c_tool (cc_call cc))) cc = (r, cc1)"
    by (cases "run_tool tk (tc_arguments (c_tool (cc_call cc))) cc")
  show ?thesis
  proof (cases r)
    case (Inl e)
    then show ?thesis using Some r
      by (cases e) (simp_all add: execute_tool_call_def Let_def pending_def park_call_def)
  next
    case (Inr out)
    then show ?thesis using Some r by (simp add: execute_tool_call_def Let_def pending_def)
  qed
qed

text \<open>
  C38. Running a call settles it: unless the answer it was given cannot be used, the call comes
  back done, parked or waiting for a job, never pending, whatever its tool does. A job's result
  and an unknown tool end it.
\<close>

theorem run_call_settles:
  assumes "run_call tx py cd find_tool s c = (None, c')"
  shows "\<not> pending c' \<and> (c_job_end c \<noteq> None \<or>
    c_answer c = None \<and> find_tool (tc_name (c_tool c)) (tc_namespace (c_tool c)) = None \<longrightarrow> c_done c')"
proof -
  define c1 where "c1 = c\<lparr>c_answer := None, c_job_end := None, c_jobs := [], c_max_jobs := 0,
    c_park := None, c_await := [], c_starts := [], c_cancels := []\<rparr>"
  define cc where "cc = new_call_context cd s c1 (case c_body c of None \<Rightarrow> empty_body | Some b \<Rightarrow> b) (c_jobs c) (c_max_jobs c)"
  have tool: "c_tool (cc_call cc) = c_tool c" by (simp add: cc_def c1_def new_call_context_def)
  note run = assms [unfolded run_call_def Let_def, folded c1_def, folded cc_def]
  have unknown: "c_done (close_context (execute_tool_call tx find_tool cc))"
    if "find_tool (tc_name (c_tool c)) (tc_namespace (c_tool c)) = None"
    using that tool by (simp add: close_context_def execute_tool_call_def Let_def finish_call_def)
  show ?thesis
  proof (cases "c_job_end c")
    case (Some je)
    then have "c' = close_context (finish_call (jr_output je) EffectNone cc)" using run by simp
    then show ?thesis by (simp add: close_context_pending pending_def close_context_def finish_call_def)
  next
    case None
    show ?thesis
    proof (cases "c_answer c")
      case None
      then have "c' = close_context (execute_tool_call tx find_tool cc)" using run \<open>c_job_end c = None\<close> by simp
      then show ?thesis using unknown \<open>c_job_end c = None\<close> by (auto simp: close_context_pending execute_settles)
    next
      case (Some a)
      obtain e cc1 where "cc_resume py a cc = (e, cc1)" by (cases "cc_resume py a cc")
      then have "c' = close_context (execute_tool_call tx find_tool cc1)"
        using run \<open>c_job_end c = None\<close> Some by (cases e) simp_all
      then show ?thesis using Some \<open>c_job_end c = None\<close> by (simp add: close_context_pending execute_settles)
    qed
  qed
qed

definition demo_texts :: texts where
  "demo_texts = \<lparr>tx_error = (\<lambda>e. ''error''), tx_unknown_tool = (\<lambda>n. ''unknown tool''), tx_park = (\<lambda>i. ''park'')\<rparr>"

definition demo_payloads :: payloads where
  "demo_payloads = \<lparr>py_selection = (\<lambda>p. Inr None), py_option = (\<lambda>p. Inr (Some p)), py_host = (\<lambda>t s p. Inr p)\<rparr>"

definition demo_find :: "string \<Rightarrow> string \<Rightarrow> (string, nat) tool option" where
  "demo_find name ns = (if name = ''run'' then Some demo_gated else None)"

lemma demo_park:
  "snd (run_call demo_texts demo_payloads demo_codec demo_find demo_session (new_call demo_tool_call 0)) =
    (new_call demo_tool_call 0)
      \<lparr>c_park := Some \<lparr>pk_interrupt_id = tool_call_key demo_tool_call, pk_data = ''park''\<rparr>,
       c_body := Some (empty_body\<lparr>cb_park := Some (the (permission_on_call ''run'' (\<lambda>args. ''Run'') [] demo_context), False)\<rparr>)\<rparr>"
  by (simp add: run_call_def Let_def new_call_def new_call_context_def empty_body_def no_writes_def close_context_def
      execute_tool_call_def demo_find_def demo_tool_call_def run_tool_def demo_gated_def on_call_layer_def
      permission_on_call_def layer_of_def take_answer_def cc_decision_def demo_session_def new_session_manager_def
      decision_of_def set_park_def park_call_def call_key_def demo_texts_def)

theorem run_call_settles_witness:
  "let c = snd (run_call demo_texts demo_payloads demo_codec demo_find demo_session (new_call demo_tool_call 0));
       c2 = snd (run_call demo_texts demo_payloads demo_codec demo_find demo_session (c\<lparr>c_answer := Some ''allow-once''\<rparr>))
   in parked c \<and> \<not> pending c2"
proof -
  let ?c = "snd (run_call demo_texts demo_payloads demo_codec demo_find demo_session (new_call demo_tool_call 0))"
  let ?r = "run_call demo_texts demo_payloads demo_codec demo_find demo_session (?c\<lparr>c_answer := Some ''allow-once''\<rparr>)"
  have "parked ?c" unfolding demo_park by (simp add: parked_def new_call_def)
  have r: "fst ?r = None"
    unfolding demo_park
    by (simp add: run_call_def Let_def new_call_context_def cc_resume_def permission_on_call_def return_intr_def
        return_permission_def demo_payloads_def default_options_def allow_once_def allow_always_def new_call_def
        empty_body_def)
  have "\<not> pending (snd ?r)"
    using run_call_settles [of demo_texts demo_payloads demo_codec demo_find demo_session "?c\<lparr>c_answer := Some ''allow-once''\<rparr>" "snd ?r"]
      r surjective_pairing [of ?r] by metis
  with \<open>parked ?c\<close> show ?thesis unfolding Let_def by (rule conjI)
qed

section \<open>Jobs a call starts\<close>

text \<open>
  A specialist that is known but cannot start because too many jobs are open is reported as
  unknown; and a job the call cancelled stays in its list of jobs.
\<close>

lemma spawn_too_many:
  "fst (spawn_specialist \<lparr>wf_session = ''s'', wf_specialists = [''coder''], wf_jobs = []\<rparr> ''do it'' ''coder'' None
     (demo_context\<lparr>cc_running := [''j''], cc_max := 1\<rparr>)) = SpecialistUnknown"
proof -
  have "trim_space ''coder'' = ''coder''" "trim_space ''do it'' = ''do it''" by code_simp+
  then show ?thesis
    by (simp add: spawn_specialist_def start_job_def Let_def demo_context_def new_call_context_def new_call_def child_id_def)
qed

lemma cancelled_still_listed: "cc_jobs (snd (cancel_job jid cc)) = cc_jobs cc"
  by (simp add: cancel_job_def cc_jobs_def)

end
