(* ===== verification/Window.thy ===== *)
theory Window
  imports Messages Chunks
begin

text \<open>
  The context window (window.go): the committed messages, the provider's count of the last
  request on them, and the operations that append a round, collapse the window into a summary,
  cut a round's largest results, install a plan and hand off. The model provider and the
  window's host are parameters, answers that also move a world; sizes are bytes of JSON,
  a parameter too. The operations return a value, an error, or a panic, with the window as
  they left it.
\<close>

section \<open>State\<close>

record tally =
  tl_tokens :: int
  tl_messages :: nat

definition no_tally :: tally where
  "no_tally = \<lparr>tl_tokens = 0, tl_messages = 0\<rparr>"

record window =
  wn_size :: nat
  wn_msgs :: "message list"
  wn_count :: tally
  wn_cannot_count :: bool

record 'w window_env =
  wv_overhead :: nat
  wv_json :: "message \<Rightarrow> nat"
  wv_count :: "message list \<Rightarrow> 'w \<Rightarrow> (gerr + int) \<times> 'w"
  wv_summarize :: "message list \<Rightarrow> 'w \<Rightarrow> (gerr + string) \<times> 'w"
  wv_archive :: "message list \<Rightarrow> 'w \<Rightarrow> (gerr + bool) \<times> 'w"
  wv_stage :: "string \<Rightarrow> string \<Rightarrow> 'w \<Rightarrow> (gerr + string) \<times> 'w"

datatype 'a wres = WOk 'a | WErr gerr | WPanic

type_synonym ('w, 'a) wact = "window \<times> 'w \<Rightarrow> 'a wres \<times> window \<times> 'w"

definition wret :: "'a \<Rightarrow> ('w, 'a) wact" where
  "wret x s = (WOk x, s)"

definition wfail :: "gerr \<Rightarrow> ('w, 'a) wact" where
  "wfail e s = (WErr e, s)"

definition wpanic :: "('w, 'a) wact" where
  "wpanic s = (WPanic, s)"

definition wbind :: "('w, 'a) wact \<Rightarrow> ('a \<Rightarrow> ('w, 'b) wact) \<Rightarrow> ('w, 'b) wact" where
  "wbind m f s = (case m s of (WOk x, s') \<Rightarrow> f x s' | (WErr e, s') \<Rightarrow> (WErr e, s') | (WPanic, s') \<Rightarrow> (WPanic, s'))"

text \<open>A call of the host or the provider: its error keeps its chain behind a text.\<close>

definition wcall :: "string \<Rightarrow> ('w \<Rightarrow> (gerr + 'a) \<times> 'w) \<Rightarrow> ('w, 'a) wact" where
  "wcall txt f s =
     (case f (snd s) of
        (Inl e, w) \<Rightarrow> (WErr (wrap_err txt e), fst s, w)
      | (Inr x, w) \<Rightarrow> (WOk x, fst s, w))"

section \<open>Texts\<close>

text \<open>A rule of twelve box-drawing dashes (U+2500) ends a heading.\<close>

definition heading_rule :: string where
  "heading_rule = [CHR 0x0A] @ concat (replicate 12 [CHR 0xE2, CHR 0x94, CHR 0x80]) @ [CHR 0x0A]"

definition plan_document_prefix :: string where
  "plan_document_prefix = ''PROJECT PLAN'' @ heading_rule"

definition context_summary_prefix :: string where
  "context_summary_prefix = ''CONVERSATION SUMMARY'' @ heading_rule"

definition searchable_history_note :: string where
  "searchable_history_note = ''The full earlier conversation is saved. Use the search tool to find its exact messages, and open to read one.''"

definition continue_plan_nudge :: string where
  "continue_plan_nudge = ''The plan still has incomplete todos. Continue executing now: work the in-progress todo (or the next pending one), call tools as needed, and do not stop for user confirmation. Do not restate the handoff; act on the next todo.''"

definition is_plan_document :: "message \<Rightarrow> bool" where
  "is_plan_document m \<longleftrightarrow> has_prefix (m_content m) plan_document_prefix"

definition plan_document :: "string \<Rightarrow> message" where
  "plan_document raw = text_message RoleDeveloper (plan_document_prefix @ raw)"

definition truncation_note :: "nat \<Rightarrow> nat \<Rightarrow> string \<Rightarrow> string" where
  "truncation_note kept len path =
     [CHR 0x0A, CHR 0x0A] @ ''[Output truncated to fit the context window: kept the first '' @ digits_of kept @ '' of ''
       @ digits_of len @ '' bytes. '' @
     (if path = [] then ''The full output was not kept.]''
      else ''The full output is at '' @ path @ ''; read it with start and end.]'')"

definition protected_prefix_len :: "message list \<Rightarrow> nat" where
  "protected_prefix_len ms =
     (if 1 < length ms \<and> is_plan_document (ms ! 1) then 2 else min (length ms) 1)"

definition without_reasoning :: "message list \<Rightarrow> message list" where
  "without_reasoning ms = filter (\<lambda>m. m_role m \<noteq> RoleReasoning) ms"

section \<open>Sizes\<close>

definition messages_size :: "'w window_env \<Rightarrow> message list \<Rightarrow> nat" where
  "messages_size v ms = sum_list (map (wv_json v) ms)"

definition encoded_size :: "'w window_env \<Rightarrow> message list \<Rightarrow> nat" where
  "encoded_size v ms = wv_overhead v + messages_size v ms"

definition bound :: "'w window_env \<Rightarrow> tally \<Rightarrow> message list \<Rightarrow> message list \<Rightarrow> ('w, int) wact" where
  "bound v c ms rnd =
     (if tl_tokens c = 0 then wret (int (encoded_size v (ms @ rnd)))
      else if tl_messages c \<le> length ms
      then wret (tl_tokens c + int (messages_size v (drop (tl_messages c) ms)) + int (messages_size v rnd))
      else wpanic)"

definition wmeasure :: "'w window_env \<Rightarrow> tally \<Rightarrow> message list \<Rightarrow> message list \<Rightarrow> ('w, int) wact" where
  "wmeasure v c ms rnd s =
     (if wn_cannot_count (fst s) then bound v c ms rnd s
      else case wv_count v (ms @ rnd) (snd s) of
             (Inr n, w) \<Rightarrow> (WOk n, fst s, w)
           | (Inl e, w) \<Rightarrow>
               (if errors_is e CannotCount then bound v c ms rnd ((fst s)\<lparr>wn_cannot_count := True\<rparr>, w)
                else (WErr (wrap_err ''count tokens: '' e), fst s, w)))"

text \<open>
  The product float64(wsize) * 0.85, truncated: the factor is 7656119366529843 / 2 ^ 53, and the
  conversion and the product are rounded to 53 significant bits, ties to even.
\<close>

definition round_bits :: "nat \<Rightarrow> nat" where
  "round_bits p =
     (let k = bits_len p - 53; q = p div 2 ^ k; r = p mod 2 ^ k
      in if k = 0 then p
         else (if 2 ^ k < 2 * r \<or> 2 * r = 2 ^ k \<and> odd q then q + 1 else q) * 2 ^ k)"

definition pressure :: "nat \<Rightarrow> nat" where
  "pressure wsize = round_bits (round_bits wsize * 7656119366529843) div 2 ^ 53"

section \<open>Cutting a round's results\<close>

fun back_to_rune :: "string \<Rightarrow> nat \<Rightarrow> nat" where
  "back_to_rune s 0 = 0"
| "back_to_rune s (Suc k) = (if is_rune_start (s ! Suc k) then Suc k else back_to_rune s k)"

definition cut_size :: "message list \<Rightarrow> (nat, nat) gomap \<Rightarrow> nat \<Rightarrow> nat" where
  "cut_size rnd kept i = (case map_of kept i of Some k \<Rightarrow> k | None \<Rightarrow> length (m_content (rnd ! i)))"

fun pick_largest :: "(nat \<Rightarrow> nat) \<Rightarrow> nat \<Rightarrow> message list \<Rightarrow> nat option \<Rightarrow> nat option" where
  "pick_largest sz j [] best = best"
| "pick_largest sz j (m # ms) best =
     pick_largest sz (Suc j) ms
       (if m_role m = RoleTool \<and> 0 < sz j \<and> (case best of None \<Rightarrow> True | Some i \<Rightarrow> sz i < sz j)
        then Some j else best)"

type_synonym staged = "(nat, string \<times> string) gomap"

text \<open>The full text of result i and where it is kept, staged before its first cut.\<close>

definition stage_full :: "'w window_env \<Rightarrow> message list \<Rightarrow> nat \<Rightarrow> staged \<Rightarrow>
  ('w, (string \<times> string) \<times> staged) wact" where
  "stage_full v rnd i full =
     (case map_of full i of
        Some fp \<Rightarrow> wret (fp, full)
      | None \<Rightarrow>
          wbind (wcall ''stage full tool result: '' (wv_stage v (m_tool_call_id (rnd ! i)) (m_content (rnd ! i))))
            (\<lambda>path. let fp = (m_content (rnd ! i), path) in wret (fp, (i, fp) # full)))"

definition cut_message :: "message \<Rightarrow> string \<times> string \<Rightarrow> nat \<Rightarrow> message" where
  "cut_message m fp k =
     m\<lparr>m_content := take k (fst fp) @ truncation_note k (length (fst fp)) (snd fp)\<rparr>"

definition cut_to :: "nat \<Rightarrow> nat \<Rightarrow> int \<Rightarrow> string \<Rightarrow> nat" where
  "cut_to sz wsize n full = back_to_rune full (nat (int sz * int wsize div n))"

definition round_fails :: "int \<Rightarrow> nat \<Rightarrow> gerr" where
  "round_fails n wsize =
     mk_err (''failed: the round needs '' @ itoa n @ '' tokens and the context window holds '' @ digits_of wsize) [FailedErr]"

lemma back_to_rune_le: "back_to_rune s k \<le> k"
  by (induction k) auto

text \<open>
  The code multiplies in int64: below 2 to the 31st the product does not wrap, and the cut is the
  one of the unbounded product.
\<close>

lemma cut_to_int64:
  assumes "sz < 2 ^ 31" "wsize < 2 ^ 31"
  shows "cut_to sz wsize n full =
    back_to_rune full (nat (sint (word_of_int (int sz) * word_of_int (int wsize) :: 64 word) div n))"
proof -
  have less: "int sz * int wsize < 2 ^ 31 * 2 ^ 31"
    using assms by (intro mult_strict_mono) simp_all
  have "sint (word_of_int k :: 64 word) = k" if "0 \<le> k" "k < 2 ^ 31 * 2 ^ 31" for k
    using that by (simp only: sint_sbintrunc') (simp add: signed_take_bit_int_eq_self)
  from this [of "int sz * int wsize"] less show ?thesis
    by (simp only: cut_to_def wi_hom_mult) simp
qed

lemma cut_to_less: "0 < sz \<Longrightarrow> int wsize < n \<Longrightarrow> cut_to sz wsize n full < sz"
proof -
  assume a: "0 < sz" "int wsize < n"
  then have lt: "int sz * int wsize < int sz * n" by simp
  have "int sz * int wsize div n < int sz"
  proof (rule ccontr)
    assume "\<not> ?thesis"
    then have "n * int sz \<le> n * (int sz * int wsize div n)" using a(2) by (intro mult_left_mono) simp_all
    also have "\<dots> \<le> int sz * int wsize" using a(2) by (simp add: minus_mod_eq_mult_div [symmetric])
    finally show False using lt by (simp add: mult.commute)
  qed
  then show ?thesis using back_to_rune_le [of full "nat (int sz * int wsize div n)"] a
    by (simp add: cut_to_def nat_less_iff)
qed

lemma pick_largest_Some:
  assumes "pick_largest sz j ms best = Some i"
  shows "best = Some i \<or> j \<le> i \<and> i < j + length ms \<and> m_role (ms ! (i - j)) = RoleTool \<and> 0 < sz i"
  using assms
proof (induction ms arbitrary: j best)
  case (Cons m ms)
  let ?b = "if m_role m = RoleTool \<and> 0 < sz j \<and> (case best of None \<Rightarrow> True | Some i \<Rightarrow> sz i < sz j)
        then Some j else best"
  from Cons.IH [of "Suc j" ?b] Cons.prems
  consider "?b = Some i" | "Suc j \<le> i" "i < Suc j + length ms" "m_role (ms ! (i - Suc j)) = RoleTool" "0 < sz i"
    by auto
  then show ?case
  proof cases
    case 1
    then show ?thesis by (auto split: if_splits)
  next
    case 2
    moreover from this have "i - j = Suc (i - Suc j)" by simp
    ultimately show ?thesis by simp
  qed
qed simp

definition total_size :: "message list \<Rightarrow> (nat, nat) gomap \<Rightarrow> nat" where
  "total_size rnd kept = sum (cut_size rnd kept) {..<length rnd}"

lemma total_size_cut:
  assumes "i < length rnd" "k < cut_size rnd kept i"
  shows "total_size (rnd[i := m]) (AList.update i k kept) < total_size rnd kept"
proof -
  have "cut_size (rnd[i := m]) (AList.update i k kept) j = (if j = i then k else cut_size rnd kept j)" for j
    by (simp add: cut_size_def update_conv' split: option.splits)
  moreover have "sum (\<lambda>j. if j = i then k else cut_size rnd kept j) {..<length rnd} < sum (cut_size rnd kept) {..<length rnd}"
    by (rule sum_strict_mono_ex1) (use assms in auto)
  ultimately show ?thesis by (simp add: total_size_def)
qed

function trim_loop :: "'w window_env \<Rightarrow> tally \<Rightarrow> message list \<Rightarrow> message list \<Rightarrow> staged \<Rightarrow> (nat, nat) gomap \<Rightarrow>
  int \<Rightarrow> window \<times> 'w \<Rightarrow> message list wres \<times> window \<times> 'w" where
  "trim_loop v c ms rnd full kept n s =
     (if n \<le> int (wn_size (fst s)) then (WOk rnd, s)
      else case pick_largest (cut_size rnd kept) 0 rnd None of
             None \<Rightarrow> (WErr (round_fails n (wn_size (fst s))), s)
           | Some i \<Rightarrow>
               (case stage_full v rnd i full s of
                  (WErr e, s1) \<Rightarrow> (WErr e, s1)
                | (WPanic, s1) \<Rightarrow> (WPanic, s1)
                | (WOk (fp, full1), s1) \<Rightarrow>
                    (let k = cut_to (cut_size rnd kept i) (wn_size (fst s)) n (fst fp);
                         rnd1 = rnd[i := cut_message (rnd ! i) fp k]
                     in case wmeasure v c ms rnd1 s1 of
                          (WErr e, s2) \<Rightarrow> (WErr e, s2)
                        | (WPanic, s2) \<Rightarrow> (WPanic, s2)
                        | (WOk n1, s2) \<Rightarrow> trim_loop v c ms rnd1 full1 (AList.update i k kept) n1 s2)))"
  by pat_completeness auto

termination
  by (relation "measure (\<lambda>(v, c, ms, rnd, full, kept, n, s). total_size rnd kept)")
    (auto intro!: total_size_cut cut_to_less dest!: pick_largest_Some)

declare trim_loop.simps [simp del]


definition trim_round :: "'w window_env \<Rightarrow> tally \<Rightarrow> message list \<Rightarrow> message list \<Rightarrow> int \<Rightarrow> ('w, message list) wact" where
  "trim_round v c ms rnd n = trim_loop v c ms rnd [] [] n"

section \<open>Operations\<close>

definition wget :: "('w, window) wact" where
  "wget s = (WOk (fst s), s)"

definition wset :: "message list \<Rightarrow> tally \<Rightarrow> ('w, unit) wact" where
  "wset ms c s = (WOk (), (fst s)\<lparr>wn_msgs := ms, wn_count := c\<rparr>, snd s)"

definition after_tools :: "window \<Rightarrow> bool" where
  "after_tools w \<longleftrightarrow> wn_msgs w \<noteq> [] \<and> m_role (last (wn_msgs w)) = RoleTool"

definition win_add :: "message list \<Rightarrow> window \<Rightarrow> window" where
  "win_add rnd w = w\<lparr>wn_msgs := wn_msgs w @ rnd\<rparr>"

definition collapse :: "'w window_env \<Rightarrow> message list \<Rightarrow> nat \<Rightarrow> ('w, message list) wact" where
  "collapse v ms fin =
     (let keep = protected_prefix_len ms in
      if fin < keep \<or> length ms < fin then wpanic
      else wbind (wcall [] (wv_archive v (drop keep (take fin ms))))
        (\<lambda>kept. wbind (wcall [] (wv_summarize v (take fin ms)))
          (\<lambda>txt. let content = context_summary_prefix @ txt @
                        (if kept then [CHR 0x0A, CHR 0x0A] @ searchable_history_note else [])
                 in wret (take keep ms @ [text_message RoleDeveloper content] @ without_reasoning (drop fin ms)))))"

text \<open>Fit, from the point where the round is measured and may be over the pressure.\<close>

definition fit_collapse :: "'w window_env \<Rightarrow> tally \<Rightarrow> message list \<Rightarrow> message list \<Rightarrow> int \<Rightarrow> nat \<Rightarrow>
  ('w, tally \<times> message list \<times> message list \<times> int) wact" where
  "fit_collapse v c ms rnd n threshold =
     (if int threshold < n \<and> protected_prefix_len ms < length ms then
        wbind (collapse v ms (length ms))
          (\<lambda>ms1. let rnd1 = without_reasoning rnd in
             wbind (wmeasure v no_tally ms1 rnd1) (\<lambda>n1. wret (no_tally, ms1, rnd1, n1)))
      else wret (c, ms, rnd, n))"

definition win_fit :: "'w window_env \<Rightarrow> message list \<Rightarrow> int \<Rightarrow> ('w, unit) wact" where
  "win_fit v rnd counted =
     wbind wget (\<lambda>w.
       let ms = wn_msgs w; wsize = wn_size w; threshold = pressure wsize;
           c = (if 0 < counted then \<lparr>tl_tokens = counted, tl_messages = length ms\<rparr> else wn_count w)
       in wbind (bound v c ms rnd) (\<lambda>b.
            if b < int threshold then wset (ms @ rnd) c
            else
              wbind (wmeasure v c ms rnd) (\<lambda>n.
                wbind (fit_collapse v c ms rnd n threshold) (\<lambda>(c1, ms1, rnd1, n1).
                  if int wsize < n1 then
                    wbind (trim_round v c1 ms1 rnd1 n1) (\<lambda>rnd2. wset (ms1 @ rnd2) c1)
                  else wset (ms1 @ rnd1) c1))))"

definition win_refit :: "'w window_env \<Rightarrow> ('w, unit) wact" where
  "win_refit v =
     wbind wget (\<lambda>w.
       let ms = wn_msgs w; keep = protected_prefix_len ms;
           fin = (if tl_messages (wn_count w) \<le> keep then length ms else tl_messages (wn_count w))
       in if fin \<le> keep then wfail (mk_err ''max tokens reached: the request is over the context window: the window has nothing to collapse'' [ContextLength, MaxTokens])
          else wbind (collapse v ms fin) (\<lambda>ms1. wset ms1 no_tally))"

definition install_plan :: "string \<Rightarrow> ('w, unit) wact" where
  "install_plan plan =
     (if plan = [] then wfail (mk_err ''install plan document: no plan document'' [])
      else wbind wget (\<lambda>w. if wn_msgs w = [] then wpanic
                           else wset [hd (wn_msgs w), plan_document plan] no_tally))"

definition hand_off :: "'w window_env \<Rightarrow> string \<Rightarrow> bool \<Rightarrow>
  (message list \<Rightarrow> 'w \<Rightarrow> (gerr + string) \<times> 'w) \<Rightarrow> ('w, unit) wact" where
  "hand_off v plan opened write =
     wbind wget (\<lambda>w. let ms = wn_msgs w in
       wbind (wcall [] (wv_archive v (drop (min (length ms) 1) ms))) (\<lambda>_.
         wbind (wcall [] (write ms)) (\<lambda>handoff.
           if ms = [] then wpanic
           else wset ([hd ms] @ (if plan \<noteq> [] then [plan_document plan] else [])
                        @ [text_message RoleDeveloper handoff]
                        @ (if opened then [text_message RoleDeveloper continue_plan_nudge] else [])) no_tally)))"


section \<open>What the parts keep\<close>

text \<open>The same window, but for what is known of the provider's counting.\<close>

definition same_win :: "window \<Rightarrow> window \<Rightarrow> bool" where
  "same_win w w' \<longleftrightarrow> wn_size w' = wn_size w \<and> wn_msgs w' = wn_msgs w \<and> wn_count w' = wn_count w"

lemma same_win_refl [simp]: "same_win w w"
  by (simp add: same_win_def)

lemma same_win_trans: "same_win a b \<Longrightarrow> same_win b c \<Longrightarrow> same_win a c"
  by (simp add: same_win_def)

definition tally_ok :: "tally \<Rightarrow> message list \<Rightarrow> bool" where
  "tally_ok c ms \<longleftrightarrow> tl_tokens c = 0 \<or> tl_messages c \<le> length ms"

lemma tally_ok_none [simp]: "tally_ok no_tally ms"
  by (simp add: tally_ok_def no_tally_def)

text \<open>A size that a request with these messages was given: by the provider, or its bound.\<close>

definition bound_value :: "'w window_env \<Rightarrow> tally \<Rightarrow> message list \<Rightarrow> message list \<Rightarrow> int" where
  "bound_value v c ms rnd =
     (if tl_tokens c = 0 then int (encoded_size v (ms @ rnd))
      else tl_tokens c + int (messages_size v (drop (tl_messages c) ms)) + int (messages_size v rnd))"

definition sized :: "'w window_env \<Rightarrow> tally \<Rightarrow> message list \<Rightarrow> message list \<Rightarrow> int \<Rightarrow> bool" where
  "sized v c ms rnd n \<longleftrightarrow>
     (\<exists>w w'. wv_count v (ms @ rnd) w = (Inr n, w')) \<or> n = bound_value v c ms rnd"

lemma bound_returns: "tally_ok c ms \<Longrightarrow> bound v c ms rnd s = (WOk (bound_value v c ms rnd), s)"
  by (auto simp: bound_def bound_value_def wret_def tally_ok_def)

lemma wcall_cases:
  "wcall txt f s = (r, s') \<Longrightarrow> fst s' = fst s \<and> r \<noteq> WPanic"
  by (auto simp: wcall_def split: prod.splits sum.splits)

lemma wmeasure_cases:
  assumes "wmeasure v c ms rnd s = (r, s')" "tally_ok c ms"
  shows "same_win (fst s) (fst s') \<and> r \<noteq> WPanic \<and> (\<forall>n. r = WOk n \<longrightarrow> sized v c ms rnd n)"
proof (cases "wn_cannot_count (fst s)")
  case True
  with assms bound_returns [OF assms(2), of v rnd s] show ?thesis by (auto simp: wmeasure_def sized_def)
next
  case False
  obtain a w where cnt: "wv_count v (ms @ rnd) (snd s) = (a, w)" by fastforce
  show ?thesis
  proof (cases a)
    case (Inr n)
    with assms(1) False cnt show ?thesis by (auto simp: wmeasure_def sized_def)
  next
    case (Inl e)
    let ?s1 = "((fst s)\<lparr>wn_cannot_count := True\<rparr>, w)"
    from Inl assms(1) False cnt bound_returns [OF assms(2), of v rnd ?s1] show ?thesis
      by (auto simp: wmeasure_def sized_def same_win_def split: if_splits)
  qed
qed

section \<open>Trimming\<close>

text \<open>A result as it was, or its first bytes and the note.\<close>

definition cut_of :: "message \<Rightarrow> message \<Rightarrow> bool" where
  "cut_of m m' \<longleftrightarrow> m' = m \<or> (m_role m = RoleTool \<and>
     (\<exists>k path. k < length (m_content m) \<and> m' = cut_message m (m_content m, path) k))"

definition trim_inv :: "message list \<Rightarrow> message list \<Rightarrow> staged \<Rightarrow> (nat, nat) gomap \<Rightarrow> bool" where
  "trim_inv rnd0 rnd full kept \<longleftrightarrow> length rnd = length rnd0 \<and>
     (\<forall>i < length rnd. case map_of full i of
        None \<Rightarrow> map_of kept i = None \<and> rnd ! i = rnd0 ! i
      | Some fp \<Rightarrow> fst fp = m_content (rnd0 ! i) \<and> m_role (rnd0 ! i) = RoleTool \<and>
          (\<exists>k < length (m_content (rnd0 ! i)). map_of kept i = Some k \<and> rnd ! i = cut_message (rnd0 ! i) fp k))"

lemma cut_message_again [simp]: "cut_message (cut_message m fp k) fp' k' = cut_message m fp' k'"
  by (simp add: cut_message_def)

lemma m_role_cut [simp]: "m_role (cut_message m fp k) = m_role m"
  by (simp add: cut_message_def)

lemma stage_full_cases:
  assumes "stage_full v rnd i full s = (r, s')"
  shows "fst s' = fst s \<and> r \<noteq> WPanic \<and>
    (\<forall>fp full1. r = WOk (fp, full1) \<longrightarrow> map_of full1 i = Some fp \<and> (\<forall>j. j \<noteq> i \<longrightarrow> map_of full1 j = map_of full j) \<and>
       (case map_of full i of Some old \<Rightarrow> fp = old | None \<Rightarrow> fst fp = m_content (rnd ! i)))"
proof (cases "map_of full i")
  case (Some fp)
  with assms show ?thesis by (auto simp: stage_full_def wret_def)
next
  case None
  let ?st = "wcall ''stage full tool result: '' (wv_stage v (m_tool_call_id (rnd ! i)) (m_content (rnd ! i))) s"
  obtain a s1 where c: "?st = (a, s1)" using surj_pair [of ?st] by blast
  with wcall_cases [OF c] None assms show ?thesis
    by (cases a) (auto simp: stage_full_def wbind_def wret_def Let_def)
qed

lemma trim_inv_role:
  assumes "trim_inv rnd0 rnd full kept" "i < length rnd" "m_role (rnd ! i) = RoleTool"
  shows "m_role (rnd0 ! i) = RoleTool"
  using assms by (auto simp: trim_inv_def split: option.splits dest!: spec [of _ i])

lemma trim_inv_size:
  assumes "trim_inv rnd0 rnd full kept" "i < length rnd"
  shows "cut_size rnd kept i \<le> length (m_content (rnd0 ! i))"
  using assms by (auto simp: trim_inv_def cut_size_def split: option.splits dest!: spec [of _ i])

lemma trim_inv_step:
  assumes "trim_inv rnd0 rnd full kept" "i < length rnd" "m_role (rnd ! i) = RoleTool"
    and "map_of full1 i = Some fp" "\<forall>j. j \<noteq> i \<longrightarrow> map_of full1 j = map_of full j"
    and "case map_of full i of Some old \<Rightarrow> fp = old | None \<Rightarrow> fst fp = m_content (rnd ! i)"
    and "k < cut_size rnd kept i"
  shows "trim_inv rnd0 (rnd[i := cut_message (rnd ! i) fp k]) full1 (AList.update i k kept)"
proof -
  have k: "k < length (m_content (rnd0 ! i))" using trim_inv_size [OF assms(1,2)] assms(7) by simp
  have role: "m_role (rnd0 ! i) = RoleTool" by (rule trim_inv_role [OF assms(1-3)])
  have i: "fst fp = m_content (rnd0 ! i) \<and> cut_message (rnd ! i) fp k = cut_message (rnd0 ! i) fp k"
    using assms(1,2,6) by (auto simp: trim_inv_def split: option.splits dest!: spec [of _ i])
  have "case map_of full1 j of
        None \<Rightarrow> map_of (AList.update i k kept) j = None \<and> rnd[i := cut_message (rnd ! i) fp k] ! j = rnd0 ! j
      | Some fq \<Rightarrow> fst fq = m_content (rnd0 ! j) \<and> m_role (rnd0 ! j) = RoleTool \<and>
          (\<exists>l < length (m_content (rnd0 ! j)). map_of (AList.update i k kept) j = Some l \<and>
             rnd[i := cut_message (rnd ! i) fp k] ! j = cut_message (rnd0 ! j) fq l)"
    if "j < length rnd" for j
  proof (cases "j = i")
    case True
    then show ?thesis using i k role assms(2,4) by (simp add: update_conv')
  next
    case False
    then show ?thesis using assms(1,5) that
      by (cases "map_of full j") (auto simp: trim_inv_def update_conv' dest!: spec [of _ j])
  qed
  then show ?thesis using assms(1) by (simp add: trim_inv_def)
qed

lemma trim_inv_cut:
  assumes "trim_inv rnd0 rnd full kept"
  shows "list_all2 cut_of rnd0 rnd"
proof (rule list_all2_all_nthI)
  show "length rnd0 = length rnd" using assms by (simp add: trim_inv_def)
next
  fix i assume "i < length rnd0"
  then show "cut_of (rnd0 ! i) (rnd ! i)"
    using assms unfolding trim_inv_def cut_of_def
    by (auto split: option.splits dest!: spec [of _ i]) (metis prod.collapse)
qed


definition trimmed :: "'w window_env \<Rightarrow> tally \<Rightarrow> message list \<Rightarrow> message list \<Rightarrow> nat \<Rightarrow>
  message list wres \<Rightarrow> bool" where
  "trimmed v c ms rnd0 wsize r \<longleftrightarrow> r \<noteq> WPanic \<and>
     (\<forall>rnd'. r = WOk rnd' \<longrightarrow> list_all2 cut_of rnd0 rnd' \<and> (\<exists>n. sized v c ms rnd' n \<and> n \<le> int wsize))"

lemma trim_loop_spec:
  assumes "trim_inv rnd0 rnd full kept" "tally_ok c ms" "sized v c ms rnd n"
    and "trim_loop v c ms rnd full kept n s = (r, s')"
  shows "same_win (fst s) (fst s') \<and> trimmed v c ms rnd0 (wn_size (fst s)) r"
  using assms
proof (induction v c ms rnd full kept n s arbitrary: r s' rule: trim_loop.induct)
  case (1 v c ms rnd full kept n s)
  show ?case
  proof (cases "n \<le> int (wn_size (fst s))")
    case True
    then show ?thesis using 1(2,4,5) trim_inv_cut by (auto simp: trim_loop.simps [of v c ms rnd full kept n s] trimmed_def)
  next
    case over: False
    show ?thesis
    proof (cases "pick_largest (cut_size rnd kept) 0 rnd None")
      case None
      then show ?thesis using 1(5) over by (auto simp: trim_loop.simps [of v c ms rnd full kept n s] trimmed_def)
    next
      case pick: (Some i)
      then have i: "i < length rnd" "m_role (rnd ! i) = RoleTool" "0 < cut_size rnd kept i"
        using pick_largest_Some [OF pick] by simp_all
      obtain a s1 where st: "stage_full v rnd i full s = (a, s1)" using surj_pair [of "stage_full v rnd i full s"] by blast
      note sc = stage_full_cases [OF st]
      show ?thesis
      proof (cases a)
        case (WOk x)
        obtain fp full1 where x: "x = (fp, full1)" by (cases x)
        let ?k = "cut_to (cut_size rnd kept i) (wn_size (fst s)) n (fst fp)"
        let ?rnd = "rnd[i := cut_message (rnd ! i) fp ?k]"
        have inv: "trim_inv rnd0 ?rnd full1 (AList.update i ?k kept)"
          by (rule trim_inv_step [OF 1(2) i(1,2)]) (use sc WOk x i(3) over cut_to_less in auto)
        obtain b s2 where m: "wmeasure v c ms ?rnd s1 = (b, s2)" using surj_pair [of "wmeasure v c ms ?rnd s1"] by blast
        note mc = wmeasure_cases [OF m 1(3)]
        have sw: "same_win (fst s) (fst s2)" using mc sc by simp
        show ?thesis
        proof (cases b)
          case n1: (WOk n1)
          have step: "trim_loop v c ms rnd full kept n s = trim_loop v c ms ?rnd full1 (AList.update i ?k kept) n1 s2"
            using over pick st WOk x m n1 by (simp add: trim_loop.simps [of v c ms rnd full kept n s] Let_def)
          have "same_win (fst s2) (fst s') \<and> trimmed v c ms rnd0 (wn_size (fst s2)) r"
            by (rule "1.IH" [OF over pick st [symmetric] WOk x [symmetric] refl refl m [symmetric] n1 inv 1(3)])
              (use mc n1 step 1(5) in simp_all)
          then show ?thesis using sw same_win_trans by (auto simp: same_win_def)
        qed (use over pick st WOk x m mc sw 1(5) in \<open>auto simp: trim_loop.simps [of v c ms rnd full kept n s] trimmed_def Let_def\<close>)
      qed (use over pick st sc 1(5) in \<open>auto simp: trim_loop.simps [of v c ms rnd full kept n s] trimmed_def Let_def\<close>)
    qed
  qed
qed

lemma trim_round_spec:
  assumes "tally_ok c ms" "sized v c ms rnd n" "trim_round v c ms rnd n s = (r, s')"
  shows "same_win (fst s) (fst s') \<and> trimmed v c ms rnd (wn_size (fst s)) r"
  by (rule trim_loop_spec [OF _ assms(1,2) assms(3) [unfolded trim_round_def]]) (simp add: trim_inv_def)


section \<open>The pressure is under the size\<close>

lemma bits_len_le: "0 < p \<Longrightarrow> 2 ^ (bits_len p - 1) \<le> p"
proof (induction p rule: bits_len.induct)
  case (1 p)
  show ?case
  proof (cases "p = 1")
    case True
    then show ?thesis by (simp add: bits_len.simps)
  next
    case False
    with 1(2) have h: "0 < p div 2" by simp
    with 1 have "2 ^ (bits_len (p div 2) - 1) \<le> p div 2" by simp
    moreover from h have "bits_len (p div 2) = Suc (bits_len (p div 2 div 2))" by (subst bits_len.simps) simp
    ultimately show ?thesis using 1(2) by (subst bits_len.simps) simp
  qed
qed

lemma round_bits_le: "2 ^ 53 * round_bits p \<le> (2 ^ 53 + 1) * p"
proof (cases "bits_len p - 53 = 0")
  case True
  then show ?thesis by (simp add: round_bits_def)
next
  case False
  define k where "k = bits_len p - 53"
  then have k: "0 < k" "bits_len p - 1 = k + 52" using False by simp_all
  have pos: "0 < p" using False by (cases "p = 0") (auto simp: bits_len.simps [of 0])
  have big: "2 ^ k * 2 ^ 52 \<le> p" using bits_len_le [OF pos] k(2) by (simp add: power_add)
  define K where "K = (2::nat) ^ k"
  define q where "q = p div K"
  define r where "r = p mod K"
  have p: "q * K + r = p" by (simp add: q_def r_def)
  have rb: "round_bits p = (if K < 2 * r \<or> 2 * r = K \<and> odd q then q + 1 else q) * K"
    using k(1) by (simp add: round_bits_def Let_def K_def q_def r_def flip: k_def)
  have "2 * ((if K < 2 * r \<or> 2 * r = K \<and> odd q then q + 1 else q) * K) \<le> 2 * (q * K + r) + K" by auto
  then have "2 * round_bits p \<le> 2 * p + K" by (simp only: rb [symmetric] p)
  then have "2 * round_bits p \<le> 2 * p + 2 ^ k" by (simp only: K_def)
  then have "2 ^ 52 * (2 * round_bits p) \<le> 2 ^ 52 * (2 * p + 2 ^ k)" by (rule mult_left_mono) simp
  then show ?thesis using big by (simp add: algebra_simps)
qed

lemma pressure_le: "pressure sz \<le> sz"
proof -
  let ?c = "7656119366529843 :: nat" and ?s = "round_bits sz"
  let ?r = "round_bits (?s * ?c)"
  have "2 ^ 53 * (2 ^ 53 * ?r) \<le> 2 ^ 53 * ((2 ^ 53 + 1) * (?s * ?c))"
    by (rule mult_left_mono [OF round_bits_le]) simp
  also have "\<dots> = (2 ^ 53 + 1) * ?c * (2 ^ 53 * ?s)" by simp
  also have "\<dots> \<le> (2 ^ 53 + 1) * ?c * ((2 ^ 53 + 1) * sz)" by (rule mult_left_mono [OF round_bits_le]) simp
  also have "\<dots> \<le> 2 ^ 53 * (2 ^ 53 * (2 ^ 53 * sz))" by simp
  finally have "?r \<le> 2 ^ 53 * sz" by simp
  then have "?r div 2 ^ 53 \<le> 2 ^ 53 * sz div 2 ^ 53" by (rule div_le_mono)
  then show ?thesis unfolding pressure_def by simp
qed

section \<open>Fitting a round\<close>

lemma collapse_all_cases:
  assumes "collapse v ms (length ms) s = (r, s')" "protected_prefix_len ms < length ms"
  shows "same_win (fst s) (fst s') \<and> r \<noteq> WPanic \<and> (\<forall>ms1. r = WOk ms1 \<longrightarrow>
    (\<exists>note. ms1 = take (protected_prefix_len ms) ms @ [text_message RoleDeveloper (context_summary_prefix @ note)]))"
  using assms
  by (auto simp: collapse_def wbind_def wcall_def wret_def without_reasoning_def Let_def
      split: prod.splits sum.splits wres.splits)

text \<open>The window a round is appended to: as it was, or collapsed into a summary.\<close>

definition fit_base :: "message list \<Rightarrow> message list \<Rightarrow> message list \<Rightarrow> message list \<Rightarrow> bool" where
  "fit_base ms rnd ms1 rnd1 \<longleftrightarrow> ms1 = ms \<and> rnd1 = rnd \<or>
     (\<exists>note. ms1 = take (protected_prefix_len ms) ms @ [text_message RoleDeveloper (context_summary_prefix @ note)]
        \<and> rnd1 = without_reasoning rnd)"

lemma fit_collapse_cases:
  assumes "fit_collapse v c ms rnd n th s = (r, s')" "tally_ok c ms" "sized v c ms rnd n"
  shows "same_win (fst s) (fst s') \<and> r \<noteq> WPanic \<and>
    (\<forall>c1 ms1 rnd1 n1. r = WOk (c1, ms1, rnd1, n1) \<longrightarrow>
       tally_ok c1 ms1 \<and> sized v c1 ms1 rnd1 n1 \<and> fit_base ms rnd ms1 rnd1)"
proof (cases "int th < n \<and> protected_prefix_len ms < length ms")
  case False
  then show ?thesis using assms by (auto simp: fit_collapse_def wret_def fit_base_def)
next
  case True
  obtain a s1 where col: "collapse v ms (length ms) s = (a, s1)" using surj_pair [of "collapse v ms (length ms) s"] by blast
  note cc = collapse_all_cases [OF col conjunct2 [OF True]]
  show ?thesis
  proof (cases a)
    case (WOk ms1)
    let ?rnd = "without_reasoning rnd"
    obtain b s2 where m: "wmeasure v no_tally ms1 ?rnd s1 = (b, s2)"
      using surj_pair [of "wmeasure v no_tally ms1 ?rnd s1"] by blast
    note mc = wmeasure_cases [OF m tally_ok_none]
    have "same_win (fst s) (fst s2)" using cc mc same_win_trans by blast
    moreover have "fit_base ms rnd ms1 ?rnd" using cc WOk by (auto simp: fit_base_def)
    ultimately show ?thesis
      using assms(1) True col WOk m mc by (cases b) (auto simp: fit_collapse_def wbind_def wret_def Let_def)
  qed (use assms(1) True col cc in \<open>auto simp: fit_collapse_def wbind_def\<close>)
qed


text \<open>The protected prefix is kept by a collapse and by an append.\<close>

lemma fit_base_tally: "fit_base ms rnd ms1 rnd1 \<Longrightarrow> list_all2 cut_of rnd1 rnd1"
  by (rule list_all2_refl) (simp add: cut_of_def)

definition fitted :: "'w window_env \<Rightarrow> window \<Rightarrow> message list \<Rightarrow> unit wres \<times> window \<times> 'w \<Rightarrow> bool" where
  "fitted v w rnd res \<longleftrightarrow>
     (case res of
        (WPanic, _) \<Rightarrow> False
      | (WErr e, w', _) \<Rightarrow> same_win w w'
      | (WOk _, w', _) \<Rightarrow>
          wn_size w' = wn_size w \<and> tally_ok (wn_count w') (wn_msgs w') \<and>
          (\<exists>ms1 rnd1 rnd2 n. wn_msgs w' = ms1 @ rnd2 \<and> fit_base (wn_msgs w) rnd ms1 rnd1 \<and>
             list_all2 cut_of rnd1 rnd2 \<and> sized v (wn_count w') ms1 rnd2 n \<and> n \<le> int (wn_size w)))"

lemma fitted_set:
  assumes "same_win w (fst s)" "tally_ok c ms1" "fit_base (wn_msgs w) rnd ms1 rnd1" "list_all2 cut_of rnd1 rnd2"
    and "sized v c ms1 rnd2 n" "n \<le> int (wn_size w)"
  shows "fitted v w rnd (wset (ms1 @ rnd2) c s)"
proof -
  have "\<exists>ms' rnd1 rnd' n. ms1 @ rnd2 = ms' @ rnd' \<and> fit_base (wn_msgs w) rnd ms' rnd1 \<and>
      list_all2 cut_of rnd1 rnd' \<and> sized v c ms' rnd' n \<and> n \<le> int (wn_size w)"
    using assms(3-6) by blast
  then show ?thesis using assms(1,2) by (auto simp: fitted_def wset_def same_win_def tally_ok_def)
qed

lemma fitted_error: "same_win w (fst s) \<Longrightarrow> fitted v w rnd (WErr e, s)"
  by (cases s) (simp add: fitted_def)

lemma fitted_trim:
  assumes "same_win w (fst s)" "tally_ok c ms1" "fit_base (wn_msgs w) rnd ms1 rnd1" "sized v c ms1 rnd1 n"
  shows "fitted v w rnd ((if int (wn_size w) < n
      then wbind (trim_round v c ms1 rnd1 n) (\<lambda>rnd2. wset (ms1 @ rnd2) c) else wset (ms1 @ rnd1) c) s)"
proof (cases "int (wn_size w) < n")
  case False
  then show ?thesis using fitted_set [OF assms(1-3) fit_base_tally [OF assms(3)] assms(4)] by simp
next
  case True
  obtain r s' where t: "trim_round v c ms1 rnd1 n s = (r, s')" using surj_pair [of "trim_round v c ms1 rnd1 n s"] by blast
  note tr = trim_round_spec [OF assms(2,4) t]
  have sw: "same_win w (fst s')" using assms(1) tr same_win_trans by blast
  have sz: "wn_size (fst s) = wn_size w" using assms(1) by (simp add: same_win_def)
  show ?thesis
  proof (cases r)
    case (WOk rnd2)
    with tr sz obtain m where "list_all2 cut_of rnd1 rnd2" "sized v c ms1 rnd2 m" "m \<le> int (wn_size w)"
      by (auto simp: trimmed_def)
    with fitted_set [OF sw assms(2,3)] True t WOk show ?thesis by (simp add: wbind_def)
  next
    case (WErr e)
    then show ?thesis using True t fitted_error [OF sw] by (simp add: wbind_def)
  next
    case WPanic
    then show ?thesis using tr by (simp add: trimmed_def)
  qed
qed

lemma win_fit_fitted:
  assumes "tally_ok (wn_count w) (wn_msgs w)"
  shows "fitted v w rnd (win_fit v rnd counted (w, x))"
proof -
  let ?ms = "wn_msgs w" and ?th = "pressure (wn_size w)"
  define c where "c = (if 0 < counted then \<lparr>tl_tokens = counted, tl_messages = length ?ms\<rparr> else wn_count w)"
  have c: "tally_ok c ?ms" using assms by (simp add: c_def tally_ok_def)
  let ?b = "bound_value v c ?ms rnd"
  have base: "fit_base ?ms rnd ?ms rnd" by (simp add: fit_base_def)
  have fit: "win_fit v rnd counted (w, x) =
      (if ?b < int ?th then wset (?ms @ rnd) c
       else wbind (wmeasure v c ?ms rnd) (\<lambda>n. wbind (fit_collapse v c ?ms rnd n ?th) (\<lambda>(c1, ms1, rnd1, n1).
         if int (wn_size w) < n1
         then wbind (trim_round v c1 ms1 rnd1 n1) (\<lambda>rnd2. wset (ms1 @ rnd2) c1) else wset (ms1 @ rnd1) c1))) (w, x)"
    unfolding win_fit_def wget_def c_def [symmetric] Let_def
    using bound_returns [OF c, of v rnd "(w, x)"] by (simp add: wbind_def c_def [symmetric])
  show ?thesis
  proof (cases "?b < int ?th")
    case True
    have "?b \<le> int (wn_size w)" using True pressure_le [of "wn_size w"] by linarith
    then have "fitted v w rnd (wset (?ms @ rnd) c (w, x))"
      by (intro fitted_set [OF _ c base fit_base_tally [OF base], where n = ?b]) (simp_all add: sized_def)
    then show ?thesis using fit True by simp
  next
    case False
    obtain a s1 where m: "wmeasure v c ?ms rnd (w, x) = (a, s1)" using surj_pair [of "wmeasure v c ?ms rnd (w, x)"] by blast
    note mc = wmeasure_cases [OF m c]
    show ?thesis
    proof (cases a)
      case n: (WOk n)
      obtain b s2 where f: "fit_collapse v c ?ms rnd n ?th s1 = (b, s2)"
        using surj_pair [of "fit_collapse v c ?ms rnd n ?th s1"] by blast
      have "sized v c ?ms rnd n" using mc n by simp
      note fc = fit_collapse_cases [OF f c this]
      have sw: "same_win w (fst s2)" using mc fc same_win_trans by fastforce
      show ?thesis
      proof (cases b)
        case (WOk y)
        obtain c1 ms1 rnd1 n1 where y: "y = (c1, ms1, rnd1, n1)" by (cases y)
        have "fitted v w rnd ((if int (wn_size w) < n1
            then wbind (trim_round v c1 ms1 rnd1 n1) (\<lambda>rnd2. wset (ms1 @ rnd2) c1) else wset (ms1 @ rnd1) c1) s2)"
          by (rule fitted_trim [OF sw]) (use fc WOk y in auto)
        then show ?thesis unfolding fit using False m n f WOk y by (simp add: wbind_def)
      next
        case (WErr e)
        then show ?thesis unfolding fit using False m n f fitted_error [OF sw] by (simp add: wbind_def)
      qed (use fc in simp)
    next
      case (WErr e)
      then show ?thesis unfolding fit using False m fitted_error [of w s1] mc by (simp add: wbind_def)
    qed (use mc in simp)
  qed
qed


section \<open>Properties\<close>

text \<open>
  C22. A round that is fitted fits: Fit never panics on a window whose count is of its own
  messages; an error leaves the window as it was; and on success the new window is the old one,
  or the protected prefix and one summary, followed by the round (without its reasoning after a
  collapse), whose tool results are whole or cut to a first part with a note, and the request
  on it was counted, or bounded, at no more than the window's size.
\<close>

theorem window_fit:
  assumes "tally_ok (wn_count w) (wn_msgs w)"
  shows "fitted v w rnd (win_fit v rnd counted (w, x))"
  by (rule win_fit_fitted [OF assms])

text \<open>A provider that counts a request's bytes and cannot be asked for more, a host that keeps all.\<close>

definition demo_window_env :: "nat window_env" where
  "demo_window_env = \<lparr>wv_overhead = 0, wv_json = \<lambda>m. length (m_content m),
     wv_count = \<lambda>ms w. (Inr (int (sum_list (map (\<lambda>m. length (m_content m)) ms))), Suc w),
     wv_summarize = \<lambda>ms w. (Inr ''short'', w), wv_archive = \<lambda>ms w. (Inr True, w),
     wv_stage = \<lambda>i t w. (Inr ''/full'', w)\<rparr>"

definition demo_window :: window where
  "demo_window = \<lparr>wn_size = 200, wn_msgs = [text_message RoleUser ''go''], wn_count = no_tally,
     wn_cannot_count = False\<rparr>"

theorem window_fit_witness:
  "fitted demo_window_env demo_window [text_message RoleAssistant ''done'']
     (win_fit demo_window_env [text_message RoleAssistant ''done''] 7 (demo_window, 0))"
  by (rule window_fit) (simp add: demo_window_def)

lemma trim_loop_count:
  assumes "\<And>ms w. \<exists>n. wv_count v ms w = (Inr n, Suc w)" "\<And>i t w. \<exists>r. wv_stage v i t w = (r, w)"
    and "\<not> wn_cannot_count (fst s)"
  shows "snd (snd (trim_loop v c ms rnd full kept n s)) \<le> snd s + total_size rnd kept"
  using assms
proof (induction v c ms rnd full kept n s rule: trim_loop.induct)
  case (1 v c ms rnd full kept n s)
  show ?case
  proof (cases "n \<le> int (wn_size (fst s)) \<or> pick_largest (cut_size rnd kept) 0 rnd None = None")
    case True
    then show ?thesis by (auto simp: trim_loop.simps [of v c ms rnd full kept n s])
  next
    case False
    then obtain i where over: "\<not> n \<le> int (wn_size (fst s))" and pick: "pick_largest (cut_size rnd kept) 0 rnd None = Some i"
      by auto
    have i: "i < length rnd" "0 < cut_size rnd kept i" using pick_largest_Some [OF pick] by simp_all
    obtain a s1 where st: "stage_full v rnd i full s = (a, s1)" using surj_pair [of "stage_full v rnd i full s"] by blast
    have s1: "s1 = s" using st 1(3) [of "m_tool_call_id (rnd ! i)" "m_content (rnd ! i)" "snd s"]
      by (auto simp: stage_full_def wbind_def wcall_def wret_def Let_def split: option.splits sum.splits)
    show ?thesis
    proof (cases a)
      case (WOk y)
      obtain fp full1 where y: "y = (fp, full1)" by (cases y)
      let ?k = "cut_to (cut_size rnd kept i) (wn_size (fst s)) n (fst fp)"
      let ?rnd = "rnd[i := cut_message (rnd ! i) fp ?k]"
      obtain n1 where "wv_count v (ms @ ?rnd) (snd s) = (Inr n1, Suc (snd s))" using 1(2) by blast
      then have m: "wmeasure v c ms ?rnd s1 = (WOk n1, (fst s, Suc (snd s)))"
        using 1(4) s1 by (simp add: wmeasure_def)
      have step: "trim_loop v c ms rnd full kept n s =
          trim_loop v c ms ?rnd full1 (AList.update i ?k kept) n1 (fst s, Suc (snd s))"
        using over pick st WOk y m by (simp add: trim_loop.simps [of v c ms rnd full kept n s] Let_def)
      have "snd (snd (trim_loop v c ms ?rnd full1 (AList.update i ?k kept) n1 (fst s, Suc (snd s)))) \<le>
          snd (fst s, Suc (snd s)) + total_size ?rnd (AList.update i ?k kept)"
        by (rule "1.IH" [OF over pick st [symmetric] WOk y [symmetric] refl refl m [symmetric] refl 1(2,3)])
          (use 1(4) in simp)
      moreover have "total_size ?rnd (AList.update i ?k kept) < total_size rnd kept"
        by (rule total_size_cut [OF i(1)]) (rule cut_to_less [OF i(2)], use over in simp)
      ultimately show ?thesis using step by simp
    qed (use over pick st s1 in \<open>auto simp: trim_loop.simps [of v c ms rnd full kept n s]\<close>)
  qed
qed

text \<open>
  C23. Trimming ends, and soon: each pass keeps less of a result, so with a provider that counts
  every request, the loop asks it at most once for each byte of the round's messages.
\<close>

theorem trim_terminates:
  assumes "\<And>ms w. \<exists>n. wv_count v ms w = (Inr n, Suc w)" and "\<And>i t w. \<exists>r. wv_stage v i t w = (r, w)"
    and "\<not> wn_cannot_count w"
  shows "snd (snd (trim_round v c ms rnd n (w, k))) \<le> k + sum_list (map (\<lambda>m. length (m_content m)) rnd)"
proof -
  have "total_size rnd [] = sum_list (map (\<lambda>m. length (m_content m)) rnd)"
    by (simp add: total_size_def cut_size_def sum_list_sum_nth atLeast0LessThan)
  then show ?thesis using trim_loop_count [OF assms(1,2), of "(w, k)" c ms rnd "[]" "[]" n] assms(3)
    by (simp add: trim_round_def)
qed

theorem trim_terminates_witness:
  "snd (snd (trim_round demo_window_env no_tally [] [text_message RoleTool ''result''] 300 (demo_window, 0))) \<le> 6"
  using trim_terminates [of demo_window_env demo_window no_tally "[]" "[text_message RoleTool ''result'']" 300 0]
  by (simp add: demo_window_env_def demo_window_def)

end
