(* ===== verification/Harness.thy ===== *)
theory Harness
  imports Stream Call_State Window
begin

text \<open>
  The harness's commit (durable\_steps.go, agent.go, model\_tasks.go): the session's state and
  its window together, the summary and the handoff the model is asked for when a window is
  rebuilt, and the MIME types a user message may hold (message/message.go, types.go). The
  model, the store of old messages and the texts of the prompts are parameters.
\<close>

section \<open>MIME types\<close>

text \<open>Lower case is Text's: exact on ASCII, which MIME types are.\<close>

definition normalize_mime :: "string \<Rightarrow> string" where
  "normalize_mime m =
     (let m1 = trim_space (to_lower m); (before, after, found) = cut_at (CHR 0x3B) m1
      in if found then trim_space before else m1)"

definition is_text_mime :: "string \<Rightarrow> bool" where
  "is_text_mime m \<longleftrightarrow> (let n = normalize_mime m in n = [] \<or> has_prefix n ''text/'')"

definition mime_from_data_url :: "string \<Rightarrow> string" where
  "mime_from_data_url u =
     (let u1 = trim_space u in
      if \<not> has_prefix u1 ''data:'' then []
      else let rest = trim_prefix u1 ''data:''; (before, after, found) = cut_at (CHR '','') rest
           in normalize_mime (trim_suffix (if found then before else rest) '';base64''))"

definition data_url :: "string \<Rightarrow> string \<Rightarrow> string" where
  "data_url mime data =
     (let d = trim_space data in
      if has_prefix d ''data:'' then d
      else let m = normalize_mime mime
           in ''data:'' @ (if m = [] then ''application/octet-stream'' else m) @ '';base64,'' @ trim_space d)"

definition add_mime :: "string \<Rightarrow> string list \<Rightarrow> string list" where
  "add_mime m out =
     (let n = normalize_mime m in if n = [] \<or> is_text_mime n \<or> n \<in> set out then out else out @ [n])"

definition part_mime :: "content_part \<Rightarrow> string list \<Rightarrow> string list" where
  "part_mime p out =
     (if cp_type p = ''input_image'' then
        (case cp_file_data p of
           Some fd \<Rightarrow>
             if fd_mime_type fd \<noteq> [] then add_mime (fd_mime_type fd) out
             else (case cp_image_url p of None \<Rightarrow> out | Some u \<Rightarrow> add_mime (mime_from_data_url (iu_url u)) out)
         | None \<Rightarrow> (case cp_image_url p of None \<Rightarrow> out | Some u \<Rightarrow> add_mime (mime_from_data_url (iu_url u)) out))
      else if cp_type p = ''input_file'' then
        (case cp_file_data p of None \<Rightarrow> out | Some fd \<Rightarrow> add_mime (fd_mime_type fd) out)
      else out)"

definition mime_types :: "message \<Rightarrow> string list" where
  "mime_types m = fold part_mime (m_parts m) []"

fun unsupported_from :: "(string \<Rightarrow> bool) \<Rightarrow> string list \<Rightarrow> string list \<Rightarrow> string list" where
  "unsupported_from supports seen [] = []"
| "unsupported_from supports seen (m # ms) =
     (let n = normalize_mime m in
      if n \<in> set seen then unsupported_from supports seen ms
      else (if supports n then [] else [n]) @ unsupported_from supports (n # seen) ms)"

definition unsupported_mimes :: "(string \<Rightarrow> bool) \<Rightarrow> string list \<Rightarrow> string list" where
  "unsupported_mimes supports ms = unsupported_from supports [] ms"

section \<open>The requests that rebuild a window\<close>

record 'w model_env =
  me_overhead :: nat
  me_json :: "message \<Rightarrow> nat"
  me_count :: "message list \<Rightarrow> 'w \<Rightarrow> (gerr + int) \<times> 'w"
  me_invoke :: "message list \<Rightarrow> 'w \<Rightarrow> (gerr + model_chunk list) \<times> 'w"
  me_archive :: "message list \<Rightarrow> 'w \<Rightarrow> (gerr + bool) \<times> 'w"
  me_stage :: "string \<Rightarrow> string \<Rightarrow> 'w \<Rightarrow> (gerr + string) \<times> 'w"
  me_supports :: "string \<Rightarrow> bool"
  me_ctx_err :: "gerr option"
  me_summary_instruction :: string
  me_handoff_preamble :: string

fun summary_of :: "model_chunk list \<Rightarrow> string \<Rightarrow> gerr + string" where
  "summary_of [] body = Inr body"
| "summary_of (c # cs) body =
     (case chunk_err c of
        Some e \<Rightarrow> Inl (wrap_err ''context compress stream failed: '' e)
      | None \<Rightarrow> summary_of cs (body @ ck_content c))"

definition summarize :: "'w model_env \<Rightarrow> message list \<Rightarrow> 'w \<Rightarrow> (gerr + string) \<times> 'w" where
  "summarize v ms w =
     (case me_invoke v (ms @ [text_message RoleDeveloper (me_summary_instruction v)]) w of
        (Inl e, w1) \<Rightarrow> (Inl (wrap_err ''context compress invoke failed: '' e), w1)
      | (Inr cs, w1) \<Rightarrow> (summary_of cs [], w1))"

text \<open>A dash (U+2014) stands in the first line of the handoff made from the plan.\<close>

definition fallback_handoff :: "todo list \<Rightarrow> string" where
  "fallback_handoff plan =
     ''Handoff (fallback '' @ [CHR 0xE2, CHR 0x80, CHR 0x94] @ '' model handoff stream failed or was empty).'' @ [CHR 0x0A]
     @ ''This is work in progress; complete remaining todos from the plan document and list below.'' @ [CHR 0x0A, CHR 0x0A]
     @ ''Current plan todos:'' @ [CHR 0x0A]
     @ concat (map (\<lambda>td. ''- ['' @ td_status td @ ''] '' @ td_title td @ '': '' @ td_description td @ [CHR 0x0A]) plan)"

definition handoff_prompt :: "string \<Rightarrow> todo list \<Rightarrow> string" where
  "handoff_prompt preamble plan =
     preamble @ concat (map (\<lambda>td. ''- '' @ td_title td @ '': '' @ td_description td @ [CHR 0x0A] @ ''Status: '' @
       td_status td @ [CHR 0x0A]) plan) @ ''</current_plan>''"

fun handoff_loop :: "model_chunk list \<Rightarrow> assembler \<Rightarrow> string \<Rightarrow> gerr + string" where
  "handoff_loop [] asm got = Inr got"
| "handoff_loop (c # cs) asm got =
     (case chunk_err c of
        Some e \<Rightarrow> Inl (wrap_err ''handoff model stream failed: '' e)
      | None \<Rightarrow>
          (let asm1 = add_delta c asm; txt = complete_content asm1 c
           in handoff_loop cs asm1
                (if ck_complete c \<and> ck_type c = Some EventMessage \<and> txt \<noteq> [] then txt else got)))"

definition handoff_text :: "'w model_env \<Rightarrow> message list \<Rightarrow> todo list \<Rightarrow> 'w \<Rightarrow> (gerr + string \<times> bool) \<times> 'w" where
  "handoff_text v ms plan w =
     (case me_ctx_err v of
        Some e \<Rightarrow> (Inl e, w)
      | None \<Rightarrow>
          (case me_invoke v (ms @ [text_message RoleDeveloper (handoff_prompt (me_handoff_preamble v) plan)]) w of
             (Inl e, w1) \<Rightarrow> (Inr (fallback_handoff plan, True), w1)
           | (Inr cs, w1) \<Rightarrow>
               (case handoff_loop cs [] [] of
                  Inl e \<Rightarrow> (Inr (fallback_handoff plan, True), w1)
                | Inr txt \<Rightarrow>
                    if trim_space txt = [] then (Inr (fallback_handoff plan, True), w1)
                    else (Inr (txt, False), w1))))"

definition window_env_of :: "'w model_env \<Rightarrow> 'w window_env" where
  "window_env_of v =
     \<lparr>wv_overhead = me_overhead v, wv_json = me_json v, wv_count = me_count v, wv_summarize = summarize v,
      wv_archive = me_archive v, wv_stage = me_stage v\<rparr>"

section \<open>The commit\<close>

definition plan_todos :: "plan_store \<Rightarrow> todo list" where
  "plan_todos ps = (case ps_todos ps of None \<Rightarrow> [] | Some tds \<Rightarrow> tds)"

definition handoff :: "'w model_env \<Rightarrow> plan_store \<Rightarrow> ('w, unit) wact" where
  "handoff v ps =
     (let plan = plan_todos ps in
      hand_off (window_env_of v) (ps_document ps) (0 < open_todos plan)
        (\<lambda>ms w. case handoff_text v ms plan w of (Inl e, w1) \<Rightarrow> (Inl e, w1) | (Inr (txt, _), w1) \<Rightarrow> (Inr txt, w1)))"

definition apply_effect :: "'w model_env \<Rightarrow> plan_store \<Rightarrow> effect \<Rightarrow> ('w, unit) wact" where
  "apply_effect v ps ef = (if ef = EffectHandoff then handoff v ps else install_plan (ps_document ps))"

definition commit_round :: "'w model_env \<Rightarrow> plan_store \<Rightarrow> message list \<Rightarrow> effect \<Rightarrow> int \<Rightarrow> ('w, unit) wact" where
  "commit_round v ps rnd ef counted s =
     (case me_ctx_err v of
        Some e \<Rightarrow> (WErr e, s)
      | None \<Rightarrow>
          if ef = EffectNone then win_fit (window_env_of v) rnd counted s
          else apply_effect v ps ef (win_add rnd (fst s), snd s))"

fun commit_users :: "'w model_env \<Rightarrow> plan_store \<Rightarrow> message list \<Rightarrow> ('w, unit) wact" where
  "commit_users v ps [] = wret ()"
| "commit_users v ps (u # us) =
     (let bad = unsupported_mimes (me_supports v) (mime_types u) in
      if bad \<noteq> [] then wfail (mk_err (''unsupported content type(s): '' @ join_text '', '' bad) [])
      else wbind (commit_round v ps [u] EffectNone 0) (\<lambda>_. commit_users v ps us))"

record ('v, 'r) harness =
  hs_session :: "('v, 'r) session_manager"
  hs_window :: window

text \<open>
  Commit: its end, the harness and the world after it, and the todos of the plan updates it
  sends. A done call keeps its result in its body (only \<open>finish_call\<close> makes a call done), so a
  result is missing only in a body the harness did not write; a window with such a hole is not
  modelled and shows as a panic.
\<close>

definition harness_commit :: "'w model_env \<Rightarrow> 'v codec \<Rightarrow> ('r call_body, 'v) commit_in \<Rightarrow> ('v, 'r) harness \<Rightarrow> 'w \<Rightarrow>
  unit wres \<times> ('v, 'r) harness \<times> 'w \<times> todo list option list" where
  "harness_commit v cd ci h w =
     (let s0 = set_user_state (case ci_state ci of None \<Rightarrow> [] | Some st \<Rightarrow> st) (hs_session h);
          (r1, s1, ups) =
            (case ci_round ci of
               None \<Rightarrow> (Inr None, s0, [])
             | Some r \<Rightarrow>
                 (case commit_reply_round cd r s0 of
                    (Inl key, s', us) \<Rightarrow> (Inl key, s', us)
                  | (Inr (ms, ef), s', us) \<Rightarrow> (Inr (Some (ms, ef, rp_input_tokens (rd_reply r))), s', us)));
          users = (\<lambda>_. wbind (commit_users v (sm_plan s1) (ci_users ci))
                     (\<lambda>_. if ci_collapse ci then win_refit (window_env_of v) else wret ()));
          (out, win, w') =
            (case r1 of
               Inl key \<Rightarrow>
                 (WErr (mk_err (''tool call '' @ key @ '' has a result but no body: session not found'') [SessionNotFound]), hs_window h, w)
             | Inr None \<Rightarrow> users () (hs_window h, w)
             | Inr (Some (ms, ef, counted)) \<Rightarrow>
                 if None \<in> set ms then (WPanic, hs_window h, w)
                 else wbind (commit_round v (sm_plan s1) (map the ms) ef counted) users (hs_window h, w))
      in (out, \<lparr>hs_session = s1, hs_window = win\<rparr>, w', ups))"

section \<open>What a commit keeps\<close>

text \<open>A window whose count is none or of a part of its own messages, which are all valid.\<close>

definition window_ok :: "window \<Rightarrow> bool" where
  "window_ok w \<longleftrightarrow>
     (wn_count w = no_tally \<or> 0 < tl_tokens (wn_count w) \<and> tl_messages (wn_count w) \<le> length (wn_msgs w)) \<and>
     (\<forall>m \<in> set (wn_msgs w). valid_message m)"

text \<open>The conversation goes on from the same first message, the user's goal.\<close>

definition goal_kept :: "window \<Rightarrow> window \<Rightarrow> bool" where
  "goal_kept w w' \<longleftrightarrow> (wn_msgs w \<noteq> [] \<longrightarrow> wn_msgs w' \<noteq> [] \<and> hd (wn_msgs w') = hd (wn_msgs w))"

text \<open>However an action ends, it does not panic and leaves a good window.\<close>

definition keeps_window :: "window \<Rightarrow> 'a wres \<times> window \<times> 'w \<Rightarrow> bool" where
  "keeps_window w res \<longleftrightarrow> fst res \<noteq> WPanic \<and> window_ok (fst (snd res)) \<and> goal_kept w (fst (snd res))"

lemma goal_kept_refl [simp]: "goal_kept w w"
  by (simp add: goal_kept_def)

lemma goal_kept_trans: "goal_kept a b \<Longrightarrow> goal_kept b c \<Longrightarrow> goal_kept a c"
  by (auto simp: goal_kept_def)

lemma window_ok_tally: "window_ok w \<Longrightarrow> tally_ok (wn_count w) (wn_msgs w)"
  by (auto simp: window_ok_def tally_ok_def no_tally_def)

lemma window_ok_same: "window_ok w \<Longrightarrow> same_win w w' \<Longrightarrow> window_ok w' \<and> goal_kept w w'"
  by (simp add: window_ok_def same_win_def goal_kept_def)

lemma keeps_bind:
  assumes "keeps_window w (m s)" and "\<And>x s'. m s = (WOk x, s') \<Longrightarrow> keeps_window (fst s') (f x s')"
  shows "keeps_window w (wbind m f s)"
proof -
  obtain r s' where m: "m s = (r, s')" using surj_pair [of "m s"] by blast
  show ?thesis
  proof (cases r)
    case (WOk x)
    then have "keeps_window (fst s') (f x s')" using assms(2) m by simp
    then show ?thesis using assms(1) m WOk goal_kept_trans by (auto simp: keeps_window_def wbind_def)
  qed (use assms(1) m in \<open>auto simp: keeps_window_def wbind_def\<close>)
qed

lemma keeps_wret [simp]: "window_ok (fst s) \<Longrightarrow> keeps_window (fst s) (wret x s)"
  by (simp add: keeps_window_def wret_def)

lemma keeps_wfail [simp]: "window_ok (fst s) \<Longrightarrow> keeps_window (fst s) (wfail e s)"
  by (simp add: keeps_window_def wfail_def)

lemma keeps_wset:
  assumes "c = no_tally \<or> 0 < tl_tokens c \<and> tl_messages c \<le> length ms" "\<forall>m \<in> set ms. valid_message m"
    and "wn_msgs (fst s) \<noteq> [] \<Longrightarrow> ms \<noteq> [] \<and> hd ms = hd (wn_msgs (fst s))"
  shows "keeps_window (fst s) (wset ms c s)"
  using assms by (auto simp: keeps_window_def wset_def window_ok_def goal_kept_def)

lemma valid_developer [simp]: "valid_message (text_message RoleDeveloper s)"
  by (rule valid_text_message) simp_all

lemma valid_plan_document [simp]: "valid_message (plan_document p)"
  by (simp add: plan_document_def)

text \<open>Fit.\<close>

lemma fit_collapse_count:
  "fit_collapse v c ms rnd n th s = (WOk (c1, ms1, rnd1, n1), s') \<Longrightarrow> c1 = c \<or> c1 = no_tally"
  by (auto simp: fit_collapse_def wbind_def wret_def Let_def split: if_splits prod.splits wres.splits)

lemma win_fit_count:
  assumes "win_fit v rnd counted (w, x) = (WOk u, w', x')"
  shows "wn_count w' \<in> {wn_count w, no_tally, \<lparr>tl_tokens = counted, tl_messages = length (wn_msgs w)\<rparr>} \<and>
    (wn_count w' = \<lparr>tl_tokens = counted, tl_messages = length (wn_msgs w)\<rparr> \<longrightarrow> 0 < counted \<or> wn_count w' = wn_count w \<or> wn_count w' = no_tally)"
proof -
  define c where "c = (if 0 < counted then \<lparr>tl_tokens = counted, tl_messages = length (wn_msgs w)\<rparr> else wn_count w)"
  have "wn_count w' = c \<or> wn_count w' = no_tally"
    using assms unfolding win_fit_def wget_def wbind_def Let_def c_def [symmetric]
    by (auto simp: wset_def c_def dest!: fit_collapse_count split: prod.splits wres.splits if_splits)
  then show ?thesis by (auto simp: c_def)
qed

lemma cut_of_valid: "cut_of m m' \<Longrightarrow> valid_message m \<Longrightarrow> valid_message m'"
  by (auto simp: cut_of_def cut_message_def valid_message_def)

lemma cuts_valid: "list_all2 cut_of xs ys \<Longrightarrow> \<forall>m \<in> set xs. valid_message m \<Longrightarrow> \<forall>m \<in> set ys. valid_message m"
  by (induction rule: list_all2_induct) (auto dest: cut_of_valid)

lemma protected_prefix_pos: "ms \<noteq> [] \<Longrightarrow> 0 < protected_prefix_len ms"
  by (auto simp: protected_prefix_len_def min_def Suc_le_eq)

lemma hd_take_append: "ms \<noteq> [] \<Longrightarrow> 0 < k \<Longrightarrow> take k ms @ xs \<noteq> [] \<and> hd (take k ms @ xs) = hd ms"
  by (cases ms; cases k) simp_all

lemma fit_base_keeps:
  assumes "fit_base ms rnd ms1 rnd1" "\<forall>m \<in> set ms. valid_message m" "\<forall>m \<in> set rnd. valid_message m"
  shows "(\<forall>m \<in> set ms1. valid_message m) \<and> (\<forall>m \<in> set rnd1. valid_message m) \<and>
    (ms \<noteq> [] \<longrightarrow> ms1 \<noteq> [] \<and> hd ms1 = hd ms)"
proof -
  have "\<forall>m \<in> set (take (protected_prefix_len ms) ms). valid_message m"
    using assms(2) set_take_subset [of "protected_prefix_len ms" ms] by blast
  then show ?thesis using assms protected_prefix_pos [of ms]
    by (auto simp: fit_base_def without_reasoning_def hd_take_append)
qed

lemma keeps_win_fit:
  assumes "window_ok (fst s)" "\<forall>m \<in> set rnd. valid_message m"
  shows "keeps_window (fst s) (win_fit v rnd counted s)"
proof -
  obtain w x where s: "s = (w, x)" by (cases s)
  have w: "window_ok w" using assms(1) s by simp
  obtain r w' x' where f: "win_fit v rnd counted (w, x) = (r, w', x')" using prod_cases3 [of "win_fit v rnd counted (w, x)"] by blast
  have fit: "fitted v w rnd (r, w', x')" using win_fit_fitted [OF window_ok_tally [OF w], of v rnd counted x] f by simp
  show ?thesis
  proof (cases r)
    case (WOk u)
    obtain ms1 rnd1 rnd2 where m: "wn_msgs w' = ms1 @ rnd2" "fit_base (wn_msgs w) rnd ms1 rnd1" "list_all2 cut_of rnd1 rnd2"
      using fit WOk by (auto simp: fitted_def)
    have valid: "\<forall>m \<in> set (wn_msgs w). valid_message m" using w by (simp add: window_ok_def)
    note k = fit_base_keeps [OF m(2) valid assms(2)]
    have t: "tally_ok (wn_count w') (wn_msgs w')" using fit WOk by (auto simp: fitted_def)
    have "wn_count w' = no_tally \<or> 0 < tl_tokens (wn_count w')"
      using win_fit_count [OF f [unfolded WOk]] w by (auto simp: window_ok_def)
    then have "window_ok w'" using t k m(1) cuts_valid [OF m(3)] by (auto simp: window_ok_def tally_ok_def)
    moreover have "goal_kept w w'" using k m(1) by (auto simp: goal_kept_def)
    ultimately show ?thesis using s f WOk by (simp add: keeps_window_def)
  next
    case (WErr e)
    then show ?thesis using fit window_ok_same [OF w] s f by (simp add: fitted_def keeps_window_def)
  next
    case WPanic
    then show ?thesis using fit by (simp add: fitted_def)
  qed
qed

text \<open>The other operations.\<close>

lemma keeps_win_add:
  assumes "window_ok w" "\<forall>m \<in> set rnd. valid_message m"
  shows "window_ok (win_add rnd w) \<and> goal_kept w (win_add rnd w)"
  using assms by (auto simp: window_ok_def win_add_def goal_kept_def)

lemma keeps_install_plan:
  "window_ok (fst s) \<Longrightarrow> wn_msgs (fst s) \<noteq> [] \<Longrightarrow> keeps_window (fst s) (install_plan p s)"
  by (auto simp: install_plan_def wbind_def wget_def wset_def wfail_def keeps_window_def window_ok_def goal_kept_def)

lemma keeps_wcall: "window_ok (fst s) \<Longrightarrow> keeps_window (fst s) (wcall txt f s)"
  by (auto simp: wcall_def keeps_window_def split: prod.splits sum.splits)

lemma wcall_same: "wcall txt f s = (WOk x, s') \<Longrightarrow> fst s' = fst s"
  by (auto simp: wcall_def split: prod.splits sum.splits)

lemma keeps_hand_off:
  assumes "window_ok (fst s)" "wn_msgs (fst s) \<noteq> []"
  shows "keeps_window (fst s) (hand_off v p opened write s)"
proof -
  let ?next = "\<lambda>handoff. [hd (wn_msgs (fst s))] @ (if p \<noteq> [] then [plan_document p] else [])
    @ [text_message RoleDeveloper handoff] @ (if opened then [text_message RoleDeveloper continue_plan_nudge] else [])"
  have set: "keeps_window (fst s2) (wset (?next h) no_tally s2)" if "fst s2 = fst s" for h s2
    by (rule keeps_wset) (use assms that in \<open>auto simp: window_ok_def\<close>)
  have "hand_off v p opened write s =
      wbind (wcall [] (wv_archive v (drop (min (length (wn_msgs (fst s))) 1) (wn_msgs (fst s)))))
        (\<lambda>_. wbind (wcall [] (write (wn_msgs (fst s)))) (\<lambda>h. wset (?next h) no_tally)) s"
    using assms(2) by (simp add: hand_off_def wget_def wbind_def Let_def)
  moreover have "keeps_window (fst s) \<dots>"
  proof (rule keeps_bind)
    fix a s1 assume a: "wcall [] (wv_archive v (drop (min (length (wn_msgs (fst s))) 1) (wn_msgs (fst s)))) s = (WOk a, s1)"
    then have eq: "fst s1 = fst s" by (rule wcall_same)
    show "keeps_window (fst s1) (wbind (wcall [] (write (wn_msgs (fst s)))) (\<lambda>h. wset (?next h) no_tally) s1)"
    proof (rule keeps_bind)
      have ok: "window_ok (fst s1)" using assms(1) eq by simp
      show "keeps_window (fst s1) (wcall [] (write (wn_msgs (fst s))) s1)" by (rule keeps_wcall [OF ok])
      fix h s2 assume "wcall [] (write (wn_msgs (fst s))) s1 = (WOk h, s2)"
      then have "fst s2 = fst s" using wcall_same eq by fastforce
      then show "keeps_window (fst s2) (wset (?next h) no_tally s2)" by (rule set)
    qed
  qed (rule keeps_wcall [OF assms(1)])
  ultimately show ?thesis by simp
qed

lemma keeps_collapse:
  assumes "window_ok (fst s)" "protected_prefix_len ms \<le> fin" "fin \<le> length ms"
  shows "keeps_window (fst s) (collapse v ms fin s)"
    and "collapse v ms fin s = (WOk ms1, s') \<Longrightarrow> fst s' = fst s \<and>
      (\<exists>note. ms1 = take (protected_prefix_len ms) ms @ [text_message RoleDeveloper note] @ without_reasoning (drop fin ms))"
  using assms
  by (auto simp: collapse_def wbind_def wcall_def wret_def Let_def keeps_window_def split: prod.splits sum.splits wres.splits)

lemma keeps_win_refit:
  assumes "window_ok (fst s)"
  shows "keeps_window (fst s) (win_refit v s)"
proof -
  let ?ms = "wn_msgs (fst s)" and ?c = "wn_count (fst s)"
  let ?keep = "protected_prefix_len ?ms"
  define fin where "fin = (if tl_messages ?c \<le> ?keep then length ?ms else tl_messages ?c)"
  have fin: "fin \<le> length ?ms" using assms by (auto simp: fin_def window_ok_def no_tally_def)
  have eq: "win_refit v s = (if fin \<le> ?keep
      then wfail (mk_err ''max tokens reached: the request is over the context window: the window has nothing to collapse'' [ContextLength, MaxTokens])
      else wbind (collapse v ?ms fin) (\<lambda>ms1. wset ms1 no_tally)) s"
    by (simp add: win_refit_def wget_def Let_def fin_def wbind_def)
  show ?thesis
  proof (cases "fin \<le> ?keep")
    case True
    then show ?thesis using eq assms by simp
  next
    case False
    have "keeps_window (fst s) (wbind (collapse v ?ms fin) (\<lambda>ms1. wset ms1 no_tally) s)"
    proof (rule keeps_bind)
      show "keeps_window (fst s) (collapse v ?ms fin s)" using keeps_collapse(1) [OF assms _ fin] False by simp
      fix ms1 s' assume col: "collapse v ?ms fin s = (WOk ms1, s')"
      obtain smry where s': "fst s' = fst s"
        and ms1: "ms1 = take ?keep ?ms @ [text_message RoleDeveloper smry] @ without_reasoning (drop fin ?ms)"
        using keeps_collapse(2) [OF assms _ fin col] False by auto
      have "\<forall>m \<in> set ?ms. valid_message m" using assms by (simp add: window_ok_def)
      then have "\<forall>m \<in> set ms1. valid_message m"
        using set_take_subset [of ?keep ?ms] set_drop_subset [of fin ?ms] by (auto simp: ms1 without_reasoning_def)
      moreover have "ms1 \<noteq> [] \<and> hd ms1 = hd ?ms" if "?ms \<noteq> []"
        using hd_take_append [OF that protected_prefix_pos [OF that]] by (simp add: ms1)
      ultimately show "keeps_window (fst s') (wset ms1 no_tally s')" by (intro keeps_wset) (simp_all add: s')
    qed
    then show ?thesis using eq False by simp
  qed
qed

lemma keeps_commit_round:
  assumes "window_ok (fst s)" "\<forall>m \<in> set rnd. valid_message m" "ef \<noteq> EffectNone \<Longrightarrow> rnd \<noteq> []"
  shows "keeps_window (fst s) (commit_round v ps rnd ef counted s)"
proof (cases "me_ctx_err v")
  case None
  show ?thesis
  proof (cases "ef = EffectNone")
    case True
    then show ?thesis using keeps_win_fit [OF assms(1,2)] None by (simp add: commit_round_def)
  next
    case False
    let ?s1 = "(win_add rnd (fst s), snd s)"
    note add = keeps_win_add [OF assms(1,2)]
    have "wn_msgs (fst ?s1) \<noteq> []" using assms(3) False by (simp add: win_add_def)
    then have "keeps_window (fst ?s1) (apply_effect v ps ef ?s1)"
      using add keeps_hand_off [of ?s1] keeps_install_plan [of ?s1] by (simp add: apply_effect_def handoff_def Let_def)
    then show ?thesis using False None add goal_kept_trans by (auto simp: commit_round_def keeps_window_def)
  qed
qed (use assms(1) in \<open>simp add: commit_round_def keeps_window_def\<close>)

lemma keeps_commit_users:
  assumes "window_ok (fst s)" "\<forall>m \<in> set us. valid_message m"
  shows "keeps_window (fst s) (commit_users v ps us s)"
  using assms
proof (induction us arbitrary: s)
  case (Cons u us)
  show ?case
  proof (cases "unsupported_mimes (me_supports v) (mime_types u) = []")
    case True
    have "keeps_window (fst s) (wbind (commit_round v ps [u] EffectNone 0) (\<lambda>_. commit_users v ps us) s)"
    proof (rule keeps_bind)
      show k: "keeps_window (fst s) (commit_round v ps [u] EffectNone 0 s)" using Cons.prems by (intro keeps_commit_round) simp_all
      fix x s' assume "commit_round v ps [u] EffectNone 0 s = (WOk x, s')"
      then have "window_ok (fst s')" using k by (simp add: keeps_window_def)
      then show "keeps_window (fst s') (commit_users v ps us s')" using Cons by simp
    qed
    then show ?thesis using True by simp
  qed (use Cons.prems in simp)
qed simp

section \<open>A commit keeps the conversation\<close>

text \<open>A round as the steps leave it: valid messages, calls with ids, done calls with results.\<close>

definition call_ok :: "'r call_body call \<Rightarrow> bool" where
  "call_ok c \<longleftrightarrow> wire_id (c_tool c) \<noteq> [] \<and>
     (c_done c \<longrightarrow> (\<exists>b m. c_body c = Some b \<and> cb_result b = Some m \<and> valid_message m))"

definition round_ok :: "'r call_body round \<Rightarrow> bool" where
  "round_ok r \<longleftrightarrow> (\<forall>m \<in> set (rp_messages (rd_reply r)). valid_message m) \<and> (\<forall>c \<in> set (rd_calls r). call_ok c)"

definition results_ok :: "message option list \<Rightarrow> bool" where
  "results_ok ms \<longleftrightarrow> (\<forall>x \<in> set ms. \<exists>m. x = Some m \<and> valid_message m)"

lemma valid_tool_result: "wire_id tc \<noteq> [] \<Longrightarrow> valid_message (tool_result tc s)"
  by (simp add: tool_result_def valid_message_def)

lemma commit_calls_ok:
  assumes "\<forall>c \<in> set cs. call_ok c" "results_ok ms"
  shows "\<exists>ms' ef' s' ups'. commit_calls cd cs s ms ef ups = (Inr (ms', ef'), s', ups') \<and> results_ok ms' \<and>
    length ms' = length ms + length cs \<and> (cs = [] \<longrightarrow> ef' = ef)"
  using assms
proof (induction cs arbitrary: s ms ef ups)
  case (Cons c cs)
  then have c: "call_ok c" by simp
  then have nb: "\<not> (c_done c \<and> c_body c = None)" by (auto simp: call_ok_def)
  define q where "q = (case c_body c of
                 None \<Rightarrow> (s, None, ef, ups)
               | Some b \<Rightarrow>
                   let s' = apply_writes cd (cb_writes b) s; (up, ps) = consume_updated (sm_plan s')
                   in (s'\<lparr>sm_plan := ps\<rparr>, cb_result b, max_effect ef (cb_effect b),
                       ups @ (case up of None \<Rightarrow> [] | Some t \<Rightarrow> [t])))"
  obtain s1 r1 ef1 ups1 where q: "q = (s1, r1, ef1, ups1)" by (cases q)
  define r where "r = (if c_done c then r1 else Some (tool_result (c_tool c) cancelled_result))"
  have "r1 = cb_result b" if "c_body c = Some b" for b
    using q that by (simp add: q_def Let_def split: prod.splits)
  then have "results_ok (ms @ [r])"
    using c Cons.prems(2) by (auto simp: results_ok_def r_def call_ok_def valid_tool_result)
  moreover have "commit_calls cd (c # cs) s ms ef ups = commit_calls cd cs s1 (ms @ [r]) ef1 ups1"
    unfolding commit_calls.simps if_not_P [OF nb] q_def [symmetric] by (simp add: q r_def)
  ultimately show ?case using Cons.IH [of "ms @ [r]" s1 ef1 ups1] Cons.prems(1) by auto
qed simp

lemma commit_reply_round_ok:
  assumes "round_ok r"
  shows "\<exists>ms ef s' ups. commit_reply_round cd r s = (Inr (ms, ef), s', ups) \<and> results_ok ms \<and>
    (ef \<noteq> EffectNone \<longrightarrow> ms \<noteq> [])"
proof -
  have "results_ok (map Some (rp_messages (rd_reply r)))" using assms by (auto simp: results_ok_def round_ok_def)
  then obtain ms ef s' ups where "commit_reply_round cd r s = (Inr (ms, ef), s', ups)" "results_ok ms"
    "length ms = length (rp_messages (rd_reply r)) + length (rd_calls r)" "rd_calls r = [] \<longrightarrow> ef = EffectNone"
    using commit_calls_ok [of "rd_calls r" "map Some (rp_messages (rd_reply r))" cd s EffectNone "[]"] assms
    by (auto simp: commit_reply_round_def round_ok_def)
  then show ?thesis by auto
qed

text \<open>
  C14. However a commit ends, it does not panic and keeps the conversation: the window stays one
  of valid messages whose count is of its own messages, and the user's first message stays the
  first, through appended rounds, collapses, installed plans, handoffs and refits.
\<close>

theorem commit_keeps_goal:
  fixes h :: "('v, 'r) harness"
  assumes "window_ok (hs_window h)" and "\<forall>u \<in> set (ci_users ci). valid_message u"
    and "\<forall>r. ci_round ci = Some r \<longrightarrow> round_ok r"
    and "harness_commit v cd ci h w = (out, h', w', ups)"
  shows "out \<noteq> WPanic \<and> window_ok (hs_window h') \<and> goal_kept (hs_window h) (hs_window h')"
proof -
  define s0 where "s0 = set_user_state (case ci_state ci of None \<Rightarrow> [] | Some st \<Rightarrow> st) (hs_session h)"
  define users where "users = (\<lambda>(s1 :: ('v, 'r) session_manager) (_ :: unit). wbind (commit_users v (sm_plan s1) (ci_users ci))
    (\<lambda>_. if ci_collapse ci then win_refit (window_env_of v) else wret ()))"
  have users: "keeps_window (fst s) (users s1 u s)" if "window_ok (fst s)" for s s1 u
  proof -
    have "keeps_window (fst s) (commit_users v (sm_plan s1) (ci_users ci) s)"
      using that assms(2) by (rule keeps_commit_users)
    then show ?thesis unfolding users_def
      by (intro keeps_bind) (auto simp: keeps_window_def [of _ "(WOk x, s')" for x s'] intro!: keeps_win_refit)
  qed
  show ?thesis
  proof (cases "ci_round ci")
    case None
    have "keeps_window (hs_window h) (users s0 () (hs_window h, w))" using users [of "(hs_window h, w)"] assms(1) by simp
    then show ?thesis using assms(4) None
      by (auto simp: harness_commit_def Let_def s0_def users_def keeps_window_def split: prod.splits)
  next
    case (Some r)
    then obtain ms ef s1 us where r: "commit_reply_round cd r s0 = (Inr (ms, ef), s1, us)" "results_ok ms" "ef \<noteq> EffectNone \<longrightarrow> ms \<noteq> []"
      using assms(3) commit_reply_round_ok by blast
    have ms: "None \<notin> set ms" "\<forall>m \<in> set (map the ms). valid_message m" using r(2) by (auto simp: results_ok_def)
    have round: "keeps_window (hs_window h) (commit_round v (sm_plan s1) (map the ms) ef (rp_input_tokens (rd_reply r)) (hs_window h, w))"
      using keeps_commit_round [of "(hs_window h, w)" "map the ms" ef v "sm_plan s1" "rp_input_tokens (rd_reply r)"] assms(1) ms r(3) by simp
    have "keeps_window (hs_window h) (wbind (commit_round v (sm_plan s1) (map the ms) ef (rp_input_tokens (rd_reply r)))
        (users s1) (hs_window h, w))"
    proof (rule keeps_bind, rule round)
      fix x s' assume "commit_round v (sm_plan s1) (map the ms) ef (rp_input_tokens (rd_reply r)) (hs_window h, w) = (WOk x, s')"
      then show "keeps_window (fst s') (users s1 x s')" using round users by (simp add: keeps_window_def)
    qed
    then show ?thesis using assms(4) Some r(1) ms(1)
      by (auto simp: harness_commit_def Let_def s0_def [symmetric] users_def keeps_window_def split: prod.splits)
  qed
qed

definition demo_model :: "nat model_env" where
  "demo_model = \<lparr>me_overhead = 0, me_json = \<lambda>m. length (m_content m),
     me_count = \<lambda>ms w. (Inr (int (sum_list (map (\<lambda>m. length (m_content m)) ms))), Suc w),
     me_invoke = \<lambda>ms w. (Inr [demo_text_chunk ''short'' True], w), me_archive = \<lambda>ms w. (Inr True, w),
     me_stage = \<lambda>i t w. (Inr ''/full'', w), me_supports = \<lambda>m. True, me_ctx_err = None,
     me_summary_instruction = ''sum up'', me_handoff_preamble = ''hand off''\<rparr>"

definition demo_plan_body :: "nat call_body" where
  "demo_plan_body = empty_body\<lparr>cb_result := Some (tool_result demo_tool_call ''Plan created successfully''),
     cb_effect := EffectInstallPlan, cb_writes := no_writes\<lparr>cw_plan := [CreatePlan ''doc'' demo_plan]\<rparr>\<rparr>"

definition demo_commit :: "(nat call_body, string) commit_in" where
  "demo_commit = no_commit\<lparr>ci_round := Some \<lparr>rd_reply = \<lparr>rp_messages = [(text_message RoleAssistant [])\<lparr>m_tool_calls := [demo_tool_call]\<rparr>],
       rp_calls = [demo_tool_call], rp_result = [], rp_timeouts = [], rp_input_tokens = 0\<rparr>,
     rd_calls = [(new_call demo_tool_call 0)\<lparr>c_done := True, c_body := Some demo_plan_body\<rparr>]\<rparr>,
     ci_users := [text_message RoleUser ''go on'']\<rparr>"

definition demo_harness :: "(string, nat) harness" where
  "demo_harness = \<lparr>hs_session = demo_session, hs_window = demo_window\<rparr>"

theorem commit_keeps_goal_witness:
  "\<exists>out h' w' ups. harness_commit demo_model demo_codec demo_commit demo_harness 0 = (out, h', w', ups) \<and>
     out \<noteq> WPanic \<and> wn_msgs (hs_window h') \<noteq> [] \<and> hd (wn_msgs (hs_window h')) = text_message RoleUser ''go''"
proof -
  obtain out h' w' ups where h: "harness_commit demo_model demo_codec demo_commit demo_harness 0 = (out, h', w', ups)"
    using prod_cases4 by blast
  have "window_ok (hs_window demo_harness)"
    by (simp add: demo_harness_def demo_window_def window_ok_def valid_message_def)
  moreover have "\<forall>u \<in> set (ci_users demo_commit). valid_message u" by (simp add: demo_commit_def valid_message_def)
  moreover have "\<forall>r. ci_round demo_commit = Some r \<longrightarrow> round_ok r"
    by (simp add: demo_commit_def round_ok_def call_ok_def valid_message_def demo_tool_call_def wire_id_def
        demo_plan_body_def tool_result_def)
  ultimately have "out \<noteq> WPanic" "goal_kept (hs_window demo_harness) (hs_window h')"
    using commit_keeps_goal [OF _ _ _ h] by blast+
  then show ?thesis using h by (simp add: goal_kept_def demo_harness_def demo_window_def)
qed

section \<open>A handoff is never blank\<close>

lemma trim_left_keeps_plain:
  "\<forall>p \<in> set ps. \<forall>d \<in> set p. \<not> plain d \<Longrightarrow> plain c \<Longrightarrow> c \<in> set s \<Longrightarrow> c \<in> set (trim_left_of ps s)"
proof (induction ps s rule: trim_left_of.induct)
  case (2 ps b s)
  show ?case
  proof (cases "find (\<lambda>p. p \<noteq> [] \<and> has_prefix (b # s) p) ps")
    case None
    then show ?thesis using "2.prems" by simp
  next
    case (Some p)
    then have p: "p \<in> set ps" "p \<noteq> []" "has_prefix (b # s) p" by (auto simp: find_Some_iff)
    obtain q where q: "p = b # q" using p(2,3) by (cases p) (simp_all add: has_prefix_def)
    have "b # s = p @ drop (length p) (b # s)" using p(3) append_take_drop_id [of "length p" "b # s"] by (simp add: has_prefix_def)
    moreover have "c \<notin> set p" using "2.prems"(1,2) p(1) by blast
    ultimately have "c \<in> set (drop (length p) (b # s))" using "2.prems"(3) by (metis UnE set_append)
    then show ?thesis using "2.IH" [OF Some] "2.prems"(1,2) Some q by simp
  qed
qed simp

lemma plain_not_blank: "plain c \<Longrightarrow> c \<in> set s \<Longrightarrow> trim_space s \<noteq> []"
  using trim_left_keeps_plain [of space_runes c s]
    trim_left_keeps_plain [of "map rev space_runes" c "rev (trim_left_space s)"] space_runes_not_plain
  by (fastforce simp: trim_space_def trim_left_space_def trim_right_space_def)

text \<open>The handoff that replaces a window says something, whatever the model does.\<close>

lemma handoff_text_not_blank:
  assumes "handoff_text v ms plan w = (Inr (txt, b), w')"
  shows "trim_space txt \<noteq> []"
proof -
  have "trim_space (fallback_handoff plan) \<noteq> []"
    by (rule plain_not_blank [of "CHR ''H''"]) (simp_all add: plain_eval fallback_handoff_def)
  then show ?thesis using assms
    by (auto simp: handoff_text_def split: option.splits prod.splits sum.splits if_splits)
qed

end
