(* ===== verification/Store.thy ===== *)
theory Store
  imports Prelude Text "HOL-Library.Multiset" "HOL-Library.Word" "HOL-Library.Char_ord" "HOL-Library.List_Lexorder" "HOL-Library.Product_Lexorder"
begin

text \<open>
  A session's checkpoint as rows and where they are kept (session/checkpoint.go,
  session/snapshot.go): the digest of saved rows, the changes from one checkpoint to the next,
  the store in memory, and the contract of a store that the runtimes rely on, as the locale
  \<open>checkpoint_store\<close>. The hash is a parameter.
\<close>

section \<open>Rows and changes\<close>

type_synonym row = "string \<times> string"

record entry =
  en_kind :: string
  en_key :: string
  en_value :: string

record change =
  ch_entry :: entry
  ch_delete :: bool

definition row_of :: "entry \<Rightarrow> row" where
  "row_of e = (en_kind e, en_key e)"

type_synonym rows = "(row, string) gomap"

type_synonym 'h digest = "(row, 'h) gomap"

definition digest_of :: "(string \<Rightarrow> 'h) \<Rightarrow> entry list \<Rightarrow> 'h digest" where
  "digest_of h es = fold (\<lambda>e. AList.update (row_of e) (h (en_value e))) es []"

definition put_of :: "entry \<Rightarrow> change" where
  "put_of e = \<lparr>ch_entry = e, ch_delete = False\<rparr>"

definition delete_of :: "row \<Rightarrow> change" where
  "delete_of r = \<lparr>ch_entry = \<lparr>en_kind = fst r, en_key = snd r, en_value = []\<rparr>, ch_delete = True\<rparr>"

definition diff :: "(string \<Rightarrow> 'h) \<Rightarrow> 'h digest \<Rightarrow> entry list \<Rightarrow> change list \<times> 'h digest" where
  "diff h prev next =
     (let digest = digest_of h next;
          puts = filter (\<lambda>e. case map_of prev (row_of e) of None \<Rightarrow> True | Some x \<Rightarrow> Some x \<noteq> map_of digest (row_of e)) next;
          gone = filter (\<lambda>r. map_of digest r = None) (sort (remdups (map fst prev)))
      in (map put_of puts @ map delete_of gone, digest))"

definition apply_change :: "change \<Rightarrow> rows \<Rightarrow> rows" where
  "apply_change c rs =
     (if ch_delete c then AList.delete (row_of (ch_entry c)) rs
      else AList.update (row_of (ch_entry c)) (en_value (ch_entry c)) rs)"

definition apply_changes :: "change list \<Rightarrow> rows \<Rightarrow> rows" where
  "apply_changes cs rs = fold apply_change cs rs"

section \<open>The store in memory\<close>

record snap_record =
  sn_rows :: rows
  sn_gen :: "64 word"

record mem_store =
  st_records :: "(string, snap_record) gomap"
  st_calls :: "(string, (string, string) gomap) gomap"

definition new_memory_store :: mem_store where
  "new_memory_store = \<lparr>st_records = [], st_calls = []\<rparr>"

definition revision_of :: "64 word \<Rightarrow> string" where
  "revision_of g = digits_of (unat g)"

definition mem_save :: "string \<Rightarrow> change list \<Rightarrow> string \<Rightarrow> mem_store \<Rightarrow> (gerr + string) \<times> mem_store" where
  "mem_save sid cs expected st =
     (if sid = [] then (Inl (mk_err ''snapshot: session id is required'' []), st)
      else
        let cur = map_of (st_records st) sid;
            current = (case cur of None \<Rightarrow> [] | Some sn \<Rightarrow> revision_of (sn_gen sn))
        in if expected \<noteq> current then (Inl (mk_err ''stale checkpoint'' [StaleCheckpoint]), st)
           else
             let old = (case cur of None \<Rightarrow> \<lparr>sn_rows = [], sn_gen = 0\<rparr> | Some sn \<Rightarrow> sn);
                 new = \<lparr>sn_rows = apply_changes cs (sn_rows old), sn_gen = sn_gen old + 1\<rparr>
             in (Inr (revision_of (sn_gen new)), st\<lparr>st_records := AList.update sid new (st_records st)\<rparr>))"

text \<open>The rows come in the map's order, which Go leaves open: a parameter.\<close>

definition entries_of :: "rows \<Rightarrow> entry list" where
  "entries_of rs = map (\<lambda>(r, v). \<lparr>en_kind = fst r, en_key = snd r, en_value = v\<rparr>) rs"

definition mem_load :: "(entry list \<Rightarrow> entry list) \<Rightarrow> string \<Rightarrow> mem_store \<Rightarrow> gerr + entry list \<times> string" where
  "mem_load order sid st =
     (case map_of (st_records st) sid of
        None \<Rightarrow> Inl (mk_err (''load snapshot '' @ [CHR 0x22] @ sid @ [CHR 0x22] @ '': session not found'') [SessionNotFound])
      | Some sn \<Rightarrow> Inr (order (entries_of (sn_rows sn)), revision_of (sn_gen sn)))"

definition mem_revision :: "string \<Rightarrow> mem_store \<Rightarrow> gerr + string" where
  "mem_revision sid st =
     Inr (case map_of (st_records st) sid of None \<Rightarrow> [] | Some sn \<Rightarrow> revision_of (sn_gen sn))"

definition put_call :: "string \<Rightarrow> string \<Rightarrow> string \<Rightarrow> mem_store \<Rightarrow> mem_store" where
  "put_call sid key body st =
     st\<lparr>st_calls := AList.update sid
          (AList.update key body (case map_of (st_calls st) sid of None \<Rightarrow> [] | Some m \<Rightarrow> m)) (st_calls st)\<rparr>"

definition kept_calls :: "string \<Rightarrow> string list \<Rightarrow> mem_store \<Rightarrow> (string, string) gomap" where
  "kept_calls sid keys st =
     fold (\<lambda>key out. case map_of (case map_of (st_calls st) sid of None \<Rightarrow> [] | Some m \<Rightarrow> m) key of
             None \<Rightarrow> out | Some body \<Rightarrow> AList.update key body out) keys []"

definition clear_calls :: "string \<Rightarrow> mem_store \<Rightarrow> mem_store" where
  "clear_calls sid st = st\<lparr>st_calls := AList.delete sid (st_calls st)\<rparr>"

definition mem_delete :: "string \<Rightarrow> mem_store \<Rightarrow> mem_store" where
  "mem_delete sid st =
     st\<lparr>st_records := AList.delete sid (st_records st), st_calls := AList.delete sid (st_calls st)\<rparr>"

section \<open>The changes take one checkpoint to the next\<close>

definition entry_map :: "entry list \<Rightarrow> row \<rightharpoonup> string" where
  "entry_map es = map_of (map (\<lambda>e. (row_of e, en_value e)) es)"

lemma entry_map_simps [simp]:
  "entry_map [] = Map.empty" "entry_map (e # es) = (entry_map es)(row_of e \<mapsto> en_value e)"
  by (simp_all add: entry_map_def)

lemma entry_map_None: "entry_map es r = None \<longleftrightarrow> r \<notin> row_of ` set es"
  by (induction es) auto

lemma entry_map_mem: "distinct (map row_of es) \<Longrightarrow> e \<in> set es \<Longrightarrow> entry_map es (row_of e) = Some (en_value e)"
  by (simp add: entry_map_def map_of_eq_Some_iff comp_def image_iff) force

lemma entry_map_SomeD: "entry_map es r = Some v \<Longrightarrow> \<exists>e \<in> set es. row_of e = r \<and> en_value e = v"
  by (induction es) (auto split: if_splits)

lemma entry_map_entries_of [simp]: "entry_map (entries_of rs) = map_of rs"
  by (induction rs) (auto simp: entries_of_def row_of_def)

lemma map_of_fold_update:
  "distinct (map row_of es) \<Longrightarrow>
    map_of (fold (\<lambda>e. AList.update (row_of e) (f (en_value e))) es m) r =
    (case entry_map es r of Some v \<Rightarrow> Some (f v) | None \<Rightarrow> map_of m r)"
proof (induction es arbitrary: m)
  case (Cons e es)
  then have "entry_map es (row_of e) = None" by (auto simp: entry_map_None)
  with Cons show ?case by (auto simp: update_conv' split: option.splits)
qed simp

lemma map_of_digest:
  "distinct (map row_of es) \<Longrightarrow> map_of (digest_of h es) r = map_option h (entry_map es r)"
  by (simp add: digest_of_def map_of_fold_update split: option.splits)

lemma distinct_digest: "distinct (map fst (digest_of h es))"
proof -
  have "distinct (map fst m) \<Longrightarrow> distinct (map fst (fold (\<lambda>e. AList.update (row_of e) (h (en_value e))) es m))" for m
    by (induction es arbitrary: m) (simp_all add: distinct_update)
  then show ?thesis by (simp add: digest_of_def)
qed

lemma puts_applied:
  "map_of (fold apply_change (map put_of es) rs) r =
    (case entry_map (rev es) r of Some v \<Rightarrow> Some v | None \<Rightarrow> map_of rs r)"
proof (induction es arbitrary: rs)
  case (Cons e es)
  have "entry_map (rev es @ [e]) r = (case entry_map (rev es) r of Some v \<Rightarrow> Some v | None \<Rightarrow> if r = row_of e then Some (en_value e) else None)"
    by (simp add: entry_map_def map_add_def split: option.splits)
  with Cons show ?case by (auto simp: apply_change_def put_of_def update_conv' split: option.splits)
qed simp

lemma deletes_applied:
  "map_of (fold apply_change (map delete_of gone) rs) r = (if r \<in> set gone then None else map_of rs r)"
  by (induction gone arbitrary: rs) (auto simp: apply_change_def delete_of_def row_of_def delete_conv')

lemma entry_map_filter:
  assumes "distinct (map row_of es)"
  shows "entry_map (rev (filter P es)) r =
    (case entry_map es r of None \<Rightarrow> None | Some v \<Rightarrow> if P \<lparr>en_kind = fst r, en_key = snd r, en_value = v\<rparr> then Some v else None)"
proof -
  have d: "distinct (map row_of (rev (filter P es)))"
    using assms by (simp add: distinct_map_filter flip: rev_map)
  have same: "\<lparr>en_kind = fst (row_of e), en_key = snd (row_of e), en_value = en_value e\<rparr> = e" for e
    by (simp add: row_of_def)
  show ?thesis
  proof (cases "entry_map es r")
    case None
    then have "entry_map (rev (filter P es)) r = None" by (auto simp: entry_map_None)
    then show ?thesis using None by simp
  next
    case (Some v)
    then obtain e where e: "e \<in> set es" "row_of e = r" "en_value e = v" using entry_map_SomeD by blast
    have eq: "\<lparr>en_kind = fst r, en_key = snd r, en_value = v\<rparr> = e" using same [of e] e by simp
    show ?thesis
    proof (cases "P e")
      case True
      then have "entry_map (rev (filter P es)) (row_of e) = Some (en_value e)" using entry_map_mem [OF d] e(1) by simp
      then show ?thesis using Some True e eq by simp
    next
      case False
      have "r \<notin> row_of ` set (rev (filter P es))"
      proof
        assume "r \<in> row_of ` set (rev (filter P es))"
        then obtain e' where e': "e' \<in> set es" "P e'" "row_of e' = row_of e" using e(2) by auto
        then have "e' = e" using assms e(1) by (metis distinct_map inj_onD)
        then show False using e'(2) False by simp
      qed
      then have "entry_map (rev (filter P es)) r = None" by (simp add: entry_map_None)
      then show ?thesis using Some False eq by simp
    qed
  qed
qed

text \<open>No two values in play have the same hash.\<close>

definition no_collision :: "(string \<Rightarrow> 'h) \<Rightarrow> (row \<rightharpoonup> string) \<Rightarrow> entry list \<Rightarrow> bool" where
  "no_collision h old next \<longleftrightarrow> (\<forall>e \<in> set next. \<forall>v. old (row_of e) = Some v \<longrightarrow> h v = h (en_value e) \<longrightarrow> v = en_value e)"

text \<open>
  The changes of a commit are enough: applied to rows whose digest they were computed from, they
  give exactly the next checkpoint's rows, so long as no changed value has the hash of the value
  it replaces; and the digest kept is that of those rows.
\<close>

lemma changes_applied:
  assumes "distinct (map row_of next)" and "map_of prev = (\<lambda>r. map_option h (map_of rs r))"
    and "no_collision h (map_of rs) next"
  shows "map_of (apply_changes (fst (diff h prev next)) rs) = entry_map next \<and> snd (diff h prev next) = digest_of h next"
proof -
  define P where "P = (\<lambda>e. case map_of prev (row_of e) of None \<Rightarrow> True | Some x \<Rightarrow> Some x \<noteq> map_of (digest_of h next) (row_of e))"
  define gone where "gone = filter (\<lambda>r. map_of (digest_of h next) r = None) (sort (remdups (map fst prev)))"
  have d: "fst (diff h prev next) = map put_of (filter P next) @ map delete_of gone"
    by (simp add: diff_def Let_def P_def gone_def)
  have keys: "r \<in> set (map fst prev) \<longleftrightarrow> map_of rs r \<noteq> None" for r
    using fun_cong [OF assms(2), of r] map_of_eq_None_iff [of prev r] by (cases "map_of rs r") auto
  have "map_of (apply_changes (fst (diff h prev next)) rs) r = entry_map next r" for r
  proof (cases "entry_map next r")
    case None
    then have "map_of (digest_of h next) r = None" using assms(1) by (simp add: map_of_digest)
    then have "r \<in> set gone \<longleftrightarrow> map_of rs r \<noteq> None" using keys [of r] by (simp add: gone_def)
    then show ?thesis using None
      by (auto simp: d apply_changes_def puts_applied deletes_applied entry_map_filter [OF assms(1)])
  next
    case (Some v)
    let ?e = "\<lparr>en_kind = fst r, en_key = snd r, en_value = v\<rparr>"
    obtain x where x: "x \<in> set next" "row_of x = r" "en_value x = v" using entry_map_SomeD [OF Some] by blast
    then have "?e = x" by (auto simp: row_of_def)
    then have e: "?e \<in> set next" "row_of ?e = r" using x by simp_all
    have "map_of (digest_of h next) r = Some (h v)" using Some assms(1) by (simp add: map_of_digest)
    then have "\<not> P ?e \<Longrightarrow> map_of rs r = Some v" and "r \<notin> set gone"
      using fun_cong [OF assms(2), of r] e assms(3) unfolding P_def gone_def no_collision_def
      by (cases "map_of rs r"; fastforce)+
    then show ?thesis using Some
      by (auto simp: d apply_changes_def puts_applied deletes_applied entry_map_filter [OF assms(1)])
  qed
  then show ?thesis by (auto simp: diff_def Let_def)
qed

section \<open>The contract of a store\<close>

text \<open>
  What the runtimes rely on: revisions are compared and swapped, a new revision is another one,
  a save is all of its changes or none, and a load gives every row once, in any order.
\<close>

definition any_order :: "(entry list \<Rightarrow> entry list) \<Rightarrow> bool" where
  "any_order order \<longleftrightarrow> (\<forall>es. mset (order es) = mset es)"

locale checkpoint_store =
  fixes save :: "string \<Rightarrow> change list \<Rightarrow> string \<Rightarrow> 's \<Rightarrow> (gerr + string) \<times> 's"
    and load :: "(entry list \<Rightarrow> entry list) \<Rightarrow> string \<Rightarrow> 's \<Rightarrow> gerr + entry list \<times> string"
    and revision :: "string \<Rightarrow> 's \<Rightarrow> gerr + string"
    and content :: "string \<Rightarrow> 's \<Rightarrow> rows"
    and good :: "'s \<Rightarrow> bool"
  assumes save_good: "good st \<Longrightarrow> save sid cs r st = (res, st') \<Longrightarrow> good st'"
    and save_ok: "good st \<Longrightarrow> save sid cs r st = (Inr r', st') \<Longrightarrow>
      revision sid st = Inr r \<and> revision sid st' = Inr r' \<and> r' \<noteq> [] \<and> r' \<noteq> r \<and>
      map_of (content sid st') = map_of (apply_changes cs (content sid st))"
    and save_err: "save sid cs r st = (Inl e, st') \<Longrightarrow> st' = st"
    and revision_none: "good st \<Longrightarrow> revision sid st = Inr [] \<Longrightarrow> content sid st = []"
    and load_rows: "good st \<Longrightarrow> any_order order \<Longrightarrow> load order sid st = Inr (es, r) \<Longrightarrow>
      revision sid st = Inr r \<and> r \<noteq> [] \<and> distinct (map row_of es) \<and> entry_map es = map_of (content sid st)"
begin

text \<open>A writer whose expected revision is not the store's changes nothing.\<close>

lemma stale_save:
  assumes "good st" and "revision sid st \<noteq> Inr r"
  shows "\<exists>e. save sid cs r st = (Inl e, st)"
proof -
  obtain res st' where s: "save sid cs r st = (res, st')" by (cases "save sid cs r st")
  then show ?thesis using save_ok [OF assms(1)] save_err assms(2) by (cases res) blast+
qed

text \<open>Of two writers that saw the same revision, one loses.\<close>

lemma one_writer_wins:
  assumes "good st" and "save sid cs r st = (Inr r1, st1)"
  shows "\<exists>e. save sid cs' r st1 = (Inl e, st1)"
proof -
  note ok = save_ok [OF assms]
  have "revision sid st1 \<noteq> Inr r" using ok by simp
  with save_good [OF assms] show ?thesis by (rule stale_save)
qed

end

definition store_good :: "mem_store \<Rightarrow> bool" where
  "store_good st \<longleftrightarrow> (\<forall>sid sn. map_of (st_records st) sid = Some sn \<longrightarrow> distinct (map fst (sn_rows sn)))"

definition stored_rows :: "string \<Rightarrow> mem_store \<Rightarrow> rows" where
  "stored_rows sid st = (case map_of (st_records st) sid of None \<Rightarrow> [] | Some sn \<Rightarrow> sn_rows sn)"

lemma distinct_apply_changes: "distinct (map fst rs) \<Longrightarrow> distinct (map fst (apply_changes cs rs))"
  unfolding apply_changes_def
  by (induction cs arbitrary: rs) (simp_all add: apply_change_def distinct_update distinct_delete)

lemma revision_of_not_Nil [simp]: "revision_of g \<noteq> []"
  by (simp add: revision_of_def digits_of_not_Nil)

lemma revision_of_inject: "revision_of a = revision_of b \<longleftrightarrow> a = b"
proof
  assume "revision_of a = revision_of b"
  then have "Some (unat a) = Some (unat b)" unfolding revision_of_def by (metis parse_digits_of)
  then show "a = b" by (simp add: word_unat_eq_iff)
qed simp

lemma distinct_entries_of: "distinct (map row_of (entries_of rs)) \<longleftrightarrow> distinct (map fst rs)"
  by (simp add: entries_of_def comp_def case_prod_beta row_of_def)

lemma entry_map_perm:
  assumes "mset es' = mset es" "distinct (map row_of es)"
  shows "distinct (map row_of es') \<and> entry_map es' = entry_map es"
proof -
  have d: "distinct (map row_of es')" using assms by (metis mset_eq_imp_distinct_iff mset_map)
  have "set es' = set es" using assms(1) by (rule mset_eq_setD)
  have "entry_map es' r = entry_map es r" for r
  proof (cases "entry_map es r")
    case None
    then have "entry_map es' r = None" using \<open>set es' = set es\<close> by (simp add: entry_map_None)
    then show ?thesis using None by simp
  next
    case (Some v)
    then obtain e where "e \<in> set es'" "row_of e = r" "en_value e = v" using entry_map_SomeD \<open>set es' = set es\<close> by blast
    then show ?thesis using entry_map_mem [OF d] Some by auto
  qed
  then show ?thesis using d by blast
qed

interpretation memory: checkpoint_store mem_save mem_load mem_revision stored_rows store_good
proof unfold_locales
  fix st sid cs r res and st' :: mem_store
  assume g: "store_good st" and s: "mem_save sid cs r st = (res, st')"
  have "distinct (map fst (sn_rows sn))" if "map_of (st_records st) sid = Some sn" for sn using g that by (simp add: store_good_def)
  then show "store_good st'" using g s
    by (auto simp: mem_save_def Let_def store_good_def update_conv' distinct_apply_changes split: if_splits option.splits)
next
  fix st sid cs r r' and st' :: mem_store
  assume "mem_save sid cs r st = (Inr r', st')"
  then show "mem_revision sid st = Inr r \<and> mem_revision sid st' = Inr r' \<and> r' \<noteq> [] \<and> r' \<noteq> r \<and>
      map_of (stored_rows sid st') = map_of (apply_changes cs (stored_rows sid st))"
    by (auto simp: mem_save_def Let_def mem_revision_def stored_rows_def update_conv' revision_of_inject split: if_splits option.splits)
next
  fix sid cs r e and st st' :: mem_store
  assume "mem_save sid cs r st = (Inl e, st')"
  then show "st' = st" by (auto simp: mem_save_def Let_def split: if_splits)
next
  fix sid and st :: mem_store
  assume "mem_revision sid st = Inr []"
  then show "stored_rows sid st = []" by (auto simp: mem_revision_def stored_rows_def split: option.splits)
next
  fix st :: mem_store and order sid es r
  assume g: "store_good st" and o: "any_order order" and l: "mem_load order sid st = Inr (es, r)"
  then obtain sn where sn: "map_of (st_records st) sid = Some sn" "es = order (entries_of (sn_rows sn))" "r = revision_of (sn_gen sn)"
    by (auto simp: mem_load_def split: option.splits)
  have "distinct (map row_of (entries_of (sn_rows sn)))" using g sn(1) by (simp add: distinct_entries_of store_good_def)
  then have "distinct (map row_of es) \<and> entry_map es = map_of (sn_rows sn)"
    using entry_map_perm [of es "entries_of (sn_rows sn)"] o sn(2) by (simp add: any_order_def)
  then show "mem_revision sid st = Inr r \<and> r \<noteq> [] \<and> distinct (map row_of es) \<and> entry_map es = map_of (stored_rows sid st)"
    using sn by (simp add: mem_revision_def stored_rows_def)
qed

text \<open>
  A revision of the memory store is not new for good: a session that was deleted and saved again
  is at the revision the first one had, so a worker that kept it takes the new rows for its own.
\<close>

lemma delete_repeats_revision:
  assumes "mem_save ''s'' cs [] new_memory_store = (Inr r, st)" and "mem_save ''s'' cs' [] (mem_delete ''s'' st) = (Inr r', st')"
  shows "r' = r"
  using assms by (auto simp: mem_save_def Let_def new_memory_store_def mem_delete_def split: option.splits if_splits)

end
