(* ===== verification/Checkpoint.thy ===== *)
theory Checkpoint
  imports Harness Store
begin

text \<open>
  A harness's committed state as checkpoint rows and back (checkpoint.go, window.go). The JSON
  of the values is a parameter.
\<close>

section \<open>Row kinds and keys\<close>

definition row_version :: string where "row_version = ''version''"
definition row_message :: string where "row_message = ''message''"
definition row_count :: string where "row_count = ''count''"
definition row_todo :: string where "row_todo = ''todo''"
definition row_plan :: string where "row_plan = ''plan''"
definition row_state :: string where "row_state = ''state''"
definition row_permission :: string where "row_permission = ''permission''"
definition row_rest :: string where "row_rest = ''rest''"

lemmas row_kinds = row_version_def row_message_def row_count_def row_todo_def row_plan_def row_state_def
  row_permission_def row_rest_def

definition checkpoint_version :: int where
  "checkpoint_version = 7"

text \<open>The key of the n-th row of an ordered kind: at least eight digits.\<close>

definition position :: "nat \<Rightarrow> string" where
  "position n = (let ds = digits_of n in replicate (8 - length ds) (CHR ''0'') @ ds)"

section \<open>Rows of a harness\<close>

record ('v, 'r) json =
  jn_message :: "message \<Rightarrow> string"
  jn_message_of :: "string \<Rightarrow> gerr + message"
  jn_count :: "tally \<Rightarrow> string"
  jn_count_of :: "string \<Rightarrow> gerr + tally"
  jn_todo :: "todo \<Rightarrow> string"
  jn_todo_of :: "string \<Rightarrow> gerr + todo"
  jn_permission :: "permission \<Rightarrow> string"
  jn_permission_of :: "string \<Rightarrow> gerr + permission"
  jn_rest :: "'r \<Rightarrow> string"
  jn_rest_of :: "string \<Rightarrow> gerr + 'r"
  jn_value :: "'v \<Rightarrow> gerr + string"
  jn_value_of :: "string \<Rightarrow> gerr + 'v"

definition mk_row :: "string \<Rightarrow> string \<Rightarrow> string \<Rightarrow> entry" where
  "mk_row kind key v = \<lparr>en_kind = kind, en_key = key, en_value = v\<rparr>"

definition ordered_rows :: "string \<Rightarrow> ('a \<Rightarrow> string) \<Rightarrow> 'a list \<Rightarrow> entry list" where
  "ordered_rows kind enc xs = map (\<lambda>(i, x). mk_row kind (position i) (enc x)) (zip [0..<length xs] xs)"

definition window_rows :: "('v, 'r) json \<Rightarrow> window \<Rightarrow> entry list" where
  "window_rows js w =
     ordered_rows row_message (jn_message js) (wn_msgs w) @
     (if 0 < tl_tokens (wn_count w) then [mk_row row_count [] (jn_count js (wn_count w))] else [])"

definition sorted_map :: "(string, 'a) gomap \<Rightarrow> (string \<times> 'a) list" where
  "sorted_map m = map (\<lambda>k. (k, the (map_of m k))) (sort (remdups (map fst m)))"

fun state_rows :: "('v, 'r) json \<Rightarrow> (string \<times> 'v) list \<Rightarrow> (string \<times> gerr) + entry list" where
  "state_rows js [] = Inr []"
| "state_rows js ((k, v) # kvs) =
     (case jn_value js v of
        Inl e \<Rightarrow> Inl (k, e)
      | Inr raw \<Rightarrow> (case state_rows js kvs of Inl x \<Rightarrow> Inl x | Inr es \<Rightarrow> Inr (mk_row row_state k raw # es)))"

definition checkpoint :: "('v, 'r) json \<Rightarrow> ('v, 'r) harness \<Rightarrow> gerr + entry list" where
  "checkpoint js h =
     (let s = hs_session h; (todos, plan) = plan_of (sm_plan s);
          fixed = [mk_row row_version [] (itoa checkpoint_version)] @ window_rows js (hs_window h)
            @ ordered_rows row_todo (jn_todo js) (case todos of None \<Rightarrow> [] | Some tds \<Rightarrow> tds)
            @ (if plan \<noteq> [] then [mk_row row_plan [] plan] else [])
            @ map (\<lambda>(k, d). mk_row row_permission k (jn_permission js d)) (sorted_map (pm_decisions (sm_permissions s)))
            @ map (\<lambda>(k, r). mk_row row_rest k (jn_rest js r)) (sorted_map (sm_rests s))
      in case state_rows js (sorted_map (sm_user s)) of
           Inl (k, e) \<Rightarrow> Inl (wrap_err (''checkpoint state '' @ k @ '': '') e)
         | Inr es \<Rightarrow> Inr (fixed @ es))"

section \<open>Restoring\<close>

datatype row_fault = NotNumber string | BadJson gerr | UnknownKindOf string

datatype restore_error =
    RowFails string string row_fault
  | UnsupportedVersion int
  | WindowRowFails string string gerr
  | InvalidWindow message_fault

record ('v, 'r) restored =
  rs_version :: int
  rs_window :: "entry list"
  rs_todos :: "todo list"
  rs_plan :: string
  rs_permissions :: "(string, permission) gomap"
  rs_rests :: "(string, 'r) gomap"
  rs_state :: "(string, 'v) gomap"

definition nothing_restored :: "('v, 'r) restored" where
  "nothing_restored = \<lparr>rs_version = 0, rs_window = [], rs_todos = [], rs_plan = [], rs_permissions = [],
     rs_rests = [], rs_state = []\<rparr>"

definition restore_row :: "('v, 'r) json \<Rightarrow> entry \<Rightarrow> ('v, 'r) restored \<Rightarrow> row_fault + ('v, 'r) restored" where
  "restore_row js e a =
     (let k = en_kind e; v = en_value e in
      if k = row_version then (case atoi v of None \<Rightarrow> Inl (NotNumber v) | Some n \<Rightarrow> Inr (a\<lparr>rs_version := n\<rparr>))
      else if k = row_message \<or> k = row_count then Inr (a\<lparr>rs_window := rs_window a @ [e]\<rparr>)
      else if k = row_todo then
        (case jn_todo_of js v of Inl x \<Rightarrow> Inl (BadJson x) | Inr td \<Rightarrow> Inr (a\<lparr>rs_todos := rs_todos a @ [td]\<rparr>))
      else if k = row_plan then Inr (a\<lparr>rs_plan := v\<rparr>)
      else if k = row_permission then
        (case jn_permission_of js v of
           Inl x \<Rightarrow> Inl (BadJson x) | Inr d \<Rightarrow> Inr (a\<lparr>rs_permissions := AList.update (en_key e) d (rs_permissions a)\<rparr>))
      else if k = row_rest then
        (case jn_rest_of js v of
           Inl x \<Rightarrow> Inl (BadJson x) | Inr r \<Rightarrow> Inr (a\<lparr>rs_rests := AList.update (en_key e) r (rs_rests a)\<rparr>))
      else if k = row_state then
        (case jn_value_of js v of
           Inl x \<Rightarrow> Inl (BadJson x) | Inr x \<Rightarrow> Inr (a\<lparr>rs_state := AList.update (en_key e) x (rs_state a)\<rparr>))
      else Inl (UnknownKindOf k))"

fun restore_rows :: "('v, 'r) json \<Rightarrow> entry list \<Rightarrow> ('v, 'r) restored \<Rightarrow> restore_error + ('v, 'r) restored" where
  "restore_rows js [] a = Inr a"
| "restore_rows js (e # es) a =
     (case restore_row js e a of
        Inl f \<Rightarrow> Inl (RowFails (en_kind e) (en_key e) f)
      | Inr a1 \<Rightarrow> restore_rows js es a1)"

fun window_restore_rows :: "('v, 'r) json \<Rightarrow> entry list \<Rightarrow> message list \<Rightarrow> tally \<Rightarrow> restore_error + message list \<times> tally" where
  "window_restore_rows js [] ms c = Inr (ms, c)"
| "window_restore_rows js (e # es) ms c =
     (if en_kind e = row_count then
        (case jn_count_of js (en_value e) of
           Inl x \<Rightarrow> Inl (WindowRowFails (en_kind e) (en_key e) x) | Inr c1 \<Rightarrow> window_restore_rows js es ms c1)
      else
        (case jn_message_of js (en_value e) of
           Inl x \<Rightarrow> Inl (WindowRowFails (en_kind e) (en_key e) x) | Inr m \<Rightarrow> window_restore_rows js es (ms @ [m]) c))"

definition window_restore :: "('v, 'r) json \<Rightarrow> entry list \<Rightarrow> window \<Rightarrow> restore_error + window" where
  "window_restore js es w =
     (case window_restore_rows js es [] no_tally of
        Inl e \<Rightarrow> Inl e
      | Inr (ms, c) \<Rightarrow>
          (case validate_messages (map Some ms) of
             Some f \<Rightarrow> Inl (InvalidWindow f)
           | None \<Rightarrow> Inr (w\<lparr>wn_msgs := ms, wn_count := c\<rparr>)))"

definition restore_checkpoint :: "('v, 'r) json \<Rightarrow> entry list \<Rightarrow> ('v, 'r) harness \<Rightarrow> restore_error + ('v, 'r) harness" where
  "restore_checkpoint js es h =
     (case restore_rows js (sort_key row_of es) nothing_restored of
        Inl e \<Rightarrow> Inl e
      | Inr a \<Rightarrow>
          if rs_version a \<noteq> checkpoint_version then Inl (UnsupportedVersion (rs_version a))
          else
            (case window_restore js (rs_window a) (hs_window h) of
               Inl e \<Rightarrow> Inl e
             | Inr w \<Rightarrow>
                 let s = hs_session h in
                 Inr \<lparr>hs_session = s\<lparr>sm_plan := restore_plan (if rs_todos a = [] then None else Some (rs_todos a)) (rs_plan a) (sm_plan s),
                        sm_permissions := restore_permissions (rs_permissions a) (sm_permissions s),
                        sm_rests := rs_rests a, sm_user := rs_state a\<rparr>,
                      hs_window = w\<rparr>))"

section \<open>Keys in order\<close>

fun fixed_digits :: "nat \<Rightarrow> nat \<Rightarrow> string" where
  "fixed_digits 0 n = []"
| "fixed_digits (Suc w) n = fixed_digits w (n div 10) @ [char_of (48 + n mod 10)]"

lemma length_fixed_digits [simp]: "length (fixed_digits w n) = w"
  by (induction w arbitrary: n) simp_all

lemma append_less: "length xs = length ys \<Longrightarrow> xs < ys \<Longrightarrow> xs @ us < (ys :: 'a :: linorder list) @ vs"
  by (induction xs ys rule: list_induct2) auto

lemma append_less_same: "us < vs \<Longrightarrow> xs @ us < xs @ (vs :: 'a :: linorder list)"
  by (induction xs) auto

lemma digit_less: "a < b \<Longrightarrow> b < 10 \<Longrightarrow> char_of (48 + a) < (char_of (48 + b :: nat) :: char)"
  by (simp add: less_char_def)

lemma fixed_digits_less: "i < j \<Longrightarrow> j < 10 ^ w \<Longrightarrow> fixed_digits w i < fixed_digits w j"
proof (induction w arbitrary: i j)
  case (Suc w)
  have j: "j div 10 < 10 ^ w" using Suc.prems by (simp add: less_mult_imp_div_less mult.commute)
  show ?case
  proof (cases "i div 10 < j div 10")
    case True
    then show ?thesis using append_less [OF _ Suc.IH [OF True j]] by simp
  next
    case False
    have le: "i div 10 \<le> j div 10" using Suc.prems(1) by (simp add: div_le_mono)
    with False have eq: "i div 10 = j div 10" by simp
    then have "i mod 10 < j mod 10" using Suc.prems(1) by (metis div_mult_mod_eq nat_add_left_cancel_less)
    then show ?thesis using eq digit_less [of "i mod 10" "j mod 10"] by (simp add: append_less_same)
  qed
qed simp

lemma char_of_zero: "char_of (48 :: nat) = CHR ''0''"
  using char_of_char [of "CHR ''0''", where 'a = nat] by (simp add: of_char_Char)

lemma fixed_digits_0: "fixed_digits w 0 = replicate w (CHR ''0'')"
  by (induction w) (simp_all add: replicate_append_same char_of_zero)

lemma length_digits_of: "0 < w \<Longrightarrow> n < 10 ^ w \<Longrightarrow> length (digits_of n) \<le> w"
proof (induction w arbitrary: n)
  case (Suc w)
  show ?case
  proof (cases "n < 10")
    case True
    then show ?thesis by (simp add: digits_of.simps)
  next
    case False
    then have "0 < w" using Suc.prems by (cases w) auto
    moreover have "n div 10 < 10 ^ w" using Suc.prems by (simp add: less_mult_imp_div_less mult.commute)
    ultimately have "length (digits_of (n div 10)) \<le> w" by (rule Suc.IH)
    then show ?thesis using False by (simp add: digits_of.simps [of n])
  qed
qed simp

lemma fixed_digits_of:
  "0 < w \<Longrightarrow> n < 10 ^ w \<Longrightarrow> fixed_digits w n = replicate (w - length (digits_of n)) (CHR ''0'') @ digits_of n"
proof (induction w arbitrary: n)
  case (Suc w)
  show ?case
  proof (cases "n < 10")
    case True
    then show ?thesis by (simp add: digits_of.simps fixed_digits_0)
  next
    case False
    then have w: "0 < w" using Suc.prems by (cases w) auto
    have n: "n div 10 < 10 ^ w" using Suc.prems by (simp add: less_mult_imp_div_less mult.commute)
    have "fixed_digits w (n div 10) = replicate (w - length (digits_of (n div 10))) (CHR ''0'') @ digits_of (n div 10)"
      by (rule Suc.IH [OF w n])
    then show ?thesis using False by (simp add: digits_of.simps [of n])
  qed
qed simp

lemma position_fixed: "n < 10 ^ 8 \<Longrightarrow> position n = fixed_digits 8 n"
  using fixed_digits_of [of 8 n] by (simp add: position_def Let_def)

lemma position_less: "i < j \<Longrightarrow> j < 10 ^ 8 \<Longrightarrow> position i < position j"
  using fixed_digits_less [of i j 8] by (simp add: position_fixed)

section \<open>The rows in order\<close>

definition row_less :: "entry \<Rightarrow> entry \<Rightarrow> bool" where
  "row_less a b \<longleftrightarrow> row_of a < row_of b"

lemma mk_row_sel [simp]: "en_kind (mk_row k key v) = k" "en_key (mk_row k key v) = key" "en_value (mk_row k key v) = v"
  by (simp_all add: mk_row_def)

lemma block_sorted:
  "\<forall>e \<in> set b. en_kind e = k \<Longrightarrow> sorted_wrt (\<lambda>x y. en_key x < en_key y) b \<Longrightarrow> sorted_wrt row_less b"
  by (induction b) (auto simp: row_less_def row_of_def)

lemma blocks_sorted:
  "sorted_wrt row_less b \<Longrightarrow> sorted_wrt row_less bs \<Longrightarrow> \<forall>x \<in> set b. en_kind x = k \<Longrightarrow> \<forall>y \<in> set bs. k < en_kind y \<Longrightarrow>
    sorted_wrt row_less (b @ bs)"
  by (auto simp: sorted_wrt_append row_less_def row_of_def)

lemma ordered_rows_kind: "e \<in> set (ordered_rows k enc xs) \<Longrightarrow> en_kind e = k"
  by (auto simp: ordered_rows_def)

lemma ordered_rows_nth:
  "i < length xs \<Longrightarrow> ordered_rows k enc xs ! i = mk_row k (position i) (enc (xs ! i))"
  by (simp add: ordered_rows_def)

lemma length_ordered_rows [simp]: "length (ordered_rows k enc xs) = length xs"
  by (simp add: ordered_rows_def)

lemma ordered_rows_sorted: "length xs \<le> 10 ^ 8 \<Longrightarrow> sorted_wrt row_less (ordered_rows k enc xs)"
  by (rule block_sorted [of _ k])
    (auto simp: ordered_rows_kind sorted_wrt_iff_nth_less ordered_rows_nth intro!: position_less)

lemma sorted_map_keys: "map fst (sorted_map m) = sort (remdups (map fst m))"
  by (simp add: sorted_map_def comp_def)

lemma strict_keys: "sorted_wrt (<) (map fst (sorted_map m))"
  unfolding sorted_map_keys strict_sorted_iff by simp

lemma map_rows_sorted: "sorted_wrt row_less (map (\<lambda>(k, x). mk_row kind k (f x)) (sorted_map m))"
  using strict_keys [of m]
  by (auto simp: sorted_wrt_map case_prod_beta row_less_def row_of_def)

lemma map_of_sorted_map: "map_of (sorted_map m) = map_of m"
proof
  fix k
  show "map_of (sorted_map m) k = map_of m k"
    using map_of_eq_None_iff [of m k]
    by (cases "map_of m k") (simp_all add: sorted_map_def map_of_map_restrict restrict_map_def)
qed

definition raw_of :: "('v, 'r) json \<Rightarrow> 'v \<Rightarrow> string" where
  "raw_of js v = (case jn_value js v of Inl e \<Rightarrow> [] | Inr raw \<Rightarrow> raw)"

lemma raw_of_Inr: "jn_value js v = Inr raw \<Longrightarrow> raw_of js v = raw"
  by (simp add: raw_of_def)

lemma state_rows_map:
  "state_rows js kvs = Inr es \<Longrightarrow> es = map (\<lambda>(k, v). mk_row row_state k (raw_of js v)) kvs \<and>
    (\<forall>(k, v) \<in> set kvs. jn_value js v = Inr (raw_of js v))"
  by (induction kvs arbitrary: es rule: state_rows.induct) (auto simp: raw_of_Inr split: sum.splits)

section \<open>Reading the rows back\<close>

text \<open>The JSON of the values a harness holds reads back.\<close>

definition json_ok :: "('v, 'r) json \<Rightarrow> ('v, 'r) harness \<Rightarrow> bool" where
  "json_ok js h \<longleftrightarrow>
     (\<forall>m \<in> set (wn_msgs (hs_window h)). jn_message_of js (jn_message js m) = Inr m) \<and>
     jn_count_of js (jn_count js (wn_count (hs_window h))) = Inr (wn_count (hs_window h)) \<and>
     (\<forall>td \<in> set (plan_todos (sm_plan (hs_session h))). jn_todo_of js (jn_todo js td) = Inr td) \<and>
     (\<forall>(k, d) \<in> set (pm_decisions (sm_permissions (hs_session h))). jn_permission_of js (jn_permission js d) = Inr d) \<and>
     (\<forall>(k, r) \<in> set (sm_rests (hs_session h)). jn_rest_of js (jn_rest js r) = Inr r) \<and>
     (\<forall>(k, v) \<in> set (sm_user (hs_session h)). \<forall>raw. jn_value js v = Inr raw \<longrightarrow> jn_value_of js raw = Inr v)"

lemma sorted_map_subset: "set (sorted_map m) \<subseteq> set m"
proof
  fix kv assume "kv \<in> set (sorted_map m)"
  then obtain k where k: "kv = (k, the (map_of m k))" "k \<in> fst ` set m" by (auto simp: sorted_map_def)
  then obtain v where "map_of m k = Some v" using map_of_eq_None_iff [of m k] by (cases "map_of m k") auto
  then show "kv \<in> set m" using k(1) map_of_SomeD by fastforce
qed

lemma restore_rows_append:
  "restore_rows js (xs @ ys) a =
    (case restore_rows js xs a of Inl e \<Rightarrow> Inl e | Inr a1 \<Rightarrow> restore_rows js ys a1)"
  by (induction xs arbitrary: a) (auto split: sum.splits)

lemma ordered_rows_snoc:
  "ordered_rows k enc (xs @ [x]) = ordered_rows k enc xs @ [mk_row k (position (length xs)) (enc x)]"
  by (simp add: ordered_rows_def)

lemma row_kinds_neq [simp]:
  "row_message \<noteq> row_version" "row_count \<noteq> row_version" "row_todo \<noteq> row_version" "row_plan \<noteq> row_version"
  "row_state \<noteq> row_version" "row_permission \<noteq> row_version" "row_rest \<noteq> row_version" "row_message \<noteq> row_count"
  "row_todo \<noteq> row_count" "row_todo \<noteq> row_message" "row_plan \<noteq> row_message" "row_plan \<noteq> row_count" "row_plan \<noteq> row_todo"
  "row_state \<noteq> row_message" "row_state \<noteq> row_count" "row_state \<noteq> row_todo" "row_state \<noteq> row_plan"
  "row_state \<noteq> row_permission" "row_state \<noteq> row_rest" "row_permission \<noteq> row_message" "row_permission \<noteq> row_count"
  "row_permission \<noteq> row_todo" "row_permission \<noteq> row_plan" "row_rest \<noteq> row_message" "row_rest \<noteq> row_count"
  "row_rest \<noteq> row_todo" "row_rest \<noteq> row_plan" "row_rest \<noteq> row_permission"
  by (simp_all add: row_kinds)

lemmas row_kinds_neq_sym [simp] = row_kinds_neq [symmetric]

lemma restore_window_rows:
  "\<forall>e \<in> set es. en_kind e = row_message \<or> en_kind e = row_count \<Longrightarrow>
    restore_rows js es a = Inr (a\<lparr>rs_window := rs_window a @ es\<rparr>)"
  by (induction es arbitrary: a) (auto simp: restore_row_def Let_def)

lemma restore_todo_rows:
  "\<forall>td \<in> set tds. jn_todo_of js (jn_todo js td) = Inr td \<Longrightarrow>
    restore_rows js (ordered_rows row_todo (jn_todo js) tds) a = Inr (a\<lparr>rs_todos := rs_todos a @ tds\<rparr>)"
  by (induction tds rule: rev_induct)
    (auto simp: ordered_rows_snoc restore_rows_append restore_row_def Let_def ordered_rows_def)

lemma restore_permission_rows:
  "\<forall>(k, d) \<in> set kvs. jn_permission_of js (jn_permission js d) = Inr d \<Longrightarrow>
    restore_rows js (map (\<lambda>(k, d). mk_row row_permission k (jn_permission js d)) kvs) a =
    Inr (a\<lparr>rs_permissions := fold (\<lambda>(k, d). AList.update k d) kvs (rs_permissions a)\<rparr>)"
  by (induction kvs arbitrary: a) (auto simp: restore_row_def Let_def)

lemma restore_rest_rows:
  "\<forall>(k, r) \<in> set kvs. jn_rest_of js (jn_rest js r) = Inr r \<Longrightarrow>
    restore_rows js (map (\<lambda>(k, r). mk_row row_rest k (jn_rest js r)) kvs) a =
    Inr (a\<lparr>rs_rests := fold (\<lambda>(k, r). AList.update k r) kvs (rs_rests a)\<rparr>)"
  by (induction kvs arbitrary: a) (auto simp: restore_row_def Let_def)

lemma restore_state_rows:
  "\<forall>(k, v) \<in> set kvs. jn_value_of js (raw_of js v) = Inr v \<Longrightarrow>
    restore_rows js (map (\<lambda>(k, v). mk_row row_state k (raw_of js v)) kvs) a =
    Inr (a\<lparr>rs_state := fold (\<lambda>(k, v). AList.update k v) kvs (rs_state a)\<rparr>)"
proof (induction kvs arbitrary: a)
  case (Cons kv kvs)
  obtain k v where kv: "kv = (k, v)" by (cases kv)
  then have "jn_value_of js (raw_of js v) = Inr v" using Cons.prems by simp
  then have "restore_row js (mk_row row_state k (raw_of js v)) a = Inr (a\<lparr>rs_state := AList.update k v (rs_state a)\<rparr>)"
    by (simp add: restore_row_def Let_def)
  then show ?case using Cons kv by simp
qed simp

lemma map_of_updates:
  "distinct (map fst kvs) \<Longrightarrow>
    map_of (fold (\<lambda>(k, v). AList.update k v) kvs m) k = (case map_of kvs k of Some v \<Rightarrow> Some v | None \<Rightarrow> map_of m k)"
proof (induction kvs arbitrary: m)
  case (Cons kv kvs)
  obtain a b where kv: "kv = (a, b)" by (cases kv)
  then have "map_of kvs a = None" using Cons.prems by (simp add: map_of_eq_None_iff)
  then show ?case using Cons kv by (simp add: update_conv' split: option.splits)
qed simp

lemma map_of_sorted_updates:
  "map_of (fold (\<lambda>(k, v). AList.update k v) (sorted_map m) []) = map_of m"
proof
  fix k
  have "distinct (map fst (sorted_map m))" by (simp add: sorted_map_keys)
  then show "map_of (fold (\<lambda>(k, v). AList.update k v) (sorted_map m) []) k = map_of m k"
    by (simp add: map_of_updates map_of_sorted_map split: option.splits)
qed

lemma window_restore_messages:
  "\<forall>m \<in> set xs. jn_message_of js (jn_message js m) = Inr m \<Longrightarrow> window_restore_rows js (ordered_rows row_message (jn_message js) xs @ es) ms c =
    window_restore_rows js es (ms @ xs) c"
proof (induction xs arbitrary: es rule: rev_induct)
  case (snoc x xs)
  then show ?case by (simp add: ordered_rows_snoc)
qed (simp add: ordered_rows_def)

section \<open>The round trip\<close>

definition count_rows :: "('v, 'r) json \<Rightarrow> window \<Rightarrow> entry list" where
  "count_rows js w = (if 0 < tl_tokens (wn_count w) then [mk_row row_count [] (jn_count js (wn_count w))] else [])"

definition plan_rows :: "string \<Rightarrow> entry list" where
  "plan_rows plan = (if plan \<noteq> [] then [mk_row row_plan [] plan] else [])"

text \<open>The rows of a checkpoint as the restore reads them: in the order of kind and key.\<close>

definition sorted_rows :: "('v, 'r) json \<Rightarrow> ('v, 'r) harness \<Rightarrow> entry list" where
  "sorted_rows js h =
     (let s = hs_session h in
      count_rows js (hs_window h)
      @ ordered_rows row_message (jn_message js) (wn_msgs (hs_window h))
      @ map (\<lambda>(k, d). mk_row row_permission k (jn_permission js d)) (sorted_map (pm_decisions (sm_permissions s)))
      @ plan_rows (ps_document (sm_plan s))
      @ map (\<lambda>(k, r). mk_row row_rest k (jn_rest js r)) (sorted_map (sm_rests s))
      @ map (\<lambda>(k, v). mk_row row_state k (raw_of js v)) (sorted_map (sm_user s))
      @ ordered_rows row_todo (jn_todo js) (plan_todos (sm_plan s))
      @ [mk_row row_version [] (itoa checkpoint_version)])"

lemma checkpoint_rows:
  assumes "checkpoint js h = Inr es"
  shows "mset es = mset (sorted_rows js h) \<and> (\<forall>(k, v) \<in> set (sorted_map (sm_user (hs_session h))). jn_value js v = Inr (raw_of js v))"
proof -
  obtain st where st: "state_rows js (sorted_map (sm_user (hs_session h))) = Inr st"
    using assms by (auto simp: checkpoint_def Let_def plan_of_def split: sum.splits)
  note m = state_rows_map [OF st]
  have "mset es = mset (sorted_rows js h)"
    using assms m
    by (simp add: checkpoint_def Let_def plan_of_def st sorted_rows_def window_rows_def count_rows_def plan_rows_def
        plan_todos_def ac_simps)
      (auto simp: ac_simps)
  then show ?thesis using m by blast
qed

lemma kind_order:
  "row_count < row_message" "row_message < row_permission" "row_permission < row_plan" "row_plan < row_rest"
  "row_rest < row_state" "row_state < row_todo" "row_todo < row_version"
  by (simp_all add: row_kinds less_char_def)

lemma concat_blocks:
  "sorted_wrt (<) (map fst kbs) \<Longrightarrow> \<forall>kb \<in> set kbs. (\<forall>e \<in> set (snd kb). en_kind e = fst kb) \<and> sorted_wrt row_less (snd kb) \<Longrightarrow>
    sorted_wrt row_less (concat (map snd kbs))"
proof (induction kbs)
  case (Cons kb kbs)
  have "fst kb < en_kind y" if "y \<in> set (concat (map snd kbs))" for y
    using that Cons.prems by auto
  moreover have "sorted_wrt row_less (concat (map snd kbs))" using Cons by simp
  moreover have "sorted_wrt row_less (snd kb)" "\<forall>e \<in> set (snd kb). en_kind e = fst kb" using Cons.prems(2) by simp_all
  ultimately show ?case using blocks_sorted [of "snd kb" "concat (map snd kbs)" "fst kb"] by simp
qed simp

lemma sorted_rows_sorted:
  assumes "length (wn_msgs (hs_window h)) \<le> 10 ^ 8" "length (plan_todos (sm_plan (hs_session h))) \<le> 10 ^ 8"
  shows "sorted_wrt row_less (sorted_rows js h)"
proof -
  let ?s = "hs_session h"
  let ?kbs = "[(row_count, count_rows js (hs_window h)),
      (row_message, ordered_rows row_message (jn_message js) (wn_msgs (hs_window h))),
      (row_permission, map (\<lambda>(k, d). mk_row row_permission k (jn_permission js d)) (sorted_map (pm_decisions (sm_permissions ?s)))),
      (row_plan, plan_rows (ps_document (sm_plan ?s))),
      (row_rest, map (\<lambda>(k, r). mk_row row_rest k (jn_rest js r)) (sorted_map (sm_rests ?s))),
      (row_state, map (\<lambda>(k, v). mk_row row_state k (raw_of js v)) (sorted_map (sm_user ?s))),
      (row_todo, ordered_rows row_todo (jn_todo js) (plan_todos (sm_plan ?s))),
      (row_version, [mk_row row_version [] (itoa checkpoint_version)])]"
  have kinds: "sorted_wrt (<) (map fst ?kbs)"
    by (simp add: row_kinds less_char_def)
  have "\<forall>e \<in> set (snd kb). en_kind e = fst kb" if "kb \<in> set ?kbs" for kb
    using that by (auto simp: count_rows_def plan_rows_def dest: ordered_rows_kind)
  moreover have "sorted_wrt row_less (snd kb)" if "kb \<in> set ?kbs" for kb
    using that ordered_rows_sorted [OF assms(1), of row_message "jn_message js"]
      ordered_rows_sorted [OF assms(2), of row_todo "jn_todo js"]
    by (auto simp: count_rows_def plan_rows_def intro: map_rows_sorted)
  ultimately have "sorted_wrt row_less (concat (map snd ?kbs))" using concat_blocks [OF kinds] by blast
  then show ?thesis by (simp add: sorted_rows_def Let_def)
qed

lemma strict_keys_row: "sorted_wrt row_less xs \<Longrightarrow> sorted_wrt (<) (map row_of xs)"
  by (simp add: sorted_wrt_map row_less_def [abs_def])

lemma sort_rows:
  assumes "mset es = mset xs" "sorted_wrt row_less xs"
  shows "sort_key row_of es = xs"
proof (rule sort_key_inj_key_eq [OF assms(1)])
  have "sorted_wrt (<) (map row_of xs)" using assms(2) by (rule strict_keys_row)
  then have "sorted (map row_of xs) \<and> distinct (map row_of xs)" by (simp add: strict_sorted_iff)
  then show "sorted (map row_of xs)" "inj_on row_of (set es)"
    using mset_eq_setD [OF assms(1)] by (simp_all add: distinct_map)
qed

lemma restore_sorted_rows:
  assumes "json_ok js h" "\<forall>(k, v) \<in> set (sorted_map (sm_user (hs_session h))). jn_value js v = Inr (raw_of js v)"
  shows "restore_rows js (sorted_rows js h) nothing_restored = Inr
    \<lparr>rs_version = checkpoint_version,
     rs_window = count_rows js (hs_window h) @ ordered_rows row_message (jn_message js) (wn_msgs (hs_window h)),
     rs_todos = plan_todos (sm_plan (hs_session h)), rs_plan = ps_document (sm_plan (hs_session h)),
     rs_permissions = fold (\<lambda>(k, d). AList.update k d) (sorted_map (pm_decisions (sm_permissions (hs_session h)))) [],
     rs_rests = fold (\<lambda>(k, r). AList.update k r) (sorted_map (sm_rests (hs_session h))) [],
     rs_state = fold (\<lambda>(k, v). AList.update k v) (sorted_map (sm_user (hs_session h))) []\<rparr>"
proof -
  have v: "\<forall>(k, v) \<in> set (sorted_map (sm_user (hs_session h))). jn_value_of js (raw_of js v) = Inr v"
    using assms sorted_map_subset [of "sm_user (hs_session h)"] unfolding json_ok_def by fast
  have p: "\<forall>(k, d) \<in> set (sorted_map (pm_decisions (sm_permissions (hs_session h)))). jn_permission_of js (jn_permission js d) = Inr d"
    using assms(1) sorted_map_subset [of "pm_decisions (sm_permissions (hs_session h))"] unfolding json_ok_def by fast
  have r: "\<forall>(k, r) \<in> set (sorted_map (sm_rests (hs_session h))). jn_rest_of js (jn_rest js r) = Inr r"
    using assms(1) sorted_map_subset [of "sm_rests (hs_session h)"] unfolding json_ok_def by fast
  have td: "\<forall>td \<in> set (plan_todos (sm_plan (hs_session h))). jn_todo_of js (jn_todo js td) = Inr td"
    using assms(1) unfolding json_ok_def by blast
  have window: "restore_rows js (count_rows js (hs_window h)) a = Inr (a\<lparr>rs_window := rs_window a @ count_rows js (hs_window h)\<rparr>)"
    "restore_rows js (ordered_rows row_message (jn_message js) ms) a =
      Inr (a\<lparr>rs_window := rs_window a @ ordered_rows row_message (jn_message js) ms\<rparr>)" for a ms
    by (rule restore_window_rows; auto simp: count_rows_def dest: ordered_rows_kind)+
  have plan: "restore_rows js (plan_rows p) a = Inr (if p = [] then a else a\<lparr>rs_plan := p\<rparr>)" for p a
    by (simp add: plan_rows_def restore_row_def Let_def)
  have version: "restore_rows js [mk_row row_version [] (itoa checkpoint_version)] a = Inr (a\<lparr>rs_version := checkpoint_version\<rparr>)" for a
    by (simp add: restore_row_def Let_def atoi_itoa checkpoint_version_def int_fits_def)
  show ?thesis
    unfolding sorted_rows_def Let_def
    by (simp add: restore_rows_append window plan version restore_permission_rows [OF p] restore_rest_rows [OF r]
        restore_state_rows [OF v] restore_todo_rows [OF td] nothing_restored_def del: restore_rows.simps)
qed

text \<open>
  Two harnesses with the same committed state: the window and its count, the plan (where an
  emptied one and none are the same), and the decisions, rests and user state as maps.
\<close>

definition same_committed :: "('v, 'r) harness \<Rightarrow> ('v, 'r) harness \<Rightarrow> bool" where
  "same_committed h h' \<longleftrightarrow>
     wn_msgs (hs_window h') = wn_msgs (hs_window h) \<and> wn_count (hs_window h') = wn_count (hs_window h) \<and>
     plan_todos (sm_plan (hs_session h')) = plan_todos (sm_plan (hs_session h)) \<and>
     ps_document (sm_plan (hs_session h')) = ps_document (sm_plan (hs_session h)) \<and>
     map_of (pm_decisions (sm_permissions (hs_session h'))) = map_of (pm_decisions (sm_permissions (hs_session h))) \<and>
     map_of (sm_rests (hs_session h')) = map_of (sm_rests (hs_session h)) \<and>
     map_of (sm_user (hs_session h')) = map_of (sm_user (hs_session h))"

text \<open>As many messages and todos as a key's eight digits order.\<close>

definition keys_fit :: "('v, 'r) harness \<Rightarrow> bool" where
  "keys_fit h \<longleftrightarrow> length (wn_msgs (hs_window h)) \<le> 10 ^ 8 \<and> length (plan_todos (sm_plan (hs_session h))) \<le> 10 ^ 8"

lemma sorted_rows_fit: "keys_fit h \<Longrightarrow> sorted_wrt row_less (sorted_rows js h)"
  unfolding keys_fit_def by (rule sorted_rows_sorted) simp_all

lemma checkpoint_distinct: "checkpoint js h = Inr es \<Longrightarrow> keys_fit h \<Longrightarrow> distinct (map row_of es)"
proof -
  assume c: "checkpoint js h = Inr es" and k: "keys_fit h"
  have "sorted_wrt (<) (map row_of (sorted_rows js h))"
    by (rule strict_keys_row [OF sorted_rows_fit [OF k]])
  then have "distinct (map row_of (sorted_rows js h))" by (simp add: strict_sorted_iff)
  then show ?thesis using checkpoint_rows [OF c] by (metis mset_eq_imp_distinct_iff mset_map)
qed

lemma restore_same:
  assumes "json_ok js h" and "checkpoint js h = Inr es" and "mset es' = mset es" and "window_ok (hs_window h)" and "keys_fit h"
  shows "\<exists>h'. restore_checkpoint js es' h0 = Inr h' \<and> same_committed h h' \<and>
    ps_todos (sm_plan (hs_session h')) \<noteq> Some [] \<and> \<not> ps_updated (sm_plan (hs_session h')) \<and>
    pm_granted (sm_permissions (hs_session h')) = pm_granted (sm_permissions (hs_session h0))"
proof -
  note rows = checkpoint_rows [OF assms(2)]
  have sorted: "sort_key row_of es' = sorted_rows js h"
    by (rule sort_rows) (use assms(3) rows sorted_rows_fit [OF assms(5)] in simp_all)
  have valid: "validate_messages (map Some (wn_msgs (hs_window h))) = None"
    using assms(4) by (auto simp: window_ok_def validate_messages_def validate_from_None_iff)
  have "window_restore_rows js (count_rows js (hs_window h) @ ordered_rows row_message (jn_message js) (wn_msgs (hs_window h))) [] no_tally =
      Inr (wn_msgs (hs_window h), wn_count (hs_window h))"
    using window_restore_messages [of "wn_msgs (hs_window h)" js "[]"] assms(1,4)
    by (auto simp: count_rows_def json_ok_def window_ok_def no_tally_def)
  then show ?thesis
    using restore_sorted_rows [OF assms(1) conjunct2 [OF rows]] valid
    by (simp add: restore_checkpoint_def sorted window_restore_def Let_def restore_plan_def plan_todos_def [of "_\<lparr>ps_todos := _\<rparr>"]
        restore_permissions_def map_of_sorted_updates same_committed_def plan_todos_def [of "\<lparr>ps_todos = _, ps_document = _, ps_updated = _\<rparr>"])
qed

text \<open>
  C13. A checkpoint gives back what was committed: whatever order a store returns its rows in,
  restoring them on a fresh harness gives a harness with the same committed state. The host's
  grants stay the fresh harness's own, no plan update is pending, and a plan is never an empty
  one.
\<close>

theorem checkpoint_roundtrip:
  assumes "json_ok js h" and "checkpoint js h = Inr es" and "mset es' = mset es" and "window_ok (hs_window h)" and "keys_fit h"
  shows "\<exists>h'. restore_checkpoint js es' h0 = Inr h' \<and> same_committed h h' \<and>
    ps_todos (sm_plan (hs_session h')) \<noteq> Some [] \<and> \<not> ps_updated (sm_plan (hs_session h')) \<and>
    pm_granted (sm_permissions (hs_session h')) = pm_granted (sm_permissions (hs_session h0))"
  by (rule restore_same [OF assms])

definition demo_json :: "(string, nat) json" where
  "demo_json =
     \<lparr>jn_message = m_content, jn_message_of = \<lambda>s. Inr (text_message RoleUser s),
      jn_count = \<lambda>c. [], jn_count_of = \<lambda>s. Inr no_tally,
      jn_todo = td_title, jn_todo_of = \<lambda>s. Inr \<lparr>td_title = s, td_status = st_pending, td_description = []\<rparr>,
      jn_permission = \<lambda>d. if d = PermDenyAlways then ''2'' else ''1'',
      jn_permission_of = \<lambda>s. Inr (if s = ''2'' then PermDenyAlways else PermAllowAlways),
      jn_rest = \<lambda>r. replicate r (CHR ''i''), jn_rest_of = \<lambda>s. Inr (length s),
      jn_value = Inr, jn_value_of = Inr\<rparr>"

definition demo_saved :: "(string, nat) harness" where
  "demo_saved = demo_harness\<lparr>hs_session := demo_session\<lparr>sm_permissions := \<lparr>pm_decisions = [(''run'', PermDenyAlways)], pm_granted = []\<rparr>,
     sm_rests := [(''search'', 3)], sm_plan := \<lparr>ps_todos = Some [\<lparr>td_title = ''t'', td_status = st_pending, td_description = []\<rparr>],
       ps_document = ''doc'', ps_updated = False\<rparr>\<rparr>\<rparr>"

theorem checkpoint_roundtrip_witness:
  "\<exists>es h'. checkpoint demo_json demo_saved = Inr es \<and> restore_checkpoint demo_json (rev es) demo_harness = Inr h' \<and>
     wn_msgs (hs_window h') = [text_message RoleUser ''go''] \<and> ps_document (sm_plan (hs_session h')) = ''doc'' \<and>
     map_of (pm_decisions (sm_permissions (hs_session h'))) ''run'' = Some PermDenyAlways \<and>
     map_of (sm_user (hs_session h')) ''a'' = Some ''old''"
proof -
  have "json_ok demo_json demo_saved"
    by (simp add: json_ok_def demo_json_def demo_saved_def demo_harness_def demo_session_def new_session_manager_def
        demo_window_def plan_todos_def)
  moreover obtain es where es: "checkpoint demo_json demo_saved = Inr es"
  proof -
    have "\<exists>es. state_rows demo_json kvs = Inr es" for kvs by (induction kvs) (auto simp: demo_json_def)
    then obtain st where "state_rows demo_json (sorted_map (sm_user (hs_session demo_saved))) = Inr st" by blast
    then have "\<exists>es. checkpoint demo_json demo_saved = Inr es" by (simp add: checkpoint_def Let_def plan_of_def)
    then show ?thesis using that by blast
  qed
  moreover have "window_ok (hs_window demo_saved)" "keys_fit demo_saved"
    by (simp_all add: demo_saved_def demo_harness_def demo_window_def window_ok_def valid_message_def plan_todos_def keys_fit_def)
  ultimately obtain h' where "restore_checkpoint demo_json (rev es) demo_harness = Inr h'" "same_committed demo_saved h'"
    using checkpoint_roundtrip [of demo_json demo_saved es "rev es" demo_harness] by auto
  then show ?thesis using es
    by (intro exI [of _ es] exI [of _ h'])
      (simp add: same_committed_def demo_saved_def demo_harness_def demo_window_def demo_session_def new_session_manager_def)
qed

text \<open>
  A plan whose todos were all deleted comes back as no plan, which the plan tools tell apart.
\<close>

lemma emptied_plan_differs:
  "complete_todo_change t (Some [], doc) = Inl (TodoNotFound t)" "complete_todo_change t (None, doc) = Inl NoPlan"
  by (simp_all add: complete_todo_change_def)

end
