(* ===== verification/Snapshot.thy ===== *)
theory Snapshot
  imports Checkpoint
begin

text \<open>
  The steps a runtime runs on a harness and a store (session/internal/snapshot.go,
  session/internal/calls.go): a step brings the harness to the store's revision, a Tool step
  keeps its call's body in the store, and a Commit applies its input and saves the rows it
  changed. The store is the record of its operations; \<open>snapshot_store\<close> is the contract of
  \<open>Store.checkpoint_store\<close> on it, and the memory store meets it.
\<close>

section \<open>A store and a snapshot\<close>

record 's store_ops =
  so_save :: "string \<Rightarrow> change list \<Rightarrow> string \<Rightarrow> 's \<Rightarrow> (gerr + string) \<times> 's"
  so_load :: "(entry list \<Rightarrow> entry list) \<Rightarrow> string \<Rightarrow> 's \<Rightarrow> gerr + entry list \<times> string"
  so_revision :: "string \<Rightarrow> 's \<Rightarrow> gerr + string"
  so_put_call :: "string \<Rightarrow> string \<Rightarrow> string \<Rightarrow> 's \<Rightarrow> gerr option \<times> 's"
  so_calls :: "string \<Rightarrow> string list \<Rightarrow> 's \<Rightarrow> gerr + (string, string) gomap"

definition memory_ops :: "mem_store store_ops" where
  "memory_ops = \<lparr>so_save = mem_save, so_load = mem_load, so_revision = mem_revision,
     so_put_call = (\<lambda>sid key body st. (None, put_call sid key body st)),
     so_calls = (\<lambda>sid keys st. Inr (kept_calls sid keys st))\<rparr>"

record 'h snapshot =
  sp_rev :: string
  sp_digest :: "'h digest"
  sp_loaded :: bool
  sp_stale :: bool

definition new_snapshot :: "'h snapshot" where
  "new_snapshot = \<lparr>sp_rev = [], sp_digest = [], sp_loaded = False, sp_stale = False\<rparr>"

datatype step_error =
    StoreFails gerr
  | RestoreFails restore_error
  | SnapshotDeleted string
  | BodyMissing string
  | BodyBroken string gerr
  | StepFails gerr
  | AnswerFails string resume_error
  | StepPanics

definition snap_current :: "'s store_ops \<Rightarrow> string \<Rightarrow> 'h snapshot \<Rightarrow> 's \<Rightarrow> gerr + bool" where
  "snap_current so sid sp st =
     (case so_revision so sid st of Inl e \<Rightarrow> Inl e | Inr rv \<Rightarrow> Inr (sp_loaded sp \<and> rv = sp_rev sp))"

definition snap_sync :: "'s store_ops \<Rightarrow> (entry list \<Rightarrow> entry list) \<Rightarrow> ('v, 'r) json \<Rightarrow> (string \<Rightarrow> 'h) \<Rightarrow> string \<Rightarrow>
  'h snapshot \<Rightarrow> ('v, 'r) harness \<Rightarrow> 's \<Rightarrow> step_error option \<times> 'h snapshot \<times> ('v, 'r) harness" where
  "snap_sync so order js hash sid sp h st =
     (case so_revision so sid st of
        Inl e \<Rightarrow> (Some (StoreFails e), sp, h)
      | Inr rv \<Rightarrow>
          if sp_loaded sp \<and> rv = sp_rev sp then (None, sp, h)
          else if rv = [] then
            (if sp_loaded sp then (Some (SnapshotDeleted sid), sp, h) else (None, sp\<lparr>sp_loaded := True\<rparr>, h))
          else
            (case so_load so order sid st of
               Inl e \<Rightarrow> (Some (StoreFails e), sp, h)
             | Inr (es, rv1) \<Rightarrow>
                 (case restore_checkpoint js es h of
                    Inl e \<Rightarrow> (Some (RestoreFails e), sp, h)
                  | Inr h1 \<Rightarrow> (None, sp\<lparr>sp_rev := rv1, sp_digest := digest_of hash es, sp_loaded := True\<rparr>, h1))))"

section \<open>Call bodies\<close>

definition needs_body :: "'b call \<Rightarrow> bool" where
  "needs_body c \<longleftrightarrow> c_body c = None \<and> \<not> pending c"

fun fill_bodies :: "(string \<Rightarrow> gerr + 'b) \<Rightarrow> (string, string) gomap \<Rightarrow> 'b call list \<Rightarrow> step_error + 'b call list" where
  "fill_bodies dec m [] = Inr []"
| "fill_bodies dec m (c # cs) =
     (if \<not> needs_body c then (case fill_bodies dec m cs of Inl e \<Rightarrow> Inl e | Inr cs1 \<Rightarrow> Inr (c # cs1))
      else
        (case map_of m (call_key c) of
           None \<Rightarrow> Inl (BodyMissing (call_key c))
         | Some raw \<Rightarrow>
             (case dec raw of
                Inl e \<Rightarrow> Inl (BodyBroken (call_key c) e)
              | Inr b \<Rightarrow>
                  (case fill_bodies dec m cs of Inl e \<Rightarrow> Inl e | Inr cs1 \<Rightarrow> Inr (c\<lparr>c_body := Some b\<rparr> # cs1)))))"

definition load_bodies :: "'s store_ops \<Rightarrow> (string \<Rightarrow> gerr + 'b) \<Rightarrow> string \<Rightarrow> 'b call list \<Rightarrow> 's \<Rightarrow> step_error + 'b call list" where
  "load_bodies so dec sid cs st =
     (let keys = map call_key (filter needs_body cs) in
      if keys = [] then Inr cs
      else (case so_calls so sid keys st of Inl e \<Rightarrow> Inl (StoreFails e) | Inr m \<Rightarrow> fill_bodies dec m cs))"

text \<open>The Tool step: the call's body comes from the store and goes back to it.\<close>

definition snap_run_call :: "'s store_ops \<Rightarrow> ('r call_body \<Rightarrow> string) \<Rightarrow> (string \<Rightarrow> gerr + 'r call_body) \<Rightarrow> texts \<Rightarrow> payloads \<Rightarrow>
  'v codec \<Rightarrow> (string \<Rightarrow> string \<Rightarrow> ('v, 'r) tool option) \<Rightarrow> string \<Rightarrow> ('v, 'r) harness \<Rightarrow> 'r call_body call \<Rightarrow> 's \<Rightarrow>
  (step_error option \<times> 'r call_body call) \<times> 's" where
  "snap_run_call so enc dec tx py cd find_tool sid h c st =
     (case load_bodies so dec sid [c] st of
        Inl e \<Rightarrow> ((Some e, c), st)
      | Inr cs \<Rightarrow>
          (case run_call tx py cd find_tool (hs_session h) (hd cs) of
             (Some e, c1) \<Rightarrow> ((Some (AnswerFails (call_key c1) e), c1), st)
           | (None, c1) \<Rightarrow>
               (case so_put_call so sid (call_key c1) (case c_body c1 of None \<Rightarrow> ''null'' | Some b \<Rightarrow> enc b) st of
                  (Some e, st1) \<Rightarrow> ((Some (StoreFails e), c1), st1)
                | (None, st1) \<Rightarrow> ((None, c1\<lparr>c_body := None\<rparr>), st1))))"

section \<open>The Commit step\<close>

record ('v, 'r, 'h, 'w) commit_env =
  ce_json :: "('v, 'r) json"
  ce_codec :: "'v codec"
  ce_model :: "'w model_env"
  ce_hash :: "string \<Rightarrow> 'h"
  ce_body_of :: "string \<Rightarrow> gerr + 'r call_body"
  ce_order :: "entry list \<Rightarrow> entry list"

definition load_round :: "'s store_ops \<Rightarrow> (string \<Rightarrow> gerr + 'b) \<Rightarrow> string \<Rightarrow> ('b, 'v) commit_in \<Rightarrow> 's \<Rightarrow>
  step_error + ('b, 'v) commit_in" where
  "load_round so dec sid ci st =
     (case ci_round ci of
        None \<Rightarrow> Inr ci
      | Some r \<Rightarrow>
          (case load_bodies so dec sid (rd_calls r) st of
             Inl e \<Rightarrow> Inl e | Inr cs \<Rightarrow> Inr (ci\<lparr>ci_round := Some (r\<lparr>rd_calls := cs\<rparr>)\<rparr>)))"

text \<open>Saving the committed harness: the changed rows go to the store, at the snapshot's revision.\<close>

definition snap_save :: "'s store_ops \<Rightarrow> ('v, 'r, 'h, 'w) commit_env \<Rightarrow> string \<Rightarrow> 'h snapshot \<Rightarrow> ('v, 'r) harness \<Rightarrow> 's \<Rightarrow>
  (step_error + string) \<times> 'h snapshot \<times> 's" where
  "snap_save so ce sid sp h st =
     (case checkpoint (ce_json ce) h of
        Inl e \<Rightarrow> (Inl (StepFails e), sp, st)
      | Inr es \<Rightarrow>
          (let (changes, digest) = diff (ce_hash ce) (sp_digest sp) es in
           case so_save so sid changes (sp_rev sp) st of
             (Inl e, st1) \<Rightarrow> (Inl (StoreFails e), sp, st1)
           | (Inr rv, st1) \<Rightarrow> (Inr rv, sp\<lparr>sp_rev := rv, sp_digest := digest, sp_stale := False\<rparr>, st1)))"

definition snap_commit :: "'s store_ops \<Rightarrow> ('v, 'r, 'h, 'w) commit_env \<Rightarrow> string \<Rightarrow> string \<Rightarrow> ('r call_body, 'v) commit_in \<Rightarrow>
  'h snapshot \<Rightarrow> ('v, 'r) harness \<Rightarrow> 'w \<Rightarrow> 's \<Rightarrow> (step_error + string) \<times> 'h snapshot \<times> ('v, 'r) harness \<times> 'w \<times> 's" where
  "snap_commit so ce sid base ci sp h w st =
     (case snap_sync so (ce_order ce) (ce_json ce) (ce_hash ce) sid sp h st of
        (Some e, sp1, h1) \<Rightarrow> (Inl e, sp1, h1, w, st)
      | (None, sp1, h1) \<Rightarrow>
          if sp_rev sp1 \<noteq> base then (Inr (sp_rev sp1), sp1, h1, w, st)
          else
            (case load_round so (ce_body_of ce) sid ci st of
               Inl e \<Rightarrow> (Inl e, sp1, h1, w, st)
             | Inr ci1 \<Rightarrow>
                 (let sp2 = sp1\<lparr>sp_stale := True\<rparr> in
                  case harness_commit (ce_model ce) (ce_codec ce) ci1 h1 w of
                    (WErr e, h2, w1, ups) \<Rightarrow> (Inl (StepFails e), sp2, h2, w1, st)
                  | (WPanic, h2, w1, ups) \<Rightarrow> (Inl StepPanics, sp2, h2, w1, st)
                  | (WOk _, h2, w1, ups) \<Rightarrow>
                      (let (res, sp3, st1) = snap_save so ce sid sp2 h2 st in (res, sp3, h2, w1, st1)))))"

section \<open>What a commit leaves in a store\<close>

text \<open>The digest is of the rows the store holds at the snapshot's revision.\<close>

definition in_step :: "(string \<Rightarrow> 's \<Rightarrow> gerr + string) \<Rightarrow> (string \<Rightarrow> 's \<Rightarrow> rows) \<Rightarrow> (string \<Rightarrow> 'h) \<Rightarrow> string \<Rightarrow> 'h snapshot \<Rightarrow>
  's \<Rightarrow> bool" where
  "in_step revision content hash sid sp st \<longleftrightarrow>
     (revision sid st = Inr (sp_rev sp) \<longrightarrow> map_of (sp_digest sp) = (\<lambda>r. map_option hash (map_of (content sid st) r)))"

locale snapshot_store =
  checkpoint_store "so_save so" "so_load so" "so_revision so" content good
  for so :: "'s store_ops" and content :: "string \<Rightarrow> 's \<Rightarrow> rows" and good :: "'s \<Rightarrow> bool"
begin

lemma sync_in_step:
  assumes "good st" "any_order order" "in_step (so_revision so) content hash sid sp st"
    and "snap_sync so order js hash sid sp h st = (None, sp1, h1)"
  shows "in_step (so_revision so) content hash sid sp1 st \<and>
    (so_revision so sid st = Inr (sp_rev sp1) \<or> sp_rev sp1 = sp_rev sp \<and> so_revision so sid st = Inr [])"
proof -
  obtain rv where rv: "so_revision so sid st = Inr rv" using assms(4) by (cases "so_revision so sid st") (auto simp: snap_sync_def)
  consider (same) "sp_loaded sp" "rv = sp_rev sp" | (none) "\<not> (sp_loaded sp \<and> rv = sp_rev sp)" "rv = []"
    | (load) "\<not> (sp_loaded sp \<and> rv = sp_rev sp)" "rv \<noteq> []" by blast
  then show ?thesis
  proof cases
    case same
    then have "sp1 = sp" using assms(4) rv by (simp add: snap_sync_def)
    then show ?thesis
      using assms(3) rv same by simp_all
  next
    case none
    then have "sp1 = sp\<lparr>sp_loaded := True\<rparr>" using assms(4) rv by (auto simp: snap_sync_def split: if_splits)
    then show ?thesis
      using assms(3) rv none by (simp_all add: in_step_def)
  next
    case load
    then obtain es rv1 where l: "so_load so order sid st = Inr (es, rv1)"
      and sp1: "sp1 = sp\<lparr>sp_rev := rv1, sp_digest := digest_of hash es, sp_loaded := True\<rparr>"
      using assms(4) rv by (auto simp: snap_sync_def split: sum.splits prod.splits if_splits)
    note r = load_rows [OF assms(1,2) l]
    show ?thesis
      using r sp1 by (auto simp: in_step_def map_of_digest)
  qed
qed

lemma save_outcome:
  assumes "good st" "in_step (so_revision so) content (ce_hash ce) sid sp st" "snap_save so ce sid sp h st = (res, sp', st')"
  shows "good st' \<and> (\<forall>e. res = Inl e \<longrightarrow> st' = st) \<and> (\<forall>r. res = Inr r \<longrightarrow>
    (\<exists>es. checkpoint (ce_json ce) h = Inr es \<and> so_revision so sid st = Inr (sp_rev sp) \<and> so_revision so sid st' = Inr r \<and>
       r \<noteq> [] \<and> r \<noteq> sp_rev sp \<and> sp_rev sp' = r \<and> (distinct (map row_of es) \<longrightarrow>
         no_collision (ce_hash ce) (map_of (content sid st)) es \<longrightarrow>
         map_of (content sid st') = entry_map es \<and> in_step (so_revision so) content (ce_hash ce) sid sp' st')))"
proof (cases "checkpoint (ce_json ce) h")
  case (Inl e)
  then show ?thesis using assms by (auto simp: snap_save_def)
next
  case (Inr es)
  obtain changes dg where d: "diff (ce_hash ce) (sp_digest sp) es = (changes, dg)"
    by (cases "diff (ce_hash ce) (sp_digest sp) es")
  obtain r st1 where s: "so_save so sid changes (sp_rev sp) st = (r, st1)" by (cases "so_save so sid changes (sp_rev sp) st")
  note g = save_good [OF assms(1) s]
  show ?thesis
  proof (cases r)
    case e: (Inl e)
    then have "st1 = st" using save_err [of sid changes "sp_rev sp" st e st1] s by simp
    then show ?thesis using assms(1,3) Inr d s e by (auto simp: snap_save_def)
  next
    case r: (Inr r')
    note ok = save_ok [OF assms(1) s [unfolded r]]
    have out: "res = Inr r'" "sp' = sp\<lparr>sp_rev := r', sp_digest := dg, sp_stale := False\<rparr>" "st' = st1"
      using assms(3) Inr d s r by (auto simp: snap_save_def)
    have "map_of (content sid st') = entry_map es \<and> in_step (so_revision so) content (ce_hash ce) sid sp' st'"
      if "distinct (map row_of es)" "no_collision (ce_hash ce) (map_of (content sid st)) es"
    proof -
      have "map_of (sp_digest sp) = (\<lambda>r. map_option (ce_hash ce) (map_of (content sid st) r))"
        using assms(2) ok by (simp add: in_step_def)
      note da = changes_applied [OF that(1) this that(2)]
      then have "map_of (content sid st') = entry_map es" using ok out(3) d by simp
      then show ?thesis using da d out(2) that(1) by (auto simp: in_step_def map_of_digest)
    qed
    then show ?thesis using out ok g Inr by auto
  qed
qed

lemma commit_outcome:
  assumes "good st" "any_order (ce_order ce)" "in_step (so_revision so) content (ce_hash ce) sid sp st"
    and "snap_commit so ce sid base ci sp h w st = (res, sp', h', w', st')"
  shows "good st' \<and> (\<forall>e. res = Inl e \<longrightarrow> st' = st) \<and> (\<forall>r. res = Inr r \<longrightarrow> r \<noteq> base \<and> sp_rev sp' = r \<and> (st' = st \<or>
    (\<exists>es. checkpoint (ce_json ce) h' = Inr es \<and> so_revision so sid st = Inr base \<and> so_revision so sid st' = Inr r \<and> r \<noteq> [] \<and>
       (distinct (map row_of es) \<longrightarrow> no_collision (ce_hash ce) (map_of (content sid st)) es \<longrightarrow>
         map_of (content sid st') = entry_map es \<and> in_step (so_revision so) content (ce_hash ce) sid sp' st'))))"
proof -
  obtain x sp1 h1 where sy: "snap_sync so (ce_order ce) (ce_json ce) (ce_hash ce) sid sp h st = (x, sp1, h1)"
    using prod_cases3 by blast
  show ?thesis
  proof (cases "x = None \<and> sp_rev sp1 = base")
    case False
    then show ?thesis using assms(1,4) sy by (cases x) (auto simp: snap_commit_def)
  next
    case True
    then have x: "x = None" and b: "sp_rev sp1 = base" by simp_all
    note step = sync_in_step [OF assms(1-3) sy [unfolded x]]
    show ?thesis
    proof (cases "load_round so (ce_body_of ce) sid ci st")
      case (Inl e)
      then show ?thesis using assms(1,4) sy x b by (auto simp: snap_commit_def)
    next
      case (Inr ci1)
      obtain out h2 w1 ups where hc: "harness_commit (ce_model ce) (ce_codec ce) ci1 h1 w = (out, h2, w1, ups)"
        using prod_cases4 by blast
      let ?sp2 = "sp1\<lparr>sp_stale := True\<rparr>"
      obtain res1 sp3 st1 where sv: "snap_save so ce sid ?sp2 h2 st = (res1, sp3, st1)" using prod_cases3 by blast
      have in2: "in_step (so_revision so) content (ce_hash ce) sid ?sp2 st" using step by (simp add: in_step_def)
      note so = save_outcome [OF assms(1) in2 sv]
      show ?thesis
      proof (cases out)
        case (WOk u)
        then have "res = res1" "sp' = sp3" "h' = h2" "st' = st1"
          using assms(4) sy x b Inr hc sv by (simp_all add: snap_commit_def Let_def)
        then show ?thesis using so b by auto
      qed (use assms(1,4) sy x b Inr hc in \<open>auto simp: snap_commit_def Let_def\<close>)
    qed
  qed
qed

end

interpretation memory_step: snapshot_store memory_ops stored_rows store_good
  by (simp add: snapshot_store_def memory_ops_def memory.checkpoint_store_axioms)

section \<open>The store holds what the harness committed\<close>

text \<open>
  C6. A Commit step is all or nothing and happens once: an error leaves the store as it was;
  a commit whose base the store is past writes nothing and reports the newer revision; and one
  that saves was at its base, gives the store a new revision and exactly the rows of the
  harness's checkpoint, when no changed row has the hash of the one it replaces.
\<close>

theorem commit_saves_harness:
  assumes "store_good st" and "any_order (ce_order ce)" and "in_step mem_revision stored_rows (ce_hash ce) sid sp st"
    and "snap_commit memory_ops ce sid base ci sp h w st = (res, sp', h', w', st')"
  shows "(\<forall>e. res = Inl e \<longrightarrow> st' = st) \<and> (\<forall>r. res = Inr r \<longrightarrow> r \<noteq> base \<and> (st' = st \<or>
    mem_revision sid st = Inr base \<and> mem_revision sid st' = Inr r \<and>
    (\<exists>es. checkpoint (ce_json ce) h' = Inr es \<and> (keys_fit h' \<longrightarrow> no_collision (ce_hash ce) (map_of (stored_rows sid st)) es \<longrightarrow>
       map_of (stored_rows sid st') = entry_map es \<and> in_step mem_revision stored_rows (ce_hash ce) sid sp' st'))))"
proof -
  have m: "so_revision memory_ops = mem_revision" by (simp add: memory_ops_def)
  note c = memory_step.commit_outcome [OF assms(1,2) assms(3) [folded m] assms(4), unfolded m]
  then show ?thesis using checkpoint_distinct by blast
qed

definition demo_env :: "(string, nat, nat, nat) commit_env" where
  "demo_env = \<lparr>ce_json = demo_json, ce_codec = demo_codec, ce_model = demo_model, ce_hash = length,
     ce_body_of = \<lambda>s. Inr empty_body, ce_order = rev\<rparr>"

lemma demo_env_sel [simp]:
  "ce_json demo_env = demo_json" "ce_codec demo_env = demo_codec" "ce_model demo_env = demo_model"
  "ce_hash demo_env = length" "ce_order demo_env = rev"
  by (simp_all add: demo_env_def)

lemma demo_rows: "\<exists>es. checkpoint demo_json demo_saved = Inr es"
proof -
  have "\<exists>es. state_rows demo_json kvs = Inr es" for kvs by (induction kvs) (auto simp: demo_json_def)
  then obtain st where "state_rows demo_json (sorted_map (sm_user (hs_session demo_saved))) = Inr st" by blast
  then show ?thesis by (simp add: checkpoint_def Let_def plan_of_def)
qed

lemma demo_commit_step:
  "\<exists>r sp' st'. snap_commit memory_ops demo_env ''s'' [] no_commit new_snapshot demo_saved (0 :: nat) new_memory_store =
     (Inr r, sp', demo_saved, 0, st') \<and> st' \<noteq> new_memory_store"
proof -
  obtain es where es: "checkpoint demo_json demo_saved = Inr es" using demo_rows by blast
  let ?sp = "(new_snapshot :: nat snapshot)\<lparr>sp_loaded := True\<rparr>"
  have sy: "snap_sync memory_ops rev demo_json length ''s'' new_snapshot demo_saved new_memory_store = (None, ?sp, demo_saved)"
    by (simp add: snap_sync_def memory_ops_def mem_revision_def new_memory_store_def new_snapshot_def)
  have hc: "harness_commit demo_model demo_codec no_commit demo_saved (0 :: nat) = (WOk (), demo_saved, 0, [])"
    by (simp add: harness_commit_def Let_def no_commit_def set_user_state_def wbind_def wret_def)
  obtain cs dg where d: "diff length (sp_digest ?sp) es = (cs, dg)" by (cases "diff length (sp_digest ?sp) es")
  have sv: "\<exists>r sp' st'. snap_save memory_ops demo_env ''s'' (?sp\<lparr>sp_stale := True\<rparr>) demo_saved new_memory_store = (Inr r, sp', st')
      \<and> st' \<noteq> new_memory_store"
    using d by (simp add: snap_save_def demo_env_def es memory_ops_def mem_save_def new_memory_store_def new_snapshot_def Let_def)
  have "sp_rev ?sp = []" by (simp add: new_snapshot_def)
  moreover have "load_round memory_ops (ce_body_of demo_env) ''s'' (no_commit :: (nat call_body, string) commit_in) new_memory_store = Inr no_commit"
    by (simp add: load_round_def)
  moreover obtain r sp' st' where "snap_save memory_ops demo_env ''s'' (?sp\<lparr>sp_stale := True\<rparr>) demo_saved new_memory_store = (Inr r, sp', st')"
    "st' \<noteq> new_memory_store" using sv by blast
  ultimately show ?thesis using sy hc by (simp add: snap_commit_def Let_def)
qed

theorem commit_saves_harness_witness:
  "\<exists>r sp' st' es. snap_commit memory_ops demo_env ''s'' [] no_commit new_snapshot demo_saved (0 :: nat) new_memory_store =
     (Inr r, sp', demo_saved, 0, st') \<and> mem_revision ''s'' st' = Inr r \<and> checkpoint demo_json demo_saved = Inr es \<and>
     map_of (stored_rows ''s'' st') = entry_map es"
proof -
  obtain r sp' st' where c: "snap_commit memory_ops demo_env ''s'' [] no_commit new_snapshot demo_saved (0 :: nat) new_memory_store =
     (Inr r, sp', demo_saved, 0, st')" "st' \<noteq> new_memory_store" using demo_commit_step by blast
  have h: "store_good new_memory_store" "any_order (ce_order demo_env)"
    "in_step mem_revision stored_rows (ce_hash demo_env) ''s'' new_snapshot new_memory_store"
    by (simp_all add: store_good_def new_memory_store_def any_order_def demo_env_def in_step_def new_snapshot_def stored_rows_def fun_eq_iff)
  have k: "keys_fit demo_saved" "ce_json demo_env = demo_json" "no_collision (ce_hash demo_env) (map_of (stored_rows ''s'' new_memory_store)) es" for es
    by (simp_all add: keys_fit_def demo_saved_def demo_harness_def demo_window_def plan_todos_def demo_env_def no_collision_def
        stored_rows_def new_memory_store_def)
  show ?thesis using commit_saves_harness [OF h c(1)] c k by fastforce
qed

section \<open>Another worker goes on\<close>

lemma same_rows_mset:
  assumes "distinct (map row_of xs)" "distinct (map row_of ys)" "entry_map xs = entry_map ys"
  shows "mset xs = mset ys"
proof -
  have "set xs \<subseteq> set ys" if "distinct (map row_of xs)" "entry_map xs = entry_map ys" for xs ys
  proof
    fix e assume "e \<in> set xs"
    then have "entry_map ys (row_of e) = Some (en_value e)" using entry_map_mem [OF that(1)] that(2) by simp
    then obtain e' where "e' \<in> set ys" "row_of e' = row_of e" "en_value e' = en_value e" using entry_map_SomeD by blast
    moreover from this have "e' = e" by (simp add: row_of_def)
    ultimately show "e \<in> set ys" by simp
  qed
  then have "set xs = set ys" using assms by (metis subset_antisym)
  then show ?thesis using assms set_eq_iff_mset_eq_distinct [of xs ys] by (simp add: distinct_map)
qed

text \<open>
  C5. What a Commit step saved, any worker goes on from: one that holds nothing of the session
  and syncs, in whatever order the store gives its rows, comes to the revision the commit
  returned and to the state the commit left.
\<close>

theorem commit_then_sync:
  assumes "store_good st" and "any_order (ce_order ce)" and "in_step mem_revision stored_rows (ce_hash ce) sid sp st"
    and "snap_commit memory_ops ce sid base ci sp h w st = (Inr r, sp', h', w', st')" and "st' \<noteq> st"
    and "\<forall>es. checkpoint (ce_json ce) h' = Inr es \<longrightarrow> no_collision (ce_hash ce) (map_of (stored_rows sid st)) es"
    and "json_ok (ce_json ce) h'" and "window_ok (hs_window h')" and "keys_fit h'" and "any_order order"
  shows "\<exists>sp2 h2. snap_sync memory_ops order (ce_json ce) (ce_hash ce) sid new_snapshot h0 st' = (None, sp2, h2) \<and>
    sp_rev sp2 = r \<and> same_committed h' h2"
proof -
  have m: "so_revision memory_ops = mem_revision" "so_load memory_ops = mem_load" by (simp_all add: memory_ops_def)
  note c = memory_step.commit_outcome [OF assms(1,2) assms(3) [folded m(1)] assms(4), unfolded m(1)]
  then obtain es where es: "checkpoint (ce_json ce) h' = Inr es" "mem_revision sid st' = Inr r" "r \<noteq> []"
    "distinct (map row_of es) \<longrightarrow> no_collision (ce_hash ce) (map_of (stored_rows sid st)) es \<longrightarrow> map_of (stored_rows sid st') = entry_map es"
    using assms(5) by blast
  have d: "distinct (map row_of es)" by (rule checkpoint_distinct [OF es(1) assms(9)])
  have rows: "map_of (stored_rows sid st') = entry_map es" using es(4) d assms(6) es(1) by blast
  have good: "store_good st'" using c by simp
  obtain es2 where l: "mem_load order sid st' = Inr (es2, r)"
    using es(2,3) by (auto simp: mem_revision_def mem_load_def split: option.splits)
  note lr = memory.load_rows [OF good assms(10) l]
  have "mset es2 = mset es" by (rule same_rows_mset) (use lr d rows in simp_all)
  then obtain h2 where "restore_checkpoint (ce_json ce) es2 h0 = Inr h2" "same_committed h' h2"
    using restore_same [OF assms(7) es(1) _ assms(8,9)] by blast
  then show ?thesis using l es(2,3) m by (simp add: snap_sync_def new_snapshot_def)
qed

theorem commit_then_sync_witness:
  "\<exists>r sp' st' sp2 h2. snap_commit memory_ops demo_env ''s'' [] no_commit new_snapshot demo_saved (0 :: nat) new_memory_store =
     (Inr r, sp', demo_saved, 0, st') \<and>
     snap_sync memory_ops id demo_json length ''s'' (new_snapshot :: nat snapshot) demo_harness st' = (None, sp2, h2) \<and>
     sp_rev sp2 = r \<and> ps_document (sm_plan (hs_session h2)) = ''doc''"
proof -
  obtain r sp' st' where c: "snap_commit memory_ops demo_env ''s'' [] no_commit new_snapshot demo_saved (0 :: nat) new_memory_store =
     (Inr r, sp', demo_saved, 0, st')" "st' \<noteq> new_memory_store" using demo_commit_step by blast
  have h: "store_good new_memory_store" "any_order (ce_order demo_env)" "any_order id"
    "in_step mem_revision stored_rows (ce_hash demo_env) ''s'' new_snapshot new_memory_store"
    by (simp_all add: store_good_def new_memory_store_def any_order_def demo_env_def in_step_def new_snapshot_def stored_rows_def fun_eq_iff)
  have k: "keys_fit demo_saved" "window_ok (hs_window demo_saved)" "json_ok (ce_json demo_env) demo_saved"
    "\<forall>es. checkpoint (ce_json demo_env) demo_saved = Inr es \<longrightarrow>
       no_collision (ce_hash demo_env) (map_of (stored_rows ''s'' new_memory_store)) es"
    by (simp_all add: keys_fit_def demo_saved_def demo_harness_def demo_window_def plan_todos_def demo_env_def no_collision_def
        stored_rows_def new_memory_store_def window_ok_def valid_message_def json_ok_def demo_json_def demo_session_def
        new_session_manager_def)
  have e: "ce_json demo_env = demo_json" "ce_hash demo_env = length" by (simp_all add: demo_env_def)
  obtain sp2 h2 where s: "snap_sync memory_ops id demo_json length ''s'' (new_snapshot :: nat snapshot) demo_harness st' = (None, sp2, h2)"
    "sp_rev sp2 = r" "same_committed demo_saved h2"
    using commit_then_sync [OF h(1,2,4) c k(4,3,2,1) h(3), unfolded e] by blast
  then have "ps_document (sm_plan (hs_session h2)) = ''doc''" by (simp add: same_committed_def demo_saved_def)
  then show ?thesis using c s by blast
qed

end
