(* ===== verification/Kinds.thy ===== *)
theory Kinds
  imports Text "HOL-Library.Multiset" "HOL-Library.Char_ord" "HOL-Library.List_Lexorder"
begin

text \<open>
  The kinds of knowledge objects (brain/kind.go): field and kind specifications and their
  normalization, the process catalog with its freeze, the durable registry rows, and how the
  two are kept in step. The JSON text of a kind's fields is a parameter.
\<close>

section \<open>Values\<close>

text \<open>
  A property or filter value, Go's any: \<open>VInt\<close> stands for int, int32 and int64, \<open>VFloat\<close> for
  float64 and for float32 widened (which is exact), \<open>VTime\<close> for a time.Time, \<open>VOther\<close> for the
  dynamic types the code does not look into. A time is its nanoseconds after Go's zero time.
  The operations on float64 are a parameter.
\<close>

type_synonym time = int

datatype 'f any =
    VNil | VStr string | VBool bool | VFloat 'f | VInt int | VNumber string
  | VList "'f any list" | VTime time | VOther

record 'f floats =
  fl_eq :: "'f \<Rightarrow> 'f \<Rightarrow> bool"
  fl_int :: "int \<Rightarrow> 'f"
  fl_parse :: "string \<Rightarrow> 'f option"
  fl_text :: "'f \<Rightarrow> string"

fun as_float64 :: "'f floats \<Rightarrow> 'f any \<Rightarrow> 'f option" where
  "as_float64 fl (VFloat x) = Some x"
| "as_float64 fl (VInt n) = Some (fl_int fl n)"
| "as_float64 fl (VNumber s) = fl_parse fl s"
| "as_float64 fl v = None"

text \<open>time.Parse for the two layouts the code tries: RFC3339, then a date.\<close>

record time_parsers =
  tp_rfc3339 :: "string \<Rightarrow> time option"
  tp_date :: "string \<Rightarrow> time option"

definition parse_filter_time :: "time_parsers \<Rightarrow> string \<Rightarrow> time option" where
  "parse_filter_time tp s0 =
     (let s = trim_space s0
      in if s = [] then None
         else case tp_rfc3339 tp s of Some t \<Rightarrow> Some t | None \<Rightarrow> tp_date tp s)"

section \<open>Fields\<close>

definition type_string :: string where "type_string = ''string''"
definition type_number :: string where "type_number = ''number''"
definition type_boolean :: string where "type_boolean = ''boolean''"
definition type_datetime :: string where "type_datetime = ''datetime''"

lemmas type_defs = type_string_def type_number_def type_boolean_def type_datetime_def

record field_spec =
  fs_name :: string
  fs_type :: string
  fs_desc :: string
  fs_required :: bool
  fs_operators :: "string list"
  fs_examples :: "string list"
  fs_enum :: "string list"
  fs_skip_index :: bool

record kind_spec =
  ks_kind :: string
  ks_desc :: string
  ks_is_parent :: bool
  ks_is_part :: bool
  ks_fields :: "field_spec list"

datatype field_error = WantString | WantNumber | WantBoolean | BadDateTime | ZeroTime | WantDateTime

definition check_field_value :: "'f floats \<Rightarrow> time_parsers \<Rightarrow> 'f any \<Rightarrow> string \<Rightarrow> field_error option" where
  "check_field_value fl tp v t =
     (if t = type_string then (case v of VStr s \<Rightarrow> None | _ \<Rightarrow> Some WantString)
      else if t = type_number then (case as_float64 fl v of Some x \<Rightarrow> None | None \<Rightarrow> Some WantNumber)
      else if t = type_boolean then (case v of VBool b \<Rightarrow> None | _ \<Rightarrow> Some WantBoolean)
      else if t = type_datetime then
        (case v of
           VStr s \<Rightarrow> if parse_filter_time tp s = None then Some BadDateTime else None
         | VTime x \<Rightarrow> if x = 0 then Some ZeroTime else None
         | _ \<Rightarrow> Some WantDateTime)
      else None)"

definition spec_field :: "kind_spec \<Rightarrow> string \<Rightarrow> field_spec option" where
  "spec_field s name = find (\<lambda>f. fs_name f = name) (ks_fields s)"

definition field_names :: "kind_spec \<Rightarrow> string list" where
  "field_names s = sort (map fs_name (ks_fields s))"

text \<open>The bytes sanitizeJSONKey keeps: a rune outside ASCII is dropped, and so are its bytes.\<close>

definition key_byte :: "char \<Rightarrow> bool" where
  "key_byte c \<longleftrightarrow> (let n = of_char c :: nat
     in 97 \<le> n \<and> n \<le> 122 \<or> 65 \<le> n \<and> n \<le> 90 \<or> 48 \<le> n \<and> n \<le> 57 \<or> c = CHR ''_'')"

definition sanitize_json_key :: "string \<Rightarrow> string" where
  "sanitize_json_key k = filter key_byte k"

definition valid_property_key :: "string \<Rightarrow> bool" where
  "valid_property_key k \<longleftrightarrow> k \<noteq> [] \<and> sanitize_json_key k = k"

definition is_object_column :: "string \<Rightarrow> bool" where
  "is_object_column k \<longleftrightarrow> k = ''title'' \<or> k = ''summary'' \<or> k = ''content''"

definition is_core_filter_key :: "string \<Rightarrow> bool" where
  "is_core_filter_key k \<longleftrightarrow> k = ''kind'' \<or> k = ''title'' \<or> k = ''created_after''
     \<or> k = ''created_before'' \<or> k = ''updated_after'' \<or> k = ''updated_before''"

section \<open>Normalization\<close>

datatype kind_error =
    KindRequired
  | KindPath string
  | FieldNameRequired string
  | FieldColumn string string
  | FieldCoreKey string string
  | FieldBadKey string string
  | FieldTypeRequired string string
  | FieldUnknownType string string string
  | FieldDuplicate string string
  | EnumNotString string string
  | EnumValueRequired string string
  | EnumDuplicate string string string
  | KindDuplicate string
  | CatalogFrozen
  | PersistKind string gerr
  | FieldsJSON string
  | ListFailed gerr

fun normalize_enum :: "string \<Rightarrow> string \<Rightarrow> string list \<Rightarrow> string list \<Rightarrow> kind_error + string list" where
  "normalize_enum kind name out [] = Inr out"
| "normalize_enum kind name out (v0 # vs) =
     (let v = trim_space v0
      in if v = [] then Inl (EnumValueRequired kind name)
         else if v \<in> set out then Inl (EnumDuplicate kind name v)
         else normalize_enum kind name (out @ [v]) vs)"

definition normalize_field_enum :: "string \<Rightarrow> field_spec \<Rightarrow> kind_error + string list" where
  "normalize_field_enum kind f =
     (if fs_enum f = [] then Inr []
      else if fs_type f \<noteq> type_string then Inl (EnumNotString kind (fs_name f))
      else normalize_enum kind (fs_name f) [] (fs_enum f))"

definition field_operators :: "string \<Rightarrow> string list" where
  "field_operators t = (if t = type_boolean then [''eq''] else [''eq'', ''in''])"

definition normalize_field :: "string \<Rightarrow> string list \<Rightarrow> field_spec \<Rightarrow> kind_error + field_spec" where
  "normalize_field kind seen f =
     (let name = trim_space (fs_name f)
      in if name = [] then Inl (FieldNameRequired kind)
         else if is_object_column name then Inl (FieldColumn kind name)
         else if is_core_filter_key name then Inl (FieldCoreKey kind name)
         else if sanitize_json_key name \<noteq> name then Inl (FieldBadKey kind name)
         else if fs_type f = [] then Inl (FieldTypeRequired kind name)
         else if fs_type f \<notin> {type_string, type_number, type_boolean, type_datetime}
         then Inl (FieldUnknownType kind name (fs_type f))
         else if name \<in> set seen then Inl (FieldDuplicate kind name)
         else case normalize_field_enum kind (f\<lparr>fs_name := name\<rparr>) of
                Inl e \<Rightarrow> Inl e
              | Inr enum \<Rightarrow> Inr (f\<lparr>fs_name := name, fs_enum := enum, fs_operators := field_operators (fs_type f)\<rparr>))"

fun normalize_fields :: "string \<Rightarrow> field_spec list \<Rightarrow> field_spec list \<Rightarrow> kind_error + field_spec list" where
  "normalize_fields kind out [] = Inr out"
| "normalize_fields kind out (f # fs) =
     (case normalize_field kind (map fs_name out) f of
        Inl e \<Rightarrow> Inl e
      | Inr g \<Rightarrow> normalize_fields kind (out @ [g]) fs)"

definition normalize_kind :: "kind_spec \<Rightarrow> kind_error + kind_spec" where
  "normalize_kind spec =
     (let kind = trim_space (ks_kind spec)
      in if kind = [] then Inl KindRequired
         else if contains_sub kind ''/'' \<or> contains_sub kind ''..'' then Inl (KindPath kind)
         else case normalize_fields kind [] (ks_fields spec) of
                Inl e \<Rightarrow> Inl e
              | Inr fs \<Rightarrow> Inr (spec\<lparr>ks_kind := kind, ks_desc := trim_space (ks_desc spec), ks_fields := fs\<rparr>))"

fun normalize_batch :: "(string, kind_spec) gomap \<Rightarrow> kind_spec list \<Rightarrow> kind_error + (string, kind_spec) gomap" where
  "normalize_batch out [] = Inr out"
| "normalize_batch out (s # ss) =
     (case normalize_kind s of
        Inl e \<Rightarrow> Inl e
      | Inr n \<Rightarrow> if map_of out (ks_kind n) \<noteq> None then Inl (KindDuplicate (ks_kind n))
                 else normalize_batch (AList.update (ks_kind n) n out) ss)"

definition normalize_kind_batch :: "kind_spec list \<Rightarrow> kind_error + (string, kind_spec) gomap" where
  "normalize_kind_batch specs = normalize_batch [] specs"

section \<open>The catalog\<close>

record catalog =
  ca_kinds :: "(string, kind_spec) gomap"
  ca_frozen :: bool

definition new_kind_catalog :: catalog where
  "new_kind_catalog = \<lparr>ca_kinds = [], ca_frozen = False\<rparr>"

definition catalog_empty :: "catalog \<Rightarrow> bool" where
  "catalog_empty c \<longleftrightarrow> ca_kinds c = []"

definition catalog_freeze :: "catalog \<Rightarrow> catalog" where
  "catalog_freeze c = c\<lparr>ca_frozen := True\<rparr>"

definition catalog_get :: "catalog \<Rightarrow> string \<Rightarrow> kind_spec option" where
  "catalog_get c kind = map_of (ca_kinds c) kind"

definition sorted_keys :: "(string, 'a) gomap \<Rightarrow> string list" where
  "sorted_keys m = sort (remdups (map fst m))"

definition catalog_names :: "catalog \<Rightarrow> string list" where
  "catalog_names c = sorted_keys (ca_kinds c)"

definition catalog_all :: "catalog \<Rightarrow> kind_spec list" where
  "catalog_all c = map (\<lambda>n. the (map_of (ca_kinds c) n)) (sorted_keys (ca_kinds c))"

definition record_kinds :: "catalog \<Rightarrow> string list" where
  "record_kinds c = sort (map ks_kind (filter (\<lambda>s. \<not> ks_is_part s) (catalog_all c)))"

definition catalog_register :: "kind_spec list \<Rightarrow> catalog \<Rightarrow> kind_error + catalog" where
  "catalog_register specs c =
     (case normalize_kind_batch specs of
        Inl e \<Rightarrow> Inl e
      | Inr batch \<Rightarrow> if ca_frozen c then Inl CatalogFrozen else Inr (c\<lparr>ca_kinds := map_copy (ca_kinds c) batch\<rparr>))"

definition replace_normalized :: "(string, kind_spec) gomap \<Rightarrow> catalog \<Rightarrow> kind_error + catalog" where
  "replace_normalized batch c = (if ca_frozen c then Inl CatalogFrozen else Inr (c\<lparr>ca_kinds := batch\<rparr>))"

definition catalog_replace :: "kind_spec list \<Rightarrow> catalog \<Rightarrow> kind_error + catalog" where
  "catalog_replace specs c =
     (case normalize_kind_batch specs of Inl e \<Rightarrow> Inl e | Inr batch \<Rightarrow> replace_normalized batch c)"

definition ensure_not_frozen :: "catalog \<Rightarrow> kind_error option" where
  "ensure_not_frozen c = (if ca_frozen c then Some CatalogFrozen else None)"

section \<open>The durable registry\<close>

record object_kind =
  ok_kind :: string
  ok_desc :: string
  ok_is_part :: bool
  ok_is_parent :: bool
  ok_fields :: string

record fields_json =
  fj_write :: "field_spec list \<Rightarrow> string"
  fj_read :: "string \<Rightarrow> field_spec list option"

definition normalized_object_kind :: "fields_json \<Rightarrow> kind_spec \<Rightarrow> object_kind" where
  "normalized_object_kind js spec =
     \<lparr>ok_kind = ks_kind spec, ok_desc = ks_desc spec, ok_is_part = ks_is_part spec,
      ok_is_parent = ks_is_parent spec, ok_fields = fj_write js (ks_fields spec)\<rparr>"

definition kind_spec_of :: "fields_json \<Rightarrow> object_kind \<Rightarrow> kind_error + kind_spec" where
  "kind_spec_of js k =
     (case (if ok_fields k \<noteq> [] then fj_read js (ok_fields k) else Some []) of
        None \<Rightarrow> Inl (FieldsJSON (ok_kind k))
      | Some fs \<Rightarrow> Inr \<lparr>ks_kind = ok_kind k, ks_desc = ok_desc k, ks_is_parent = ok_is_parent k,
                         ks_is_part = ok_is_part k, ks_fields = fs\<rparr>)"

text \<open>The registry of MemoryStore.\<close>

definition put_kind :: "object_kind \<Rightarrow> (string, object_kind) gomap \<Rightarrow> gerr option \<times> (string, object_kind) gomap" where
  "put_kind k0 m =
     (if ok_kind k0 = [] then (Some (mk_err ''brain: kind is required'' []), m)
      else let k = (if ok_fields k0 = [] then k0\<lparr>ok_fields := ''[]''\<rparr> else k0)
           in (None, AList.update (ok_kind k) k m))"

definition list_kinds :: "(string, object_kind) gomap \<Rightarrow> object_kind list" where
  "list_kinds m = sort_key ok_kind (map (\<lambda>n. the (map_of m n)) (remdups (map fst m)))"

text \<open>A batch is put in name order; the first failure stops it, with what was put kept.\<close>

fun put_kinds :: "(object_kind \<Rightarrow> 's \<Rightarrow> gerr option \<times> 's) \<Rightarrow> fields_json \<Rightarrow> (string, kind_spec) gomap
    \<Rightarrow> string list \<Rightarrow> 's \<Rightarrow> kind_error option \<times> 's" where
  "put_kinds put js batch [] st = (None, st)"
| "put_kinds put js batch (name # names) st =
     (case put (normalized_object_kind js (the (map_of batch name))) st of
        (Some e, st1) \<Rightarrow> (Some (PersistKind name e), st1)
      | (None, st1) \<Rightarrow> put_kinds put js batch names st1)"

definition put_kind_batch :: "(object_kind \<Rightarrow> 's \<Rightarrow> gerr option \<times> 's) \<Rightarrow> fields_json
    \<Rightarrow> (string, kind_spec) gomap \<Rightarrow> 's \<Rightarrow> kind_error option \<times> 's" where
  "put_kind_batch put js batch st = put_kinds put js batch (sorted_keys batch) st"

definition persist_kinds :: "(object_kind \<Rightarrow> 's \<Rightarrow> gerr option \<times> 's) \<Rightarrow> fields_json
    \<Rightarrow> kind_spec list \<Rightarrow> 's \<Rightarrow> kind_error option \<times> 's" where
  "persist_kinds put js specs st =
     (case normalize_kind_batch specs of Inl e \<Rightarrow> (Some e, st) | Inr batch \<Rightarrow> put_kind_batch put js batch st)"

definition apply_kinds :: "(object_kind \<Rightarrow> 's \<Rightarrow> gerr option \<times> 's) \<Rightarrow> fields_json
    \<Rightarrow> kind_spec list \<Rightarrow> catalog \<Rightarrow> 's \<Rightarrow> kind_error option \<times> catalog \<times> 's" where
  "apply_kinds put js specs c st =
     (case normalize_kind_batch specs of
        Inl e \<Rightarrow> (Some e, c, st)
      | Inr batch \<Rightarrow>
          (case ensure_not_frozen c of
             Some e \<Rightarrow> (Some e, c, st)
           | None \<Rightarrow>
               (case put_kind_batch put js batch st of
                  (Some e, st1) \<Rightarrow> (Some e, c, st1)
                | (None, st1) \<Rightarrow>
                    (case replace_normalized batch c of
                       Inl e \<Rightarrow> (Some e, c, st1)
                     | Inr c1 \<Rightarrow> (None, c1, st1)))))"

definition sync_kinds :: "(object_kind \<Rightarrow> 's \<Rightarrow> gerr option \<times> 's) \<Rightarrow> fields_json \<Rightarrow> catalog \<Rightarrow> 's \<Rightarrow> kind_error option \<times> 's" where
  "sync_kinds put js c st = persist_kinds put js (catalog_all c) st"

fun specs_of_rows :: "fields_json \<Rightarrow> object_kind list \<Rightarrow> kind_error + kind_spec list" where
  "specs_of_rows js [] = Inr []"
| "specs_of_rows js (row # rows) =
     (case kind_spec_of js row of
        Inl e \<Rightarrow> Inl e
      | Inr s \<Rightarrow> (case specs_of_rows js rows of Inl e \<Rightarrow> Inl e | Inr ss \<Rightarrow> Inr (s # ss)))"

definition load_kinds :: "('s \<Rightarrow> gerr + object_kind list) \<Rightarrow> fields_json \<Rightarrow> 's \<Rightarrow> catalog \<Rightarrow> kind_error + catalog" where
  "load_kinds rows_of js st c =
     (case rows_of st of
        Inl e \<Rightarrow> Inl (ListFailed e)
      | Inr rows \<Rightarrow>
          (case specs_of_rows js rows of Inl e \<Rightarrow> Inl e | Inr specs \<Rightarrow> catalog_replace specs c))"

section \<open>Normal kinds\<close>

definition enum_normal :: "string list \<Rightarrow> bool" where
  "enum_normal vs \<longleftrightarrow> distinct vs \<and> (\<forall>v \<in> set vs. v \<noteq> [] \<and> trim_space v = v)"

definition field_normal :: "field_spec \<Rightarrow> bool" where
  "field_normal f \<longleftrightarrow> trim_space (fs_name f) = fs_name f \<and> valid_property_key (fs_name f)
     \<and> \<not> is_object_column (fs_name f) \<and> \<not> is_core_filter_key (fs_name f)
     \<and> fs_type f \<in> {type_string, type_number, type_boolean, type_datetime}
     \<and> (fs_enum f \<noteq> [] \<longrightarrow> fs_type f = type_string) \<and> enum_normal (fs_enum f)
     \<and> fs_operators f = field_operators (fs_type f)"

definition kind_normal :: "kind_spec \<Rightarrow> bool" where
  "kind_normal s \<longleftrightarrow> ks_kind s \<noteq> [] \<and> trim_space (ks_kind s) = ks_kind s
     \<and> \<not> contains_sub (ks_kind s) ''/'' \<and> \<not> contains_sub (ks_kind s) ''..''
     \<and> trim_space (ks_desc s) = ks_desc s
     \<and> list_all field_normal (ks_fields s) \<and> distinct (map fs_name (ks_fields s))"

lemma normalize_enum_normal:
  "normalize_enum kind name out vs = Inr r \<Longrightarrow> enum_normal out \<Longrightarrow> enum_normal r"
proof (induction kind name out vs rule: normalize_enum.induct)
  case (2 kind name out v0 vs)
  define v where "v = trim_space v0"
  have v: "v \<noteq> []" "v \<notin> set out" "normalize_enum kind name (out @ [v]) vs = Inr r"
    using "2.prems"(1) by (auto simp: Let_def v_def split: if_splits)
  have "trim_space v = v" unfolding v_def by (rule trim_space_idem)
  then have "enum_normal (out @ [v])" using "2.prems"(2) v by (simp add: enum_normal_def)
  then show ?case using "2.IH" [OF v_def] v by blast
qed simp

lemma normalize_enum_id:
  "enum_normal (out @ vs) \<Longrightarrow> normalize_enum kind name out vs = Inr (out @ vs)"
proof (induction vs arbitrary: out)
  case (Cons v vs)
  then have "normalize_enum kind name (out @ [v]) vs = Inr ((out @ [v]) @ vs)" by (intro Cons.IH) simp
  moreover have "v \<noteq> []" "trim_space v = v" "v \<notin> set out" using Cons.prems by (auto simp: enum_normal_def)
  ultimately show ?case by (simp add: Let_def)
qed simp

lemma normalize_field_normal:
  assumes "normalize_field kind seen f = Inr g"
  shows "field_normal g \<and> fs_name g \<notin> set seen"
proof -
  let ?n = "trim_space (fs_name f)"
  from assms have name: "?n \<noteq> []" "\<not> is_object_column ?n" "\<not> is_core_filter_key ?n" "sanitize_json_key ?n = ?n"
      "fs_type f \<in> {type_string, type_number, type_boolean, type_datetime}" "?n \<notin> set seen"
    by (auto simp: normalize_field_def Let_def split: if_splits)
  with assms obtain enum where enum: "normalize_field_enum kind (f\<lparr>fs_name := ?n\<rparr>) = Inr enum"
      "g = f\<lparr>fs_name := ?n, fs_enum := enum, fs_operators := field_operators (fs_type f)\<rparr>"
    by (auto simp: normalize_field_def Let_def type_defs split: if_splits sum.splits)
  have "enum_normal enum \<and> (enum \<noteq> [] \<longrightarrow> fs_type f = type_string)"
    using enum(1) normalize_enum_normal [of kind ?n "[]" "fs_enum f" enum]
    by (auto simp: normalize_field_enum_def enum_normal_def split: if_splits)
  then show ?thesis using name enum(2) by (simp add: field_normal_def valid_property_key_def)
qed

lemma normalize_field_id:
  assumes "field_normal f" "fs_name f \<notin> set seen"
  shows "normalize_field kind seen f = Inr f"
proof -
  have "fs_type f \<noteq> []" using assms(1) by (auto simp: field_normal_def type_defs)
  moreover have "normalize_field_enum kind f = Inr (fs_enum f)"
    using assms(1) normalize_enum_id [of "[]" "fs_enum f" kind "fs_name f"]
    by (auto simp: normalize_field_enum_def field_normal_def)
  ultimately show ?thesis
    using assms by (simp add: normalize_field_def field_normal_def valid_property_key_def Let_def)
qed

lemma normalize_fields_normal:
  "normalize_fields kind out fs = Inr r \<Longrightarrow> list_all field_normal out \<and> distinct (map fs_name out)
    \<Longrightarrow> list_all field_normal r \<and> distinct (map fs_name r)"
proof (induction kind out fs rule: normalize_fields.induct)
  case (2 kind out f fs)
  then obtain g where g: "normalize_field kind (map fs_name out) f = Inr g" "normalize_fields kind (out @ [g]) fs = Inr r"
    by (auto split: sum.splits)
  from "2.IH" [OF g] normalize_field_normal [OF g(1)] "2.prems"(2) show ?case by simp
qed simp

lemma normalize_fields_id:
  "list_all field_normal fs \<Longrightarrow> distinct (map fs_name (out @ fs)) \<Longrightarrow> normalize_fields kind out fs = Inr (out @ fs)"
  by (induction kind out fs rule: normalize_fields.induct) (auto simp: normalize_field_id)

lemma normalize_kind_normal:
  assumes "normalize_kind s = Inr n"
  shows "kind_normal n"
proof -
  let ?k = "trim_space (ks_kind s)"
  have k: "?k \<noteq> []" "\<not> contains_sub ?k ''/''" "\<not> contains_sub ?k ''..''"
    using assms by (auto simp: normalize_kind_def Let_def split: if_splits)
  with assms obtain fs where fs: "normalize_fields ?k [] (ks_fields s) = Inr fs"
      "n = s\<lparr>ks_kind := ?k, ks_desc := trim_space (ks_desc s), ks_fields := fs\<rparr>"
    by (cases "normalize_fields ?k [] (ks_fields s)") (simp_all add: normalize_kind_def Let_def)
  then show ?thesis using k normalize_fields_normal [OF fs(1)] by (simp add: kind_normal_def)
qed

lemma normalize_kind_id:
  assumes "kind_normal s"
  shows "normalize_kind s = Inr s"
proof -
  have "normalize_fields (ks_kind s) [] (ks_fields s) = Inr (ks_fields s)"
    using assms normalize_fields_id [of "ks_fields s" "[]" "ks_kind s"] by (simp add: kind_normal_def)
  then show ?thesis using assms by (simp add: normalize_kind_def Let_def kind_normal_def)
qed

lemma normalize_kind_idem: "normalize_kind s = Inr n \<Longrightarrow> normalize_kind n = Inr n"
  by (simp add: normalize_kind_id normalize_kind_normal)

text \<open>A map of kinds: each under its own name, normal, once.\<close>

definition kinds_normal :: "(string, kind_spec) gomap \<Rightarrow> bool" where
  "kinds_normal m \<longleftrightarrow> distinct (map fst m) \<and> (\<forall>(k, s) \<in> set m. ks_kind s = k \<and> kind_normal s)"

lemma update_new: "k \<notin> set (map fst m) \<Longrightarrow> AList.update k v m = m @ [(k, v)]"
  by (induction m) auto

lemma normalize_batch_normal:
  "normalize_batch out ss = Inr r \<Longrightarrow> kinds_normal out \<Longrightarrow> kinds_normal r"
proof (induction out ss rule: normalize_batch.induct)
  case (2 out s ss)
  then obtain n where n: "normalize_kind s = Inr n" "map_of out (ks_kind n) = None"
      "normalize_batch (AList.update (ks_kind n) n out) ss = Inr r"
    by (auto split: sum.splits if_splits)
  then have "ks_kind n \<notin> set (map fst out)" by (simp add: map_of_eq_None_iff)
  then have "kinds_normal (AList.update (ks_kind n) n out)"
    using "2.prems"(2) normalize_kind_normal [OF n(1)] by (auto simp: update_new kinds_normal_def)
  with "2.IH" n show ?case by simp
qed simp

lemma normalize_batch_id:
  "list_all kind_normal ss \<Longrightarrow> distinct (map fst out @ map ks_kind ss) \<Longrightarrow>
    normalize_batch out ss = Inr (out @ map (\<lambda>s. (ks_kind s, s)) ss)"
proof (induction ss arbitrary: out)
  case (Cons s ss)
  have new: "ks_kind s \<notin> set (map fst out)" using Cons.prems(2) by auto
  then have "map_of out (ks_kind s) = None" by (simp add: map_of_eq_None_iff)
  moreover have "normalize_batch (out @ [(ks_kind s, s)]) ss = Inr ((out @ [(ks_kind s, s)]) @ map (\<lambda>s. (ks_kind s, s)) ss)"
    using Cons by (intro Cons.IH) auto
  ultimately show ?case using Cons.prems(1) new by (simp add: normalize_kind_id update_new)
qed simp

lemma kind_batch_normal: "normalize_kind_batch ss = Inr m \<Longrightarrow> kinds_normal m"
  using normalize_batch_normal [of "[]" ss m] by (simp add: normalize_kind_batch_def kinds_normal_def)

section \<open>The registry gives the catalog back\<close>

definition registry_ok :: "fields_json \<Rightarrow> (string, object_kind) gomap \<Rightarrow> bool" where
  "registry_ok js m \<longleftrightarrow> distinct (map fst m) \<and>
     (\<forall>k row. map_of m k = Some row \<longrightarrow>
        ok_kind row = k \<and> (\<exists>s. kind_spec_of js row = Inr s \<and> kind_normal s \<and> ks_kind s = k))"

definition fields_kept :: "fields_json \<Rightarrow> kind_spec \<Rightarrow> bool" where
  "fields_kept js s \<longleftrightarrow> fj_write js (ks_fields s) \<noteq> [] \<and> fj_read js (fj_write js (ks_fields s)) = Some (ks_fields s)"

definition registry_get :: "fields_json \<Rightarrow> (string, object_kind) gomap \<Rightarrow> string \<Rightarrow> kind_spec option" where
  "registry_get js m k =
     (case map_of m k of
        None \<Rightarrow> None
      | Some row \<Rightarrow> (case kind_spec_of js row of Inl e \<Rightarrow> None | Inr s \<Rightarrow> Some s))"

lemma kind_spec_of_written: "fields_kept js s \<Longrightarrow> kind_spec_of js (normalized_object_kind js s) = Inr s"
  by (simp add: kind_spec_of_def normalized_object_kind_def fields_kept_def)

lemma put_kind_written:
  assumes "kind_normal s" "fields_kept js s"
  shows "put_kind (normalized_object_kind js s) m = (None, AList.update (ks_kind s) (normalized_object_kind js s) m)"
  using assms by (simp add: put_kind_def normalized_object_kind_def kind_normal_def fields_kept_def)

lemma registry_ok_put:
  assumes "registry_ok js m" "kind_normal s" "fields_kept js s"
  shows "registry_ok js (AList.update (ks_kind s) (normalized_object_kind js s) m)"
  using assms kind_spec_of_written [OF assms(3)]
  by (auto simp: registry_ok_def distinct_update update_conv' normalized_object_kind_def)

lemma put_kinds_registry:
  assumes "registry_ok js m" "kinds_normal batch" "\<forall>n \<in> set names. \<exists>s. map_of batch n = Some s \<and> fields_kept js s"
  shows "\<exists>m'. put_kinds put_kind js batch names m = (None, m') \<and> registry_ok js m'
    \<and> (\<forall>k. registry_get js m' k = (if k \<in> set names then map_of batch k else registry_get js m k))"
  using assms
proof (induction names arbitrary: m)
  case (Cons n names)
  then obtain s where s: "map_of batch n = Some s" "fields_kept js s" by auto
  then have n: "kind_normal s" "ks_kind s = n"
    using Cons.prems(2) by (auto simp: kinds_normal_def dest: map_of_SomeD)
  define m1 where "m1 = AList.update n (normalized_object_kind js s) m"
  have m1: "registry_ok js m1" using registry_ok_put [OF Cons.prems(1) n(1) s(2)] n(2) by (simp add: m1_def)
  from Cons.IH [OF m1] Cons.prems obtain m' where m': "put_kinds put_kind js batch names m1 = (None, m')"
      "registry_ok js m'" "\<And>k. registry_get js m' k = (if k \<in> set names then map_of batch k else registry_get js m1 k)"
    by auto
  have "registry_get js m1 k = (if k = n then Some s else registry_get js m k)" for k
    using kind_spec_of_written [OF s(2)] by (simp add: registry_get_def m1_def update_conv')
  then show ?case
    using m' s(1) put_kind_written [OF n(1) s(2), of m] n(2) by (auto simp: m1_def)
qed simp

lemma specs_of_rows_all:
  "\<forall>r \<in> set rows. \<exists>s. kind_spec_of js r = Inr s \<Longrightarrow>
    specs_of_rows js rows = Inr (map (\<lambda>r. projr (kind_spec_of js r)) rows)"
  by (induction rows) auto

lemma list_kinds_rows:
  assumes "registry_ok js m"
  shows "mset (list_kinds m) = mset (map snd m)" and "distinct (map ok_kind (list_kinds m))"
    and "r \<in> set (list_kinds m) \<longleftrightarrow> map_of m (ok_kind r) = Some r"
proof -
  have d: "distinct (map fst m)" using assms by (simp add: registry_ok_def)
  have "map (\<lambda>n. the (map_of m n)) (map fst m) = map snd m"
    using d by (auto simp: in_set_conv_nth)
  then have l: "list_kinds m = sort_key ok_kind (map snd m)"
    using d by (simp only: list_kinds_def distinct_remdups_id)
  have keys: "\<forall>(k, r) \<in> set m. ok_kind r = k"
    using assms d by (auto simp: registry_ok_def)
  then have names: "map ok_kind (map snd m) = map fst m" by auto
  show "mset (list_kinds m) = mset (map snd m)" by (simp add: l)
  have "mset (map ok_kind (list_kinds m)) = mset (map fst m)" unfolding l by (metis mset_map mset_sort names)
  then show "distinct (map ok_kind (list_kinds m))" using d by (metis mset_eq_imp_distinct_iff)
  show "r \<in> set (list_kinds m) \<longleftrightarrow> map_of m (ok_kind r) = Some r"
    using d keys by (force simp: l map_of_eq_Some_iff image_iff)
qed

lemma load_registry:
  assumes "registry_ok js m"
  shows "\<exists>c. load_kinds (\<lambda>m. Inr (list_kinds m)) js m new_kind_catalog = Inr c
    \<and> (\<forall>k. catalog_get c k = registry_get js m k)"
proof -
  let ?spec = "\<lambda>r. projr (kind_spec_of js r)" and ?rows = "list_kinds m"
  note rows = list_kinds_rows [OF assms]
  have row: "\<exists>s. kind_spec_of js r = Inr s \<and> kind_normal s \<and> ks_kind s = ok_kind r" if "r \<in> set ?rows" for r
    using assms rows(3) that unfolding registry_ok_def by blast
  then have specs: "specs_of_rows js ?rows = Inr (map ?spec ?rows)" by (intro specs_of_rows_all) blast
  have names: "map ks_kind (map ?spec ?rows) = map ok_kind ?rows" using row by fastforce
  have normal: "list_all kind_normal (map ?spec ?rows)" using row by (fastforce simp: list_all_iff)
  have "normalize_kind_batch (map ?spec ?rows) = Inr (map (\<lambda>s. (ks_kind s, s)) (map ?spec ?rows))"
    unfolding normalize_kind_batch_def
    using normalize_batch_id [OF normal, of "[]"] rows(2) by (simp only: names list.map append.simps)
  then obtain c where c: "load_kinds (\<lambda>m. Inr (list_kinds m)) js m new_kind_catalog = Inr c"
      "ca_kinds c = map (\<lambda>s. (ks_kind s, s)) (map ?spec ?rows)"
    using specs by (auto simp: load_kinds_def catalog_replace_def replace_normalized_def new_kind_catalog_def)
  have "catalog_get c k = registry_get js m k" for k
  proof (cases "map_of m k")
    case None
    then have "k \<notin> ok_kind ` set ?rows" using rows(3) by auto
    moreover have "fst ` set (ca_kinds c) = set (map ks_kind (map ?spec ?rows))" unfolding c(2) by force
    ultimately have "k \<notin> fst ` set (ca_kinds c)" by (simp only: names set_map not_False_eq_True)
    then have "map_of (ca_kinds c) k = None" by (simp only: map_of_eq_None_iff not_False_eq_True)
    then show ?thesis using None by (simp add: catalog_get_def registry_get_def)
  next
    case (Some r)
    then have r: "r \<in> set ?rows" "ok_kind r = k" using assms rows(3) by (auto simp: registry_ok_def)
    have "map fst (ca_kinds c) = map ks_kind (map ?spec ?rows)" by (simp add: c(2) comp_def)
    then have d: "distinct (map fst (ca_kinds c))" using rows(2) by (simp only: names)
    have "(k, ?spec r) \<in> set (ca_kinds c)" using row [OF r(1)] r c(2) by force
    then have "catalog_get c k = Some (?spec r)" using d by (simp add: catalog_get_def)
    then show ?thesis using Some row [OF r(1)] by (auto simp: registry_get_def)
  qed
  then show ?thesis using c(1) by blast
qed

lemma sorted_keys_set [simp]: "set (sorted_keys m) = fst ` set m"
  by (simp add: sorted_keys_def)

text \<open>
  C26. Kinds applied to a catalog are durable: when ApplyKinds succeeds, loading the store's
  registry into a new process's catalog succeeds and gives every applied kind back exactly as
  the catalog holds it, normalized, and keeps every other kind the registry had.\<close>

theorem applied_kinds_load:
  assumes "registry_ok js m" and "apply_kinds put_kind js specs c m = (None, c', m')"
    and "\<forall>k s. catalog_get c' k = Some s \<longrightarrow> fields_kept js s"
  shows "\<exists>c2. load_kinds (\<lambda>m. Inr (list_kinds m)) js m' new_kind_catalog = Inr c2 \<and>
    (\<forall>k. catalog_get c2 k = (case catalog_get c' k of Some s \<Rightarrow> Some s | None \<Rightarrow> registry_get js m k))"
proof -
  from assms(2) obtain batch where b: "normalize_kind_batch specs = Inr batch" "ca_kinds c' = batch"
      "put_kinds put_kind js batch (sorted_keys batch) m = (None, m')"
    by (auto simp: apply_kinds_def put_kind_batch_def replace_normalized_def split: sum.splits option.splits prod.splits if_splits)
  have "\<forall>n \<in> set (sorted_keys batch). \<exists>s. map_of batch n = Some s \<and> fields_kept js s"
  proof
    fix n assume "n \<in> set (sorted_keys batch)"
    then obtain s where "map_of batch n = Some s" using map_of_eq_None_iff [of batch n] by auto
    then show "\<exists>s. map_of batch n = Some s \<and> fields_kept js s" using assms(3) b(2) by (auto simp: catalog_get_def)
  qed
  from put_kinds_registry [OF assms(1) kind_batch_normal [OF b(1)] this] b(3)
  have m': "registry_ok js m'" "\<And>k. registry_get js m' k = (if k \<in> fst ` set batch then map_of batch k else registry_get js m k)"
    by auto
  have "registry_get js m' k = (case catalog_get c' k of Some s \<Rightarrow> Some s | None \<Rightarrow> registry_get js m k)" for k
    using m'(2) [of k] b(2) map_of_eq_None_iff [of batch k] by (auto simp: catalog_get_def split: option.splits)
  then show ?thesis using load_registry [OF m'(1)] by simp
qed

definition demo_json :: fields_json where
  "demo_json = \<lparr>fj_write = (\<lambda>fs. ''[]''), fj_read = (\<lambda>s. Some [])\<rparr>"

definition demo_kind :: kind_spec where
  "demo_kind = \<lparr>ks_kind = ''note'', ks_desc = [], ks_is_parent = True, ks_is_part = False, ks_fields = []\<rparr>"

lemma demo_kind_normal: "kind_normal demo_kind"
  by (simp add: kind_normal_def demo_kind_def plain_eval contains_sub_def has_prefix_def)

lemma demo_apply:
  "apply_kinds put_kind demo_json [demo_kind] new_kind_catalog [] =
    (None, \<lparr>ca_kinds = [(''note'', demo_kind)], ca_frozen = False\<rparr>, [(''note'', normalized_object_kind demo_json demo_kind)])"
  by (simp add: apply_kinds_def normalize_kind_batch_def normalize_kind_id [OF demo_kind_normal] put_kind_batch_def
      sorted_keys_def put_kind_def normalized_object_kind_def ensure_not_frozen_def replace_normalized_def
      new_kind_catalog_def demo_json_def) (simp add: demo_kind_def)

theorem applied_kinds_load_witness:
  "\<exists>c2. load_kinds (\<lambda>m. Inr (list_kinds m)) demo_json [(''note'', normalized_object_kind demo_json demo_kind)] new_kind_catalog = Inr c2
    \<and> catalog_get c2 ''note'' = Some demo_kind"
proof -
  have r: "registry_ok demo_json []" by (simp add: registry_ok_def)
  have k: "\<forall>k s. catalog_get \<lparr>ca_kinds = [(''note'', demo_kind)], ca_frozen = False\<rparr> k = Some s \<longrightarrow> fields_kept demo_json s"
    by (simp add: catalog_get_def fields_kept_def demo_json_def demo_kind_def)
  from applied_kinds_load [OF r demo_apply k] obtain c2 where
    "load_kinds (\<lambda>m. Inr (list_kinds m)) demo_json [(''note'', normalized_object_kind demo_json demo_kind)] new_kind_catalog = Inr c2"
    "\<And>k. catalog_get c2 k = (case catalog_get \<lparr>ca_kinds = [(''note'', demo_kind)], ca_frozen = False\<rparr> k of
       Some s \<Rightarrow> Some s | None \<Rightarrow> registry_get demo_json [] k)" by blast
  then show ?thesis by (auto simp: catalog_get_def)
qed

end
