(* ===== verification/Tenant.thy ===== *)
theory Tenant
  imports Prelude Text
begin

text \<open>
  Isolation in the knowledge base (brain/namespace.go, and Scope of brain/types.go): ordered
  named attributes whose first is the tenant, what a scope covers and may read, the binding of
  a call's namespace under the host's ceiling, and validation. Every error here wraps
  ErrInvalid; \<open>ns_error\<close> keeps which one it is and the name it quotes.
\<close>

section \<open>Namespaces\<close>

record attr =
  at_name :: string
  at_value :: string

type_synonym namespace = "attr list"

datatype ns_error =
    NamespaceRequired
  | AttrNameRequired nat
  | AttrValueRequired string
  | AttrDot string
  | AttrSpace string
  | AttrDuplicated string
  | OutsideHost string
  | HostCeiling ns_error
  | UnevenPairs

definition ns_string :: "namespace \<Rightarrow> string" where
  "ns_string n = join_text ''.'' (map at_value n)"

definition ns_covers :: "namespace \<Rightarrow> namespace \<Rightarrow> bool" where
  "ns_covers scope obj =
     (if scope = [] \<or> obj = [] \<or> hd scope \<noteq> hd obj then False
      else list_all (\<lambda>a. a \<in> set obj) (tl scope))"

definition ns_tenant :: "namespace \<Rightarrow> namespace" where
  "ns_tenant n = take (min (length n) 1) n"

text \<open>The loop of Validate from index i, with the names it has seen.\<close>

fun validate_attrs :: "nat \<Rightarrow> string list \<Rightarrow> namespace \<Rightarrow> ns_error option" where
  "validate_attrs i seen [] = None"
| "validate_attrs i seen (a # n) =
     (let name = trim_space (at_name a); val = trim_space (at_value a)
      in if name = [] then Some (AttrNameRequired i)
         else if val = [] then Some (AttrValueRequired name)
         else if CHR ''.'' \<in> set name \<or> CHR ''.'' \<in> set val then Some (AttrDot name)
         else if name \<noteq> at_name a \<or> val \<noteq> at_value a then Some (AttrSpace name)
         else if name \<in> set seen then Some (AttrDuplicated name)
         else validate_attrs (Suc i) (name # seen) n)"

definition ns_validate :: "namespace \<Rightarrow> ns_error option" where
  "ns_validate n = (if n = [] then Some NamespaceRequired else validate_attrs 0 [] n)"

fun parse_pairs :: "string list \<Rightarrow> namespace" where
  "parse_pairs (n # v # rest) = \<lparr>at_name = trim_space n, at_value = trim_space v\<rparr> # parse_pairs rest"
| "parse_pairs rest = []"

definition parse_namespace :: "string list \<Rightarrow> ns_error + namespace" where
  "parse_namespace nvs =
     (if length nvs mod 2 \<noteq> 0 then Inl UnevenPairs
      else case ns_validate (parse_pairs nvs) of Some e \<Rightarrow> Inl e | None \<Rightarrow> Inr (parse_pairs nvs))"

definition attr_values :: "namespace \<Rightarrow> (string, string) gomap" where
  "attr_values n = fold (\<lambda>a. AList.update (at_name a) (at_value a)) n []"

fun bind_attrs :: "(string, string) gomap \<Rightarrow> namespace \<Rightarrow> namespace \<Rightarrow> ns_error + namespace" where
  "bind_attrs held out [] = Inr out"
| "bind_attrs held out (a # call) =
     (case map_of held (at_name a) of
        Some v \<Rightarrow> if v \<noteq> at_value a then Inl (OutsideHost (at_name a)) else bind_attrs held out call
      | None \<Rightarrow> bind_attrs held (out @ [a]) call)"

definition ns_bind :: "namespace \<Rightarrow> namespace \<Rightarrow> ns_error + namespace" where
  "ns_bind ceiling call =
     (case ns_validate ceiling of
        Some e \<Rightarrow> Inl (HostCeiling e)
      | None \<Rightarrow>
          (case (if call \<noteq> [] then ns_validate call else None) of
             Some e \<Rightarrow> Inl e
           | None \<Rightarrow> if call = [] then Inr ceiling else bind_attrs (attr_values ceiling) ceiling call))"

text \<open>A session's messages live under the host's namespace with the session as its last attribute.\<close>

definition session_tail_name :: string where
  "session_tail_name = ''session''"

definition for_session :: "namespace \<Rightarrow> string \<Rightarrow> namespace" where
  "for_session host sid = host @ [\<lparr>at_name = session_tail_name, at_value = sid\<rparr>]"

section \<open>Scopes\<close>

record scope =
  sc_namespace :: namespace
  sc_principals :: "string list"
  sc_session :: string

definition can_read :: "scope \<Rightarrow> namespace \<Rightarrow> string list \<Rightarrow> bool" where
  "can_read s ns readers =
     (if \<not> ns_covers (sc_namespace s) ns then False
      else if readers = [] then True
      else list_ex (\<lambda>r. r \<in> set (sc_principals s)) readers)"

section \<open>What a valid namespace is\<close>

definition attr_ok :: "attr \<Rightarrow> bool" where
  "attr_ok a \<longleftrightarrow> at_name a \<noteq> [] \<and> at_value a \<noteq> []
     \<and> trim_space (at_name a) = at_name a \<and> trim_space (at_value a) = at_value a
     \<and> CHR ''.'' \<notin> set (at_name a) \<and> CHR ''.'' \<notin> set (at_value a)"

lemma validate_attrs_None:
  "validate_attrs i seen n = None \<longleftrightarrow>
    list_all attr_ok n \<and> distinct (map at_name n) \<and> set (map at_name n) \<inter> set seen = {}"
  by (induction i seen n rule: validate_attrs.induct) (auto simp: Let_def attr_ok_def)

lemma ns_validate_None:
  "ns_validate n = None \<longleftrightarrow> n \<noteq> [] \<and> list_all attr_ok n \<and> distinct (map at_name n)"
  by (simp add: ns_validate_def validate_attrs_None)

lemma attr_values_of:
  "distinct (map at_name n) \<Longrightarrow> map_of (attr_values n) k = map_of (map (\<lambda>a. (at_name a, at_value a)) n) k"
proof -
  have "distinct (map at_name n) \<Longrightarrow>
    map_of (fold (\<lambda>a. AList.update (at_name a) (at_value a)) n m) k =
    (map_of m ++ map_of (map (\<lambda>a. (at_name a, at_value a)) n)) k" for m
  proof (induction n arbitrary: m)
    case (Cons a n)
    then have "map_of (map (\<lambda>a. (at_name a, at_value a)) n) (at_name a) = None"
      by (force simp: map_of_eq_None_iff)
    with Cons show ?case by (auto simp: update_conv' map_add_def split: option.splits)
  qed simp
  then show "distinct (map at_name n) \<Longrightarrow> ?thesis" by (simp add: attr_values_def)
qed

lemma attr_eta [simp]: "\<lparr>at_name = at_name a, at_value = at_value a\<rparr> = a"
  by (cases a) simp

lemma attr_values_Some:
  assumes "distinct (map at_name n)"
  shows "map_of (attr_values n) k = Some v \<longleftrightarrow> \<lparr>at_name = k, at_value = v\<rparr> \<in> set n"
proof -
  have "distinct (map fst (map (\<lambda>a. (at_name a, at_value a)) n))" using assms by (simp add: comp_def)
  then have "map_of (map (\<lambda>a. (at_name a, at_value a)) n) k = Some v
    \<longleftrightarrow> (k, v) \<in> (\<lambda>a. (at_name a, at_value a)) ` set n" by (simp add: map_of_eq_Some_iff)
  moreover have "(k, v) \<in> (\<lambda>a. (at_name a, at_value a)) ` set n \<longleftrightarrow> \<lparr>at_name = k, at_value = v\<rparr> \<in> set n"
    by (force simp: image_iff)
  ultimately show ?thesis using attr_values_of [OF assms, of k] by simp
qed

lemma ns_covers_iff:
  "ns_covers scope obj \<longleftrightarrow> scope \<noteq> [] \<and> obj \<noteq> [] \<and> hd scope = hd obj \<and> set scope \<subseteq> set obj"
  by (cases scope; cases obj) (auto simp: ns_covers_def list_all_iff)

lemma ns_covers_tenant: "ns_covers scope obj \<Longrightarrow> ns_tenant scope = ns_tenant obj \<and> ns_tenant obj \<noteq> []"
  by (cases scope; cases obj) (auto simp: ns_covers_def ns_tenant_def split: if_splits)

lemma ns_covers_refl: "n \<noteq> [] \<Longrightarrow> ns_covers n n"
  by (simp add: ns_covers_iff)

lemma ns_covers_trans: "ns_covers a b \<Longrightarrow> ns_covers b c \<Longrightarrow> ns_covers a c"
  by (auto simp: ns_covers_iff)

lemma ns_covers_session: "host \<noteq> [] \<Longrightarrow> ns_covers host (for_session host sid)"
  by (auto simp: ns_covers_iff for_session_def)

lemma for_session_inject: "for_session h s = for_session h' s' \<longleftrightarrow> h = h' \<and> s = s'"
  by (auto simp: for_session_def)

section \<open>Binding only narrows\<close>

lemma bind_attrs_spec:
  assumes "bind_attrs held out call = Inr r" "distinct (map at_name call)"
    and "\<And>k v. map_of held k = Some v \<Longrightarrow> \<lparr>at_name = k, at_value = v\<rparr> \<in> set out"
  shows "r = out @ filter (\<lambda>a. map_of held (at_name a) = None) call \<and> set call \<subseteq> set r"
  using assms
proof (induction held out call rule: bind_attrs.induct)
  case (2 held out a call)
  show ?case
  proof (cases "map_of held (at_name a)")
    case None
    with 2 have "bind_attrs held (out @ [a]) call = Inr r" by simp
    from "2.IH"(1) [OF None this] 2 None show ?thesis by auto
  next
    case (Some v)
    with 2 have v: "v = at_value a" "bind_attrs held out call = Inr r" by (auto split: if_splits)
    have "a \<in> set out" using "2.prems"(3) [OF Some] v(1) by simp
    with "2.IH"(2) [OF Some _ v(2)] 2 v Some show ?thesis by auto
  qed
qed simp

lemma bind_result:
  assumes "ns_bind ceiling call = Inr out"
  shows "ns_validate ceiling = None \<and> (call \<noteq> [] \<longrightarrow> ns_validate call = None)
    \<and> out = ceiling @ filter (\<lambda>a. at_name a \<notin> set (map at_name ceiling)) call
    \<and> set out = set ceiling \<union> set call"
proof (cases "call = []")
  case True
  then show ?thesis using assms by (auto simp: ns_bind_def split: option.splits)
next
  case False
  with assms have ok: "ns_validate ceiling = None" "ns_validate call = None"
    and b: "bind_attrs (attr_values ceiling) ceiling call = Inr out"
    by (auto simp: ns_bind_def split: option.splits)
  have dc: "distinct (map at_name ceiling)" "distinct (map at_name call)"
    using ok by (simp_all add: ns_validate_None)
  have none: "map_of (attr_values ceiling) k = None \<longleftrightarrow> k \<notin> set (map at_name ceiling)" for k
    using attr_values_of [OF dc(1), of k] by (auto simp: map_of_eq_None_iff image_iff)
  from bind_attrs_spec [OF b dc(2)] attr_values_Some [OF dc(1)]
  have "out = ceiling @ filter (\<lambda>a. map_of (attr_values ceiling) (at_name a) = None) call"
    "set call \<subseteq> set out" by auto
  then show ?thesis using ok by (auto simp: none)
qed

text \<open>
  C25. A namespace bound under a host's ceiling is valid, starts with the ceiling, and covers
  exactly the objects the ceiling covers that carry every attribute of the call: a caller can
  narrow what the host lets it reach and never widen it, and no scope reaches an object of
  another tenant whatever its readers and principals.\<close>

theorem bind_narrows:
  assumes "ns_bind ceiling call = Inr out"
  shows "ns_validate out = None
    \<and> (ns_covers out obj \<longleftrightarrow> ns_covers ceiling obj \<and> set call \<subseteq> set obj)
    \<and> (can_read \<lparr>sc_namespace = out, sc_principals = ps, sc_session = sid\<rparr> obj readers \<longrightarrow> ns_tenant obj = ns_tenant ceiling)"
proof (intro conjI)
  note r = bind_result [OF assms]
  have v: "ceiling \<noteq> []" "list_all attr_ok ceiling" "distinct (map at_name ceiling)"
    using r by (auto simp: ns_validate_None)
  have c: "list_all attr_ok call" "distinct (map at_name call)"
    using r by (auto simp: ns_validate_None)
  have hd: "hd out = hd ceiling" "out \<noteq> []" using r v(1) by auto
  have "at_name ` set (filter (\<lambda>a. at_name a \<notin> set (map at_name ceiling)) call) \<inter> at_name ` set ceiling = {}"
    by auto
  then have "distinct (map at_name out)"
    using r v(3) c(2) distinct_map_filter [of at_name call] by auto
  moreover have "list_all attr_ok out" using r v(2) c(1) by (auto simp: list_all_iff)
  ultimately show "ns_validate out = None" using hd(2) by (simp add: ns_validate_None)
  show cov: "ns_covers out obj \<longleftrightarrow> ns_covers ceiling obj \<and> set call \<subseteq> set obj"
    using hd v(1) r by (simp add: ns_covers_iff del: set_append) blast
  show "can_read \<lparr>sc_namespace = out, sc_principals = ps, sc_session = sid\<rparr> obj readers \<longrightarrow> ns_tenant obj = ns_tenant ceiling"
    using cov ns_covers_tenant [of ceiling obj] by (auto simp: can_read_def)
qed

definition demo_org :: attr where
  "demo_org = \<lparr>at_name = ''org'', at_value = ''acme''\<rparr>"

definition demo_room :: attr where
  "demo_room = \<lparr>at_name = ''room'', at_value = ''7''\<rparr>"

lemmas demo_ns = demo_org_def demo_room_def

lemma demo_attrs_ok: "ns_validate [demo_org] = None" "ns_validate [demo_room] = None"
  by (simp_all add: ns_validate_None attr_ok_def demo_ns trim_space_all_plain plain_eval)

lemma demo_bind: "ns_bind [demo_org] [demo_room] = Inr [demo_org, demo_room]"
  using demo_attrs_ok
  by (simp add: ns_bind_def attr_values_def) (simp add: demo_ns)

theorem bind_narrows_witness:
  "ns_covers [demo_org, demo_room] [demo_org, demo_room] \<and> \<not> ns_covers [demo_org, demo_room] [demo_org]
    \<and> ns_validate [demo_org, demo_room] = None"
  using bind_narrows [OF demo_bind, of "[demo_org, demo_room]"] bind_narrows [OF demo_bind, of "[demo_org]"]
  by (simp add: ns_covers_iff demo_ns)

end
