(* ===== verification/Filters.thy ===== *)
theory Filters
  imports Kinds Tenant
begin

text \<open>
  What a retrieval is narrowed by (brain/filter.go, brain/filter_plan.go): the filter of a tool
  call decoded from JSON, its validation on its own and against the kind catalog, and the plan
  it compiles to. Objects carry the fields of brain/types.go. float64 and time.Parse are the
  parameters \<open>floats\<close> and \<open>time_parsers\<close>.
\<close>

section \<open>Objects\<close>

type_synonym uuid = "128 word"

record 'f object =
  ob_id :: uuid
  ob_kind :: string
  ob_title :: string
  ob_summary :: string
  ob_props :: "(string, 'f any) gomap"
  ob_content :: string
  ob_content_type :: string
  ob_parent :: "uuid option"
  ob_position :: "int option"
  ob_embedding :: "'f list option"
  ob_model :: string
  ob_namespace :: namespace
  ob_readers :: "string list"
  ob_created :: time
  ob_updated :: time
  ob_deleted :: "time option"

section \<open>Filters\<close>

record string_match =
  sm_eq :: string
  sm_in :: "string list"

definition match_set :: "string_match \<Rightarrow> bool" where
  "match_set s \<longleftrightarrow> sm_eq s \<noteq> [] \<or> sm_in s \<noteq> []"

record 'f prop_filter =
  pf_eq :: "'f any"
  pf_in :: "'f any list"

record 'f filter_spec =
  fi_kind :: string_match
  fi_title :: string_match
  fi_created_after :: string
  fi_created_before :: string
  fi_updated_after :: string
  fi_updated_before :: string
  fi_props :: "(string, 'f prop_filter) gomap"

definition no_match :: string_match where
  "no_match = \<lparr>sm_eq = [], sm_in = []\<rparr>"

definition no_filter :: "'f filter_spec" where
  "no_filter = \<lparr>fi_kind = no_match, fi_title = no_match, fi_created_after = [], fi_created_before = [],
     fi_updated_after = [], fi_updated_before = [], fi_props = []\<rparr>"

definition filter_empty :: "'f filter_spec \<Rightarrow> bool" where
  "filter_empty f \<longleftrightarrow> \<not> match_set (fi_kind f) \<and> \<not> match_set (fi_title f)
     \<and> fi_created_after f = [] \<and> fi_created_before f = [] \<and> fi_updated_after f = [] \<and> fi_updated_before f = []
     \<and> fi_props f = []"

datatype filter_error =
    FilterKeyRequired
  | FilterTimeType string
  | FilterTime string
  | FilterBadKey string
  | FilterValueRequired string
  | FilterUnsupported string
  | FilterListEmpty string
  | FilterListUnsupported string nat
  | FilterListString string nat
  | FilterStringOrList string
  | FilterUnknownKind string
  | FilterNeedsKind string
  | FilterUnknownField string string
  | FilterBooleanList string
  | FilterBadItem string nat field_error
  | FilterBadValue string field_error

fun is_filter_scalar :: "'f any \<Rightarrow> bool" where
  "is_filter_scalar (VStr s) = True"
| "is_filter_scalar (VBool b) = True"
| "is_filter_scalar (VFloat x) = True"
| "is_filter_scalar (VInt n) = True"
| "is_filter_scalar (VNumber s) = True"
| "is_filter_scalar v = False"

definition validate_eq_value :: "string \<Rightarrow> 'f any \<Rightarrow> filter_error option" where
  "validate_eq_value key val =
     (if val = VNil then Some (FilterValueRequired key)
      else if is_filter_scalar val then None
      else case val of
             VList items \<Rightarrow>
               (if items = [] then Some (FilterListEmpty key)
                else case index_of (\<lambda>v. \<not> is_filter_scalar v) items of
                       Some i \<Rightarrow> Some (FilterListUnsupported key i)
                     | None \<Rightarrow> None)
           | _ \<Rightarrow> Some (FilterUnsupported key))"

fun decode_strings :: "string \<Rightarrow> nat \<Rightarrow> string list \<Rightarrow> 'f any list \<Rightarrow> filter_error + string list" where
  "decode_strings key i out [] = Inr out"
| "decode_strings key i out (VStr s # items) =
     (if s = [] then Inl (FilterListString key i) else decode_strings key (Suc i) (out @ [s]) items)"
| "decode_strings key i out (v # items) = Inl (FilterListString key i)"

definition decode_string_match :: "string \<Rightarrow> 'f any \<Rightarrow> filter_error + string_match" where
  "decode_string_match key val =
     (case validate_eq_value key val of
        Some e \<Rightarrow> Inl e
      | None \<Rightarrow>
          (case val of
             VStr v \<Rightarrow> Inr \<lparr>sm_eq = v, sm_in = []\<rparr>
           | VList items \<Rightarrow>
               (case decode_strings key 0 [] items of Inl e \<Rightarrow> Inl e | Inr ss \<Rightarrow> Inr \<lparr>sm_eq = [], sm_in = ss\<rparr>)
           | _ \<Rightarrow> Inl (FilterStringOrList key)))"

definition decode_prop_filter :: "string \<Rightarrow> 'f any \<Rightarrow> filter_error + 'f prop_filter" where
  "decode_prop_filter key val =
     (case validate_eq_value key val of
        Some e \<Rightarrow> Inl e
      | None \<Rightarrow> (case val of VList items \<Rightarrow> Inr \<lparr>pf_eq = VNil, pf_in = items\<rparr> | _ \<Rightarrow> Inr \<lparr>pf_eq = val, pf_in = []\<rparr>))"

definition set_time :: "string \<Rightarrow> string \<Rightarrow> 'f filter_spec \<Rightarrow> 'f filter_spec" where
  "set_time k s f =
     (if k = ''created_after'' then f\<lparr>fi_created_after := s\<rparr>
      else if k = ''created_before'' then f\<lparr>fi_created_before := s\<rparr>
      else if k = ''updated_after'' then f\<lparr>fi_updated_after := s\<rparr>
      else f\<lparr>fi_updated_before := s\<rparr>)"

definition is_time_key :: "string \<Rightarrow> bool" where
  "is_time_key k \<longleftrightarrow> k = ''created_after'' \<or> k = ''created_before'' \<or> k = ''updated_after'' \<or> k = ''updated_before''"

definition decode_entry :: "time_parsers \<Rightarrow> string \<Rightarrow> 'f any \<Rightarrow> 'f filter_spec \<Rightarrow> filter_error + 'f filter_spec" where
  "decode_entry tp key val f =
     (let k = trim_space key
      in if k = [] then Inl FilterKeyRequired
         else if k = ''kind'' then
           (case decode_string_match k val of Inl e \<Rightarrow> Inl e | Inr m \<Rightarrow> Inr (f\<lparr>fi_kind := m\<rparr>))
         else if k = ''title'' then
           (case decode_string_match k val of Inl e \<Rightarrow> Inl e | Inr m \<Rightarrow> Inr (f\<lparr>fi_title := m\<rparr>))
         else if is_time_key k then
           (case val of
              VStr s \<Rightarrow> if parse_filter_time tp s = None then Inl (FilterTime k) else Inr (set_time k s f)
            | _ \<Rightarrow> Inl (FilterTimeType k))
         else if \<not> valid_property_key k then Inl (FilterBadKey k)
         else case decode_prop_filter k val of
                Inl e \<Rightarrow> Inl e
              | Inr pf \<Rightarrow> Inr (f\<lparr>fi_props := AList.update k pf (fi_props f)\<rparr>))"

text \<open>The entries come in the map's order, which Go leaves open: the list is one such order.\<close>

fun decode_entries :: "time_parsers \<Rightarrow> (string \<times> 'f any) list \<Rightarrow> 'f filter_spec \<Rightarrow> filter_error + 'f filter_spec" where
  "decode_entries tp [] f = Inr f"
| "decode_entries tp ((key, val) # m) f =
     (case decode_entry tp key val f of Inl e \<Rightarrow> Inl e | Inr f1 \<Rightarrow> decode_entries tp m f1)"

definition decode_filter :: "time_parsers \<Rightarrow> (string, 'f any) gomap \<Rightarrow> filter_error + 'f filter_spec" where
  "decode_filter tp m = (if m = [] then Inr no_filter else decode_entries tp m no_filter)"

section \<open>Validation\<close>

fun validate_times :: "time_parsers \<Rightarrow> (string \<times> string) list \<Rightarrow> filter_error option" where
  "validate_times tp [] = None"
| "validate_times tp ((key, val) # rest) =
     (if trim_space val = [] then validate_times tp rest
      else if parse_filter_time tp val = None then Some (FilterTime key)
      else validate_times tp rest)"

fun validate_props :: "(string, 'f prop_filter) gomap \<Rightarrow> filter_error option" where
  "validate_props [] = None"
| "validate_props ((k, pf) # rest) =
     (if \<not> valid_property_key k then Some (FilterBadKey k)
      else case (if pf_in pf \<noteq> [] then validate_eq_value k (VList (pf_in pf)) else validate_eq_value k (pf_eq pf)) of
             Some e \<Rightarrow> Some e
           | None \<Rightarrow> validate_props rest)"

definition filter_times :: "'f filter_spec \<Rightarrow> (string \<times> string) list" where
  "filter_times f =
     [(''created_after'', fi_created_after f), (''created_before'', fi_created_before f),
      (''updated_after'', fi_updated_after f), (''updated_before'', fi_updated_before f)]"

definition filter_validate :: "time_parsers \<Rightarrow> 'f filter_spec \<Rightarrow> filter_error option" where
  "filter_validate tp f =
     (case validate_times tp (filter_times f) of Some e \<Rightarrow> Some e | None \<Rightarrow> validate_props (fi_props f))"

definition kind_values :: "'f filter_spec \<Rightarrow> string list" where
  "kind_values f =
     (if sm_in (fi_kind f) \<noteq> [] then sm_in (fi_kind f)
      else if sm_eq (fi_kind f) \<noteq> [] then [sm_eq (fi_kind f)] else [])"

definition prop_filter_value :: "'f prop_filter \<Rightarrow> 'f any" where
  "prop_filter_value pf = (if pf_in pf \<noteq> [] then VList (pf_in pf) else pf_eq pf)"

fun check_items :: "'f floats \<Rightarrow> time_parsers \<Rightarrow> string \<Rightarrow> string \<Rightarrow> nat \<Rightarrow> 'f any list \<Rightarrow> filter_error option" where
  "check_items fl tp key t i [] = None"
| "check_items fl tp key t i (v # items) =
     (case check_field_value fl tp v t of
        Some e \<Rightarrow> Some (FilterBadItem key i e)
      | None \<Rightarrow> check_items fl tp key t (Suc i) items)"

definition check_filter_field :: "'f floats \<Rightarrow> time_parsers \<Rightarrow> string \<Rightarrow> 'f any \<Rightarrow> field_spec \<Rightarrow> filter_error option" where
  "check_filter_field fl tp key val fs =
     (case val of
        VList items \<Rightarrow>
          (if fs_type fs = type_boolean then Some (FilterBooleanList key)
           else check_items fl tp key (fs_type fs) 0 items)
      | _ \<Rightarrow> map_option (FilterBadValue key) (check_field_value fl tp val (fs_type fs)))"

fun specs_of :: "catalog \<Rightarrow> string list \<Rightarrow> filter_error + kind_spec list" where
  "specs_of cat [] = Inr []"
| "specs_of cat (name # names) =
     (case catalog_get cat name of
        None \<Rightarrow> Inl (FilterUnknownKind name)
      | Some s \<Rightarrow> (case specs_of cat names of Inl e \<Rightarrow> Inl e | Inr ss \<Rightarrow> Inr (s # ss)))"

fun check_prop :: "'f floats \<Rightarrow> time_parsers \<Rightarrow> string \<Rightarrow> 'f any \<Rightarrow> kind_spec list \<Rightarrow> filter_error option" where
  "check_prop fl tp key val [] = None"
| "check_prop fl tp key val (spec # specs) =
     (case spec_field spec key of
        None \<Rightarrow> Some (FilterUnknownField key (ks_kind spec))
      | Some fs \<Rightarrow>
          (case check_filter_field fl tp key val fs of
             Some e \<Rightarrow> Some e
           | None \<Rightarrow> check_prop fl tp key val specs))"

fun check_props :: "'f floats \<Rightarrow> time_parsers \<Rightarrow> kind_spec list \<Rightarrow> (string, 'f prop_filter) gomap \<Rightarrow> filter_error option" where
  "check_props fl tp specs [] = None"
| "check_props fl tp specs ((key, pf) # rest) =
     (if specs = [] then Some (FilterNeedsKind key)
      else case check_prop fl tp key (prop_filter_value pf) specs of
             Some e \<Rightarrow> Some e
           | None \<Rightarrow> check_props fl tp specs rest)"

definition validate_against :: "'f floats \<Rightarrow> time_parsers \<Rightarrow> catalog option \<Rightarrow> 'f filter_spec \<Rightarrow> filter_error option" where
  "validate_against fl tp cat f =
     (case filter_validate tp f of
        Some e \<Rightarrow> Some e
      | None \<Rightarrow>
          (case cat of
             None \<Rightarrow> None
           | Some c \<Rightarrow>
               (if catalog_empty c then None
                else case specs_of c (kind_values f) of
                       Inl e \<Rightarrow> Some e
                     | Inr specs \<Rightarrow> check_props fl tp specs (fi_props f))))"

definition with_kind_allow_list :: "catalog \<Rightarrow> 'f filter_spec \<Rightarrow> 'f filter_spec" where
  "with_kind_allow_list cat f =
     (if match_set (fi_kind f) then f else f\<lparr>fi_kind := \<lparr>sm_eq = [], sm_in = catalog_names cat\<rparr>\<rparr>)"

section \<open>Plans\<close>

datatype filter_op = OpEq | OpIn | OpGte | OpLt

datatype field = FieldKind | FieldTitle | FieldCreatedAt | FieldUpdatedAt | FieldProp string

record 'f filter_pred =
  fp_field :: field
  fp_op :: filter_op
  fp_want :: "'f any"
  fp_want_in :: "'f any list"
  fp_time :: time

type_synonym 'f filter_plan = "'f filter_pred list"

definition string_match_pred :: "field \<Rightarrow> string_match \<Rightarrow> 'f filter_pred" where
  "string_match_pred fd s =
     (if sm_in s \<noteq> []
      then \<lparr>fp_field = fd, fp_op = OpIn, fp_want = VNil, fp_want_in = map VStr (sm_in s), fp_time = 0\<rparr>
      else \<lparr>fp_field = fd, fp_op = OpEq, fp_want = VStr (sm_eq s), fp_want_in = [], fp_time = 0\<rparr>)"

definition prop_pred :: "string \<Rightarrow> 'f prop_filter \<Rightarrow> 'f filter_pred" where
  "prop_pred key pf =
     (if pf_in pf \<noteq> []
      then \<lparr>fp_field = FieldProp key, fp_op = OpIn, fp_want = VNil, fp_want_in = pf_in pf, fp_time = 0\<rparr>
      else \<lparr>fp_field = FieldProp key, fp_op = OpEq, fp_want = pf_eq pf, fp_want_in = [], fp_time = 0\<rparr>)"

definition time_preds :: "time_parsers \<Rightarrow> string \<Rightarrow> bool \<Rightarrow> field \<Rightarrow> 'f filter_pred list" where
  "time_preds tp raw after fd =
     (if trim_space raw = [] then []
      else [\<lparr>fp_field = fd, fp_op = (if after then OpGte else OpLt), fp_want = VNil, fp_want_in = [],
             fp_time = (case parse_filter_time tp raw of Some t \<Rightarrow> t | None \<Rightarrow> 0)\<rparr>])"

definition filter_compile :: "time_parsers \<Rightarrow> 'f filter_spec \<Rightarrow> filter_error + 'f filter_plan" where
  "filter_compile tp f =
     (case filter_validate tp f of
        Some e \<Rightarrow> Inl e
      | None \<Rightarrow>
          (if filter_empty f then Inr []
           else Inr ((if match_set (fi_kind f) then [string_match_pred FieldKind (fi_kind f)] else [])
             @ (if match_set (fi_title f) then [string_match_pred FieldTitle (fi_title f)] else [])
             @ time_preds tp (fi_created_after f) True FieldCreatedAt
             @ time_preds tp (fi_created_before f) False FieldCreatedAt
             @ time_preds tp (fi_updated_after f) True FieldUpdatedAt
             @ time_preds tp (fi_updated_before f) False FieldUpdatedAt
             @ map (\<lambda>(key, pf). prop_pred key pf) (fi_props f))))"

definition values_equal :: "'f floats \<Rightarrow> 'f any \<Rightarrow> 'f any \<Rightarrow> bool" where
  "values_equal fl a b =
     (if a = VNil \<or> b = VNil then a = VNil \<and> b = VNil
      else case a of
             VStr s \<Rightarrow> (case b of VStr t \<Rightarrow> s = t | _ \<Rightarrow> False)
           | VBool x \<Rightarrow> (case b of VBool y \<Rightarrow> x = y | _ \<Rightarrow> False)
           | _ \<Rightarrow> (case as_float64 fl a of
                     None \<Rightarrow> False
                   | Some x \<Rightarrow> (case as_float64 fl b of None \<Rightarrow> False | Some y \<Rightarrow> fl_eq fl x y)))"

definition match_filter_value :: "'f floats \<Rightarrow> 'f any \<Rightarrow> 'f any \<Rightarrow> bool" where
  "match_filter_value fl got want =
     (case want of VList items \<Rightarrow> list_ex (values_equal fl got) items | _ \<Rightarrow> values_equal fl got want)"

definition match_want :: "'f floats \<Rightarrow> 'f any \<Rightarrow> 'f filter_pred \<Rightarrow> bool" where
  "match_want fl got p =
     (if fp_op p = OpIn then match_filter_value fl got (VList (fp_want_in p)) else match_filter_value fl got (fp_want p))"

definition match_time :: "time \<Rightarrow> 'f filter_pred \<Rightarrow> bool" where
  "match_time got p = (if fp_op p = OpGte then \<not> got < fp_time p else got < fp_time p)"

definition pred_match :: "'f floats \<Rightarrow> 'f filter_pred \<Rightarrow> 'f object \<Rightarrow> bool" where
  "pred_match fl p obj =
     (case fp_field p of
        FieldKind \<Rightarrow> match_want fl (VStr (ob_kind obj)) p
      | FieldTitle \<Rightarrow> match_want fl (VStr (ob_title obj)) p
      | FieldCreatedAt \<Rightarrow> match_time (ob_created obj) p
      | FieldUpdatedAt \<Rightarrow> match_time (ob_updated obj) p
      | FieldProp key \<Rightarrow>
          (case map_of (ob_props obj) key of None \<Rightarrow> False | Some v \<Rightarrow> match_want fl v p))"

definition plan_match :: "'f floats \<Rightarrow> 'f filter_plan \<Rightarrow> 'f object \<Rightarrow> bool" where
  "plan_match fl plan obj = list_all (\<lambda>p. pred_match fl p obj) plan"

text \<open>FilterValueKey: the typed text a backend may index a scalar value by.\<close>

definition filter_value_key :: "'f floats \<Rightarrow> 'f any \<Rightarrow> string option" where
  "filter_value_key fl v =
     (case v of
        VStr s \<Rightarrow> Some (''s:'' @ s)
      | VBool b \<Rightarrow> Some (''b:'' @ (if b then ''true'' else ''false''))
      | _ \<Rightarrow> (case as_float64 fl v of Some x \<Rightarrow> Some (''n:'' @ fl_text fl x) | None \<Rightarrow> None))"

record 'f filter_condition =
  fc_field :: string
  fc_property :: bool
  fc_op :: filter_op
  fc_values :: "'f any list"
  fc_time :: time

definition field_text :: "field \<Rightarrow> string" where
  "field_text fd =
     (case fd of FieldKind \<Rightarrow> ''kind'' | FieldTitle \<Rightarrow> ''title'' | FieldCreatedAt \<Rightarrow> ''created_at''
      | FieldUpdatedAt \<Rightarrow> ''updated_at'' | FieldProp key \<Rightarrow> key)"

definition plan_conditions :: "'f filter_plan \<Rightarrow> 'f filter_condition list" where
  "plan_conditions plan =
     map (\<lambda>p. \<lparr>fc_field = field_text (fp_field p),
               fc_property = (case fp_field p of FieldProp key \<Rightarrow> True | _ \<Rightarrow> False),
               fc_op = fp_op p,
               fc_values = (if fp_op p = OpEq then [fp_want p] else if fp_op p = OpIn then fp_want_in p else []),
               fc_time = fp_time p\<rparr>) plan"

section \<open>What a filter means\<close>

definition string_meets :: "string_match \<Rightarrow> string \<Rightarrow> bool" where
  "string_meets s got \<longleftrightarrow>
     (if sm_in s \<noteq> [] then got \<in> set (sm_in s) else sm_eq s \<noteq> [] \<longrightarrow> got = sm_eq s)"

definition wanted :: "'f any \<Rightarrow> 'f any list" where
  "wanted v = (case v of VList items \<Rightarrow> items | _ \<Rightarrow> [v])"

definition prop_meets :: "'f floats \<Rightarrow> 'f any list \<Rightarrow> string \<Rightarrow> 'f object \<Rightarrow> bool" where
  "prop_meets fl ws k obj \<longleftrightarrow> (\<exists>v. map_of (ob_props obj) k = Some v \<and> (\<exists>w \<in> set ws. values_equal fl v w))"

definition time_meets :: "time_parsers \<Rightarrow> string \<Rightarrow> bool \<Rightarrow> time \<Rightarrow> bool" where
  "time_meets tp raw after got \<longleftrightarrow>
     (trim_space raw \<noteq> [] \<longrightarrow> (\<exists>t. parse_filter_time tp raw = Some t \<and> (if after then t \<le> got else got < t)))"

definition filter_meets :: "'f floats \<Rightarrow> time_parsers \<Rightarrow> 'f filter_spec \<Rightarrow> 'f object \<Rightarrow> bool" where
  "filter_meets fl tp f obj \<longleftrightarrow>
     string_meets (fi_kind f) (ob_kind obj) \<and> string_meets (fi_title f) (ob_title obj)
     \<and> time_meets tp (fi_created_after f) True (ob_created obj) \<and> time_meets tp (fi_created_before f) False (ob_created obj)
     \<and> time_meets tp (fi_updated_after f) True (ob_updated obj) \<and> time_meets tp (fi_updated_before f) False (ob_updated obj)
     \<and> (\<forall>(k, pf) \<in> set (fi_props f). prop_meets fl (wanted (prop_filter_value pf)) k obj)"

lemma match_filter_value_wanted: "match_filter_value fl got want \<longleftrightarrow> (\<exists>w \<in> set (wanted want). values_equal fl got w)"
  by (cases want) (auto simp: match_filter_value_def wanted_def list_ex_iff)

lemma values_equal_str [simp]: "values_equal fl (VStr s) w \<longleftrightarrow> w = VStr s"
  by (cases w) (auto simp: values_equal_def)

lemma string_pred_match:
  "match_set s \<Longrightarrow> match_want fl (VStr got) (string_match_pred fd s) \<longleftrightarrow> string_meets s got"
  by (auto simp: match_want_def match_filter_value_wanted string_match_pred_def wanted_def string_meets_def match_set_def)

lemma string_pred_field: "fp_field (string_match_pred fd s) = fd"
  by (simp add: string_match_pred_def)

lemma not_set_meets: "\<not> match_set s \<Longrightarrow> string_meets s got"
  by (simp add: match_set_def string_meets_def)

lemma prop_pred_match: "pred_match fl (prop_pred k pf) obj \<longleftrightarrow> prop_meets fl (wanted (prop_filter_value pf)) k obj"
  by (auto simp: pred_match_def prop_pred_def match_want_def match_filter_value_wanted prop_meets_def
      prop_filter_value_def split: option.splits)

lemma time_preds_match:
  assumes "trim_space raw \<noteq> [] \<Longrightarrow> parse_filter_time tp raw \<noteq> None" "fd = FieldCreatedAt \<or> fd = FieldUpdatedAt"
  shows "list_all (\<lambda>p. pred_match fl p obj) (time_preds tp raw after fd)
    \<longleftrightarrow> time_meets tp raw after (if fd = FieldCreatedAt then ob_created obj else ob_updated obj)"
  using assms by (auto simp: time_preds_def pred_match_def match_time_def time_meets_def)

lemma validate_times_None:
  "validate_times tp ts = None \<longleftrightarrow> (\<forall>(k, v) \<in> set ts. trim_space v \<noteq> [] \<longrightarrow> parse_filter_time tp v \<noteq> None)"
  by (induction tp ts rule: validate_times.induct) auto

definition prop_filter_ok :: "string \<Rightarrow> 'f prop_filter \<Rightarrow> bool" where
  "prop_filter_ok k pf \<longleftrightarrow> valid_property_key k \<and> validate_eq_value k (prop_filter_value pf) = None"

lemma validate_props_None: "validate_props ps = None \<longleftrightarrow> (\<forall>(k, pf) \<in> set ps. prop_filter_ok k pf)"
  by (induction ps rule: validate_props.induct)
    (auto simp: prop_filter_ok_def prop_filter_value_def split: option.splits)

definition raw_time_ok :: "time_parsers \<Rightarrow> string \<Rightarrow> bool" where
  "raw_time_ok tp v \<longleftrightarrow> (trim_space v \<noteq> [] \<longrightarrow> parse_filter_time tp v \<noteq> None)"

lemma filter_validate_None:
  "filter_validate tp f = None \<longleftrightarrow> raw_time_ok tp (fi_created_after f) \<and> raw_time_ok tp (fi_created_before f)
    \<and> raw_time_ok tp (fi_updated_after f) \<and> raw_time_ok tp (fi_updated_before f)
    \<and> (\<forall>(k, pf) \<in> set (fi_props f). prop_filter_ok k pf)"
proof -
  have "filter_validate tp f = None \<longleftrightarrow> validate_times tp (filter_times f) = None \<and> validate_props (fi_props f) = None"
    by (cases "validate_times tp (filter_times f)") (simp_all add: filter_validate_def)
  then show ?thesis
    unfolding validate_times_None validate_props_None filter_times_def raw_time_ok_def by simp
qed

lemma compile_meets:
  assumes "filter_compile tp f = Inr plan"
  shows "plan_match fl plan obj \<longleftrightarrow> filter_meets fl tp f obj"
proof -
  have ok: "filter_validate tp f = None" using assms by (auto simp: filter_compile_def split: option.splits)
  then have times: "\<And>k v. (k, v) \<in> set (filter_times f) \<Longrightarrow> trim_space v \<noteq> [] \<Longrightarrow> parse_filter_time tp v \<noteq> None"
    using ok by (auto simp: filter_validate_None raw_time_ok_def filter_times_def)
  note tm = time_preds_match [where fl = fl and obj = obj and tp = tp]
  have ca: "list_all (\<lambda>p. pred_match fl p obj) (time_preds tp (fi_created_after f) True FieldCreatedAt)
      \<longleftrightarrow> time_meets tp (fi_created_after f) True (ob_created obj)"
    using tm [of "fi_created_after f" FieldCreatedAt True] times [of "''created_after''"] by (simp add: filter_times_def)
  have cb: "list_all (\<lambda>p. pred_match fl p obj) (time_preds tp (fi_created_before f) False FieldCreatedAt)
      \<longleftrightarrow> time_meets tp (fi_created_before f) False (ob_created obj)"
    using tm [of "fi_created_before f" FieldCreatedAt False] times [of "''created_before''"] by (simp add: filter_times_def)
  have ua: "list_all (\<lambda>p. pred_match fl p obj) (time_preds tp (fi_updated_after f) True FieldUpdatedAt)
      \<longleftrightarrow> time_meets tp (fi_updated_after f) True (ob_updated obj)"
    using tm [of "fi_updated_after f" FieldUpdatedAt True] times [of "''updated_after''"] by (simp add: filter_times_def)
  have ub: "list_all (\<lambda>p. pred_match fl p obj) (time_preds tp (fi_updated_before f) False FieldUpdatedAt)
      \<longleftrightarrow> time_meets tp (fi_updated_before f) False (ob_updated obj)"
    using tm [of "fi_updated_before f" FieldUpdatedAt False] times [of "''updated_before''"] by (simp add: filter_times_def)
  have kind: "list_all (\<lambda>p. pred_match fl p obj) (if match_set (fi_kind f) then [string_match_pred FieldKind (fi_kind f)] else [])
      \<longleftrightarrow> string_meets (fi_kind f) (ob_kind obj)"
    by (simp add: pred_match_def string_pred_field string_pred_match not_set_meets)
  have title: "list_all (\<lambda>p. pred_match fl p obj) (if match_set (fi_title f) then [string_match_pred FieldTitle (fi_title f)] else [])
      \<longleftrightarrow> string_meets (fi_title f) (ob_title obj)"
    by (simp add: pred_match_def string_pred_field string_pred_match not_set_meets)
  have props: "list_all (\<lambda>p. pred_match fl p obj) (map (\<lambda>(key, pf). prop_pred key pf) (fi_props f))
      \<longleftrightarrow> (\<forall>(k, pf) \<in> set (fi_props f). prop_meets fl (wanted (prop_filter_value pf)) k obj)"
    by (auto simp: list_all_iff prop_pred_match split: prod.splits)
  show ?thesis
  proof (cases "filter_empty f")
    case True
    then show ?thesis using assms ok
      by (auto simp: filter_compile_def filter_empty_def plan_match_def filter_meets_def not_set_meets time_meets_def)
  next
    case False
    from assms ok False have plan: "plan =
        (if match_set (fi_kind f) then [string_match_pred FieldKind (fi_kind f)] else [])
        @ (if match_set (fi_title f) then [string_match_pred FieldTitle (fi_title f)] else [])
        @ time_preds tp (fi_created_after f) True FieldCreatedAt @ time_preds tp (fi_created_before f) False FieldCreatedAt
        @ time_preds tp (fi_updated_after f) True FieldUpdatedAt @ time_preds tp (fi_updated_before f) False FieldUpdatedAt
        @ map (\<lambda>(key, pf). prop_pred key pf) (fi_props f)" by (simp add: filter_compile_def)
    show ?thesis
      unfolding plan plan_match_def filter_meets_def list_all_append by (simp only: ca cb ua ub kind title props)
  qed
qed

section \<open>A filter of a tool call\<close>

definition entry_meets :: "'f floats \<Rightarrow> time_parsers \<Rightarrow> string \<Rightarrow> 'f any \<Rightarrow> 'f object \<Rightarrow> bool" where
  "entry_meets fl tp k v obj \<longleftrightarrow>
     (if k = ''kind'' then v = VStr [] \<or> VStr (ob_kind obj) \<in> set (wanted v)
      else if k = ''title'' then v = VStr [] \<or> VStr (ob_title obj) \<in> set (wanted v)
      else if is_time_key k then
        (\<exists>s t. v = VStr s \<and> parse_filter_time tp s = Some t \<and>
          (if k = ''created_after'' then t \<le> ob_created obj
           else if k = ''created_before'' then ob_created obj < t
           else if k = ''updated_after'' then t \<le> ob_updated obj
           else ob_updated obj < t))
      else prop_meets fl (wanted v) k obj)"

definition unset :: "string \<Rightarrow> 'f filter_spec \<Rightarrow> bool" where
  "unset k f \<longleftrightarrow>
     (if k = ''kind'' then fi_kind f = no_match
      else if k = ''title'' then fi_title f = no_match
      else if k = ''created_after'' then fi_created_after f = []
      else if k = ''created_before'' then fi_created_before f = []
      else if k = ''updated_after'' then fi_updated_after f = []
      else if k = ''updated_before'' then fi_updated_before f = []
      else k \<notin> fst ` set (fi_props f))"

definition entry_step :: "'f floats \<Rightarrow> time_parsers \<Rightarrow> string \<Rightarrow> 'f any \<Rightarrow> 'f filter_spec \<Rightarrow> 'f filter_spec \<Rightarrow> bool" where
  "entry_step fl tp k v f f1 \<longleftrightarrow>
     (\<forall>obj. filter_meets fl tp f1 obj \<longleftrightarrow> filter_meets fl tp f obj \<and> entry_meets fl tp k v obj)
     \<and> (\<forall>k'. k' \<noteq> k \<longrightarrow> unset k' f \<longrightarrow> unset k' f1)
     \<and> (filter_validate tp f = None \<longrightarrow> filter_validate tp f1 = None)"

lemma string_meets_no_match [simp]: "string_meets no_match got"
  by (simp add: string_meets_def no_match_def)

lemma time_meets_Nil [simp]: "time_meets tp [] after got"
  by (simp add: time_meets_def)

lemma decode_strings_all:
  "decode_strings key i out items = Inr ss \<Longrightarrow> \<exists>us. items = map VStr us \<and> ss = out @ us \<and> [] \<notin> set us"
proof (induction key i out items rule: decode_strings.induct)
  case (2 key i out s items)
  then obtain us where "items = map VStr us" "ss = (out @ [s]) @ us" "[] \<notin> set us" "s \<noteq> []"
    by (auto split: if_splits)
  then show ?case by (intro exI [of _ "s # us"]) auto
qed auto

lemma decode_string_match_meets:
  assumes "decode_string_match k v = Inr m"
  shows "string_meets m got \<longleftrightarrow> v = VStr [] \<or> VStr got \<in> set (wanted v)"
proof (cases v)
  case (VList items)
  then have "items \<noteq> []" "\<exists>ss. decode_strings k 0 [] items = Inr ss \<and> m = \<lparr>sm_eq = [], sm_in = ss\<rparr>"
    using assms by (auto simp: decode_string_match_def validate_eq_value_def split: if_splits option.splits sum.splits)
  with VList decode_strings_all show ?thesis by (fastforce simp: string_meets_def wanted_def)
next
  case (VStr s)
  then show ?thesis using assms
    by (auto simp: decode_string_match_def validate_eq_value_def string_meets_def wanted_def)
qed (use assms in \<open>auto simp: decode_string_match_def split: option.splits\<close>)

lemma decode_prop_filter_value:
  assumes "decode_prop_filter k v = Inr pf"
  shows "prop_filter_value pf = v \<and> validate_eq_value k v = None"
  using assms
  by (cases v) (auto simp: decode_prop_filter_def prop_filter_value_def validate_eq_value_def split: option.splits if_splits)

lemmas decode_defs = decode_entry_def Let_def is_time_key_def

lemma entry_step_kind:
  assumes "decode_string_match ''kind'' v = Inr m" "unset ''kind'' f"
  shows "entry_step fl tp ''kind'' v f (f\<lparr>fi_kind := m\<rparr>)"
  unfolding entry_step_def
proof (intro conjI allI impI)
  have "fi_kind f = no_match" using assms(2) by (simp add: unset_def)
  then show "filter_meets fl tp (f\<lparr>fi_kind := m\<rparr>) obj \<longleftrightarrow> filter_meets fl tp f obj \<and> entry_meets fl tp ''kind'' v obj" for obj
    by (simp add: filter_meets_def entry_meets_def decode_string_match_meets [OF assms(1)]) blast
  show "unset k' (f\<lparr>fi_kind := m\<rparr>)" if "k' \<noteq> ''kind''" "unset k' f" for k'
    using that by (simp add: unset_def split: if_splits)
  show "filter_validate tp (f\<lparr>fi_kind := m\<rparr>) = None" if "filter_validate tp f = None"
    using that by (simp add: filter_validate_None)
qed

lemma entry_step_title:
  assumes "decode_string_match ''title'' v = Inr m" "unset ''title'' f"
  shows "entry_step fl tp ''title'' v f (f\<lparr>fi_title := m\<rparr>)"
  unfolding entry_step_def
proof (intro conjI allI impI)
  have "fi_title f = no_match" using assms(2) by (simp add: unset_def)
  then show "filter_meets fl tp (f\<lparr>fi_title := m\<rparr>) obj \<longleftrightarrow> filter_meets fl tp f obj \<and> entry_meets fl tp ''title'' v obj" for obj
    by (simp add: filter_meets_def entry_meets_def decode_string_match_meets [OF assms(1)]) blast
  show "unset k' (f\<lparr>fi_title := m\<rparr>)" if "k' \<noteq> ''title''" "unset k' f" for k'
    using that by (simp add: unset_def split: if_splits)
  show "filter_validate tp (f\<lparr>fi_title := m\<rparr>) = None" if "filter_validate tp f = None"
    using that by (simp add: filter_validate_None)
qed

lemma entry_step_time:
  assumes "is_time_key k" "parse_filter_time tp s = Some t" "unset k f"
  shows "entry_step fl tp k (VStr s) f (set_time k s f)"
proof -
  have s: "trim_space s \<noteq> []" using assms(2) by (simp add: parse_filter_time_def Let_def split: if_splits)
  have m: "time_meets tp s after got \<longleftrightarrow> (if after then t \<le> got else got < t)" for after got
    using s assms(2) by (simp add: time_meets_def)
  from assms(1) have k: "k = ''created_after'' \<or> k = ''created_before'' \<or> k = ''updated_after'' \<or> k = ''updated_before''"
    unfolding is_time_key_def .
  have meets: "filter_meets fl tp (set_time k s f) obj \<longleftrightarrow> filter_meets fl tp f obj \<and> entry_meets fl tp k (VStr s) obj" for obj
    using k
  proof (elim disjE)
    assume k: "k = ''created_after''"
    then have "fi_created_after f = []" using assms(3) by (simp add: unset_def)
    then show ?thesis using k assms(2) by (simp add: filter_meets_def entry_meets_def set_time_def is_time_key_def m) blast
  next
    assume k: "k = ''created_before''"
    then have "fi_created_before f = []" using assms(3) by (simp add: unset_def)
    then show ?thesis using k assms(2) by (simp add: filter_meets_def entry_meets_def set_time_def is_time_key_def m) blast
  next
    assume k: "k = ''updated_after''"
    then have "fi_updated_after f = []" using assms(3) by (simp add: unset_def)
    then show ?thesis using k assms(2) by (simp add: filter_meets_def entry_meets_def set_time_def is_time_key_def m) blast
  next
    assume k: "k = ''updated_before''"
    then have "fi_updated_before f = []" using assms(3) by (simp add: unset_def)
    then show ?thesis using k assms(2) by (simp add: filter_meets_def entry_meets_def set_time_def is_time_key_def m) blast
  qed
  have others: "unset k' (set_time k s f)" if "k' \<noteq> k" "unset k' f" for k'
    using k that by (elim disjE) (simp_all add: unset_def set_time_def split: if_splits)
  have valid: "filter_validate tp (set_time k s f) = None" if "filter_validate tp f = None"
    using k that assms(2)
    by (elim disjE) (simp_all add: filter_validate_None set_time_def raw_time_ok_def)
  show ?thesis using meets others valid by (simp add: entry_step_def)
qed

lemma entry_step_prop:
  assumes "decode_prop_filter k v = Inr pf" "valid_property_key k" "unset k f"
    and "k \<noteq> ''kind''" "k \<noteq> ''title''" "\<not> is_time_key k"
  shows "entry_step fl tp k v f (f\<lparr>fi_props := AList.update k pf (fi_props f)\<rparr>)"
proof -
  have new: "AList.update k pf (fi_props f) = fi_props f @ [(k, pf)]"
    using assms by (intro update_new) (auto simp: unset_def is_time_key_def)
  note pf = decode_prop_filter_value [OF assms(1)]
  have "\<forall>k'. k' \<noteq> k \<longrightarrow> unset k' f \<longrightarrow> unset k' (f\<lparr>fi_props := fi_props f @ [(k, pf)]\<rparr>)"
    by (auto simp: unset_def)
  moreover have "filter_validate tp f = None \<longrightarrow> filter_validate tp (f\<lparr>fi_props := fi_props f @ [(k, pf)]\<rparr>) = None"
    using pf assms(2)
    by (simp add: filter_validate_None prop_filter_ok_def ball_Un)
  ultimately show ?thesis
    unfolding new entry_step_def using pf assms(4-6) by (auto simp: filter_meets_def entry_meets_def)
qed

lemma decode_entry_step:
  assumes "decode_entry tp key v f = Inr f1" "unset (trim_space key) f"
  shows "entry_step fl tp (trim_space key) v f f1"
proof -
  define k where "k = trim_space key"
  have d: "decode_entry tp key v f = Inr f1" "unset k f" using assms by (simp_all add: k_def)
  consider "k = ''kind''" | "k = ''title''" | "is_time_key k" | "k \<noteq> ''kind''" "k \<noteq> ''title''" "\<not> is_time_key k" by blast
  then have "entry_step fl tp k v f f1"
  proof cases
    case 1
    then obtain m where "decode_string_match ''kind'' v = Inr m" "f1 = f\<lparr>fi_kind := m\<rparr>"
      using d(1) by (auto simp: decode_entry_def Let_def k_def [symmetric] split: sum.splits)
    then show ?thesis using entry_step_kind d(2) 1 by simp
  next
    case 2
    then obtain m where "decode_string_match ''title'' v = Inr m" "f1 = f\<lparr>fi_title := m\<rparr>"
      using d(1) by (auto simp: decode_entry_def Let_def k_def [symmetric] split: sum.splits)
    then show ?thesis using entry_step_title d(2) 2 by simp
  next
    case 3
    then have "k \<noteq> []" "k \<noteq> ''kind''" "k \<noteq> ''title''" by (auto simp: is_time_key_def)
    with d(1) 3 obtain s where "v = VStr s" "parse_filter_time tp s \<noteq> None" "f1 = set_time k s f"
      by (cases v) (auto simp: decode_entry_def Let_def k_def [symmetric] split: if_splits)
    then show ?thesis using entry_step_time [OF 3 _ d(2)] by auto
  next
    case 4
    with d(1) obtain pf where "decode_prop_filter k v = Inr pf" "valid_property_key k"
        "f1 = f\<lparr>fi_props := AList.update k pf (fi_props f)\<rparr>"
      by (auto simp: decode_entry_def Let_def k_def [symmetric] split: sum.splits if_splits)
    then show ?thesis using entry_step_prop d(2) 4 by blast
  qed
  then show ?thesis by (simp add: k_def)
qed

lemma decode_entries_meets:
  "decode_entries tp m f = Inr f' \<Longrightarrow> distinct (map (trim_space \<circ> fst) m) \<Longrightarrow>
    \<forall>k \<in> set (map (trim_space \<circ> fst) m). unset k f \<Longrightarrow> filter_validate tp f = None \<Longrightarrow>
    filter_validate tp f' = None \<and>
    (filter_meets fl tp f' obj \<longleftrightarrow> filter_meets fl tp f obj \<and> (\<forall>(key, v) \<in> set m. entry_meets fl tp (trim_space key) v obj))"
proof (induction tp m f rule: decode_entries.induct)
  case (2 tp key v m f)
  then obtain f1 where f1: "decode_entry tp key v f = Inr f1" "decode_entries tp m f1 = Inr f'"
    by (auto split: sum.splits)
  have st: "entry_step fl tp (trim_space key) v f f1"
    using decode_entry_step [OF f1(1)] "2.prems"(3) by simp
  have d: "distinct (map (trim_space \<circ> fst) m)" "trim_space key \<notin> set (map (trim_space \<circ> fst) m)"
    using "2.prems"(2) by (simp_all add: comp_def)
  have u: "\<forall>k \<in> set (map (trim_space \<circ> fst) m). unset k f1"
  proof
    fix k assume k: "k \<in> set (map (trim_space \<circ> fst) m)"
    then have "k \<noteq> trim_space key" using d(2) by blast
    moreover have "unset k f" using "2.prems"(3) k by (metis list.set_intros(2) list.simps(9))
    ultimately have "unset k f" "k \<noteq> trim_space key" by simp_all
    then show "unset k f1" using st unfolding entry_step_def by blast
  qed
  have v: "filter_validate tp f1 = None" using st "2.prems"(4) unfolding entry_step_def by blast
  have "filter_meets fl tp f1 obj \<longleftrightarrow> filter_meets fl tp f obj \<and> entry_meets fl tp (trim_space key) v obj"
    using st unfolding entry_step_def by blast
  then show ?case using "2.IH" [OF f1(1,2) d(1) u v] by auto
qed simp

text \<open>
  C17. A filter given as a JSON object means the conjunction of its entries: when it decodes, it
  is valid and compiles, and its plan keeps exactly the objects that meet every entry on its
  own, a list being met by any of its values, a time bound being inclusive below and exclusive
  above, and a property the object lacks meeting nothing.\<close>

theorem decoded_filter_means:
  assumes "decode_filter tp m = Inr f" and "distinct (map (trim_space \<circ> fst) m)"
  shows "\<exists>plan. filter_compile tp f = Inr plan \<and>
    (\<forall>obj. plan_match fl plan obj \<longleftrightarrow> (\<forall>(key, v) \<in> set m. entry_meets fl tp (trim_space key) v obj))"
proof -
  have d: "decode_entries tp m no_filter = Inr f" using assms(1) by (cases m) (simp_all add: decode_filter_def)
  have u: "\<forall>k \<in> set (map (trim_space \<circ> fst) m). unset k no_filter" by (simp add: unset_def no_filter_def)
  have n: "filter_meets fl tp no_filter obj" "filter_validate tp no_filter = None" for obj
    by (simp_all add: filter_meets_def no_filter_def filter_validate_None raw_time_ok_def)
  have valid: "filter_validate tp f = None"
    using decode_entries_meets [OF d assms(2) u n(2)] by (rule conjunct1)
  have r: "filter_meets fl tp f obj \<longleftrightarrow> filter_meets fl tp no_filter obj \<and> (\<forall>(key, v) \<in> set m. entry_meets fl tp (trim_space key) v obj)" for obj
    using decode_entries_meets [OF d assms(2) u n(2)] by (rule conjunct2)
  from valid have "\<exists>plan. filter_compile tp f = Inr plan" by (simp add: filter_compile_def)
  then obtain plan where plan: "filter_compile tp f = Inr plan" ..
  have "plan_match fl plan obj \<longleftrightarrow> (\<forall>(key, v) \<in> set m. entry_meets fl tp (trim_space key) v obj)" for obj
    unfolding compile_meets [OF plan, of fl obj] r [of obj] by (simp only: n(1) simp_thms)
  then show ?thesis using plan by blast
qed

definition demo_floats :: "int floats" where
  "demo_floats = \<lparr>fl_eq = (=), fl_int = id, fl_parse = (\<lambda>s. None), fl_text = (\<lambda>n. digits_of (nat n))\<rparr>"

definition demo_times :: time_parsers where
  "demo_times = \<lparr>tp_rfc3339 = (\<lambda>s. None), tp_date = (\<lambda>s. if s = ''1970-01-01'' then Some 7 else None)\<rparr>"

definition demo_filter :: "(string, int any) gomap" where
  "demo_filter = [(''kind'', VStr ''note''), (''size'', VList [VInt 1, VInt 2])]"

lemma demo_filter_decodes: "\<exists>f. decode_filter demo_times demo_filter = Inr f"
  by (simp add: decode_filter_def demo_filter_def decode_entry_def decode_string_match_def decode_prop_filter_def
      validate_eq_value_def is_time_key_def valid_property_key_def sanitize_json_key_def key_byte_def of_char_Char plain_eval Let_def)

theorem decoded_filter_means_witness:
  "\<exists>f plan. decode_filter demo_times demo_filter = Inr f \<and> filter_compile demo_times f = Inr plan \<and>
    (\<forall>obj. plan_match demo_floats plan obj \<longleftrightarrow>
      ob_kind obj = ''note'' \<and> prop_meets demo_floats [VInt 1, VInt 2] ''size'' obj)"
proof -
  obtain f where f: "decode_filter demo_times demo_filter = Inr f" using demo_filter_decodes by blast
  have d: "distinct (map (trim_space \<circ> fst) demo_filter)" by (simp add: demo_filter_def plain_eval)
  have "(\<forall>(key, v) \<in> set demo_filter. entry_meets demo_floats demo_times (trim_space key) v obj)
    \<longleftrightarrow> ob_kind obj = ''note'' \<and> prop_meets demo_floats [VInt 1, VInt 2] ''size'' obj" for obj
    by (auto simp: demo_filter_def entry_meets_def wanted_def is_time_key_def plain_eval)
  then show ?thesis using f decoded_filter_means [OF f d, of demo_floats] by simp
qed

end
