(* ===== verification/Ranks.thy ===== *)
theory Ranks
  imports Filters Runes
begin

text \<open>
  Ranked lists of the knowledge base: reciprocal rank fusion of a backend's channels and the
  order of hits (brain/rank.go), the fusion of an engine's sources (fuse of brain/results.go),
  the promotion of parts to their records with quoted evidence (brain/promote.go), and the
  rerank of a head (brain/search.go). Scores are of a linear order, the float64 values without
  NaN; their arithmetic is the parameter \<open>arith\<close>.
\<close>

record 'f arith =
  ar_zero :: 'f
  ar_one :: 'f
  ar_add :: "'f \<Rightarrow> 'f \<Rightarrow> 'f"
  ar_mul :: "'f \<Rightarrow> 'f \<Rightarrow> 'f"
  ar_inverse :: "int \<Rightarrow> 'f"
  ar_decay :: "'f \<Rightarrow> time \<Rightarrow> 'f"

section \<open>Sorting\<close>

text \<open>
  \<open>sort_by le\<close> is slices.SortStableFunc of a comparison: the sorted permutation that keeps the
  order of equal elements. For slices.SortFunc it is one of the results, the only one when no
  two elements compare equal.
\<close>

fun insert_by :: "('a \<Rightarrow> 'a \<Rightarrow> bool) \<Rightarrow> 'a \<Rightarrow> 'a list \<Rightarrow> 'a list" where
  "insert_by le x [] = [x]"
| "insert_by le x (y # ys) = (if le x y then x # y # ys else y # insert_by le x ys)"

definition sort_by :: "('a \<Rightarrow> 'a \<Rightarrow> bool) \<Rightarrow> 'a list \<Rightarrow> 'a list" where
  "sort_by le xs = foldr (insert_by le) xs []"

lemma mset_insert_by [simp]: "mset (insert_by le x ys) = add_mset x (mset ys)"
  by (induction ys) auto

lemma mset_sort_by [simp]: "mset (sort_by le xs) = mset xs"
  by (induction xs) (auto simp: sort_by_def)

lemma set_sort_by [simp]: "set (sort_by le xs) = set xs"
  by (metis mset_sort_by set_mset_mset)

lemma length_sort_by [simp]: "length (sort_by le xs) = length xs"
  by (metis mset_sort_by size_mset)

lemma insert_by_sorted:
  assumes "\<And>a b. le a b \<or> le b a" "\<And>a b c. le a b \<Longrightarrow> le b c \<Longrightarrow> le a c" "sorted_wrt le ys"
  shows "sorted_wrt le (insert_by le x ys)"
  using assms(3)
proof (induction ys)
  case (Cons y ys)
  have "set (insert_by le x ys) = insert x (set ys)" by (metis mset_insert_by set_mset_add_mset_insert set_mset_mset)
  with Cons assms(1) [of x y] assms(2) [of x y] show ?case by auto
qed simp

lemma sort_by_sorted:
  assumes "\<And>a b. le a b \<or> le b a" "\<And>a b c. le a b \<Longrightarrow> le b c \<Longrightarrow> le a c"
  shows "sorted_wrt le (sort_by le xs)"
  by (induction xs) (simp_all add: sort_by_def insert_by_sorted [OF assms])

lemma distinct_map_sort_by [simp]: "distinct (map f (sort_by le xs)) \<longleftrightarrow> distinct (map f xs)"
  by (metis mset_eq_imp_distinct_iff mset_map mset_sort_by)

section \<open>Hits and their fusion\<close>

record 'f scored =
  sd_id :: uuid
  sd_score :: 'f
  sd_updated :: time
  sd_parent :: "uuid option"
  sd_title :: string
  sd_content :: string
  sd_position :: "int option"
  sd_props :: "(string, 'f any) gomap option"

definition default_rrfk :: int where
  "default_rrfk = 60"

definition rrfk_or :: "int \<Rightarrow> int" where
  "rrfk_or k = (if k \<noteq> 0 then k else default_rrfk)"

definition first_hit :: "'f arith \<Rightarrow> 'f scored \<Rightarrow> 'f scored" where
  "first_hit ar item = item\<lparr>sd_score := ar_zero ar\<rparr>"

text \<open>What a further list adds to a hit: its term, the newer time, and fields that were missing.\<close>

definition merge_hit :: "'f arith \<Rightarrow> int \<Rightarrow> nat \<Rightarrow> 'f scored \<Rightarrow> 'f scored \<Rightarrow> 'f scored" where
  "merge_hit ar k rank item a =
     a\<lparr>sd_score := ar_add ar (sd_score a) (ar_inverse ar (k + int rank + 1)),
       sd_updated := (if sd_updated a < sd_updated item then sd_updated item else sd_updated a),
       sd_parent := (if sd_parent a = None then sd_parent item else sd_parent a),
       sd_title := (if sd_title a = [] then sd_title item else sd_title a),
       sd_content := (if sd_content a = [] then sd_content item else sd_content a),
       sd_position := (if sd_position a = None then sd_position item else sd_position a),
       sd_props := (if sd_props a = None then sd_props item else sd_props a)\<rparr>"

text \<open>
  The accumulators by key in the order of first sight: the map byID and the slice order of the
  code as one association list, whose update keeps a key's place.
\<close>

definition fuse_hit :: "'f arith \<Rightarrow> int \<Rightarrow> nat \<times> 'f scored \<Rightarrow> (uuid, 'f scored) gomap \<Rightarrow> (uuid, 'f scored) gomap" where
  "fuse_hit ar k ri m =
     (case ri of (rank, item) \<Rightarrow>
        let a = (case map_of m (sd_id item) of Some a \<Rightarrow> a | None \<Rightarrow> first_hit ar item)
        in AList.update (sd_id item) (merge_hit ar k rank item a) m)"

definition ranked :: "'a list \<Rightarrow> (nat \<times> 'a) list" where
  "ranked xs = zip [0..<length xs] xs"

definition fuse_ranks :: "'f arith \<Rightarrow> 'f scored list list \<Rightarrow> int \<Rightarrow> 'f scored list" where
  "fuse_ranks ar ls k0 =
     map snd (fold (fuse_hit ar (rrfk_or k0)) (concat (map ranked ls)) [])"

definition age_factor :: "'f::linorder arith \<Rightarrow> 'f \<Rightarrow> time \<Rightarrow> time \<Rightarrow> 'f" where
  "age_factor ar lambda now at =
     (if lambda \<le> ar_zero ar \<or> at = 0 then ar_one ar else ar_decay ar lambda (max (now - at) 0))"

definition apply_temporal :: "'f::linorder arith \<Rightarrow> 'f \<Rightarrow> time \<Rightarrow> 'f scored list \<Rightarrow> 'f scored list" where
  "apply_temporal ar lambda now parts =
     map (\<lambda>p. p\<lparr>sd_score := ar_mul ar (sd_score p) (age_factor ar lambda now (sd_updated p))\<rparr>) parts"

text \<open>Best first: by score, then the newer, then by id.\<close>

definition scored_le :: "'f::linorder scored \<Rightarrow> 'f scored \<Rightarrow> bool" where
  "scored_le a b \<longleftrightarrow>
     sd_score b < sd_score a \<or> sd_score a = sd_score b \<and>
       (sd_updated b < sd_updated a \<or> sd_updated a = sd_updated b \<and> sd_id a \<le> sd_id b)"

definition sort_scored :: "'f::linorder scored list \<Rightarrow> 'f scored list" where
  "sort_scored parts = sort_by scored_le parts"

record 'f ranking =
  rk_k :: int
  rk_decay :: 'f
  rk_now :: time

definition ranking_fuse :: "'f::linorder arith \<Rightarrow> 'f ranking \<Rightarrow> 'f scored list list \<Rightarrow> 'f scored list" where
  "ranking_fuse ar r ls =
     (let aged = (if ar_zero ar < rk_decay r
                  then map (\<lambda>l. sort_scored (apply_temporal ar (rk_decay r) (rk_now r) l)) ls else ls)
      in sort_scored (fuse_ranks ar aged (rk_k r)))"

record 'f edge_meta =
  em_note :: string
  em_status :: string
  em_role :: string
  em_confidence :: 'f
  em_evidence :: "uuid option"
  em_created :: time
  em_updated :: time

record 'f edge_hit =
  eh_from :: uuid
  eh_to :: uuid
  eh_rel :: string
  eh_meta :: "'f edge_meta"
  eh_score :: 'f

definition edge_key :: "'f edge_hit \<Rightarrow> uuid \<times> uuid \<times> string" where
  "edge_key h = (eh_from h, eh_to h, eh_rel h)"

definition fuse_edge :: "'f arith \<Rightarrow> int \<Rightarrow> nat \<times> 'f edge_hit \<Rightarrow> (uuid \<times> uuid \<times> string, 'f edge_hit) gomap
    \<Rightarrow> (uuid \<times> uuid \<times> string, 'f edge_hit) gomap" where
  "fuse_edge ar k rh m =
     (case rh of (rank, h) \<Rightarrow>
        let a = (case map_of m (edge_key h) of Some a \<Rightarrow> a | None \<Rightarrow> h\<lparr>eh_score := ar_zero ar\<rparr>)
        in AList.update (edge_key h) (a\<lparr>eh_score := ar_add ar (eh_score a) (ar_inverse ar (k + int rank + 1))\<rparr>) m)"

definition edges_le :: "'f::linorder edge_hit \<Rightarrow> 'f edge_hit \<Rightarrow> bool" where
  "edges_le a b \<longleftrightarrow> eh_score b \<le> eh_score a"

definition age_edges :: "'f::linorder arith \<Rightarrow> 'f ranking \<Rightarrow> 'f edge_hit list \<Rightarrow> 'f edge_hit list" where
  "age_edges ar r l =
     (if ar_zero ar < rk_decay r
      then sort_by edges_le (map (\<lambda>h. h\<lparr>eh_score := ar_mul ar (eh_score h)
             (age_factor ar (rk_decay r) (rk_now r) (em_updated (eh_meta h)))\<rparr>) l)
      else l)"

definition fuse_edges :: "'f::linorder arith \<Rightarrow> 'f ranking \<Rightarrow> 'f edge_hit list list \<Rightarrow> 'f edge_hit list" where
  "fuse_edges ar r ls =
     sort_by edges_le (map snd (fold (fuse_edge ar (rrfk_or (rk_k r)))
       (concat (map (\<lambda>l. ranked (age_edges ar r l)) ls)) []))"

section \<open>Quotes\<close>

text \<open>A string's runes, each with its bytes, and strings.FieldsFunc over them.\<close>

function rune_parts :: "string \<Rightarrow> (nat \<times> string) list" where
  "rune_parts [] = []"
| "rune_parts (c # s) =
     (case decode_rune (map of_char (c # s)) of (r, w) \<Rightarrow> (r, take w (c # s)) # rune_parts (drop (w - 1) s))"
  by pat_completeness auto
termination by (relation "measure length") auto

fun fields_loop :: "(nat \<Rightarrow> bool) \<Rightarrow> string \<Rightarrow> (nat \<times> string) list \<Rightarrow> string list" where
  "fields_loop sep cur [] = (if cur = [] then [] else [cur])"
| "fields_loop sep cur ((r, bs) # ps) =
     (if sep r then (if cur = [] then fields_loop sep [] ps else cur # fields_loop sep [] ps)
      else fields_loop sep (cur @ bs) ps)"

definition fields_func :: "(nat \<Rightarrow> bool) \<Rightarrow> string \<Rightarrow> string list" where
  "fields_func sep s = fields_loop sep [] (rune_parts s)"

definition cap_runes :: "string \<Rightarrow> int \<Rightarrow> string" where
  "cap_runes s m = (if m < 0 then s else concat (map snd (take (nat m) (rune_parts s))))"

definition snippet_ellipsis :: string where
  "snippet_ellipsis = [CHR 0xE2, CHR 0x80, CHR 0xA6]"

definition default_snippet_cap :: int where
  "default_snippet_cap = 240"

definition snippet_lookbehind :: nat where
  "snippet_lookbehind = 40"

definition starts_rune :: "char \<Rightarrow> bool" where
  "starts_rune c \<longleftrightarrow> \<not> (128 \<le> (of_char c :: nat) \<and> (of_char c :: nat) < 192)"

text \<open>The inner loop of the walk back, from an index; None is an index out of range.\<close>

fun to_rune_start :: "string \<Rightarrow> nat \<Rightarrow> nat option" where
  "to_rune_start s 0 = Some 0"
| "to_rune_start s (Suc i) =
     (if length s \<le> Suc i then None
      else if starts_rune (s ! Suc i) then Some (Suc i) else to_rune_start s i)"

fun look_behind :: "string \<Rightarrow> nat \<Rightarrow> nat \<Rightarrow> nat option" where
  "look_behind s 0 start = Some start"
| "look_behind s (Suc n) 0 = Some 0"
| "look_behind s (Suc n) (Suc i) =
     (case to_rune_start s i of None \<Rightarrow> None | Some j \<Rightarrow> look_behind s n j)"

definition first_word :: "string \<Rightarrow> string list \<Rightarrow> nat option" where
  "first_word folded toks =
     fold (\<lambda>tok idx. case index_sub folded tok of
             None \<Rightarrow> idx
           | Some i \<Rightarrow> (case idx of None \<Rightarrow> Some i | Some j \<Rightarrow> if i < j then Some i else idx)) toks None"

text \<open>None is a panic: an index of the folded text that is past the end of the text.\<close>

definition snippet_around :: "unicode \<Rightarrow> string \<Rightarrow> string \<Rightarrow> int \<Rightarrow> string option" where
  "snippet_around u s0 query m =
     (let s = trim_space s0
      in if s = [] then Some []
         else
           case first_word (lower_runes u s) (fields_func (\<lambda>r. \<not> uc_word u r) (lower_runes u query)) of
             None \<Rightarrow> (let cut = cap_runes s m in Some (if cut = s then s else cut @ snippet_ellipsis))
           | Some idx \<Rightarrow>
               (case look_behind s snippet_lookbehind idx of
                  None \<Rightarrow> None
                | Some start \<Rightarrow>
                    if length s < start then None
                    else
                      let cut = cap_runes (drop start s) m;
                          out = (if 0 < start then snippet_ellipsis @ cut else cut)
                      in Some (if start + length cut < length s then out @ snippet_ellipsis else out)))"

section \<open>Promotion\<close>

record 'f evidence =
  ev_part :: uuid
  ev_title :: string
  ev_snippet :: string
  ev_score :: 'f
  ev_position :: "int option"
  ev_props :: "(string, 'f any) gomap option"

record 'f promoted =
  pp_parent :: uuid
  pp_score :: 'f
  pp_evidence :: "'f evidence list"

type_synonym 'f bucket = "'f \<times> 'f evidence list"

definition evidence_of :: "'f scored \<Rightarrow> string \<Rightarrow> 'f evidence" where
  "evidence_of p snip =
     \<lparr>ev_part = sd_id p, ev_title = sd_title p, ev_snippet = snip, ev_score = sd_score p,
      ev_position = sd_position p, ev_props = sd_props p\<rparr>"

definition bucket_at :: "'f arith \<Rightarrow> (uuid, 'f bucket) gomap \<Rightarrow> uuid \<Rightarrow> 'f bucket" where
  "bucket_at ar m pid = (case map_of m pid of Some b \<Rightarrow> b | None \<Rightarrow> (ar_zero ar, []))"

fun group_parts :: "'f::linorder arith \<Rightarrow> unicode \<Rightarrow> string \<Rightarrow> int \<Rightarrow> 'f scored list
    \<Rightarrow> (uuid, 'f bucket) gomap \<Rightarrow> (uuid, 'f bucket) gomap option" where
  "group_parts ar u query cap [] m = Some m"
| "group_parts ar u query cap (p # ps) m =
     (case sd_parent p of
        None \<Rightarrow>
          (let b = bucket_at ar m (sd_id p)
           in group_parts ar u query cap ps (AList.update (sd_id p) (max (fst b) (sd_score p), snd b) m))
      | Some pid \<Rightarrow>
          (let b = bucket_at ar m pid
           in case snippet_around u (sd_content p) query cap of
                None \<Rightarrow> None
              | Some snip \<Rightarrow>
                  group_parts ar u query cap ps (AList.update pid (fst b, snd b @ [evidence_of p snip]) m)))"

definition evidence_le :: "'f::linorder evidence \<Rightarrow> 'f evidence \<Rightarrow> bool" where
  "evidence_le a b \<longleftrightarrow> ev_score b < ev_score a \<or> ev_score a = ev_score b \<and> ev_part a \<le> ev_part b"

definition promoted_le :: "'f::linorder promoted \<Rightarrow> 'f promoted \<Rightarrow> bool" where
  "promoted_le a b \<longleftrightarrow> pp_score b < pp_score a \<or> pp_score a = pp_score b \<and> pp_parent a \<le> pp_parent b"

definition promote_bucket :: "'f::linorder arith \<Rightarrow> nat \<Rightarrow> uuid \<times> 'f bucket \<Rightarrow> 'f promoted" where
  "promote_bucket ar n kb =
     (let kept = take n (sort_by evidence_le (snd (snd kb)))
      in \<lparr>pp_parent = fst kb, pp_score = foldl (ar_add ar) (fst (snd kb)) (map ev_score kept), pp_evidence = kept\<rparr>)"

definition promote_parents :: "'f::linorder arith \<Rightarrow> unicode \<Rightarrow> 'f scored list \<Rightarrow> nat \<Rightarrow> string \<Rightarrow> int \<Rightarrow> 'f promoted list option" where
  "promote_parents ar u parts n query cap =
     (case group_parts ar u query cap parts [] of
        None \<Rightarrow> None
      | Some m \<Rightarrow> Some (sort_by promoted_le (map (promote_bucket ar n) m)))"

section \<open>Results before they are read\<close>

record 'f link_ref =
  lr_from :: uuid
  lr_to :: uuid
  lr_relation :: string
  lr_meta :: "'f edge_meta"

record 'f relation =
  re_type :: string
  re_direction :: string
  re_depth :: int
  re_via :: "uuid option"
  re_meta :: "'f edge_meta option"

record 'f ref =
  rf_id :: uuid
  rf_score :: 'f
  rf_evidence :: "'f evidence list option"
  rf_relation :: "'f relation option"
  rf_check :: bool
  rf_link :: "'f link_ref option"

text \<open>
  A result's key: its object, or its edge. In the code it is the text of these, the ids in
  their canonical form of 36 bytes: as a value, an object, or an edge by from, relation, to.
\<close>

datatype ref_key = ObjectKey uuid | EdgeKey uuid string uuid

definition ref_key_of :: "'f ref \<Rightarrow> ref_key" where
  "ref_key_of r =
     (case rf_link r of Some l \<Rightarrow> EdgeKey (lr_from l) (lr_relation l) (lr_to l) | None \<Rightarrow> ObjectKey (rf_id r))"

definition fuse_ref :: "'f arith \<Rightarrow> int \<Rightarrow> nat \<times> 'f ref \<Rightarrow> (ref_key, 'f ref \<times> 'f) gomap \<Rightarrow> (ref_key, 'f ref \<times> 'f) gomap" where
  "fuse_ref ar k rr m =
     (case rr of (rank, r) \<Rightarrow>
        let (a, score) = (case map_of m (ref_key_of r) of
                            None \<Rightarrow> (r, ar_zero ar)
                          | Some (a, score) \<Rightarrow> (if rf_evidence a = None then a\<lparr>rf_evidence := rf_evidence r\<rparr> else a, score))
        in AList.update (ref_key_of r)
             (a\<lparr>rf_check := rf_check a \<and> rf_check r\<rparr>, ar_add ar score (ar_inverse ar (k + int rank + 1))) m)"

text \<open>The text of a key is a parameter, \<open>key_text\<close>: ties are in the order of the texts' bytes.\<close>

definition ref_le :: "(ref_key \<Rightarrow> string) \<Rightarrow> 'f::linorder ref \<Rightarrow> 'f ref \<Rightarrow> bool" where
  "ref_le key_text a b \<longleftrightarrow>
     rf_score b < rf_score a \<or> rf_score a = rf_score b \<and> key_text (ref_key_of a) \<le> key_text (ref_key_of b)"

definition fuse_sources :: "'f::linorder arith \<Rightarrow> (ref_key \<Rightarrow> string) \<Rightarrow> int \<Rightarrow> 'f ref list list \<Rightarrow> 'f ref list" where
  "fuse_sources ar key_text k ls =
     sort_by (ref_le key_text)
       (map (\<lambda>(key, a, score). a\<lparr>rf_score := score\<rparr>) (fold (fuse_ref ar k) (concat (map ranked ls)) []))"

definition unique_uuids :: "uuid list \<Rightarrow> uuid list" where
  "unique_uuids ids = rev (fold (\<lambda>i out. if i \<in> set out then out else i # out) ids [])"

section \<open>Rerank\<close>

definition delete_zero_refs :: "'f ref list \<Rightarrow> 'f ref list" where
  "delete_zero_refs refs = filter (\<lambda>r. rf_id r \<noteq> 0 \<or> rf_link r \<noteq> None) refs"

text \<open>
  The objects of the head among ids, in the reranker's order, each once and at most one per
  slot: the refs put into the first slots.
\<close>

fun pick_refs :: "(uuid, 'f ref) gomap \<Rightarrow> nat \<Rightarrow> uuid list \<Rightarrow> 'f ref list" where
  "pick_refs m n [] = []"
| "pick_refs m n (i # is) =
     (case map_of m i of
        Some r \<Rightarrow> if 0 < n then r # pick_refs (AList.delete i m) (n - 1) is else pick_refs m n is
      | None \<Rightarrow> pick_refs m n is)"

text \<open>The refs with their object slots filled from picked; a slot left over is dropped.\<close>

fun fill_slots :: "nat list \<Rightarrow> 'f ref list \<Rightarrow> 'f ref list \<Rightarrow> 'f ref \<Rightarrow> 'f ref list" where
  "fill_slots [] picked out none = out"
| "fill_slots (i # slots) [] out none = fill_slots slots [] (out[i := none]) none"
| "fill_slots (i # slots) (r # picked) out none = fill_slots slots picked (out[i := r]) none"

definition zero_ref :: "'f arith \<Rightarrow> 'f ref" where
  "zero_ref ar = \<lparr>rf_id = 0, rf_score = ar_zero ar, rf_evidence = None, rf_relation = None, rf_check = False, rf_link = None\<rparr>"

definition rerank_refs :: "'f arith \<Rightarrow> nat \<Rightarrow> 'f ref list \<Rightarrow> uuid list \<Rightarrow> 'f ref list" where
  "rerank_refs ar candidate_k refs ordered =
     (let head = take candidate_k refs;
          slots = filter (\<lambda>i. rf_link (refs ! i) = None) [0..<length head];
          by_id = fold (\<lambda>r. AList.update (rf_id r) r) (filter (\<lambda>r. rf_link r = None) head) [];
          picked = pick_refs by_id (length slots) ordered
      in delete_zero_refs (fill_slots slots picked refs (zero_ref ar)))"

section \<open>Accumulating by key\<close>

text \<open>
  What both fusions and the promotion do: a value per key, made from the key's elements in
  their order, the keys in the order of their first element.
\<close>

lemma fold_by_key:
  "map_of (fold (\<lambda>x m. AList.update (key x) (upd x (map_of m (key x))) m) xs m) k =
    fold (\<lambda>x v. Some (upd x v)) (filter (\<lambda>x. key x = k) xs) (map_of m k)"
  by (induction xs arbitrary: m) (auto simp: update_conv')

lemma keys_by_key:
  "distinct (map fst m) \<Longrightarrow>
    distinct (map fst (fold (\<lambda>x m. AList.update (key x) (upd x (map_of m (key x))) m) xs m))
    \<and> fst ` set (fold (\<lambda>x m. AList.update (key x) (upd x (map_of m (key x))) m) xs m) = fst ` set m \<union> key ` set xs"
proof (induction xs arbitrary: m)
  case (Cons x xs)
  have "distinct (map fst (AList.update (key x) (upd x (map_of m (key x))) m))"
    using Cons.prems by (simp add: distinct_update)
  from Cons.IH [OF this] show ?case using Cons.prems by (auto simp: dom_update)
qed simp

definition occurrences :: "ref_key \<Rightarrow> 'f ref list list \<Rightarrow> (nat \<times> 'f ref) list" where
  "occurrences key ls = filter (\<lambda>(rank, r). ref_key_of r = key) (concat (map ranked ls))"

definition fuse_value :: "'f arith \<Rightarrow> int \<Rightarrow> nat \<times> 'f ref \<Rightarrow> ('f ref \<times> 'f) option \<Rightarrow> 'f ref \<times> 'f" where
  "fuse_value ar k rr v =
     (case rr of (rank, r) \<Rightarrow>
        let (a, score) = (case v of
                            None \<Rightarrow> (r, ar_zero ar)
                          | Some (a, score) \<Rightarrow> (if rf_evidence a = None then a\<lparr>rf_evidence := rf_evidence r\<rparr> else a, score))
        in (a\<lparr>rf_check := rf_check a \<and> rf_check r\<rparr>, ar_add ar score (ar_inverse ar (k + int rank + 1))))"

lemma fuse_ref_value:
  "fuse_ref ar k = (\<lambda>x m. AList.update (ref_key_of (snd x)) (fuse_value ar k x (map_of m (ref_key_of (snd x)))) m)"
  by (intro ext) (auto simp: fuse_ref_def fuse_value_def Let_def split: prod.splits)

lemma ref_key_of_update [simp]:
  "ref_key_of (a\<lparr>rf_evidence := e\<rparr>) = ref_key_of a" "ref_key_of (a\<lparr>rf_check := c\<rparr>) = ref_key_of a"
  "ref_key_of (a\<lparr>rf_score := x\<rparr>) = ref_key_of a"
  by (simp_all add: ref_key_of_def split: option.split)

lemma fuse_values:
  assumes "\<forall>(rank, r) \<in> set os. ref_key_of r = key" "ref_key_of a = key"
  shows "\<exists>b. fold (\<lambda>x v. Some (fuse_value ar k x v)) os (Some (a, score)) =
      Some (b, foldl (ar_add ar) score (map (\<lambda>(rank, r). ar_inverse ar (k + int rank + 1)) os))
    \<and> ref_key_of b = key \<and> (rf_check b \<longleftrightarrow> rf_check a \<and> (\<forall>(rank, r) \<in> set os. rf_check r))"
  using assms
proof (induction os arbitrary: a score)
  case (Cons x os)
  obtain rank r where x: "x = (rank, r)" by (cases x)
  define a1 where "a1 = (if rf_evidence a = None then a\<lparr>rf_evidence := rf_evidence r\<rparr> else a)\<lparr>rf_check := rf_check a \<and> rf_check r\<rparr>"
  have "rf_check (if rf_evidence a = None then a\<lparr>rf_evidence := rf_evidence r\<rparr> else a) = rf_check a" by simp
  then have "fuse_value ar k x (Some (a, score)) = (a1, ar_add ar score (ar_inverse ar (k + int rank + 1)))"
    by (simp add: fuse_value_def x a1_def Let_def)
  moreover have "ref_key_of a1 = key" "rf_check a1 \<longleftrightarrow> rf_check a \<and> rf_check r"
    using Cons.prems(2) by (simp_all add: a1_def)
  ultimately show ?case using Cons.IH [of a1] Cons.prems(1) x by auto
qed simp

lemma fuse_values_first:
  assumes "\<forall>(rank, r) \<in> set os. ref_key_of r = key" "os \<noteq> []"
  shows "\<exists>b. fold (\<lambda>x v. Some (fuse_value ar k x v)) os None =
      Some (b, foldl (ar_add ar) (ar_zero ar) (map (\<lambda>(rank, r). ar_inverse ar (k + int rank + 1)) os))
    \<and> ref_key_of b = key \<and> (rf_check b \<longleftrightarrow> (\<forall>(rank, r) \<in> set os. rf_check r))"
proof -
  obtain rank r os' where os: "os = (rank, r) # os'" using assms(2) by (cases os) auto
  have "fuse_value ar k (rank, r) None = (r, ar_add ar (ar_zero ar) (ar_inverse ar (k + int rank + 1)))"
    by (simp add: fuse_value_def Let_def)
  then show ?thesis using fuse_values [of os' key r] assms(1) os by auto
qed

lemma set_ranked: "snd ` set (ranked xs) = set xs"
  by (metis length_map length_upt list.set_map map_snd_zip minus_nat.diff_0 ranked_def)

text \<open>
  C19. The fusion of ranked lists is reciprocal rank fusion: every result of the lists comes once
  and nothing else does, its score is the sum of 1/(k+rank) over the places that rank it, it
  still needs the filter's check only when every place that ranks it asked for one, and the
  results are in order of score, ties by key.\<close>

theorem fuse_sources_spec:
  "distinct (map ref_key_of (fuse_sources ar key_text k ls))
    \<and> set (map ref_key_of (fuse_sources ar key_text k ls)) = (\<Union>l \<in> set ls. ref_key_of ` set l)
    \<and> sorted_wrt (ref_le key_text) (fuse_sources ar key_text k ls)
    \<and> (\<forall>r \<in> set (fuse_sources ar key_text k ls).
         rf_score r = foldl (ar_add ar) (ar_zero ar)
           (map (\<lambda>(rank, x). ar_inverse ar (k + int rank + 1)) (occurrences (ref_key_of r) ls))
         \<and> (rf_check r \<longleftrightarrow> (\<forall>(rank, x) \<in> set (occurrences (ref_key_of r) ls). rf_check x)))"
proof -
  define xs where "xs = concat (map ranked ls)"
  define m where "m = fold (fuse_ref ar k) xs []"
  have keys: "distinct (map fst m)" "fst ` set m = (ref_key_of \<circ> snd) ` set xs"
    using keys_by_key [of "[]" "ref_key_of \<circ> snd" "fuse_value ar k" xs]
    by (simp_all add: m_def fuse_ref_value)
  have val: "map_of m key = fold (\<lambda>x v. Some (fuse_value ar k x v)) (occurrences key ls) None" for key
    using fold_by_key [of "ref_key_of \<circ> snd" "fuse_value ar k" xs "[]" key]
    by (simp add: m_def fuse_ref_value occurrences_def xs_def case_prod_beta')
  have entry: "ref_key_of a = key
      \<and> score = foldl (ar_add ar) (ar_zero ar) (map (\<lambda>(rank, x). ar_inverse ar (k + int rank + 1)) (occurrences key ls))
      \<and> (rf_check a \<longleftrightarrow> (\<forall>(rank, x) \<in> set (occurrences key ls). rf_check x))"
    if "(key, a, score) \<in> set m" for key a score
  proof -
    have m: "map_of m key = Some (a, score)" using that keys(1) by simp
    have "occurrences key ls \<noteq> []" using val [of key] m by auto
    moreover have "\<forall>(rank, r) \<in> set (occurrences key ls). ref_key_of r = key" by (auto simp: occurrences_def)
    ultimately show ?thesis using fuse_values_first [of "occurrences key ls" key ar k] val [of key] m by auto
  qed
  let ?out = "map (\<lambda>(key, a, score). a\<lparr>rf_score := score\<rparr>) m"
  have out: "fuse_sources ar key_text k ls = sort_by (ref_le key_text) ?out"
    by (simp add: fuse_sources_def m_def xs_def)
  have names: "map ref_key_of ?out = map fst m"
    unfolding map_map
  proof (rule map_cong [OF refl])
    fix e assume e: "e \<in> set m"
    obtain key a score where k: "e = (key, a, score)" by (cases e)
    then show "(ref_key_of \<circ> (\<lambda>(key, a, score). a\<lparr>rf_score := score\<rparr>)) e = fst e"
      using entry [of key a score] e by simp
  qed
  have "set (map fst m) = (\<Union>l \<in> set ls. ref_key_of ` set l)"
  proof -
    have "snd ` set xs = (\<Union>l \<in> set ls. set l)" by (auto simp: xs_def image_UN set_ranked)
    then have "ref_key_of ` (snd ` set xs) = (\<Union>l \<in> set ls. ref_key_of ` set l)" by (simp only: image_UN)
    then show ?thesis using keys(2) unfolding set_map image_comp by simp
  qed
  moreover have "sorted_wrt (ref_le key_text) (sort_by (ref_le key_text) ?out)"
  proof (rule sort_by_sorted)
    show "ref_le key_text a b \<or> ref_le key_text b a" for a b :: "'a ref"
      by (auto simp: ref_le_def)
    show "ref_le key_text a c" if "ref_le key_text a b" "ref_le key_text b c" for a b c :: "'a ref"
      using that by (auto simp: ref_le_def)
  qed
  moreover have "distinct (map ref_key_of (sort_by (ref_le key_text) ?out))"
    unfolding distinct_map_sort_by names by (rule keys(1))
  moreover have "set (map ref_key_of (sort_by (ref_le key_text) ?out)) = set (map fst m)"
    unfolding set_map set_sort_by by (simp only: set_map [symmetric] names)
  moreover have "rf_score r = foldl (ar_add ar) (ar_zero ar)
        (map (\<lambda>(rank, x). ar_inverse ar (k + int rank + 1)) (occurrences (ref_key_of r) ls))
      \<and> (rf_check r \<longleftrightarrow> (\<forall>(rank, x) \<in> set (occurrences (ref_key_of r) ls). rf_check x))" if mem: "r \<in> set ?out" for r
  proof -
    obtain e where e: "e \<in> set m" "r = (case e of (key, a, score) \<Rightarrow> a\<lparr>rf_score := score\<rparr>)"
      using mem by (auto simp only: set_map)
    obtain key a score where "e = (key, a, score)" by (cases e)
    then have r: "(key, a, score) \<in> set m" "r = a\<lparr>rf_score := score\<rparr>" using e by simp_all
    have "ref_key_of r = key" "rf_score r = score" "rf_check r = rf_check a" using entry [OF r(1)] r(2) by simp_all
    then show ?thesis using entry [OF r(1)] by (simp only:)
  qed
  ultimately show ?thesis unfolding out by (metis set_sort_by)
qed

section \<open>Rerank keeps links and the tail\<close>

definition is_link :: "'f ref \<Rightarrow> bool" where
  "is_link r \<longleftrightarrow> rf_link r \<noteq> None"

fun placed :: "'f ref list \<Rightarrow> 'f ref list \<Rightarrow> 'f ref \<Rightarrow> 'f ref list" where
  "placed [] picked none = []"
| "placed (h # hs) picked none =
     (if is_link h then h # placed hs picked none
      else case picked of [] \<Rightarrow> none # placed hs [] none | r # rs \<Rightarrow> r # placed hs rs none)"

definition link_slots :: "'f ref list \<Rightarrow> nat list" where
  "link_slots hs = filter (\<lambda>i. rf_link (hs ! i) = None) [0..<length hs]"

lemma link_slots_Cons:
  "link_slots (h # hs) = (if is_link h then map Suc (link_slots hs) else 0 # map Suc (link_slots hs))"
proof -
  have "[0..<length (h # hs)] = 0 # map Suc [0..<length hs]" by (simp add: upt_conv_Cons map_Suc_upt del: upt_Suc)
  then show ?thesis by (simp add: link_slots_def is_link_def filter_map comp_def)
qed

lemma length_link_slots: "length (link_slots hs) = length (filter (\<lambda>r. \<not> is_link r) hs)"
  by (induction hs) (simp_all add: link_slots_Cons, simp add: link_slots_def)

lemma fill_slots_placed:
  "fill_slots (map ((+) (length pre)) (link_slots hs)) picked (pre @ hs @ tail) none = pre @ placed hs picked none @ tail"
proof (induction hs arbitrary: pre picked)
  case Nil
  then show ?case by (simp add: link_slots_def)
next
  case (Cons h hs)
  show ?case
  proof (cases "is_link h")
    case True
    then show ?thesis using Cons.IH [of "pre @ [h]" picked] by (simp add: link_slots_Cons comp_def)
  next
    case False
    have upd: "(pre @ (h # hs) @ tail)[length pre + 0 := x] = (pre @ [x]) @ hs @ tail" for x by simp
    show ?thesis
    proof (cases picked)
      case Nil
      then show ?thesis using False Cons.IH [of "pre @ [none]" "[]"] upd [of none]
        by (simp add: link_slots_Cons comp_def)
    next
      case (Cons r rs)
      then show ?thesis using False Cons.IH [of "pre @ [r]" rs] upd [of r]
        by (simp add: link_slots_Cons comp_def)
    qed
  qed
qed

lemma pick_refs_sound:
  "distinct is \<Longrightarrow> length (filter (\<lambda>i. map_of m i \<noteq> None) is) \<le> n \<Longrightarrow>
    pick_refs m n is = map (\<lambda>i. the (map_of m i)) (filter (\<lambda>i. map_of m i \<noteq> None) is)"
proof (induction m n "is" rule: pick_refs.induct)
  case (2 m n i "is")
  show ?case
  proof (cases "map_of m i")
    case None
    then show ?thesis using 2 by simp
  next
    case (Some r)
    then have n: "0 < n" using "2.prems"(2) by simp
    have same: "map_of (AList.delete i m) j = map_of m j" if "j \<in> set is" for j
      using that "2.prems"(1) by (auto simp: delete_conv')
    have f: "filter (\<lambda>j. map_of (AList.delete i m) j \<noteq> None) is = filter (\<lambda>j. map_of m j \<noteq> None) is"
      using same by (intro filter_cong) auto
    have "length (filter (\<lambda>j. map_of (AList.delete i m) j \<noteq> None) is) \<le> n - 1"
      unfolding f using "2.prems"(2) Some by simp
    from "2.IH"(2) [OF Some n _ this] "2.prems"(1)
    have "pick_refs (AList.delete i m) (n - 1) is = map (\<lambda>j. the (map_of (AList.delete i m) j)) (filter (\<lambda>j. map_of m j \<noteq> None) is)"
      unfolding f by simp
    also have "\<dots> = map (\<lambda>j. the (map_of m j)) (filter (\<lambda>j. map_of m j \<noteq> None) is)"
      using same by (intro map_cong) auto
    finally show ?thesis using Some n by simp
  qed
qed simp

lemma find_Some_in: "find P xs = Some x \<Longrightarrow> x \<in> set xs \<and> P x"
  by (induction xs) (auto split: if_splits)

lemma by_id_of:
  "distinct (map rf_id rs) \<Longrightarrow> map_of (fold (\<lambda>r. AList.update (rf_id r) r) rs []) i = find (\<lambda>r. rf_id r = i) rs"
proof -
  have "distinct (map rf_id rs) \<Longrightarrow> map_of (fold (\<lambda>r. AList.update (rf_id r) r) rs m) i =
    (case find (\<lambda>r. rf_id r = i) rs of Some r \<Rightarrow> Some r | None \<Rightarrow> map_of m i)" for m
  proof (induction rs arbitrary: m)
    case (Cons r rs)
    then have "rf_id r \<notin> rf_id ` set rs" by simp
    then have "find (\<lambda>q. rf_id q = rf_id r) rs = None" by (auto simp: find_None_iff image_iff dest: sym)
    with Cons show ?case by (auto simp: update_conv' split: option.splits)
  qed simp
  then show "distinct (map rf_id rs) \<Longrightarrow> ?thesis" by (auto split: option.splits)
qed

lemma placed_parts:
  assumes "\<forall>r \<in> set picked. \<not> is_link r \<and> rf_id r \<noteq> 0" "rf_id none = 0" "rf_link none = None"
    and "length picked \<le> length (filter (\<lambda>r. \<not> is_link r) hs)"
  shows "filter is_link (delete_zero_refs (placed hs picked none)) = filter is_link hs
    \<and> filter (\<lambda>r. \<not> is_link r) (delete_zero_refs (placed hs picked none)) = picked"
  using assms
proof (induction hs picked none rule: placed.induct)
  case (2 h hs picked none)
  then show ?case by (cases picked) (auto simp: delete_zero_refs_def is_link_def)
qed (simp add: delete_zero_refs_def)

text \<open>
  Reranking reorders only the objects of the head: the results past the candidates stay as
  they are, links keep their places in order, the head's objects afterwards are exactly those
  the reranker returned that were in the head, in the order it returned them, and nothing new
  comes in.\<close>

lemma rerank_keeps:
  assumes "\<forall>r \<in> set refs. \<not> is_link r \<longrightarrow> rf_id r \<noteq> 0"
    and "distinct (map rf_id (filter (\<lambda>r. \<not> is_link r) (take ck refs)))" and "distinct ordered"
  shows "\<exists>head. rerank_refs ar ck refs ordered = head @ drop ck refs
    \<and> filter is_link head = filter is_link (take ck refs)
    \<and> map rf_id (filter (\<lambda>r. \<not> is_link r) head) =
        filter (\<lambda>i. i \<in> rf_id ` set (filter (\<lambda>r. \<not> is_link r) (take ck refs))) ordered
    \<and> set head \<subseteq> set (take ck refs)"
proof -
  let ?hs = "take ck refs" and ?z = "zero_ref ar"
  let ?objs = "filter (\<lambda>r. \<not> is_link r) ?hs"
  define m where "m = fold (\<lambda>r. AList.update (rf_id r) r) ?objs []"
  have m: "map_of m i = find (\<lambda>r. rf_id r = i) ?objs" for i
    unfolding m_def by (rule by_id_of [OF assms(2)])
  have dom: "map_of m i \<noteq> None \<longleftrightarrow> i \<in> rf_id ` set ?objs" for i
    unfolding m by (auto simp: find_None_iff)
  let ?sel = "filter (\<lambda>i. map_of m i \<noteq> None) ordered"
  have "length ?sel \<le> length ?objs"
  proof -
    have "set ?sel \<subseteq> rf_id ` set ?objs" using dom by auto
    then have "card (set ?sel) \<le> card (rf_id ` set ?objs)" by (intro card_mono) auto
    also have "card (rf_id ` set ?objs) \<le> length ?objs"
      by (metis card_length length_map list.set_map)
    finally show ?thesis by (simp only: distinct_card [OF distinct_filter [OF assms(3)]])
  qed
  define picked where "picked = pick_refs m (length (link_slots ?hs)) ordered"
  have picked: "picked = map (\<lambda>i. the (map_of m i)) ?sel"
    unfolding picked_def using \<open>length ?sel \<le> length ?objs\<close> assms(3)
    by (intro pick_refs_sound) (simp_all only: length_link_slots)
  have obj: "the (map_of m i) \<in> set ?objs \<and> rf_id (the (map_of m i)) = i" if "i \<in> set ?sel" for i
  proof -
    from that obtain r where "find (\<lambda>r. rf_id r = i) ?objs = Some r" using m by auto
    then show ?thesis unfolding m using find_Some_in [of "\<lambda>r. rf_id r = i" ?objs r] by (simp only: option.sel)
  qed
  have sub: "set picked \<subseteq> set ?objs" unfolding picked using obj by auto
  have ids: "map rf_id picked = ?sel"
    unfolding picked map_map by (rule map_idI) (use obj in auto)
  have good: "\<forall>r \<in> set picked. \<not> is_link r \<and> rf_id r \<noteq> 0"
    using sub assms(1) by (auto dest: in_set_takeD)
  define head where "head = delete_zero_refs (placed ?hs picked ?z)"
  have parts: "filter is_link head = filter is_link ?hs" "filter (\<lambda>r. \<not> is_link r) head = picked"
    using placed_parts [OF good, of ?z ?hs] \<open>length ?sel \<le> length ?objs\<close> picked
    by (simp_all add: head_def zero_ref_def)
  have slots: "filter (\<lambda>i. rf_link (refs ! i) = None) [0..<length ?hs] = link_slots ?hs"
    unfolding link_slots_def by (intro filter_cong) auto
  have fill: "fill_slots (link_slots ?hs) picked refs ?z = placed ?hs picked ?z @ drop ck refs"
    using fill_slots_placed [of "[]" ?hs picked "drop ck refs" ?z] by (simp add: map_idI)
  have tail: "delete_zero_refs (drop ck refs) = drop ck refs"
    using assms(1) by (auto simp: delete_zero_refs_def is_link_def filter_id_conv dest: in_set_dropD)
  have "rerank_refs ar ck refs ordered = head @ drop ck refs"
  proof -
    have objs: "filter (\<lambda>r. rf_link r = None) ?hs = ?objs" by (simp add: is_link_def)
    have "rerank_refs ar ck refs ordered = delete_zero_refs (fill_slots (link_slots ?hs) picked refs ?z)"
      unfolding rerank_refs_def Let_def slots objs picked_def m_def ..
    then show ?thesis using tail unfolding fill head_def by (simp add: delete_zero_refs_def)
  qed
  moreover have "set head \<subseteq> set ?hs"
  proof
    fix r assume "r \<in> set head"
    then have "r \<in> set (filter is_link head) \<or> r \<in> set (filter (\<lambda>r. \<not> is_link r) head)" by auto
    then show "r \<in> set ?hs" unfolding parts using sub by auto
  qed
  moreover have "map rf_id (filter (\<lambda>r. \<not> is_link r) head) = filter (\<lambda>i. i \<in> rf_id ` set ?objs) ordered"
    unfolding parts ids by (intro filter_cong refl dom)
  ultimately show ?thesis using parts(1) by blast
qed

definition demo_arith :: "int arith" where
  "demo_arith = \<lparr>ar_zero = 0, ar_one = 1, ar_add = (+), ar_mul = (*), ar_inverse = (\<lambda>n. 1000 div n), ar_decay = (\<lambda>l t. 1)\<rparr>"

definition demo_ref :: "uuid \<Rightarrow> int ref" where
  "demo_ref i = (zero_ref demo_arith)\<lparr>rf_id := i\<rparr>"

section \<open>Quotes of plain text, and of text that grows when folded\<close>

lemma rune_parts_ascii: "ascii s \<Longrightarrow> rune_parts s = map (\<lambda>c. (of_char c, [c])) s"
proof (induction s rule: rune_parts.induct)
  case (2 c s)
  then have "decode_rune (map of_char (c # s)) = (of_char c, 1)"
    by (simp add: decode_rune_def ascii_def)
  with 2 show ?case by (simp add: ascii_def)
qed simp

lemma cap_runes_ascii: "ascii s \<Longrightarrow> 0 \<le> m \<Longrightarrow> cap_runes s m = take (nat m) s"
proof -
  have "concat (map (\<lambda>c. [c]) xs) = xs" for xs :: string by (induction xs) auto
  then show "ascii s \<Longrightarrow> 0 \<le> m \<Longrightarrow> ?thesis"
    by (simp add: cap_runes_def rune_parts_ascii take_map comp_def)
qed

lemma look_behind_ascii:
  "ascii s \<Longrightarrow> i \<le> length s \<Longrightarrow> look_behind s n i = Some (i - n)"
proof (induction n arbitrary: i)
  case (Suc n)
  show ?case
  proof (cases i)
    case (Suc i')
    have "to_rune_start s i' = Some i'"
    proof (cases i')
      case (Suc j)
      then have "s ! Suc j \<in> set s" using Suc.prems(2) \<open>i = Suc i'\<close> by simp
      then have "(of_char (s ! Suc j) :: nat) < 128" using Suc.prems(1) by (simp add: ascii_def)
      then show ?thesis using Suc Suc.prems(2) \<open>i = Suc i'\<close> by (simp add: starts_rune_def)
    qed simp
    then show ?thesis using Suc.IH [of i'] Suc.prems \<open>i = Suc i'\<close> by simp
  qed simp
qed simp

lemma index_sub_le: "index_sub s p = Some i \<Longrightarrow> i + length p \<le> length s"
proof (induction s p arbitrary: i rule: index_sub.induct)
  case (2 c s p)
  show ?case
  proof (cases "has_prefix (c # s) p")
    case True
    then have "prefix p (c # s)" by (simp add: has_prefix_prefix)
    then show ?thesis using 2 True prefix_length_le by fastforce
  next
    case False
    with 2 show ?thesis by auto
  qed
qed (auto split: if_splits)

lemma first_word_le: "first_word folded toks = Some i \<Longrightarrow> i \<le> length folded"
proof -
  have "(\<forall>j. idx = Some j \<longrightarrow> j \<le> length folded) \<Longrightarrow>
    fold (\<lambda>tok idx. case index_sub folded tok of
             None \<Rightarrow> idx
           | Some i \<Rightarrow> (case idx of None \<Rightarrow> Some i | Some j \<Rightarrow> if i < j then Some i else idx)) toks idx = Some i
    \<Longrightarrow> i \<le> length folded" for idx
  proof (induction toks arbitrary: idx)
    case (Cons tok toks)
    show ?case
      by (rule Cons.IH [OF _ Cons.prems(2) [unfolded fold_simps]])
        (use Cons.prems(1) in \<open>auto split: option.splits if_splits dest: index_sub_le\<close>)
  qed simp
  from this [of None] show "first_word folded toks = Some i \<Longrightarrow> ?thesis" by (simp add: first_word_def)
qed

lemma trim_space_set: "set (trim_space s) \<subseteq> set s"
proof -
  have "set (trim_left_space s) \<subseteq> set s"
    using trim_left_of_suffix [of space_runes s] by (simp add: trim_left_space_def set_mono_suffix)
  moreover have "set (trim_space s) \<subseteq> set (trim_left_space s)"
    using trim_right_prefix [of "trim_left_space s"] by (simp add: trim_space_def set_mono_prefix)
  ultimately show ?thesis by blast
qed

lemma ascii_drop: "ascii s \<Longrightarrow> ascii (drop n s)"
  by (auto simp: ascii_def dest: in_set_dropD)

text \<open>A quote of ASCII text is a stretch of it of at most m bytes, with an ellipsis on each cut side.\<close>

lemma snippet_ascii:
  assumes "tables_ok u" "ascii s" "0 \<le> m"
  shows "\<exists>a mid b. trim_space s = a @ mid @ b \<and> length mid \<le> nat m \<and>
    snippet_around u s query m = Some ((if a = [] then [] else snippet_ellipsis) @ mid @ (if b = [] then [] else snippet_ellipsis))"
proof -
  define t where "t = trim_space s"
  have t: "ascii t" using assms(2) trim_space_set [of s] by (auto simp: ascii_def t_def)
  let ?idx = "first_word (lower_runes u t) (fields_func (\<lambda>r. \<not> uc_word u r) (lower_runes u query))"
  show ?thesis
  proof (cases "t = []")
    case True
    then show ?thesis by (intro exI [of _ "[]"]) (simp add: snippet_around_def t_def)
  next
    case False
    show ?thesis
    proof (cases ?idx)
      case None
      let ?mid = "take (nat m) t"
      have "?mid = t \<longleftrightarrow> drop (nat m) t = []" by auto
      then have "snippet_around u s query m = Some (?mid @ (if drop (nat m) t = [] then [] else snippet_ellipsis))"
        using None False assms(3) t
        by (simp add: snippet_around_def t_def [symmetric] Let_def cap_runes_ascii)
      then show ?thesis
        by (intro exI [of _ "[]"] exI [of _ ?mid] exI [of _ "drop (nat m) t"]) (simp add: t_def [symmetric])
    next
      case (Some i)
      let ?st = "i - snippet_lookbehind"
      have i: "i \<le> length t" using first_word_le [OF Some] assms(1) t by (simp add: lower_ascii_text)
      then have st: "?st \<le> length t" "look_behind t snippet_lookbehind i = Some ?st"
        using look_behind_ascii [OF t] by simp_all
      let ?mid = "take (nat m) (drop ?st t)"
      let ?b = "drop (nat m) (drop ?st t)"
      have cut: "cap_runes (drop ?st t) m = ?mid" using t assms(3) by (simp add: cap_runes_ascii ascii_drop)
      have b: "?st + length ?mid < length t \<longleftrightarrow> ?b \<noteq> []" using st(1) by auto
      have a: "0 < ?st \<longleftrightarrow> take ?st t \<noteq> []" using False by auto
      have "snippet_around u s query m =
          Some (let out = (if 0 < ?st then snippet_ellipsis @ ?mid else ?mid)
                in if ?st + length ?mid < length t then out @ snippet_ellipsis else out)"
        using Some False st by (simp add: snippet_around_def t_def [symmetric] Let_def cut)
      then have "snippet_around u s query m =
          Some ((if take ?st t = [] then [] else snippet_ellipsis) @ ?mid @ (if ?b = [] then [] else snippet_ellipsis))"
        unfolding a b Let_def by (cases "take ?st t = []"; cases "?b = []") simp_all
      moreover have "t = take ?st t @ ?mid @ ?b" by (simp only: append_take_drop_id)
      ultimately show ?thesis
        by (intro exI [of _ "take ?st t"] exI [of _ ?mid] exI [of _ ?b]) (simp add: t_def [symmetric])
    qed
  qed
qed

text \<open>LATIN CAPITAL LETTER A WITH STROKE takes two bytes, its lower case three.\<close>

definition grows :: string where
  "grows = [CHR 0xC8, CHR 0xBA, CHR 0xC8, CHR 0xBA, CHR ''z'']"

lemma grows_runes: "runes grows = [0x23A, 0x23A, 122]"
  by (simp add: runes_def grows_def decode_rune_def byte_in_def of_char_Char)

lemma grows_folded:
  assumes "uc_lower u 0x23A = 0x2C65" "tables_ok u"
  shows "lower_runes u grows =
    [char_of (226::nat), char_of (177::nat), char_of (165::nat), char_of (226::nat), char_of (177::nat), char_of (165::nat), CHR ''z'']"
proof -
  have "uc_lower u 122 = 122" using assms(2) by (simp add: tables_ok_def ascii_lower_def)
  then show ?thesis using assms(1) encode_ascii [of "CHR ''z''"]
    by (simp add: lower_runes_def grows_runes encode_rune_def of_char_Char)
qed

lemma z_query:
  assumes "tables_ok u"
  shows "fields_func (\<lambda>r. \<not> uc_word u r) (lower_runes u ''z'') = [''z'']"
proof -
  have "lower_runes u ''z'' = ''z''" using lower_ascii_text [OF assms, of "''z''"]
    by (simp add: ascii_def of_char_Char lower_char_def)
  moreover have "uc_word u 122" using assms by (simp add: tables_ok_def ascii_word_def)
  ultimately show ?thesis using rune_parts_ascii [of "''z''"] by (simp add: fields_func_def ascii_def of_char_Char del: rune_parts.simps)
qed

lemma grows_trim: "trim_space grows = grows"
  by (simp add: grows_def trim_eval)

text \<open>
  A quote can panic: the place of a query word is looked for in the lower case of the text
  and used as an index of the text itself, and the lower case can be longer. For two letters
  whose lower case takes a third byte and a z, a query for z indexes past the end.\<close>

lemma snippet_panics:
  assumes "uc_lower u 0x23A = 0x2C65" and "tables_ok u"
  shows "snippet_around u grows ''z'' m = None"
proof -
  have ne: "char_of (226::nat) \<noteq> CHR ''z''" "char_of (177::nat) \<noteq> CHR ''z''" "char_of (165::nat) \<noteq> CHR ''z''"
    by (auto dest!: arg_cong [where f = "of_char :: char \<Rightarrow> nat"] simp: of_char_Char)
  have "first_word (lower_runes u grows) [''z''] = Some 6"
    unfolding grows_folded [OF assms] using ne by (simp add: first_word_def has_prefix_def)
  then have "first_word (lower_runes u grows) (fields_func (\<lambda>r. \<not> uc_word u r) (lower_runes u ''z'')) = Some (Suc 5)"
    by (simp add: z_query [OF assms(2)])
  moreover have "look_behind grows snippet_lookbehind (Suc 5) = None"
    by (simp add: snippet_lookbehind_def grows_def numeral_eq_Suc)
  moreover have "grows \<noteq> []" by (simp add: grows_def)
  ultimately show ?thesis by (simp add: snippet_around_def Let_def grows_trim)
qed

definition demo_tables :: unicode where
  "demo_tables = \<lparr>uc_lower = (\<lambda>r. if r = 0x23A then 0x2C65 else ascii_lower r), uc_word = ascii_word\<rparr>"

theorem fuse_sources_spec_witness:
  "map ref_key_of (fuse_sources demo_arith (\<lambda>key. []) 60 [[(demo_ref 5)], [(demo_ref 5)]]) = [ref_key_of (demo_ref 5)]
    \<and> map rf_check (fuse_sources demo_arith (\<lambda>key. []) 60 [[(demo_ref 5)], [(demo_ref 5)]]) = [False]"
proof -
  let ?out = "fuse_sources demo_arith (\<lambda>key. []) 60 [[(demo_ref 5)], [(demo_ref 5)]]"
  have occ: "occurrences (ref_key_of (demo_ref 5)) [[(demo_ref 5)], [(demo_ref 5)]] = [(0, (demo_ref 5)), (0, (demo_ref 5))]"
    by (simp add: occurrences_def ranked_def)
  from fuse_sources_spec [of demo_arith "\<lambda>key. []" 60 "[[(demo_ref 5)], [(demo_ref 5)]]"]
  have keys: "distinct (map ref_key_of ?out)" "set (map ref_key_of ?out) = {ref_key_of (demo_ref 5)}"
    and checks: "\<And>r. r \<in> set ?out \<Longrightarrow>
      rf_check r \<longleftrightarrow> (\<forall>(rank, x) \<in> set (occurrences (ref_key_of r) [[(demo_ref 5)], [(demo_ref 5)]]). rf_check x)"
    by auto
  have "length (map ref_key_of ?out) = 1" using distinct_card [OF keys(1)] keys(2) by simp
  then have "map ref_key_of ?out = [ref_key_of (demo_ref 5)]" using keys(2) by (cases "map ref_key_of ?out") auto
  moreover from this obtain r where r: "?out = [r]" "ref_key_of r = ref_key_of (demo_ref 5)" by (cases ?out) auto
  moreover have "\<not> rf_check r"
    using checks [of r] r by (simp add: occ) (simp add: demo_ref_def zero_ref_def)
  ultimately show ?thesis by simp
qed

end
