(* ===== verification/Knowledge.thy ===== *)
theory Knowledge
  imports Ranks
begin

text \<open>
  The knowledge store in memory (brain/memory.go, the store's side of brain/session_message.go,
  brain/embed.go): objects and their parts, guarded writes, the atomic write of a record with
  its parts, soft deletes, purges and erasure, reads under a scope, the saved messages of a
  session, and search. Parameters: the embedder, float64 arithmetic, the tables of unicode,
  strconv.Quote, the clock, fresh ids, and the order of Go's maps, which is that of the lists.
\<close>

section \<open>Embedding\<close>

record 'f embedding =
  em_embed :: "(string list \<Rightarrow> gerr + 'f list list) option"
  em_model_name :: string
  em_batch :: nat

definition embedding_model :: "'f embedding \<Rightarrow> string" where
  "embedding_model e = (case em_embed e of None \<Rightarrow> [] | Some f \<Rightarrow> em_model_name e)"

datatype embed_error = EmbedderError gerr | EmbedderCount nat nat

text \<open>None among the vectors is Go's nil: no embedder, or no text.\<close>

definition embed_texts :: "'f embedding \<Rightarrow> string list \<Rightarrow> embed_error + 'f list list option" where
  "embed_texts e texts =
     (case em_embed e of
        None \<Rightarrow> Inr None
      | Some f \<Rightarrow>
          if texts = [] then Inr None
          else case f texts of
                 Inl err \<Rightarrow> Inl (EmbedderError err)
               | Inr vecs \<Rightarrow>
                   if length vecs \<noteq> length texts then Inl (EmbedderCount (length vecs) (length texts)) else Inr (Some vecs))"

definition embed_one :: "'f embedding \<Rightarrow> string \<Rightarrow> embed_error + 'f list option" where
  "embed_one e t =
     (if t = [] then Inr None
      else case embed_texts e [t] of
             Inl err \<Rightarrow> Inl err
           | Inr None \<Rightarrow> Inr None
           | Inr (Some vecs) \<Rightarrow> Inr (Some (vecs ! 0)))"

section \<open>Objects\<close>

record 'f indexed =
  ix_object :: "'f object"
  ix_text :: string

text \<open>Why an object is not valid (Validate of brain/write.go).\<close>

datatype object_error =
    ObKind
  | ObNamespace ns_error
  | ObParentNil
  | ObUnregistered string
  | ObParentKind string
  | ObPartKind string
  | ObMissing string
  | ObUndefined string string
  | ObValue string field_error
  | ObEnum string string

datatype brain_error =
    NotFoundErr uuid
  | NoProperty string string
  | BadNamespace ns_error
  | IdRequired
  | ObjectKindRequired
  | OutsideScope
  | PartOutsideScope
  | PartTwice uuid
  | TreeChanged uuid
  | ReusedGone uuid
  | EmbedObject embed_error
  | EmbedParts embed_error
  | PartsFailed gerr
  | PartIdSet
  | PartDeleted
  | PartNamespace
  | BadPart object_error
  | BadFilter filter_error
  | SessionIdRequired
  | GenerationKeyRequired
  | WindowEmpty

definition zero_object :: "'f object" where
  "zero_object = \<lparr>ob_id = 0, ob_kind = [], ob_title = [], ob_summary = [], ob_props = [], ob_content = [],
     ob_content_type = [], ob_parent = None, ob_position = None, ob_embedding = None, ob_model = [],
     ob_namespace = [], ob_readers = [], ob_created = 0, ob_updated = 0, ob_deleted = None\<rparr>"

definition is_part :: "'f object \<Rightarrow> bool" where
  "is_part o' \<longleftrightarrow> ob_parent o' \<noteq> None"

definition validate_identity :: "'f object \<Rightarrow> brain_error option" where
  "validate_identity obj =
     (if ob_id obj = 0 then Some IdRequired
      else if trim_space (ob_kind obj) = [] then Some ObjectKindRequired
      else map_option BadNamespace (ns_validate (ob_namespace obj)))"

definition object_position :: "'f object \<Rightarrow> int" where
  "object_position o' = (case ob_position o' of None \<Rightarrow> 0 | Some p \<Rightarrow> p)"

definition scope_reads :: "scope \<Rightarrow> 'f object \<Rightarrow> bool" where
  "scope_reads s obj = can_read s (ob_namespace obj) (ob_readers obj)"

section \<open>The store\<close>

record 'f session_row =
  sr_id :: uuid
  sr_session :: string
  sr_generation :: int
  sr_key :: string
  sr_position :: nat
  sr_role :: string
  sr_body :: string
  sr_text :: string
  sr_namespace :: namespace
  sr_embedding :: "'f list option"
  sr_model :: string
  sr_created :: time
  sr_updated :: time

record 'f know =
  kn_objects :: "(uuid, 'f object) gomap"
  kn_kinds :: "(string, object_kind) gomap"
  kn_msgs :: "(uuid, 'f session_row) gomap"
  kn_keys :: "(string, (string, int) gomap) gomap"
  kn_revs :: "(uuid, int) gomap"

definition new_know :: "'f know" where
  "new_know = \<lparr>kn_objects = [], kn_kinds = [], kn_msgs = [], kn_keys = [], kn_revs = []\<rparr>"

definition scope_bad :: "scope \<Rightarrow> brain_error option" where
  "scope_bad s = map_option BadNamespace (ns_validate (sc_namespace s))"

definition indexed_object :: "'f embedding \<Rightarrow> 'f indexed \<Rightarrow> brain_error + 'f object" where
  "indexed_object e x =
     (case embed_one e (ix_text x) of
        Inl err \<Rightarrow> Inl (EmbedObject err)
      | Inr vec \<Rightarrow> Inr ((ix_object x)\<lparr>ob_embedding := vec,
                         ob_model := (if vec \<noteq> None then embedding_model e else [])\<rparr>))"

definition check_put :: "scope \<Rightarrow> 'f object \<Rightarrow> 'f know \<Rightarrow> brain_error option" where
  "check_put s obj st =
     (case scope_bad s of
        Some e \<Rightarrow> Some e
      | None \<Rightarrow>
          (case validate_identity obj of
             Some e \<Rightarrow> Some e
           | None \<Rightarrow>
               if \<not> ns_covers (sc_namespace s) (ob_namespace obj) then Some OutsideScope
               else case map_of (kn_objects st) (ob_id obj) of
                      Some old \<Rightarrow> if \<not> scope_reads s old then Some (NotFoundErr (ob_id obj)) else None
                    | None \<Rightarrow> None))"

definition stamped :: "time \<Rightarrow> 'f object \<Rightarrow> 'f object" where
  "stamped now obj =
     obj\<lparr>ob_created := (if ob_created obj = 0 then now else ob_created obj),
         ob_updated := (if ob_updated obj = 0 then now else ob_updated obj)\<rparr>"

definition store_object :: "time \<Rightarrow> 'f object \<Rightarrow> 'f know \<Rightarrow> 'f object \<times> 'f know" where
  "store_object now obj st =
     (stamped now obj, st\<lparr>kn_objects := AList.update (ob_id obj) (stamped now obj) (kn_objects st)\<rparr>)"

definition mem_put :: "'f embedding \<Rightarrow> time \<Rightarrow> scope \<Rightarrow> 'f indexed \<Rightarrow> 'f know \<Rightarrow> (brain_error + 'f object) \<times> 'f know" where
  "mem_put e now s x st =
     (case indexed_object e x of
        Inl err \<Rightarrow> (Inl err, st)
      | Inr obj \<Rightarrow>
          (case check_put s obj st of
             Some err \<Rightarrow> (Inl err, st)
           | None \<Rightarrow> (case store_object now obj st of (o', st') \<Rightarrow> (Inr o', st'))))"

definition session_props :: "'f session_row \<Rightarrow> (string, 'f any) gomap" where
  "session_props r = [(''role'', VStr (sr_role r)), (''generation'', VInt (sr_generation r)), (''index'', VInt (int (sr_position r)))]"

definition kind_session_message :: string where
  "kind_session_message = ''SessionMessage''"

definition row_object :: "'f session_row \<Rightarrow> 'f object" where
  "row_object r =
     zero_object\<lparr>ob_id := sr_id r, ob_kind := kind_session_message, ob_title := sr_role r, ob_content := sr_body r,
       ob_props := session_props r, ob_position := Some (int (sr_position r)), ob_namespace := sr_namespace r,
       ob_embedding := sr_embedding r, ob_model := sr_model r, ob_created := sr_created r, ob_updated := sr_updated r\<rparr>"

definition get_locked :: "scope \<Rightarrow> uuid \<Rightarrow> 'f know \<Rightarrow> brain_error + 'f object" where
  "get_locked s i st =
     (let row = (let sid = trim_space (sc_session s)
                 in if sid \<noteq> []
                    then (case map_of (kn_msgs st) i of
                            Some r \<Rightarrow> if sr_session r = sid then Inr (row_object r) else Inl (NotFoundErr i)
                          | None \<Rightarrow> Inl (NotFoundErr i))
                    else Inl (NotFoundErr i))
      in case map_of (kn_objects st) i of
           Some obj \<Rightarrow> if ob_deleted obj = None \<and> scope_reads s obj then Inr obj else row
         | None \<Rightarrow> row)"

definition mem_get :: "scope \<Rightarrow> uuid \<Rightarrow> 'f know \<Rightarrow> brain_error + 'f object" where
  "mem_get s i st = (case scope_bad s of Some e \<Rightarrow> Inl e | None \<Rightarrow> get_locked s i st)"

fun get_each :: "scope \<Rightarrow> 'f know \<Rightarrow> uuid list \<Rightarrow> 'f object list" where
  "get_each s st [] = []"
| "get_each s st (i # is) =
     (case get_locked s i st of Inl e \<Rightarrow> get_each s st is | Inr obj \<Rightarrow> obj # get_each s st is)"

definition mem_get_many :: "scope \<Rightarrow> uuid list \<Rightarrow> 'f know \<Rightarrow> brain_error + 'f object list" where
  "mem_get_many s is st = (case scope_bad s of Some e \<Rightarrow> Inl e | None \<Rightarrow> Inr (get_each s st is))"

definition mem_get_by_property :: "scope \<Rightarrow> string \<Rightarrow> string \<Rightarrow> 'f know \<Rightarrow> brain_error + 'f object" where
  "mem_get_by_property s key val st =
     (case scope_bad s of
        Some e \<Rightarrow> Inl e
      | None \<Rightarrow>
          (case find (\<lambda>obj. ob_deleted obj = None \<and> scope_reads s obj \<and> map_of (ob_props obj) key = Some (VStr val))
                  (map snd (kn_objects st)) of
             Some obj \<Rightarrow> Inr obj
           | None \<Rightarrow> Inl (NoProperty key val)))"

record 'f tree_read =
  tr_object :: "'f object"
  tr_parent :: "'f object option"
  tr_parts :: "'f object list"

definition part_le :: "'f object \<Rightarrow> 'f object \<Rightarrow> bool" where
  "part_le a b \<longleftrightarrow> object_position a < object_position b \<or> object_position a = object_position b \<and> ob_id a \<le> ob_id b"

definition parts_locked :: "scope \<Rightarrow> uuid \<Rightarrow> int \<Rightarrow> 'f know \<Rightarrow> 'f object list" where
  "parts_locked s record limit st =
     (let out = sort_by part_le (filter (\<lambda>obj. ob_deleted obj = None \<and> ob_parent obj = Some record \<and> scope_reads s obj)
                  (map snd (kn_objects st)))
      in if 0 < limit then take (nat limit) out else out)"

definition mem_get_tree :: "scope \<Rightarrow> uuid \<Rightarrow> int \<Rightarrow> 'f know \<Rightarrow> brain_error + 'f tree_read" where
  "mem_get_tree s i limit st =
     (case scope_bad s of
        Some e \<Rightarrow> Inl e
      | None \<Rightarrow>
          (case get_locked s i st of
             Inl e \<Rightarrow> Inl e
           | Inr obj \<Rightarrow>
               let record = (case ob_parent obj of Some p \<Rightarrow> p | None \<Rightarrow> ob_id obj);
                   parent = (case ob_parent obj of
                               None \<Rightarrow> None
                             | Some p \<Rightarrow> (case get_locked s p st of Inl e \<Rightarrow> None | Inr o' \<Rightarrow> Some o'));
                   parts = (if map_of (kn_objects st) (ob_id obj) \<noteq> None then parts_locked s record limit st else [])
               in Inr \<lparr>tr_object = obj, tr_parent = parent, tr_parts = parts\<rparr>))"

section \<open>Deletes\<close>

definition delete_row :: "uuid \<Rightarrow> time \<Rightarrow> uuid \<times> 'f object \<Rightarrow> uuid \<times> 'f object" where
  "delete_row i now kc =
     (if fst kc = i \<or> ob_parent (snd kc) = Some i \<and> ob_deleted (snd kc) = None
      then (fst kc, (snd kc)\<lparr>ob_deleted := Some now, ob_updated := now\<rparr>) else kc)"

definition mem_soft_delete :: "time \<Rightarrow> scope \<Rightarrow> uuid \<Rightarrow> 'f know \<Rightarrow> brain_error option \<times> 'f know" where
  "mem_soft_delete now s i st =
     (case scope_bad s of
        Some e \<Rightarrow> (Some e, st)
      | None \<Rightarrow>
          (case map_of (kn_objects st) i of
             None \<Rightarrow> (Some (NotFoundErr i), st)
           | Some obj \<Rightarrow>
               if ob_deleted obj \<noteq> None \<or> \<not> scope_reads s obj then (Some (NotFoundErr i), st)
               else (None, st\<lparr>kn_objects := map (delete_row i now) (kn_objects st)\<rparr>)))"

definition without_keys :: "('k \<Rightarrow> bool) \<Rightarrow> ('k, 'v) gomap \<Rightarrow> ('k, 'v) gomap" where
  "without_keys P m = filter (\<lambda>kv. \<not> P (fst kv)) m"

definition mem_purge_deleted :: "scope \<Rightarrow> time \<Rightarrow> 'f know \<Rightarrow> (brain_error + nat) \<times> 'f know" where
  "mem_purge_deleted s before st =
     (case scope_bad s of
        Some e \<Rightarrow> (Inl e, st)
      | None \<Rightarrow>
          let gone = map fst (filter (\<lambda>(i, obj). (case ob_deleted obj of None \<Rightarrow> False | Some t \<Rightarrow> t < before)
                       \<and> ns_covers (sc_namespace s) (ob_namespace obj)) (kn_objects st))
          in (Inr (length gone),
              st\<lparr>kn_objects := without_keys (\<lambda>i. i \<in> set gone) (kn_objects st),
                 kn_revs := without_keys (\<lambda>i. i \<in> set gone) (kn_revs st)\<rparr>))"

definition mem_erase :: "scope \<Rightarrow> 'f know \<Rightarrow> (brain_error + uuid list) \<times> 'f know" where
  "mem_erase s st =
     (case scope_bad s of
        Some e \<Rightarrow> (Inl e, st)
      | None \<Rightarrow>
          let gone = filter (\<lambda>(i, obj). scope_reads s obj) (kn_objects st)
          in (Inr (map fst (filter (\<lambda>(i, obj). ob_parent obj = None) gone)),
              st\<lparr>kn_objects := without_keys (\<lambda>i. i \<in> fst ` set gone) (kn_objects st),
                 kn_revs := without_keys (\<lambda>i. i \<in> fst ` set gone) (kn_revs st),
                 kn_msgs := filter (\<lambda>(i, row). \<not> ns_covers (sc_namespace s) (sr_namespace row)) (kn_msgs st)\<rparr>))"

section \<open>The write of a tree\<close>

record 'f tree_part =
  tp_object :: "'f object"
  tp_reused :: bool

definition embed_batch :: "'f embedding \<Rightarrow> ('f tree_part \<times> string) list \<Rightarrow> embed_error + 'f tree_part list" where
  "embed_batch e batch =
     (let has = (\<lambda>t. t \<noteq> [] \<and> em_embed e \<noteq> None);
          texts = filter has (map snd batch)
      in case embed_texts e texts of
           Inl err \<Rightarrow> Inl err
         | Inr vecs \<Rightarrow>
             Inr (map (\<lambda>i. let p = fst (batch ! i); t = snd (batch ! i)
                           in if has t
                              then p\<lparr>tp_object := (tp_object p)\<lparr>
                                     ob_embedding := Some ((case vecs of Some vs \<Rightarrow> vs | None \<Rightarrow> []) ! length (filter has (map snd (take i batch)))),
                                     ob_model := em_model_name e\<rparr>\<rparr>
                              else p) [0..<length batch]))"

definition tree_part_of :: "(uuid \<Rightarrow> bool) \<Rightarrow> 'f indexed \<Rightarrow> 'f tree_part \<times> string" where
  "tree_part_of reuse x =
     (let p = ix_object x
      in if reuse (ob_id p)
         then (\<lparr>tp_object = zero_object\<lparr>ob_id := ob_id p, ob_parent := ob_parent p, ob_namespace := ob_namespace p,
                  ob_position := ob_position p, ob_props := ob_props p\<rparr>, tp_reused = True\<rparr>, [])
         else (\<lparr>tp_object = p, tp_reused = False\<rparr>, ix_text x))"

text \<open>
  The pipeline of EmbedBatches on one schedule: the batches are embedded and staged one after
  the other in reading order, and the first error in that order is the result. The code runs
  some at once, so batches may be staged in another order and another of several errors may
  be the one returned. The parts are what the sequence yields, an error ending it.
\<close>

function embed_batches :: "'f embedding \<Rightarrow> (uuid \<Rightarrow> bool) \<Rightarrow> (brain_error + 'f indexed) list
    \<Rightarrow> ('f tree_part \<times> string) list \<Rightarrow> 'f tree_part list \<Rightarrow> brain_error + 'f tree_part list" where
  "embed_batches e reuse [] batch staged =
     (if batch = [] then Inr staged
      else case embed_batch e batch of Inl err \<Rightarrow> Inl (EmbedParts err) | Inr ps \<Rightarrow> Inr (staged @ ps))"
| "embed_batches e reuse (Inl err # parts) batch staged = Inl err"
| "embed_batches e reuse (Inr x # parts) batch staged =
     (let batch1 = batch @ [tree_part_of reuse x]
      in if length batch1 = (if em_batch e = 0 then 128 else em_batch e)
         then (case embed_batch e batch1 of
                 Inl err \<Rightarrow> Inl (EmbedParts err)
               | Inr ps \<Rightarrow> embed_batches e reuse parts [] (staged @ ps))
         else embed_batches e reuse parts batch1 staged)"
  by pat_completeness auto
termination by (relation "measure (\<lambda>(e, reuse, parts, batch, staged). length parts)") auto

record 'f staged_tree =
  sg_parent :: "'f object"
  sg_rev :: int
  sg_parts :: "'f tree_part list"

definition tree_rev :: "uuid \<Rightarrow> 'f know \<Rightarrow> int" where
  "tree_rev i st = (case map_of (kn_revs st) i of None \<Rightarrow> 0 | Some r \<Rightarrow> r)"

definition reusable :: "'f embedding \<Rightarrow> scope \<Rightarrow> uuid \<Rightarrow> 'f know \<Rightarrow> uuid \<Rightarrow> bool" where
  "reusable e s pid st i =
     (case map_of (kn_objects st) i of
        None \<Rightarrow> False
      | Some obj \<Rightarrow> ob_parent obj = Some pid \<and> ob_deleted obj = None \<and> scope_reads s obj \<and> ob_model obj = embedding_model e)"

text \<open>PutTree up to its lock: what it read of the store, and the parts it embedded.\<close>

definition put_tree_stage :: "'f embedding \<Rightarrow> scope \<Rightarrow> 'f indexed \<Rightarrow> (brain_error + 'f indexed) list \<Rightarrow> 'f know
    \<Rightarrow> brain_error + 'f staged_tree" where
  "put_tree_stage e s parent parts st =
     (case scope_bad s of
        Some err \<Rightarrow> Inl err
      | None \<Rightarrow>
          (case indexed_object e parent of
             Inl err \<Rightarrow> Inl err
           | Inr p \<Rightarrow>
               (case embed_batches e (reusable e s (ob_id p) st) parts [] [] of
                  Inl err \<Rightarrow> Inl err
                | Inr staged \<Rightarrow> Inr \<lparr>sg_parent = p, sg_rev = tree_rev (ob_id p) st, sg_parts = staged\<rparr>)))"

fun check_parts :: "scope \<Rightarrow> uuid \<Rightarrow> 'f know \<Rightarrow> uuid list \<Rightarrow> 'f tree_part list \<Rightarrow> brain_error + uuid list" where
  "check_parts s pid st keep [] = Inr keep"
| "check_parts s pid st keep (part # parts) =
     (let o' = tp_object part
      in if \<not> ns_covers (sc_namespace s) (ob_namespace o') then Inl PartOutsideScope
         else if ob_id o' \<in> set keep then Inl (PartTwice (ob_id o'))
         else if tp_reused part \<and>
                 (case map_of (kn_objects st) (ob_id o') of None \<Rightarrow> True | Some old \<Rightarrow> ob_parent old \<noteq> Some pid)
         then Inl (ReusedGone (ob_id o'))
         else check_parts s pid st (ob_id o' # keep) parts)"

definition placed_part :: "'f object \<Rightarrow> 'f know \<Rightarrow> 'f tree_part \<Rightarrow> 'f object" where
  "placed_part stored st part =
     (let o' = tp_object part;
          obj = (if tp_reused part
                 then (case map_of (kn_objects st) (ob_id o') of Some old \<Rightarrow> old | None \<Rightarrow> zero_object)
                        \<lparr>ob_position := ob_position o', ob_props := ob_props o', ob_deleted := None\<rparr>
                 else o')
      in obj\<lparr>ob_namespace := ob_namespace stored, ob_readers := ob_readers stored\<rparr>)"

definition put_tree_commit :: "time \<Rightarrow> scope \<Rightarrow> 'f staged_tree \<Rightarrow> 'f know \<Rightarrow> (brain_error + 'f object) \<times> 'f know" where
  "put_tree_commit now s sg st =
     (let p = sg_parent sg
      in case check_put s p st of
           Some err \<Rightarrow> (Inl err, st)
         | None \<Rightarrow>
             if tree_rev (ob_id p) st \<noteq> sg_rev sg then (Inl (TreeChanged (ob_id p)), st)
             else case check_parts s (ob_id p) st [] (sg_parts sg) of
                    Inl err \<Rightarrow> (Inl err, st)
                  | Inr keep \<Rightarrow>
                      let st1 = st\<lparr>kn_objects := filter (\<lambda>(i, obj). \<not> (i \<notin> set keep \<and> ob_parent obj = Some (ob_id p))) (kn_objects st)\<rparr>;
                          (stored, st2) = store_object now p st1;
                          st3 = fold (\<lambda>part st. snd (store_object now (placed_part stored st part) st)) (sg_parts sg) st2
                      in (Inr stored, st3\<lparr>kn_revs := AList.update (ob_id p) (sg_rev sg + 1) (kn_revs st3)\<rparr>))"

definition mem_put_tree :: "'f embedding \<Rightarrow> time \<Rightarrow> scope \<Rightarrow> 'f indexed \<Rightarrow> (brain_error + 'f indexed) list \<Rightarrow> 'f know
    \<Rightarrow> (brain_error + 'f object) \<times> 'f know" where
  "mem_put_tree e now s parent parts st =
     (case put_tree_stage e s parent parts st of
        Inl err \<Rightarrow> (Inl err, st)
      | Inr sg \<Rightarrow> put_tree_commit now s sg st)"

section \<open>Session messages\<close>

record session_message =
  sg_role :: string
  sg_body :: string
  sg_text :: string

definition ns_key :: "(string \<Rightarrow> string) \<Rightarrow> namespace \<Rightarrow> string" where
  "ns_key quote n = concat (map (\<lambda>a. quote (at_name a) @ ''='' @ quote (at_value a) @ '';'') n)"

text \<open>slices.Chunk of the messages with text; a batch that fails leaves its messages without vectors.\<close>

function chunk_list :: "nat \<Rightarrow> 'a list \<Rightarrow> 'a list list" where
  "chunk_list n xs = (if n = 0 \<or> xs = [] then [] else take n xs # chunk_list n (drop n xs))"
  by pat_completeness auto
termination by (relation "measure (\<lambda>(n, xs). length xs)") auto

declare chunk_list.simps [simp del]

definition embed_messages :: "'f embedding \<Rightarrow> session_message list \<Rightarrow> 'f list option list" where
  "embed_messages e msgs =
     (let none = replicate (length msgs) None;
          pending = filter (\<lambda>i. trim_space (sg_text (msgs ! i)) \<noteq> []) [0..<length msgs];
          size' = (if em_batch e = 0 then 128 else em_batch e)
      in if em_embed e = None then none
         else fold (\<lambda>batch vecs.
                case embed_texts e (map (\<lambda>i. trim_space (sg_text (msgs ! i))) batch) of
                  Inr (Some got) \<Rightarrow> fold (\<lambda>(j, i) vs. vs[i := Some (got ! j)]) (ranked batch) vecs
                | _ \<Rightarrow> vecs) (chunk_list size' pending) none)"

definition next_generation :: "string \<Rightarrow> 'f know \<Rightarrow> int" where
  "next_generation sid st =
     fold (\<lambda>(i, row) gen. if sr_session row = sid \<and> gen \<le> sr_generation row then sr_generation row + 1 else gen) (kn_msgs st) 1"

definition message_row :: "'f embedding \<Rightarrow> time \<Rightarrow> namespace \<Rightarrow> string \<Rightarrow> string \<Rightarrow> int \<Rightarrow> uuid \<Rightarrow> nat \<Rightarrow> session_message
    \<Rightarrow> 'f list option \<Rightarrow> 'f session_row" where
  "message_row e now ns sid gkey gen i pos msg vec =
     \<lparr>sr_id = i, sr_session = sid, sr_generation = gen, sr_key = gkey, sr_position = pos, sr_role = sg_role msg,
      sr_body = sg_body msg, sr_text = sg_text msg, sr_namespace = ns, sr_embedding = vec,
      sr_model = (if vec \<noteq> None then embedding_model e else []), sr_created = now, sr_updated = now\<rparr>"

definition save_session_messages :: "(string \<Rightarrow> string) \<Rightarrow> 'f embedding \<Rightarrow> time \<Rightarrow> (nat \<Rightarrow> uuid) \<Rightarrow> namespace \<Rightarrow> string \<Rightarrow> string
    \<Rightarrow> session_message list \<Rightarrow> 'f know \<Rightarrow> (brain_error + int) \<times> 'f know" where
  "save_session_messages quote e now fresh host sid0 gkey0 msgs st =
     (let sid = trim_space sid0; gkey = trim_space gkey0
      in if sid = [] then (Inl SessionIdRequired, st)
         else if gkey = [] then (Inl GenerationKeyRequired, st)
         else if msgs = [] then (Inl WindowEmpty, st)
         else case ns_validate host of
                Some err \<Rightarrow> (Inl (BadNamespace err), st)
              | None \<Rightarrow>
                  let vecs = embed_messages e msgs;
                      ns = for_session host sid;
                      key = ns_key quote ns;
                      keys = (case map_of (kn_keys st) key of None \<Rightarrow> [] | Some m \<Rightarrow> m)
                  in case map_of keys gkey of
                       Some gen \<Rightarrow> (Inr gen, st)
                     | None \<Rightarrow>
                         let gen = next_generation sid st;
                             rows = map (\<lambda>(i, msg). (fresh i, message_row e now ns sid gkey gen (fresh i) i msg (vecs ! i))) (ranked msgs)
                         in (Inr gen, st\<lparr>kn_msgs := map_copy (kn_msgs st) rows,
                                         kn_keys := AList.update key (AList.update gkey gen keys) (kn_keys st)\<rparr>))"

definition delete_session_messages :: "(string \<Rightarrow> string) \<Rightarrow> namespace \<Rightarrow> string \<Rightarrow> 'f know \<Rightarrow> brain_error option \<times> 'f know" where
  "delete_session_messages quote host sid st =
     (case ns_validate host of
        Some err \<Rightarrow> (Some (BadNamespace err), st)
      | None \<Rightarrow>
          let ns = for_session host (trim_space sid)
          in (None, st\<lparr>kn_msgs := filter (\<lambda>(i, row). sr_namespace row \<noteq> ns) (kn_msgs st),
                       kn_keys := AList.delete (ns_key quote ns) (kn_keys st)\<rparr>))"

definition purge_session_messages :: "namespace \<Rightarrow> time \<Rightarrow> 'f know \<Rightarrow> (brain_error + nat) \<times> 'f know" where
  "purge_session_messages host before st =
     (case ns_validate host of
        Some err \<Rightarrow> (Inl (BadNamespace err), st)
      | None \<Rightarrow>
          let gone = (\<lambda>(i, row). ns_covers host (sr_namespace row) \<and> sr_created row < before)
          in (Inr (length (filter gone (kn_msgs st))), st\<lparr>kn_msgs := filter (\<lambda>x. \<not> gone x) (kn_msgs st)\<rparr>))"

definition session_rows :: "scope \<Rightarrow> 'f know \<Rightarrow> 'f session_row list" where
  "session_rows s st =
     (if trim_space (sc_session s) = [] then []
      else filter (\<lambda>row. sr_namespace row = for_session (sc_namespace s) (sc_session s)) (map snd (kn_msgs st)))"

definition append_session_parts :: "scope \<Rightarrow> 'f object list \<Rightarrow> 'f know \<Rightarrow> 'f object list" where
  "append_session_parts s parts st =
     parts @ map (\<lambda>row. (row_object row)\<lparr>ob_content := sr_text row, ob_parent := Some (sr_id row)\<rparr>) (session_rows s st)"

section \<open>A small store\<close>

definition demo_scope :: scope where
  "demo_scope = \<lparr>sc_namespace = [demo_org], sc_principals = [], sc_session = []\<rparr>"

definition other_scope :: scope where
  "other_scope = \<lparr>sc_namespace = [demo_room], sc_principals = [], sc_session = []\<rparr>"

definition demo_object :: "int object" where
  "demo_object = zero_object\<lparr>ob_id := 5, ob_kind := ''note'', ob_namespace := [demo_org]\<rparr>"

definition demo_know :: "int know" where
  "demo_know = new_know\<lparr>kn_objects := [(5, demo_object)]\<rparr>"

definition no_embedding :: "int embedding" where
  "no_embedding = \<lparr>em_embed = None, em_model_name = [], em_batch = 0\<rparr>"

lemma demo_scopes_ok: "scope_bad demo_scope = None" "scope_bad other_scope = None"
  by (simp_all add: scope_bad_def demo_scope_def other_scope_def demo_attrs_ok)

lemma demo_reads: "scope_reads demo_scope demo_object"
  by (simp add: scope_reads_def can_read_def demo_scope_def demo_object_def zero_object_def ns_covers_def)

end
