(* ===== verification/Knowledge_Search.thy ===== *)
theory Knowledge_Search
  imports Knowledge
begin

text \<open>
  Search of the knowledge store in memory (brain/memory.go): the candidate rows a scope can read
  whose record passes the filter, the lexical, vector and trigram channels over them with the
  session's messages, their fusion, and the listing of records without a query. float64 is the
  parameter \<open>math\<close>, which adds to \<open>arith\<close> what the scores are computed with.
\<close>

section \<open>Scores\<close>

record 'f math = "'f arith" +
  ma_div :: "'f \<Rightarrow> 'f \<Rightarrow> 'f"
  ma_log :: "'f \<Rightarrow> 'f"
  ma_sqrt :: "'f \<Rightarrow> 'f"
  ma_nat :: "nat \<Rightarrow> 'f"
  ma_round32 :: "'f \<Rightarrow> 'f"

definition object_scored :: "'f object \<Rightarrow> 'f \<Rightarrow> 'f scored" where
  "object_scored obj score =
     \<lparr>sd_id = ob_id obj, sd_score = score, sd_updated = ob_updated obj, sd_parent = ob_parent obj, sd_title = ob_title obj,
      sd_content = ob_content obj, sd_position = ob_position obj, sd_props = Some (ob_props obj)\<rparr>"

definition search_text :: "'f object \<Rightarrow> string" where
  "search_text o' = trim_space (ob_title o' @ '' '' @ ob_summary o' @ '' '' @ ob_content o')"

text \<open>What is a letter or a digit is a table of package unicode: a parameter.\<close>

definition tokenize :: "unicode \<Rightarrow> (nat \<Rightarrow> bool) \<Rightarrow> string \<Rightarrow> string list" where
  "tokenize u alnum s = fields_func (\<lambda>r. \<not> alnum r) (lower_runes u s)"

definition tf :: "string list \<Rightarrow> string \<Rightarrow> nat" where
  "tf toks t = length (filter (\<lambda>x. x = t) toks)"

definition lexical_score :: "('f, 'm) math_scheme \<Rightarrow> string list list \<Rightarrow> string list \<Rightarrow> string list \<Rightarrow> 'f" where
  "lexical_score ma docs q toks =
     fold (\<lambda>qt score.
       if 0 < tf toks qt
       then ar_add ma score
              (ar_mul ma (ma_div ma (ma_nat ma (tf toks qt)) (ma_nat ma (length toks)))
                 (ma_log ma (ar_add ma (ar_one ma)
                    (ma_div ma (ma_nat ma (length docs)) (ma_nat ma (1 + length (filter (\<lambda>d. qt \<in> set d) docs)))))))
       else score) q (ar_zero ma)"

definition lexical_scores :: "('f::linorder, 'm) math_scheme \<Rightarrow> unicode \<Rightarrow> (nat \<Rightarrow> bool) \<Rightarrow> 'f object list \<Rightarrow> string \<Rightarrow> 'f scored list" where
  "lexical_scores ma u alnum parts query =
     (let q = tokenize u alnum query
      in if q = [] then []
         else let docs = filter (\<lambda>d. snd d \<noteq> []) (map (\<lambda>o'. (o', tokenize u alnum (search_text o'))) parts);
                  toks = map snd docs
              in sort_scored (map (\<lambda>d. object_scored (fst d) (lexical_score ma toks q (snd d)))
                   (filter (\<lambda>d. ar_zero ma < lexical_score ma toks q (snd d)) docs)))"

text \<open>The loop of cosine over the two vectors: dot product and squared norms.\<close>

fun cosine_loop :: "('f, 'm) math_scheme \<Rightarrow> 'f list \<Rightarrow> 'f list \<Rightarrow> 'f \<times> 'f \<times> 'f \<Rightarrow> 'f \<times> 'f \<times> 'f" where
  "cosine_loop ma (x # a) (y # b) (dot, na, nb) =
     cosine_loop ma a b (ar_add ma dot (ar_mul ma x y), ar_add ma na (ar_mul ma x x), ar_add ma nb (ar_mul ma y y))"
| "cosine_loop ma a b acc = acc"

definition cosine :: "('f, 'm) math_scheme \<Rightarrow> 'f list \<Rightarrow> 'f list \<Rightarrow> 'f" where
  "cosine ma a b =
     (case cosine_loop ma a b (ar_zero ma, ar_zero ma, ar_zero ma) of
        (dot, na, nb) \<Rightarrow>
          if na = ar_zero ma \<or> nb = ar_zero ma then ar_zero ma
          else ma_round32 ma (ma_div ma dot (ar_mul ma (ma_sqrt ma na) (ma_sqrt ma nb))))"

definition vector_scores :: "('f::linorder, 'm) math_scheme \<Rightarrow> 'f object list \<Rightarrow> string \<Rightarrow> 'f list \<Rightarrow> 'f scored list" where
  "vector_scores ma parts model vec =
     sort_scored (map (\<lambda>o'. object_scored o' (cosine ma vec (case ob_embedding o' of Some v \<Rightarrow> v | None \<Rightarrow> [])))
       (filter (\<lambda>o'. ob_model o' = model \<and> length (case ob_embedding o' of Some v \<Rightarrow> v | None \<Rightarrow> []) = length vec
            \<and> ar_zero ma < cosine ma vec (case ob_embedding o' of Some v \<Rightarrow> v | None \<Rightarrow> [])) parts))"

definition trigrams :: "unicode \<Rightarrow> string \<Rightarrow> string set" where
  "trigrams u s0 =
     (let s = lower_runes u s0
      in if length s < 3 then (if s \<noteq> [] then {s} else {})
         else set (map (\<lambda>i. take 3 (drop i s)) [0..<length s - 2]))"

definition trigram_overlap :: "('f, 'm) math_scheme \<Rightarrow> string set \<Rightarrow> string set \<Rightarrow> 'f" where
  "trigram_overlap ma a b =
     (if a = {} \<or> b = {} then ar_zero ma
      else ma_div ma (ma_nat ma (card (a \<inter> b))) (ma_nat ma (card a + card b - card (a \<inter> b))))"

definition trigram_score :: "('f, 'm) math_scheme \<Rightarrow> unicode \<Rightarrow> string \<Rightarrow> string \<Rightarrow> 'f" where
  "trigram_score ma u q t =
     (if t \<noteq> [] \<and> contains_sub t q then ar_one ma else trigram_overlap ma (trigrams u q) (trigrams u t))"

definition trigram_scores :: "('f::linorder, 'm) math_scheme \<Rightarrow> unicode \<Rightarrow> 'f object list \<Rightarrow> string \<Rightarrow> 'f scored list" where
  "trigram_scores ma u parts query =
     (let q = lower_runes u (trim_space query); score = (\<lambda>o'. trigram_score ma u q (lower_runes u (search_text o')))
      in sort_scored (map (\<lambda>o'. object_scored o' (score o')) (filter (\<lambda>o'. ar_zero ma < score o') parts)))"

definition title_first :: "unicode \<Rightarrow> 'f scored list \<Rightarrow> string \<Rightarrow> 'f scored list" where
  "title_first u hits query =
     (let q = lower_runes u (trim_space query); P = (\<lambda>h. lower_runes u (trim_space (sd_title h)) = q)
      in filter P hits @ filter (\<lambda>h. \<not> P h) hits)"

section \<open>Search\<close>

record 'f record_search =
  rq_query :: string
  rq_filters :: "'f filter_spec"
  rq_exact :: bool
  rq_within :: uuid
  rq_ids :: "uuid list"
  rq_limit :: int

record 'f search_env =
  se_math :: "'f math"
  se_floats :: "'f floats"
  se_times :: time_parsers
  se_unicode :: unicode
  se_alnum :: "nat \<Rightarrow> bool"
  se_embedding :: "'f embedding"
  se_ranking :: "'f ranking"

definition among_ids :: "uuid list \<Rightarrow> uuid \<Rightarrow> bool" where
  "among_ids ids i \<longleftrightarrow> ids = [] \<or> i \<in> set ids"

definition record_of :: "'f object \<Rightarrow> 'f know \<Rightarrow> 'f object" where
  "record_of obj st =
     (case ob_parent obj of
        None \<Rightarrow> obj
      | Some p \<Rightarrow> (case map_of (kn_objects st) p of Some r \<Rightarrow> r | None \<Rightarrow> zero_object))"

definition candidate_rows :: "'f floats \<Rightarrow> scope \<Rightarrow> 'f filter_plan \<Rightarrow> uuid list \<Rightarrow> 'f know \<Rightarrow> 'f object list" where
  "candidate_rows fl s plan ids st =
     filter (\<lambda>obj. ob_deleted obj = None \<and> scope_reads s obj
               \<and> plan_match fl plan (record_of obj st) \<and> among_ids ids (ob_id (record_of obj st)))
       (map snd (kn_objects st))"

definition newest_le :: "'f object \<Rightarrow> 'f object \<Rightarrow> bool" where
  "newest_le a b \<longleftrightarrow> ob_updated b < ob_updated a \<or> ob_updated a = ob_updated b \<and> ob_id a \<le> ob_id b"

definition list_records :: "'f \<Rightarrow> 'f floats \<Rightarrow> scope \<Rightarrow> 'f filter_plan \<Rightarrow> uuid list \<Rightarrow> int \<Rightarrow> 'f know \<Rightarrow> 'f scored list" where
  "list_records zero fl s plan ids limit st =
     map (\<lambda>obj. object_scored obj zero)
       (take (nat limit) (sort_by newest_le
          (filter (\<lambda>obj. ob_parent obj = None \<and> ob_deleted obj = None \<and> scope_reads s obj \<and> plan_match fl plan obj \<and> among_ids ids (ob_id obj))
             (map snd (kn_objects st)))))"

definition within_record :: "uuid \<Rightarrow> 'f know \<Rightarrow> uuid" where
  "within_record w st =
     (case map_of (kn_objects st) w of
        Some o' \<Rightarrow> (case ob_parent o' of Some p \<Rightarrow> p | None \<Rightarrow> w)
      | None \<Rightarrow> w)"

definition search_rows :: "'f floats \<Rightarrow> scope \<Rightarrow> 'f record_search \<Rightarrow> 'f filter_plan \<Rightarrow> 'f know \<Rightarrow> 'f object list" where
  "search_rows fl s q plan st =
     (let parts = candidate_rows fl s plan (rq_ids q) st
      in if rq_within q \<noteq> 0 then filter (\<lambda>o'. ob_parent o' = Some (within_record (rq_within q) st)) parts
         else if rq_ids q = [] then append_session_parts s parts st
         else parts)"

text \<open>A query whose embedding fails is answered by the words alone.\<close>

definition query_vector :: "'f embedding \<Rightarrow> 'f record_search \<Rightarrow> 'f list option" where
  "query_vector e q =
     (if rq_exact q then None else case embed_one e (rq_query q) of Inl err \<Rightarrow> None | Inr v \<Rightarrow> v)"

definition search_lists :: "'f::linorder search_env \<Rightarrow> 'f record_search \<Rightarrow> 'f object list \<Rightarrow> 'f scored list list" where
  "search_lists env q parts =
     lexical_scores (se_math env) (se_unicode env) (se_alnum env) parts (rq_query q) #
     (if rq_exact q then [trigram_scores (se_math env) (se_unicode env) parts (rq_query q)]
      else case query_vector (se_embedding env) q of
             Some vec \<Rightarrow> [vector_scores (se_math env) parts (embedding_model (se_embedding env)) vec]
           | None \<Rightarrow> [])"

definition math_arith :: "'f math \<Rightarrow> 'f arith" where
  "math_arith ma = \<lparr>ar_zero = ar_zero ma, ar_one = ar_one ma, ar_add = ar_add ma, ar_mul = ar_mul ma,
     ar_inverse = ar_inverse ma, ar_decay = ar_decay ma\<rparr>"

definition mem_search :: "'f::linorder search_env \<Rightarrow> scope \<Rightarrow> 'f record_search \<Rightarrow> 'f know \<Rightarrow> brain_error + 'f scored list" where
  "mem_search env s q st =
     (case scope_bad s of
        Some e \<Rightarrow> Inl e
      | None \<Rightarrow>
          (case filter_compile (se_times env) (rq_filters q) of
             Inl e \<Rightarrow> Inl (BadFilter e)
           | Inr plan \<Rightarrow>
               if trim_space (rq_query q) = []
               then Inr (list_records (ar_zero (se_math env)) (se_floats env) s plan (rq_ids q) (rq_limit q) st)
               else
                 let parts = search_rows (se_floats env) s q plan st;
                     fused = ranking_fuse (math_arith (se_math env)) (se_ranking env) (search_lists env q parts);
                     hits = (if rq_exact q then title_first (se_unicode env) fused (rq_query q) else fused)
                 in Inr (take (nat (rq_limit q)) hits)))"

section \<open>Hits come from rows the scope reads\<close>

lemma fuse_hit_keys: "fst ` set (fuse_hit ar k ri m) = insert (sd_id (snd ri)) (fst ` set m)"
  by (cases ri) (simp add: fuse_hit_def Let_def dom_update)

lemma fuse_hit_ids:
  "(\<forall>(i, a) \<in> set m. sd_id a = i) \<Longrightarrow> distinct (map fst m) \<Longrightarrow>
    (\<forall>(i, a) \<in> set (fuse_hit ar k ri m). sd_id a = i) \<and> distinct (map fst (fuse_hit ar k ri m))"
proof -
  assume ids: "\<forall>(i, a) \<in> set m. sd_id a = i" and d: "distinct (map fst m)"
  obtain rank item where ri: "ri = (rank, item)" by (cases ri)
  define a where "a = (case map_of m (sd_id item) of Some a \<Rightarrow> a | None \<Rightarrow> first_hit ar item)"
  have a: "sd_id a = sd_id item"
    using ids by (auto simp: a_def first_hit_def dest: map_of_SomeD split: option.splits)
  have step: "fuse_hit ar k ri m = AList.update (sd_id item) (merge_hit ar k rank item a) m"
    by (simp add: fuse_hit_def ri a_def Let_def)
  have d': "distinct (map fst (fuse_hit ar k ri m))" using d by (simp add: step distinct_update)
  have "sd_id b = i" if "(i, b) \<in> set (fuse_hit ar k ri m)" for i b
  proof -
    have "map_of (fuse_hit ar k ri m) i = Some b" using that d' by simp
    then show ?thesis using ids a by (auto simp: step update_conv' merge_hit_def dest: map_of_SomeD split: if_splits)
  qed
  then show ?thesis using d' by auto
qed

lemma fuse_ranks_ids:
  "distinct (map sd_id (fuse_ranks ar ls k)) \<and> sd_id ` set (fuse_ranks ar ls k) = (\<Union>l \<in> set ls. sd_id ` set l)"
proof -
  define xs where "xs = concat (map ranked ls)"
  define m where "m = fold (fuse_hit ar (rrfk_or k)) xs []"
  have "(\<forall>(i, a) \<in> set m0. sd_id a = i) \<and> distinct (map fst m0) \<Longrightarrow>
    (\<forall>(i, a) \<in> set (fold (fuse_hit ar (rrfk_or k)) xs m0). sd_id a = i)
    \<and> distinct (map fst (fold (fuse_hit ar (rrfk_or k)) xs m0))
    \<and> fst ` set (fold (fuse_hit ar (rrfk_or k)) xs m0) = fst ` set m0 \<union> sd_id ` snd ` set xs" for m0
  proof (induction xs arbitrary: m0)
    case (Cons x xs)
    then show ?case using fuse_hit_ids [of m0 ar "rrfk_or k" x] fuse_hit_keys [of ar "rrfk_or k" x m0] by simp
  qed simp
  from this [of "[]"] have m: "\<forall>(i, a) \<in> set m. sd_id a = i" "distinct (map fst m)" "fst ` set m = sd_id ` snd ` set xs"
    by (simp_all add: m_def)
  have names: "map sd_id (map snd m) = map fst m" using m(1) by auto
  have "snd ` set xs = (\<Union>l \<in> set ls. set l)" by (auto simp: xs_def image_UN set_ranked)
  then have "sd_id ` snd ` set xs = (\<Union>l \<in> set ls. sd_id ` set l)" by (simp only: image_UN)
  moreover have "sd_id ` set (map snd m) = fst ` set m" using names by (metis list.set_map)
  moreover have "fuse_ranks ar ls k = map snd m" by (simp add: fuse_ranks_def m_def xs_def)
  ultimately show ?thesis using m(2,3) names by (simp only:)
qed

lemma ranking_fuse_ids:
  "distinct (map sd_id (ranking_fuse ar r ls)) \<and> sd_id ` set (ranking_fuse ar r ls) = (\<Union>l \<in> set ls. sd_id ` set l)"
proof -
  have aged: "sd_id ` set (apply_temporal ar l n xs) = sd_id ` set xs" for l n xs
    by (simp add: apply_temporal_def image_comp comp_def)
  show ?thesis
    using fuse_ranks_ids [of ar "map (\<lambda>l. sort_scored (apply_temporal ar (rk_decay r) (rk_now r) l)) ls" "rk_k r"]
      fuse_ranks_ids [of ar ls "rk_k r"]
    by (simp add: ranking_fuse_def sort_scored_def Let_def aged)
qed

lemma scored_ids: "sd_id (object_scored obj x) = ob_id obj"
  by (simp add: object_scored_def)

lemma channel_ids:
  "sd_id ` set (lexical_scores ma u alnum parts query) \<subseteq> ob_id ` set parts"
  "sd_id ` set (vector_scores ma parts model vec) \<subseteq> ob_id ` set parts"
  "sd_id ` set (trigram_scores ma u parts query) \<subseteq> ob_id ` set parts"
  by (auto simp: lexical_scores_def vector_scores_def trigram_scores_def sort_scored_def Let_def scored_ids)

lemma search_lists_ids:
  assumes "l \<in> set (search_lists env q parts)" "h \<in> set l"
  shows "sd_id h \<in> ob_id ` set parts"
proof -
  have "list_all (\<lambda>l. sd_id ` set l \<subseteq> ob_id ` set parts) (search_lists env q parts)"
    by (simp add: search_lists_def channel_ids split: option.split)
  then have "sd_id ` set l \<subseteq> ob_id ` set parts" using assms(1) by (simp only: list_all_iff)
  then show ?thesis using assms(2) by blast
qed

text \<open>The rows a hit may come from: an object the scope reads, or a message of its own session.\<close>

definition visible_row :: "scope \<Rightarrow> 'f know \<Rightarrow> uuid \<Rightarrow> bool" where
  "visible_row s st i \<longleftrightarrow>
     (\<exists>obj \<in> snd ` set (kn_objects st). ob_id obj = i \<and> ob_deleted obj = None \<and> scope_reads s obj)
     \<or> trim_space (sc_session s) \<noteq> [] \<and>
       (\<exists>row \<in> snd ` set (kn_msgs st). sr_id row = i \<and> sr_namespace row = for_session (sc_namespace s) (sc_session s))"

lemma visible_obj:
  "obj \<in> snd ` set (kn_objects st) \<Longrightarrow> ob_deleted obj = None \<Longrightarrow> scope_reads s obj \<Longrightarrow> visible_row s st (ob_id obj)"
  unfolding visible_row_def by blast

lemma list_records_visible:
  assumes "h \<in> set (list_records z fl s plan ids lim st)"
  shows "visible_row s st (sd_id h)"
proof -
  from assms obtain obj where obj: "h = object_scored obj z" "obj \<in> snd ` set (kn_objects st)" "ob_deleted obj = None" "scope_reads s obj"
    unfolding list_records_def by (auto dest!: in_set_takeD)
  then show ?thesis using visible_obj [of obj st s] by (simp add: scored_ids)
qed

lemma search_rows_visible: "obj \<in> set (search_rows fl s q plan st) \<Longrightarrow> visible_row s st (ob_id obj)"
proof -
  assume obj: "obj \<in> set (search_rows fl s q plan st)"
  show ?thesis
  proof (cases "obj \<in> set (candidate_rows fl s plan (rq_ids q) st)")
    case True
    then show ?thesis by (auto simp: candidate_rows_def visible_row_def)
  next
    case False
    with obj obtain row where row: "row \<in> set (session_rows s st)" "ob_id obj = sr_id row"
      by (auto simp: search_rows_def append_session_parts_def row_object_def Let_def split: if_splits)
    then have "trim_space (sc_session s) \<noteq> []" "row \<in> snd ` set (kn_msgs st)"
        "sr_namespace row = for_session (sc_namespace s) (sc_session s)"
      by (auto simp: session_rows_def split: if_splits)
    then show ?thesis unfolding visible_row_def row(2) by blast
  qed
qed

text \<open>
  C18. Search never shows a row the scope cannot read: whatever the query, the filters and the
  ranking, every hit is a live object whose namespace the scope covers and whose readers share
  a principal with it, or a saved message of the scope's own session in its own namespace; no
  row comes twice, and there are at most as many hits as asked for.\<close>

theorem search_stays_visible:
  assumes "mem_search env s q st = Inr hits"
    and "distinct (map ob_id (map snd (kn_objects st)))"
  shows "(\<forall>h \<in> set hits. visible_row s st (sd_id h)) \<and> distinct (map sd_id hits) \<and> length hits \<le> nat (rq_limit q)"
proof (cases "trim_space (rq_query q) = []")
  case True
  from assms(1) True obtain plan where
    "hits = list_records (ar_zero (se_math env)) (se_floats env) s plan (rq_ids q) (rq_limit q) st"
    by (auto simp: mem_search_def split: option.splits sum.splits)
  moreover have "distinct (map sd_id (list_records z fl s plan ids lim st))" for z fl plan ids lim
  proof -
    have "map sd_id (list_records z fl s plan ids lim st) = take (nat lim) (map ob_id (sort_by newest_le
        (filter (\<lambda>obj. ob_parent obj = None \<and> ob_deleted obj = None \<and> scope_reads s obj \<and> plan_match fl plan obj \<and> among_ids ids (ob_id obj))
          (map snd (kn_objects st)))))"
      by (simp add: list_records_def comp_def scored_ids take_map)
    then show ?thesis using assms(2) by (simp only: distinct_take distinct_map_sort_by distinct_map_filter)
  qed
  ultimately show ?thesis using list_records_visible [of _ "ar_zero (se_math env)" "se_floats env" s plan "rq_ids q" "rq_limit q" st]
    by (simp only: conj_assoc) (simp add: list_records_def)
next
  case False
  from assms(1) False obtain plan where hits: "hits = take (nat (rq_limit q))
      (let fused = ranking_fuse (math_arith (se_math env)) (se_ranking env) (search_lists env q (search_rows (se_floats env) s q plan st))
       in if rq_exact q then title_first (se_unicode env) fused (rq_query q) else fused)"
    by (auto simp: mem_search_def Let_def split: option.splits sum.splits)
  let ?fused = "ranking_fuse (math_arith (se_math env)) (se_ranking env) (search_lists env q (search_rows (se_floats env) s q plan st))"
  note ids = ranking_fuse_ids [of "math_arith (se_math env)" "se_ranking env" "search_lists env q (search_rows (se_floats env) s q plan st)"]
  have vis: "visible_row s st (sd_id h)" if hm: "h \<in> set ?fused" for h
  proof -
    obtain l h' where "l \<in> set (search_lists env q (search_rows (se_floats env) s q plan st))" "h' \<in> set l" "sd_id h' = sd_id h"
    proof -
      have "sd_id h \<in> (\<Union>l \<in> set (search_lists env q (search_rows (se_floats env) s q plan st)). sd_id ` set l)"
        using ids hm by blast
      then show ?thesis using that by auto
    qed
    then show ?thesis using search_lists_ids search_rows_visible by fastforce
  qed
  define out where "out = (if rq_exact q then title_first (se_unicode env) ?fused (rq_query q) else ?fused)"
  have "mset out = mset ?fused" by (simp add: out_def title_first_def Let_def)
  then have "set out = set ?fused" "distinct (map sd_id out)"
    using ids by (metis mset_eq_setD, metis mset_eq_imp_distinct_iff mset_map)
  moreover have "hits = take (nat (rq_limit q)) out" by (simp add: hits out_def Let_def)
  ultimately show ?thesis using vis by (auto simp: take_map [symmetric] dest: in_set_takeD)
qed

definition demo_math :: "int math" where
  "demo_math = \<lparr>ar_zero = 0, ar_one = 1, ar_add = (+), ar_mul = (*), ar_inverse = (\<lambda>n. 1000 div n), ar_decay = (\<lambda>l t. 1),
     ma_div = (div), ma_log = id, ma_sqrt = id, ma_nat = int, ma_round32 = id\<rparr>"

definition demo_env :: "int search_env" where
  "demo_env = \<lparr>se_math = demo_math, se_floats = demo_floats, se_times = demo_times, se_unicode = demo_tables,
     se_alnum = ascii_word, se_embedding = no_embedding, se_ranking = \<lparr>rk_k = 0, rk_decay = 0, rk_now = 1\<rparr>\<rparr>"

definition demo_query :: "int record_search" where
  "demo_query = \<lparr>rq_query = [], rq_filters = no_filter, rq_exact = False, rq_within = 0, rq_ids = [], rq_limit = 5\<rparr>"

lemma demo_search: "mem_search demo_env demo_scope demo_query demo_know = Inr [object_scored demo_object 0]"
proof -
  have "filter_compile demo_times (no_filter :: int filter_spec) = Inr []"
    by (simp add: filter_compile_def filter_validate_def filter_times_def filter_empty_def match_set_def no_match_def no_filter_def)
  then show ?thesis using demo_reads
    by (simp add: mem_search_def demo_scopes_ok demo_env_def demo_query_def list_records_def demo_know_def demo_math_def
        plan_match_def among_ids_def sort_by_def) (simp add: demo_object_def zero_object_def)
qed

theorem search_stays_visible_witness: "visible_row demo_scope demo_know 5"
  using search_stays_visible [OF demo_search]
  by (simp add: demo_know_def object_scored_def) (simp add: demo_object_def)

end
