(* ===== verification/Knowledge_Laws.thy ===== *)
theory Knowledge_Laws
  imports Knowledge_Search
begin

text \<open>
  What the knowledge store promises (brain/store.go), as the locale \<open>knowledge_store\<close>, and that
  the store in memory keeps it: reads stay in scope, a write changes one row that its scope
  could see, tenants do not see each other's writes. Then what is particular to MemoryStore:
  the atomic tree write, deletes that take the parts along, and two places where it departs
  from the interface's text.
\<close>

section \<open>The interface\<close>

locale knowledge_store =
  fixes get :: "scope \<Rightarrow> uuid \<Rightarrow> 's \<Rightarrow> 'e + 'f object"
    and put :: "scope \<Rightarrow> 'f indexed \<Rightarrow> 's \<Rightarrow> ('e + 'f object) \<times> 's"
    and good :: "'s \<Rightarrow> bool"
  assumes get_reads: "good st \<Longrightarrow> sc_session s = [] \<Longrightarrow> get s i st = Inr obj \<Longrightarrow> ob_id obj = i \<and> scope_reads s obj"
    and get_missing: "get s i st = Inl e \<Longrightarrow> get s i st' = Inl e' \<Longrightarrow> e = e'"
    and put_good: "good st \<Longrightarrow> put s x st = (r, st') \<Longrightarrow> good st'"
    and put_fails: "put s x st = (Inl e, st') \<Longrightarrow> st' = st"
    and put_covers: "put s x st = (Inr obj, st') \<Longrightarrow> ns_covers (sc_namespace s) (ob_namespace obj)"
    and put_guards: "good st \<Longrightarrow> put s x st = (Inr obj, st') \<Longrightarrow> sc_session s' = [] \<Longrightarrow>
      get s' (ob_id obj) st = Inr old \<Longrightarrow> scope_reads s old"
    and put_stores: "good st \<Longrightarrow> put s x st = (Inr obj, st') \<Longrightarrow> sc_session s' = [] \<Longrightarrow>
      get s' (ob_id obj) st' = Inr obj' \<Longrightarrow> obj' = obj"
    and put_frame: "put s x st = (Inr obj, st') \<Longrightarrow> i \<noteq> ob_id obj \<Longrightarrow> get s' i st' = get s' i st"
begin

text \<open>Whatever a scope writes, a scope of another tenant reads as before.\<close>

lemma put_other_tenant:
  assumes "good st" "put s x st = (r, st')" "sc_session s' = []"
    and "ns_tenant (sc_namespace s) \<noteq> ns_tenant (sc_namespace s')"
  shows "get s' i st' = get s' i st"
proof (cases r)
  case (Inl e)
  then have "st' = st" using put_fails assms(2) by blast
  then show ?thesis by simp
next
  case (Inr obj)
  note put = assms(2) [unfolded Inr]
  have sees: "ns_tenant (sc_namespace s') = ns_tenant (ob_namespace o')" if "scope_reads s' o'" for o' :: "'b object"
    using that ns_covers_tenant by (auto simp: scope_reads_def can_read_def split: if_splits)
  have writes: "ns_tenant (sc_namespace s) = ns_tenant (ob_namespace o')" if "scope_reads s o'" for o' :: "'b object"
    using that ns_covers_tenant by (auto simp: scope_reads_def can_read_def split: if_splits)
  show ?thesis
  proof (cases "i = ob_id obj")
    case False
    then show ?thesis using put_frame [OF put] by simp
  next
    case True
    have before: "\<exists>e. get s' i st = Inl e"
    proof (cases "get s' i st")
      case (Inr old)
      then have old: "get s' (ob_id obj) st = Inr old" using True by simp
      have "scope_reads s old" "scope_reads s' old"
        using put_guards [OF assms(1) put assms(3) old] get_reads [OF assms(1,3) old] by simp_all
      then show ?thesis using sees [of old] writes [of old] assms(4) by simp
    qed simp
    have after: "\<exists>e. get s' i st' = Inl e"
    proof (cases "get s' i st'")
      case (Inr o')
      then have o': "get s' (ob_id obj) st' = Inr o'" using True by simp
      have "scope_reads s' o'" "o' = obj"
        using get_reads [OF put_good [OF assms(1,2)] assms(3) o'] put_stores [OF assms(1) put assms(3) o'] by simp_all
      moreover have "ns_tenant (sc_namespace s) = ns_tenant (ob_namespace obj)"
        using put_covers [OF put] ns_covers_tenant by blast
      ultimately show ?thesis using sees [of obj] assms(4) by simp
    qed simp
    from before after obtain e e' where e: "get s' i st = Inl e" "get s' i st' = Inl e'" by blast
    then show ?thesis using get_missing [OF e] by simp
  qed
qed

fun puts :: "scope \<Rightarrow> 'f indexed list \<Rightarrow> 's \<Rightarrow> 's" where
  "puts s [] st = st"
| "puts s (x # xs) st = puts s xs (snd (put s x st))"

lemma puts_other_tenant:
  assumes "good st" "sc_session s' = []" "ns_tenant (sc_namespace s) \<noteq> ns_tenant (sc_namespace s')"
  shows "get s' i (puts s xs st) = get s' i st"
  using assms(1)
proof (induction xs arbitrary: st)
  case (Cons x xs)
  obtain r st' where put: "put s x st = (r, st')" by (cases "put s x st")
  have "get s' i (puts s xs st') = get s' i st'" using Cons put_good [OF Cons.prems put] by simp
  then show ?case using put_other_tenant [OF Cons.prems put assms(2,3)] put by simp
qed simp

end

section \<open>The store in memory keeps it\<close>

definition know_good :: "'f know \<Rightarrow> bool" where
  "know_good st \<longleftrightarrow> distinct (map fst (kn_objects st)) \<and> (\<forall>(i, obj) \<in> set (kn_objects st). ob_id obj = i)"

lemma know_good_at: "know_good st \<Longrightarrow> map_of (kn_objects st) i = Some obj \<Longrightarrow> ob_id obj = i"
  by (auto simp: know_good_def dest: map_of_SomeD)

lemma stamped_simps [simp]:
  "ob_id (stamped now obj) = ob_id obj" "ob_namespace (stamped now obj) = ob_namespace obj"
  "ob_readers (stamped now obj) = ob_readers obj" "ob_parent (stamped now obj) = ob_parent obj"
  "ob_deleted (stamped now obj) = ob_deleted obj" "ob_position (stamped now obj) = ob_position obj"
  by (simp_all add: stamped_def)

lemma store_object_get:
  "map_of (kn_objects (snd (store_object now obj st))) i =
    (if i = ob_id obj then Some (stamped now obj) else map_of (kn_objects st) i)"
  by (simp add: store_object_def update_conv')

lemma store_object_good: "know_good st \<Longrightarrow> know_good (snd (store_object now obj st))"
proof -
  assume g: "know_good st"
  have d: "distinct (map fst (AList.update (ob_id obj) (stamped now obj) (kn_objects st)))"
    using g by (simp add: know_good_def distinct_update)
  have "ob_id b = i" if "(i, b) \<in> set (AList.update (ob_id obj) (stamped now obj) (kn_objects st))" for i b
  proof -
    have "map_of (AList.update (ob_id obj) (stamped now obj) (kn_objects st)) i = Some b" using that d by simp
    then show ?thesis using know_good_at [OF g] by (auto simp: update_conv' split: if_splits)
  qed
  then show ?thesis using d by (auto simp: know_good_def store_object_def)
qed

lemma check_put_None:
  "check_put s obj st = None \<longleftrightarrow> scope_bad s = None \<and> validate_identity obj = None
    \<and> ns_covers (sc_namespace s) (ob_namespace obj)
    \<and> (\<forall>old. map_of (kn_objects st) (ob_id obj) = Some old \<longrightarrow> scope_reads s old)"
  by (auto simp: check_put_def split: option.splits)

lemma mem_put_Inr:
  assumes "mem_put e now s x st = (Inr o', st')"
  shows "\<exists>obj. check_put s obj st = None \<and> o' = stamped now obj \<and> st' = snd (store_object now obj st)"
proof -
  from assms obtain obj where "indexed_object e x = Inr obj" "check_put s obj st = None"
      "store_object now obj st = (o', st')"
    by (auto simp: mem_put_def split: sum.splits option.splits prod.splits)
  then show ?thesis by (intro exI [of _ obj]) (auto simp: store_object_def)
qed

lemma mem_put_Inl: "mem_put e now s x st = (Inl err, st') \<Longrightarrow> st' = st"
  by (auto simp: mem_put_def split: sum.splits option.splits prod.splits)

lemma mem_get_plain:
  assumes "sc_session s = []"
  shows "mem_get s i st =
    (case scope_bad s of
       Some e \<Rightarrow> Inl e
     | None \<Rightarrow> (case map_of (kn_objects st) i of
                  Some obj \<Rightarrow> if ob_deleted obj = None \<and> scope_reads s obj then Inr obj else Inl (NotFoundErr i)
                | None \<Rightarrow> Inl (NotFoundErr i)))"
  using assms by (simp add: mem_get_def get_locked_def split: option.splits)

lemma mem_get_frame:
  assumes "map_of (kn_objects st') i = map_of (kn_objects st) i" "kn_msgs st' = kn_msgs st"
  shows "mem_get s i st' = mem_get s i st"
  by (simp only: mem_get_def get_locked_def assms)

lemma mem_get_error: "mem_get s i st = Inl err \<Longrightarrow> err = (case scope_bad s of Some e \<Rightarrow> e | None \<Rightarrow> NotFoundErr i)"
  by (auto simp: mem_get_def get_locked_def Let_def split: option.splits if_splits)

interpretation know_memory: knowledge_store mem_get "\<lambda>s x. mem_put e now s x" know_good
proof unfold_locales
  fix st s i obj
  assume "know_good st" "sc_session s = []" "mem_get s i st = Inr (obj :: 'a object)"
  then show "ob_id obj = i \<and> scope_reads s obj"
    using know_good_at by (auto simp: mem_get_plain split: option.splits if_splits)
next
  fix s i st err st' err'
  assume "mem_get s i (st :: 'a know) = Inl err" "mem_get s i st' = Inl err'"
  then show "err = err'" using mem_get_error by metis
next
  fix st s x r st'
  assume g: "know_good st" and put: "mem_put e now s x st = (r, st')"
  show "know_good st'"
  proof (cases r)
    case (Inl err)
    then show ?thesis using mem_put_Inl put g by blast
  next
    case (Inr o')
    then show ?thesis using mem_put_Inr put store_object_good [OF g] by blast
  qed
next
  fix s x st err st'
  assume "mem_put e now s x st = (Inl err, st')"
  then show "st' = st" by (rule mem_put_Inl)
next
  fix s x st obj st'
  assume "mem_put e now s x st = (Inr obj, st')"
  then show "ns_covers (sc_namespace s) (ob_namespace obj)"
    using mem_put_Inr by (fastforce simp: check_put_None)
next
  fix st s x obj st' s' old
  assume "mem_put e now s x st = (Inr obj, st')" "sc_session s' = []" "mem_get s' (ob_id obj) st = Inr old"
  then show "scope_reads s old"
    using mem_put_Inr by (fastforce simp: check_put_None mem_get_plain split: option.splits if_splits)
next
  fix st s x obj st' s' obj'
  assume put: "mem_put e now s x st = (Inr obj, st')" and s': "sc_session s' = []"
    and get: "mem_get s' (ob_id obj) st' = Inr obj'"
  from mem_put_Inr [OF put] obtain o1 where "obj = stamped now o1" "st' = snd (store_object now o1 st)" by blast
  then have "map_of (kn_objects st') (ob_id obj) = Some obj" by (simp add: store_object_get)
  then show "obj' = obj" using get s' by (auto simp: mem_get_plain split: option.splits if_splits)
next
  fix s x st obj st' i s'
  assume put: "mem_put e now s x st = (Inr obj, st')" and i: "i \<noteq> ob_id obj"
  from mem_put_Inr [OF put] obtain o1 where o1: "obj = stamped now o1" "st' = snd (store_object now o1 st)" by blast
  then have "map_of (kn_objects st') i = map_of (kn_objects st) i" using i by (simp add: store_object_get)
  moreover have "kn_msgs st' = kn_msgs st" using o1 by (simp add: store_object_def)
  ultimately show "mem_get s' i st' = mem_get s' i st" by (rule mem_get_frame)
qed

definition mem_puts :: "'f embedding \<Rightarrow> time \<Rightarrow> scope \<Rightarrow> 'f indexed list \<Rightarrow> 'f know \<Rightarrow> 'f know" where
  "mem_puts e now s xs st = fold (\<lambda>x st. snd (mem_put e now s x st)) xs st"

lemma mem_puts_memory: "mem_puts e now s xs st = know_memory.puts e now s xs st"
  by (induction xs arbitrary: st) (simp_all add: mem_puts_def)

text \<open>
  Tenants are isolated: any sequence of puts under a scope, accepted or refused and whatever
  ids, namespaces and readers the objects claim, leaves every read by id of a scope of another
  tenant as it was, found or missing.\<close>

lemma tenants_isolated:
  assumes "know_good st" and "sc_session s' = []"
    and "ns_tenant (sc_namespace s) \<noteq> ns_tenant (sc_namespace s')"
  shows "mem_get s' i (mem_puts e now s xs st) = mem_get s' i st"
  unfolding mem_puts_memory by (rule know_memory.puts_other_tenant [OF assms])

lemma demo_know_good: "know_good demo_know"
  by (simp add: know_good_def demo_know_def demo_object_def)

section \<open>A put is read back\<close>

text \<open>
  What is put is read: when the put is accepted and its scope may read the object it stored
  (it holds one of its readers, if it has any), a get under that scope returns exactly the
  stored object, stamped with the time; and a get under a broader or another scope that reads
  it returns the same.\<close>

lemma put_then_get:
  assumes "mem_put e now s x st = (Inr obj, st')" and "ob_deleted (ix_object x) = None"
    and "scope_reads s' obj" and "scope_bad s' = None"
  shows "mem_get s' (ob_id obj) st' = Inr obj
    \<and> ob_id obj = ob_id (ix_object x) \<and> ob_content obj = ob_content (ix_object x) \<and> ob_props obj = ob_props (ix_object x)"
proof -
  from assms(1) obtain o1 where o1: "indexed_object e x = Inr o1" "obj = stamped now o1" "st' = snd (store_object now o1 st)"
    by (auto simp: mem_put_def store_object_def split: sum.splits option.splits prod.splits)
  then have m: "map_of (kn_objects st') (ob_id obj) = Some obj" by (simp add: store_object_get)
  from o1(1) obtain vec where "o1 = (ix_object x)\<lparr>ob_embedding := vec, ob_model := (if vec \<noteq> None then embedding_model e else [])\<rparr>"
    by (auto simp: indexed_object_def split: sum.splits)
  then have f: "ob_deleted obj = None" "ob_id obj = ob_id (ix_object x)" "ob_content obj = ob_content (ix_object x)"
      "ob_props obj = ob_props (ix_object x)"
    using assms(2) o1(2) by (simp_all add: stamped_def)
  have "mem_get s' (ob_id obj) st' = Inr obj"
    using m f(1) assms(3,4) by (simp add: mem_get_def get_locked_def)
  then show ?thesis using f by blast
qed

lemma demo_put:
  "mem_put no_embedding 1 demo_scope \<lparr>ix_object = demo_object, ix_text = []\<rparr> new_know =
    (Inr (stamped 1 demo_object), snd (store_object 1 demo_object new_know))"
proof -
  have e: "indexed_object no_embedding \<lparr>ix_object = demo_object, ix_text = []\<rparr> = Inr demo_object"
    by (simp add: indexed_object_def embed_one_def demo_object_def zero_object_def)
  have "validate_identity demo_object = None"
    using demo_attrs_ok by (simp add: validate_identity_def demo_object_def plain_eval)
  moreover have "ns_covers (sc_namespace demo_scope) (ob_namespace demo_object)"
    by (simp add: demo_object_def demo_scope_def ns_covers_def)
  ultimately have "check_put demo_scope demo_object new_know = None"
    by (simp add: check_put_None demo_scopes_ok new_know_def)
  then show ?thesis by (simp add: mem_put_def e store_object_def)
qed

section \<open>Soft deletes take the parts along\<close>

lemma delete_row_map:
  "map_of (map (delete_row i now) m) j = map_option (\<lambda>obj. snd (delete_row i now (j, obj))) (map_of m j)"
  by (induction m) (auto simp: delete_row_def)

text \<open>
  A record deleted under a scope is gone with its parts, for every scope, and every other row
  is as it was; a scope that cannot read the record deletes nothing.
\<close>

lemma soft_delete_takes_parts:
  assumes "mem_soft_delete now s i st = (err, st')"
  shows "case err of
      Some e \<Rightarrow> st' = st
    | None \<Rightarrow> (\<exists>obj. map_of (kn_objects st) i = Some obj \<and> scope_reads s obj)
        \<and> (\<forall>j obj. map_of (kn_objects st') j = Some obj \<and> (j = i \<or> ob_parent obj = Some i) \<longrightarrow> ob_deleted obj \<noteq> None)
        \<and> (\<forall>j. j \<noteq> i \<and> (\<forall>obj. map_of (kn_objects st) j = Some obj \<longrightarrow> ob_parent obj \<noteq> Some i) \<longrightarrow>
             map_of (kn_objects st') j = map_of (kn_objects st) j)"
proof (cases err)
  case (Some e)
  then show ?thesis using assms by (auto simp: mem_soft_delete_def split: option.splits if_splits)
next
  case None
  with assms obtain obj where obj: "map_of (kn_objects st) i = Some obj" "scope_reads s obj"
      "st' = st\<lparr>kn_objects := map (delete_row i now) (kn_objects st)\<rparr>"
    by (auto simp: mem_soft_delete_def split: option.splits if_splits)
  have at: "map_of (kn_objects st') j = map_option (\<lambda>o'. snd (delete_row i now (j, o'))) (map_of (kn_objects st) j)" for j
    unfolding obj(3) by (simp add: delete_row_map)
  have "ob_deleted o' \<noteq> None" if "map_of (kn_objects st') j = Some o'" "j = i \<or> ob_parent o' = Some i" for j o'
  proof -
    from that(1) obtain old where "map_of (kn_objects st) j = Some old" "o' = snd (delete_row i now (j, old))"
      unfolding at by auto
    then show ?thesis using that(2) by (auto simp: delete_row_def split: if_splits)
  qed
  moreover have "map_of (kn_objects st') j = map_of (kn_objects st) j"
    if "j \<noteq> i" "\<forall>obj. map_of (kn_objects st) j = Some obj \<longrightarrow> ob_parent obj \<noteq> Some i" for j
    using that unfolding at by (cases "map_of (kn_objects st) j") (auto simp: delete_row_def)
  ultimately show ?thesis using None obj by auto
qed

section \<open>Where the store departs from its interface\<close>

text \<open>
  Erase says readers do not limit it; MemoryStore keeps every row under the scope that its
  principals cannot read.
\<close>

lemma erase_keeps_hidden:
  assumes "mem_erase s st = (Inr ids, st')" "(i, obj) \<in> set (kn_objects st)" "distinct (map fst (kn_objects st))"
    and "\<not> scope_reads s obj"
  shows "(i, obj) \<in> set (kn_objects st')"
proof -
  have "st' = st\<lparr>kn_objects := without_keys (\<lambda>j. j \<in> fst ` set (filter (\<lambda>(i, obj). scope_reads s obj) (kn_objects st))) (kn_objects st),
                 kn_revs := without_keys (\<lambda>j. j \<in> fst ` set (filter (\<lambda>(i, obj). scope_reads s obj) (kn_objects st))) (kn_revs st),
                 kn_msgs := filter (\<lambda>(i, row). \<not> ns_covers (sc_namespace s) (sr_namespace row)) (kn_msgs st)\<rparr>"
    using assms(1) by (auto simp: mem_erase_def Let_def split: option.splits)
  moreover have "i \<notin> fst ` set (filter (\<lambda>(i, obj). scope_reads s obj) (kn_objects st))"
  proof
    assume "i \<in> fst ` set (filter (\<lambda>(i, obj). scope_reads s obj) (kn_objects st))"
    then obtain o' where "(i, o') \<in> set (kn_objects st)" "scope_reads s o'" by auto
    then show False using assms(2-4) by (metis map_of_is_SomeI option.inject)
  qed
  ultimately show ?thesis using assms(2) by (simp add: without_keys_def)
qed

text \<open>
  C37. A saved session message can be read across tenants: MemoryStore's get by id looks only at
  the session id of a scope. A message saved under one tenant's host is returned, whole, to a
  scope of any other tenant that carries the same session id, though that scope does not cover
  the row's namespace.\<close>

theorem session_message_crosses_tenants:
  assumes "save_session_messages quote e now fresh host sid key [msg] new_know = (Inr gen, st)"
    and "trim_space (sc_session s) = trim_space sid" and "scope_bad s = None"
    and "ns_tenant (sc_namespace s) \<noteq> ns_tenant host"
  shows "\<exists>obj. mem_get s (fresh 0) st = Inr obj \<and> ob_content obj = sg_body msg \<and> \<not> scope_reads s obj"
proof -
  have host: "host \<noteq> []" and sid: "trim_space sid \<noteq> []"
    using assms(1) by (auto simp: save_session_messages_def ns_validate_None Let_def split: if_splits option.splits)
  obtain vec where st: "st = new_know\<lparr>kn_msgs := [(fresh 0, message_row e now (for_session host (trim_space sid))
        (trim_space sid) (trim_space key) 1 (fresh 0) 0 msg vec)], kn_keys := kn_keys st\<rparr>"
    using assms(1)
    by (auto simp: save_session_messages_def new_know_def next_generation_def ranked_def Let_def split: if_splits option.splits)
  define row where "row = message_row e now (for_session host (trim_space sid)) (trim_space sid) (trim_space key) 1 (fresh 0) 0 msg vec"
  have row: "sr_session row = trim_space sid" "sr_body row = sg_body msg" "sr_namespace row = for_session host (trim_space sid)"
    by (simp_all add: row_def message_row_def)
  have "map_of (kn_msgs st) (fresh 0) = Some row" "kn_objects st = []"
    by (subst st, simp add: row_def) (subst st, simp add: new_know_def)
  then have get: "mem_get s (fresh 0) st = Inr (row_object row)"
    using assms(2,3) sid row by (simp add: mem_get_def get_locked_def)
  have "ns_tenant (for_session host (trim_space sid)) = ns_tenant host"
    using host by (cases host) (simp_all add: ns_tenant_def for_session_def)
  then have "\<not> ns_covers (sc_namespace s) (for_session host (trim_space sid))"
    using assms(4) ns_covers_tenant by metis
  then have "\<not> scope_reads s (row_object row)" by (simp add: scope_reads_def can_read_def row_object_def row)
  then show ?thesis using get row by (simp add: row_object_def)
qed

definition demo_message :: session_message where
  "demo_message = \<lparr>sg_role = ''user'', sg_body = ''secret'', sg_text = []\<rparr>"

lemma demo_save:
  "\<exists>st. save_session_messages id no_embedding 1 (\<lambda>i. 9) [demo_org] ''s1'' ''k'' [demo_message] new_know = (Inr 1, st)"
  using demo_attrs_ok
  by (simp add: save_session_messages_def new_know_def next_generation_def plain_eval Let_def)

theorem session_message_crosses_tenants_witness:
  "\<exists>st obj. mem_get \<lparr>sc_namespace = [demo_room], sc_principals = [], sc_session = ''s1''\<rparr> 9 st = Inr obj
    \<and> ob_content obj = ''secret'' \<and> (st :: int know) = snd (save_session_messages id no_embedding 1 (\<lambda>i. 9) [demo_org] ''s1'' ''k'' [demo_message] new_know)"
proof -
  obtain st where st: "save_session_messages id no_embedding 1 (\<lambda>i. 9) [demo_org] ''s1'' ''k'' [demo_message] new_know = (Inr 1, st)"
    using demo_save by blast
  have "scope_bad \<lparr>sc_namespace = [demo_room], sc_principals = [], sc_session = ''s1''\<rparr> = None"
    by (simp add: scope_bad_def demo_attrs_ok)
  moreover have "ns_tenant [demo_room] \<noteq> ns_tenant [demo_org]" by (simp add: ns_tenant_def demo_ns)
  ultimately have "\<exists>obj. mem_get \<lparr>sc_namespace = [demo_room], sc_principals = [], sc_session = ''s1''\<rparr> 9 st = Inr obj
      \<and> ob_content obj = sg_body demo_message"
    using session_message_crosses_tenants [OF st, of "\<lparr>sc_namespace = [demo_room], sc_principals = [], sc_session = ''s1''\<rparr>"] by auto
  then show ?thesis using st by (auto simp: demo_message_def)
qed

end
