(* ===== verification/Index_Text.thy ===== *)
theory Index_Text
  imports Knowledge_Laws
begin

text \<open>
  What a save makes of an object before the store sees it (brain/write.go): the text an object is
  indexed by, and its validation against the catalog of kinds. A map of properties is visited
  in the order of its list, sorted where the code sorts. The text of a number is strconv's, a
  parameter (\<open>fl_text\<close>).
\<close>

section \<open>Index text\<close>

definition is_reserved_prop :: "string \<Rightarrow> bool" where
  "is_reserved_prop name \<longleftrightarrow> name = ''slug'' \<or> name = ''vfs_path''"

definition skip_index_property :: "string \<Rightarrow> kind_spec option \<Rightarrow> bool" where
  "skip_index_property name spec =
     (if is_reserved_prop name then True
      else case spec of
             None \<Rightarrow> False
           | Some k \<Rightarrow> (case spec_field k name of None \<Rightarrow> False | Some f \<Rightarrow> fs_skip_index f))"

definition format_property_line :: "'f floats \<Rightarrow> string \<Rightarrow> 'f any \<Rightarrow> string" where
  "format_property_line fl key0 v =
     (let key = trim_space key0
      in if key = [] then []
         else case v of
                VStr x \<Rightarrow> (let t = trim_space x in if t = [] then [] else key @ '': '' @ t)
              | VBool b \<Rightarrow> key @ '': '' @ (if b then ''true'' else ''false'')
              | VFloat x \<Rightarrow> key @ '': '' @ fl_text fl x
              | VInt n \<Rightarrow> key @ '': '' @ itoa n
              | VNumber s \<Rightarrow> key @ '': '' @ s
              | _ \<Rightarrow> [])"

definition join_non_empty :: "string \<Rightarrow> string list \<Rightarrow> string" where
  "join_non_empty sep parts = join_text sep (filter (\<lambda>p. p \<noteq> []) (map trim_space parts))"

definition newline_text :: string where
  "newline_text = [CHR 0x0A]"

definition index_text_of :: "'f object \<Rightarrow> string" where
  "index_text_of obj = join_non_empty newline_text [ob_title obj, ob_summary obj, ob_content obj]"

definition property_lines :: "'f floats \<Rightarrow> kind_spec option \<Rightarrow> (string, 'f any) gomap \<Rightarrow> string list" where
  "property_lines fl spec props =
     filter (\<lambda>l. l \<noteq> [])
       (map (\<lambda>k. format_property_line fl k (the (map_of props k)))
         (filter (\<lambda>k. \<not> skip_index_property k spec) (sorted_keys props)))"

definition entity_index_text :: "'f floats \<Rightarrow> kind_spec option \<Rightarrow> 'f object \<Rightarrow> string" where
  "entity_index_text fl spec obj =
     join_text newline_text
       (filter (\<lambda>p. p \<noteq> []) [trim_space (ob_title obj), trim_space (ob_summary obj)]
        @ property_lines fl spec (ob_props obj)
        @ filter (\<lambda>p. p \<noteq> []) [trim_space (ob_content obj)])"

definition index_text_with_parent :: "'f object \<Rightarrow> string \<Rightarrow> string" where
  "index_text_with_parent obj parent_title =
     (let body = index_text_of obj; title = trim_space parent_title
      in if title = [] then body else if body = [] then title else title @ newline_text @ body)"

section \<open>Validation\<close>

definition prop_value :: "(string, 'f any) gomap \<Rightarrow> string \<Rightarrow> 'f any" where
  "prop_value props name = (case map_of props name of None \<Rightarrow> VNil | Some v \<Rightarrow> v)"

fun missing_required :: "(string, 'f any) gomap \<Rightarrow> field_spec list \<Rightarrow> object_error option" where
  "missing_required props [] = None"
| "missing_required props (f # fs) =
     (if fs_required f \<and> prop_value props (fs_name f) = VNil then Some (ObMissing (fs_name f)) else missing_required props fs)"

text \<open>The field of a name: the last of that name, as a map keeps it.\<close>

definition field_by_name :: "field_spec list \<Rightarrow> string \<Rightarrow> field_spec option" where
  "field_by_name fs name = map_of (rev (map (\<lambda>f. (fs_name f, f)) fs)) name"

definition check_property :: "'f floats \<Rightarrow> time_parsers \<Rightarrow> kind_spec \<Rightarrow> string \<Rightarrow> 'f any \<Rightarrow> object_error option" where
  "check_property fl tp spec name v =
     (if v = VNil then None
      else case field_by_name (ks_fields spec) name of
             None \<Rightarrow> if is_reserved_prop name then None else Some (ObUndefined name (ks_kind spec))
           | Some f \<Rightarrow>
               (case check_field_value fl tp v (fs_type f) of
                  Some err \<Rightarrow> Some (ObValue name err)
                | None \<Rightarrow>
                    (case v of
                       VStr s \<Rightarrow> if fs_enum f \<noteq> [] \<and> trim_space s \<notin> set (fs_enum f) then Some (ObEnum name (trim_space s)) else None
                     | _ \<Rightarrow> None)))"

fun check_properties :: "'f floats \<Rightarrow> time_parsers \<Rightarrow> kind_spec \<Rightarrow> (string, 'f any) gomap \<Rightarrow> object_error option" where
  "check_properties fl tp spec [] = None"
| "check_properties fl tp spec ((name, v) # props) =
     (case check_property fl tp spec name v of Some err \<Rightarrow> Some err | None \<Rightarrow> check_properties fl tp spec props)"

definition validate_object :: "'f floats \<Rightarrow> time_parsers \<Rightarrow> catalog \<Rightarrow> 'f object \<Rightarrow> object_error option" where
  "validate_object fl tp cat obj =
     (let kind = trim_space (ob_kind obj)
      in if kind = [] then Some ObKind
         else case ns_validate (ob_namespace obj) of
                Some err \<Rightarrow> Some (ObNamespace err)
              | None \<Rightarrow>
                  if ob_parent obj = Some 0 then Some ObParentNil
                  else if catalog_empty cat then None
                  else case catalog_get cat kind of
                         None \<Rightarrow> Some (ObUnregistered kind)
                       | Some spec \<Rightarrow>
                           if ks_is_parent spec \<and> \<not> ks_is_part spec \<and> is_part obj then Some (ObParentKind (ks_kind spec))
                           else if ks_is_part spec \<and> \<not> ks_is_parent spec \<and> \<not> is_part obj then Some (ObPartKind (ks_kind spec))
                           else case missing_required (ob_props obj) (ks_fields spec) of
                                  Some err \<Rightarrow> Some err
                                | None \<Rightarrow> check_properties fl tp spec (ob_props obj))"

section \<open>What a valid object is\<close>

lemma missing_required_None:
  "missing_required props fs = None \<longleftrightarrow> (\<forall>f \<in> set fs. fs_required f \<longrightarrow> prop_value props (fs_name f) \<noteq> VNil)"
  by (induction fs) auto

lemma check_properties_None:
  "check_properties fl tp spec props = None \<longleftrightarrow> (\<forall>(name, v) \<in> set props. check_property fl tp spec name v = None)"
  by (induction fl tp spec props rule: check_properties.induct) (auto split: option.splits)

lemma field_by_name_distinct:
  "distinct (map fs_name fs) \<Longrightarrow> f \<in> set fs \<Longrightarrow> field_by_name fs (fs_name f) = Some f"
  unfolding field_by_name_def by (rule map_of_is_SomeI) (auto simp: comp_def rev_map [symmetric])

lemma field_by_name_None: "field_by_name fs name = None \<longleftrightarrow> name \<notin> fs_name ` set fs"
  by (auto simp: field_by_name_def map_of_eq_None_iff image_iff)

lemma kinds_normal_get: "kinds_normal m \<Longrightarrow> map_of m k = Some s \<Longrightarrow> ks_kind s = k \<and> kind_normal s"
  by (auto simp: kinds_normal_def dest: map_of_SomeD)

text \<open>
  C21. A valid object fits its kind. With kinds registered, the object's kind is registered; a
  kind of records has no parent, and a kind of parts has one; every required property has a
  value; and every property with a value is a field of the kind, or one the store owns, has
  the field's type, and is in the field's enumeration, up to surrounding space.\<close>

theorem valid_object_fits:
  assumes "validate_object fl tp cat obj = None" and "\<not> catalog_empty cat"
    and "kinds_normal (ca_kinds cat)"
  shows "\<exists>spec. catalog_get cat (trim_space (ob_kind obj)) = Some spec
    \<and> (ks_is_parent spec \<and> \<not> ks_is_part spec \<longrightarrow> ob_parent obj = None)
    \<and> (ks_is_part spec \<and> \<not> ks_is_parent spec \<longrightarrow> ob_parent obj \<noteq> None)
    \<and> (\<forall>f \<in> set (ks_fields spec). fs_required f \<longrightarrow> prop_value (ob_props obj) (fs_name f) \<noteq> VNil)
    \<and> (\<forall>name v. map_of (ob_props obj) name = Some v \<and> v \<noteq> VNil \<longrightarrow>
          is_reserved_prop name \<and> name \<notin> fs_name ` set (ks_fields spec)
          \<or> (\<exists>f \<in> set (ks_fields spec). fs_name f = name \<and> check_field_value fl tp v (fs_type f) = None
              \<and> (fs_type f \<noteq> type_string \<longrightarrow> fs_enum f = [])
              \<and> (\<forall>s. v = VStr s \<and> fs_enum f \<noteq> [] \<longrightarrow> trim_space s \<in> set (fs_enum f))))"
proof -
  let ?k = "trim_space (ob_kind obj)"
  from assms(1,2) obtain spec where spec: "catalog_get cat ?k = Some spec"
      "\<not> (ks_is_parent spec \<and> \<not> ks_is_part spec \<and> is_part obj)" "\<not> (ks_is_part spec \<and> \<not> ks_is_parent spec \<and> \<not> is_part obj)"
      "missing_required (ob_props obj) (ks_fields spec) = None" "check_properties fl tp spec (ob_props obj) = None"
    by (auto simp: validate_object_def Let_def split: if_splits option.splits)
  have normal: "kind_normal spec" using kinds_normal_get [OF assms(3)] spec(1) by (simp add: catalog_get_def)
  have fits: "is_reserved_prop name \<and> name \<notin> fs_name ` set (ks_fields spec)
      \<or> (\<exists>f \<in> set (ks_fields spec). fs_name f = name \<and> check_field_value fl tp v (fs_type f) = None
          \<and> (fs_type f \<noteq> type_string \<longrightarrow> fs_enum f = [])
          \<and> (\<forall>s. v = VStr s \<and> fs_enum f \<noteq> [] \<longrightarrow> trim_space s \<in> set (fs_enum f)))"
    if v: "map_of (ob_props obj) name = Some v" "v \<noteq> VNil" for name v
  proof -
    have c: "check_property fl tp spec name v = None"
      using spec(5) map_of_SomeD [OF v(1)] by (auto simp: check_properties_None)
    show ?thesis
    proof (cases "field_by_name (ks_fields spec) name")
      case None
      then have "is_reserved_prop name" using c v(2) by (simp add: check_property_def split: if_splits)
      then show ?thesis using None by (simp add: field_by_name_None)
    next
      case (Some f)
      then have f: "f \<in> set (ks_fields spec)" "fs_name f = name"
        using map_of_SomeD unfolding field_by_name_def by fastforce+
      have "field_normal f" using normal f(1) by (simp add: kind_normal_def list_all_iff)
      then have "fs_type f \<noteq> type_string \<longrightarrow> fs_enum f = []" by (auto simp: field_normal_def)
      moreover have "check_field_value fl tp v (fs_type f) = None"
        using c v(2) Some by (simp add: check_property_def split: option.splits)
      moreover have "trim_space s \<in> set (fs_enum f)" if s: "v = VStr s" "fs_enum f \<noteq> []" for s
        using c v(2) Some s by (simp add: check_property_def split: option.splits if_splits)
      ultimately show ?thesis using f by blast
    qed
  qed
  have "ob_parent obj = None \<longleftrightarrow> \<not> is_part obj" by (simp add: is_part_def)
  moreover have "\<forall>f \<in> set (ks_fields spec). fs_required f \<longrightarrow> prop_value (ob_props obj) (fs_name f) \<noteq> VNil"
    using spec(4) by (simp add: missing_required_None)
  ultimately show ?thesis
  proof (intro exI [of _ spec] conjI)
    show "\<forall>name v. map_of (ob_props obj) name = Some v \<and> v \<noteq> VNil \<longrightarrow>
        is_reserved_prop name \<and> name \<notin> fs_name ` set (ks_fields spec)
        \<or> (\<exists>f \<in> set (ks_fields spec). fs_name f = name \<and> check_field_value fl tp v (fs_type f) = None
            \<and> (fs_type f \<noteq> type_string \<longrightarrow> fs_enum f = [])
            \<and> (\<forall>s. v = VStr s \<and> fs_enum f \<noteq> [] \<longrightarrow> trim_space s \<in> set (fs_enum f)))"
      by (intro allI impI, elim conjE) (rule fits)
  qed (use spec(1-3) in auto)
qed

definition demo_status :: field_spec where
  "demo_status = \<lparr>fs_name = ''status'', fs_type = type_string, fs_desc = [], fs_required = True,
     fs_operators = field_operators type_string, fs_examples = [], fs_enum = [''open''], fs_skip_index = False\<rparr>"

definition demo_task :: kind_spec where
  "demo_task = \<lparr>ks_kind = ''task'', ks_desc = [], ks_is_parent = True, ks_is_part = False, ks_fields = [demo_status]\<rparr>"

definition demo_catalog :: catalog where
  "demo_catalog = \<lparr>ca_kinds = [(''task'', demo_task)], ca_frozen = False\<rparr>"

definition demo_task_object :: "int object" where
  "demo_task_object = demo_object\<lparr>ob_kind := ''task'', ob_props := [(''status'', VStr ''open'')]\<rparr>"

lemma demo_status_normal: "field_normal demo_status"
  by (simp add: field_normal_def demo_status_def valid_property_key_def sanitize_json_key_def key_byte_def
      is_object_column_def is_core_filter_key_def enum_normal_def plain_eval)

lemma demo_catalog_normal: "kinds_normal (ca_kinds demo_catalog)"
  using demo_status_normal
  by (simp add: kinds_normal_def demo_catalog_def demo_task_def kind_normal_def plain_eval contains_sub_def has_prefix_def)

lemma demo_task_valid: "validate_object demo_floats demo_times demo_catalog demo_task_object = None"
  using demo_attrs_ok
  by (simp add: validate_object_def demo_task_object_def demo_object_def zero_object_def demo_catalog_def catalog_empty_def
      catalog_get_def demo_task_def demo_status_def prop_value_def check_property_def field_by_name_def check_field_value_def
      type_string_def is_part_def plain_eval)

theorem valid_object_fits_witness:
  "catalog_get demo_catalog ''task'' = Some demo_task \<and> ob_parent demo_task_object = None
    \<and> prop_value (ob_props demo_task_object) ''status'' \<noteq> VNil"
proof -
  have k: "trim_space (ob_kind demo_task_object) = ''task''" by (simp add: demo_task_object_def plain_eval)
  have "\<not> catalog_empty demo_catalog" by (simp add: catalog_empty_def demo_catalog_def)
  from valid_object_fits [OF demo_task_valid this demo_catalog_normal] k
  show ?thesis by (auto simp: demo_catalog_def catalog_get_def demo_task_def demo_status_def)
qed

end
