(* ===== verification/Knowledge_Tree.thy ===== *)
theory Knowledge_Tree
  imports Knowledge_Laws "HOL-Library.Product_Lexorder"
begin

text \<open>
  The atomic write of a record with its parts, PutTree of MemoryStore: what a commit leaves,
  that a refused one leaves nothing, that of two writes staged on the same revision only one
  commits, and that the parts are read back in order.
\<close>

section \<open>What a commit leaves\<close>

abbreviation part_id :: "'f tree_part \<Rightarrow> uuid" where
  "part_id part \<equiv> ob_id (tp_object part)"

text \<open>What the engine hands over: every part names the record as its parent and is not deleted.\<close>

definition parts_of :: "uuid \<Rightarrow> 'f tree_part list \<Rightarrow> bool" where
  "parts_of pid parts \<longleftrightarrow>
     (\<forall>part \<in> set parts. part_id part \<noteq> pid \<and> ob_parent (tp_object part) = Some pid \<and> ob_deleted (tp_object part) = None)"

lemma check_parts_Inr:
  "check_parts s pid st keep parts = Inr r \<Longrightarrow>
    set r = set keep \<union> part_id ` set parts \<and> distinct (map part_id parts) \<and> set (map part_id parts) \<inter> set keep = {}
    \<and> (\<forall>part \<in> set parts. tp_reused part \<longrightarrow> (\<exists>old. map_of (kn_objects st) (part_id part) = Some old \<and> ob_parent old = Some pid))"
proof (induction s pid st keep parts rule: check_parts.induct)
  case (2 s pid st keep part parts)
  let ?i = "part_id part"
  have c: "ns_covers (sc_namespace s) (ob_namespace (tp_object part))" "?i \<notin> set keep"
      "\<not> (tp_reused part \<and> (case map_of (kn_objects st) ?i of None \<Rightarrow> True | Some old \<Rightarrow> ob_parent old \<noteq> Some pid))"
      "check_parts s pid st (?i # keep) parts = Inr r"
    using "2.prems" by (auto simp: Let_def split: if_splits)
  have ih: "set r = set (?i # keep) \<union> part_id ` set parts \<and> distinct (map part_id parts)
      \<and> set (map part_id parts) \<inter> set (?i # keep) = {}
      \<and> (\<forall>part \<in> set parts. tp_reused part \<longrightarrow> (\<exists>old. map_of (kn_objects st) (part_id part) = Some old \<and> ob_parent old = Some pid))"
    using "2.IH" [OF refl] c by (auto simp: Let_def)
  have "tp_reused part \<longrightarrow> (\<exists>old. map_of (kn_objects st) ?i = Some old \<and> ob_parent old = Some pid)"
    using c(3) by (cases "map_of (kn_objects st) ?i") auto
  then show ?case using ih c(2) by auto
qed simp

definition store_parts :: "time \<Rightarrow> 'f object \<Rightarrow> 'f tree_part list \<Rightarrow> 'f know \<Rightarrow> 'f know" where
  "store_parts now stored parts st = fold (\<lambda>part st. snd (store_object now (placed_part stored st part) st)) parts st"

lemma placed_part_simps:
  assumes "tp_reused part \<Longrightarrow> \<exists>old. map_of (kn_objects st) (part_id part) = Some old \<and> ob_id old = part_id part \<and> ob_parent old = Some pid"
    and "ob_parent (tp_object part) = Some pid" "ob_deleted (tp_object part) = None"
  shows "ob_id (placed_part stored st part) = part_id part" "ob_parent (placed_part stored st part) = Some pid"
    "ob_deleted (placed_part stored st part) = None" "ob_position (placed_part stored st part) = ob_position (tp_object part)"
    "ob_namespace (placed_part stored st part) = ob_namespace stored" "ob_readers (placed_part stored st part) = ob_readers stored"
  using assms by (cases "tp_reused part"; auto simp: placed_part_def Let_def)+

lemma store_parts_spec:
  assumes "distinct (map part_id parts)" "parts_of pid parts"
    and "\<forall>part \<in> set parts. tp_reused part \<longrightarrow>
      (\<exists>old. map_of (kn_objects st) (part_id part) = Some old \<and> ob_id old = part_id part \<and> ob_parent old = Some pid)"
  shows "(\<forall>part \<in> set parts. \<exists>obj. map_of (kn_objects (store_parts now stored parts st)) (part_id part) = Some obj
      \<and> ob_id obj = part_id part \<and> ob_parent obj = Some pid \<and> ob_deleted obj = None
      \<and> ob_position obj = ob_position (tp_object part) \<and> ob_namespace obj = ob_namespace stored \<and> ob_readers obj = ob_readers stored)
    \<and> (\<forall>i. i \<notin> part_id ` set parts \<longrightarrow> map_of (kn_objects (store_parts now stored parts st)) i = map_of (kn_objects st) i)
    \<and> kn_revs (store_parts now stored parts st) = kn_revs st"
  using assms
proof (induction parts arbitrary: st)
  case Nil
  then show ?case by (simp add: store_parts_def)
next
  case (Cons part parts)
  define obj where "obj = placed_part stored st part"
  define st1 where "st1 = snd (store_object now obj st)"
  have part: "ob_parent (tp_object part) = Some pid" "ob_deleted (tp_object part) = None"
    using Cons.prems(2) by (simp_all add: parts_of_def)
  have reused: "tp_reused part \<Longrightarrow> \<exists>old. map_of (kn_objects st) (part_id part) = Some old \<and> ob_id old = part_id part \<and> ob_parent old = Some pid"
    using Cons.prems(3) by simp
  note obj = placed_part_simps [OF reused part, folded obj_def]
  have at: "map_of (kn_objects st1) i = (if i = part_id part then Some (stamped now obj) else map_of (kn_objects st) i)" for i
    using obj(1) [of stored] by (simp add: st1_def store_object_get obj_def)
  have step: "store_parts now stored (part # parts) st = store_parts now stored parts st1"
    by (simp add: store_parts_def st1_def obj_def)
  have new: "part_id part \<notin> part_id ` set parts" using Cons.prems(1) by simp
  have other: "part_id q \<noteq> part_id part" if "q \<in> set parts" for q using new that by (metis image_eqI)
  have "\<forall>q \<in> set parts. tp_reused q \<longrightarrow>
      (\<exists>old. map_of (kn_objects st1) (part_id q) = Some old \<and> ob_id old = part_id q \<and> ob_parent old = Some pid)"
    using Cons.prems(3) other by (simp add: at)
  moreover have "kn_revs st1 = kn_revs st" by (simp add: st1_def store_object_def)
  ultimately show ?case
    using Cons.IH [of st1] Cons.prems(1,2) placed_part_simps [OF reused part, of stored]
      new unfolding step by (auto simp: at parts_of_def obj_def)
qed

lemma tree_commit_spec:
  assumes "put_tree_commit now s sg st = (r, st')" and "know_good st"
    and "parts_of (ob_id (sg_parent sg)) (sg_parts sg)" and "ob_parent (sg_parent sg) = None"
  shows "case r of
      Inl err \<Rightarrow> st' = st
    | Inr stored \<Rightarrow>
        map_of (kn_objects st') (ob_id (sg_parent sg)) = Some stored
        \<and> (\<forall>i. (\<exists>obj. map_of (kn_objects st') i = Some obj \<and> ob_parent obj = Some (ob_id (sg_parent sg)))
              \<longleftrightarrow> i \<in> part_id ` set (sg_parts sg))
        \<and> (\<forall>part \<in> set (sg_parts sg). \<exists>obj. map_of (kn_objects st') (part_id part) = Some obj \<and> ob_deleted obj = None
              \<and> ob_position obj = ob_position (tp_object part) \<and> ob_namespace obj = ob_namespace stored \<and> ob_readers obj = ob_readers stored)
        \<and> (\<forall>i. i \<noteq> ob_id (sg_parent sg) \<and> i \<notin> part_id ` set (sg_parts sg)
              \<and> (\<forall>obj. map_of (kn_objects st) i = Some obj \<longrightarrow> ob_parent obj \<noteq> Some (ob_id (sg_parent sg)))
              \<longrightarrow> map_of (kn_objects st') i = map_of (kn_objects st) i)
        \<and> (\<forall>sg' s' now'. ob_id (sg_parent sg') = ob_id (sg_parent sg) \<and> sg_rev sg' = tree_rev (ob_id (sg_parent sg)) st
              \<longrightarrow> snd (put_tree_commit now' s' sg' st') = st' \<and> (\<exists>err. fst (put_tree_commit now' s' sg' st') = Inl err))"
proof (cases r)
  case (Inl err)
  then show ?thesis using assms(1)
    by (auto simp: put_tree_commit_def Let_def split: option.splits if_splits sum.splits prod.splits)
next
  case (Inr stored)
  let ?p = "sg_parent sg" and ?parts = "sg_parts sg"
  let ?pid = "ob_id ?p"
  from assms(1) Inr obtain keep where c: "tree_rev ?pid st = sg_rev sg" "check_parts s ?pid st [] ?parts = Inr keep"
    by (auto simp: put_tree_commit_def Let_def split: option.splits if_splits sum.splits prod.splits)
  define st1 where "st1 = st\<lparr>kn_objects := filter (\<lambda>(i, obj). \<not> (i \<notin> set keep \<and> ob_parent obj = Some ?pid)) (kn_objects st)\<rparr>"
  define st2 where "st2 = snd (store_object now ?p st1)"
  define st3 where "st3 = store_parts now stored ?parts st2"
  from assms(1) Inr c have res: "stored = stamped now ?p" "st' = st3\<lparr>kn_revs := AList.update ?pid (sg_rev sg + 1) (kn_revs st3)\<rparr>"
    by (auto simp: put_tree_commit_def Let_def st3_def st2_def st1_def store_parts_def store_object_def
        split: option.splits if_splits sum.splits prod.splits)
  note keep = check_parts_Inr [OF c(2)]
  have ids: "set keep = part_id ` set ?parts" using keep by simp
  have pid: "?pid \<notin> part_id ` set ?parts" using assms(3) by (auto simp: parts_of_def)
  have d: "distinct (map fst (kn_objects st))" using assms(2) by (simp add: know_good_def)
  have at1: "map_of (kn_objects st1) i =
      (case map_of (kn_objects st) i of
         Some obj \<Rightarrow> if i \<notin> part_id ` set ?parts \<and> ob_parent obj = Some ?pid then None else Some obj
       | None \<Rightarrow> None)" for i
  proof -
    have d1: "distinct (map fst (kn_objects st1))" using d by (simp add: st1_def distinct_map_filter)
    show ?thesis
    proof (cases "map_of (kn_objects st1) i")
      case None
      then show ?thesis using d
        by (auto simp: st1_def ids map_of_eq_None_iff image_iff split: option.splits)
    next
      case (Some obj)
      then have "(i, obj) \<in> set (kn_objects st1)" by (rule map_of_SomeD)
      then show ?thesis using Some d by (auto simp: st1_def ids)
    qed
  qed
  have at2: "map_of (kn_objects st2) i = (if i = ?pid then Some stored else map_of (kn_objects st1) i)" for i
    by (simp add: st2_def store_object_get res)
  have reused: "\<forall>part \<in> set ?parts. tp_reused part \<longrightarrow>
      (\<exists>old. map_of (kn_objects st2) (part_id part) = Some old \<and> ob_id old = part_id part \<and> ob_parent old = Some ?pid)"
  proof (intro ballI impI)
    fix part assume part: "part \<in> set ?parts" "tp_reused part"
    then obtain old where old: "map_of (kn_objects st) (part_id part) = Some old" "ob_parent old = Some ?pid"
      using keep by blast
    have "part_id part \<in> part_id ` set ?parts" using part(1) by (rule imageI)
    then have "part_id part \<noteq> ?pid" "part_id part \<in> part_id ` set ?parts" using pid by auto
    then show "\<exists>old. map_of (kn_objects st2) (part_id part) = Some old \<and> ob_id old = part_id part \<and> ob_parent old = Some ?pid"
      using old know_good_at [OF assms(2) old(1)] by (simp add: at2 at1)
  qed
  note sp = store_parts_spec [OF _ assms(3) reused, of now stored, folded st3_def]
  have sp: "\<forall>part \<in> set ?parts. \<exists>obj. map_of (kn_objects st3) (part_id part) = Some obj
      \<and> ob_id obj = part_id part \<and> ob_parent obj = Some ?pid \<and> ob_deleted obj = None
      \<and> ob_position obj = ob_position (tp_object part) \<and> ob_namespace obj = ob_namespace stored \<and> ob_readers obj = ob_readers stored"
    "\<forall>i. i \<notin> part_id ` set ?parts \<longrightarrow> map_of (kn_objects st3) i = map_of (kn_objects st2) i"
    using sp keep by blast+
  have objs: "kn_objects st' = kn_objects st3" by (simp add: res)
  have "map_of (kn_objects st') ?pid = Some stored" using sp(2) pid by (simp add: objs at2)
  moreover have "(\<exists>obj. map_of (kn_objects st') i = Some obj \<and> ob_parent obj = Some ?pid) \<longleftrightarrow> i \<in> part_id ` set ?parts" for i
  proof (cases "i \<in> part_id ` set ?parts")
    case True
    then show ?thesis using sp(1) by (auto simp: objs)
  next
    case False
    then have "map_of (kn_objects st') i = map_of (kn_objects st2) i" using sp(2) by (simp add: objs)
    then show ?thesis using False assms(4) by (auto simp: at2 at1 res(1) split: option.splits if_splits)
  qed
  moreover have "map_of (kn_objects st') i = map_of (kn_objects st) i"
    if i: "i \<noteq> ?pid" "i \<notin> part_id ` set ?parts" "\<forall>obj. map_of (kn_objects st) i = Some obj \<longrightarrow> ob_parent obj \<noteq> Some ?pid" for i
    using i sp(2) by (simp add: objs at2 at1 split: option.splits)
  moreover have "snd (put_tree_commit now' s' sg' st') = st' \<and> (\<exists>err. fst (put_tree_commit now' s' sg' st') = Inl err)"
    if sg': "ob_id (sg_parent sg') = ?pid" "sg_rev sg' = tree_rev ?pid st" for sg' s' now'
  proof -
    have "tree_rev ?pid st' = sg_rev sg + 1" by (simp add: res tree_rev_def update_conv')
    then have "tree_rev (ob_id (sg_parent sg')) st' \<noteq> sg_rev sg'" using sg' c(1) by simp
    then show ?thesis by (auto simp: put_tree_commit_def Let_def split: option.splits)
  qed
  ultimately show ?thesis using Inr sp(1) unfolding objs by (simp only: sum.case) blast
qed

text \<open>
  C7. A tree write is all or nothing. Refused, it leaves the store as it was. Committed, the
  record is stored and exactly the given parts name it as their parent, live, each at its
  place and with the record's namespace and readers; every row that was neither the record nor
  one of its old or new parts is as it was; and every other write staged before it on the same
  record is refused from then on.\<close>

theorem put_tree_atomic:
  assumes "put_tree_commit now s sg st = (r, st')" and "know_good st"
    and "parts_of (ob_id (sg_parent sg)) (sg_parts sg)" and "ob_parent (sg_parent sg) = None"
  shows "case r of
      Inl err \<Rightarrow> st' = st
    | Inr stored \<Rightarrow>
        map_of (kn_objects st') (ob_id (sg_parent sg)) = Some stored
        \<and> (\<forall>i. (\<exists>obj. map_of (kn_objects st') i = Some obj \<and> ob_parent obj = Some (ob_id (sg_parent sg)))
              \<longleftrightarrow> i \<in> part_id ` set (sg_parts sg))
        \<and> (\<forall>part \<in> set (sg_parts sg). \<exists>obj. map_of (kn_objects st') (part_id part) = Some obj \<and> ob_deleted obj = None
              \<and> ob_position obj = ob_position (tp_object part) \<and> ob_namespace obj = ob_namespace stored \<and> ob_readers obj = ob_readers stored)
        \<and> (\<forall>i. i \<noteq> ob_id (sg_parent sg) \<and> i \<notin> part_id ` set (sg_parts sg)
              \<and> (\<forall>obj. map_of (kn_objects st) i = Some obj \<longrightarrow> ob_parent obj \<noteq> Some (ob_id (sg_parent sg)))
              \<longrightarrow> map_of (kn_objects st') i = map_of (kn_objects st) i)
        \<and> (\<forall>sg' s' now'. ob_id (sg_parent sg') = ob_id (sg_parent sg) \<and> sg_rev sg' = tree_rev (ob_id (sg_parent sg)) st
              \<longrightarrow> snd (put_tree_commit now' s' sg' st') = st' \<and> (\<exists>err. fst (put_tree_commit now' s' sg' st') = Inl err))"
  using assms by (rule tree_commit_spec)

definition demo_tree :: "int staged_tree" where
  "demo_tree = \<lparr>sg_parent = demo_object, sg_rev = 0,
     sg_parts = [\<lparr>tp_object = zero_object\<lparr>ob_id := 6, ob_kind := ''part'', ob_namespace := [demo_org], ob_parent := Some 5,
       ob_position := Some 0\<rparr>, tp_reused = False\<rparr>]\<rparr>"

lemma demo_tree_parts: "parts_of (ob_id (sg_parent demo_tree)) (sg_parts demo_tree)" "ob_parent (sg_parent demo_tree) = None"
  by (simp_all add: parts_of_def demo_tree_def demo_object_def zero_object_def)

lemma demo_tree_commits:
  "\<exists>st. put_tree_commit 1 demo_scope demo_tree demo_know = (Inr (stamped 1 demo_object), st)"
proof -
  have "validate_identity demo_object = None"
    using demo_attrs_ok by (simp add: validate_identity_def demo_object_def plain_eval)
  moreover have "ns_covers (sc_namespace demo_scope) (ob_namespace demo_object)"
    by (simp add: demo_object_def demo_scope_def ns_covers_def)
  ultimately have "check_put demo_scope demo_object demo_know = None"
    using demo_reads by (simp add: check_put_None demo_scopes_ok demo_know_def)
  moreover have "check_parts demo_scope 5 demo_know [] (sg_parts demo_tree) = Inr [6]"
    by (simp add: demo_tree_def demo_scope_def ns_covers_def Let_def)
  moreover have "sg_parent demo_tree = demo_object" "ob_id demo_object = 5" "sg_rev demo_tree = 0" "tree_rev 5 demo_know = 0"
    by (simp_all add: demo_tree_def demo_object_def tree_rev_def demo_know_def new_know_def)
  ultimately show ?thesis by (simp add: put_tree_commit_def store_object_def Let_def)
qed

theorem put_tree_atomic_witness:
  "\<exists>st. put_tree_commit 1 demo_scope demo_tree demo_know = (Inr (stamped 1 demo_object), st)
    \<and> map_of (kn_objects st) 5 = Some (stamped 1 demo_object)
    \<and> snd (put_tree_commit 2 demo_scope demo_tree st) = st"
proof -
  obtain st where st: "put_tree_commit 1 demo_scope demo_tree demo_know = (Inr (stamped 1 demo_object), st)"
    using demo_tree_commits by blast
  have rev: "sg_rev demo_tree = tree_rev (ob_id (sg_parent demo_tree)) demo_know"
    by (simp add: demo_tree_def tree_rev_def demo_know_def new_know_def)
  have "ob_id (sg_parent demo_tree) = 5" by (simp add: demo_tree_def demo_object_def)
  then show ?thesis
    using put_tree_atomic [OF st demo_know_good demo_tree_parts] st rev by (auto simp: sum.case)
qed

section \<open>The rows of the parts\<close>

lemma placed_part_at:
  "map_of (kn_objects st1) (part_id q) = map_of (kn_objects st) (part_id q) \<Longrightarrow> placed_part stored st1 q = placed_part stored st q"
  by (simp add: placed_part_def Let_def)

text \<open>The parts stored one after the other: each row is the part as it was placed on the store at the start.\<close>

lemma store_parts_rows:
  assumes "distinct (map part_id parts)" "\<forall>part \<in> set parts. ob_id (placed_part stored st part) = part_id part"
  shows "(\<forall>part \<in> set parts. map_of (kn_objects (store_parts now stored parts st)) (part_id part) = Some (stamped now (placed_part stored st part)))
    \<and> (\<forall>i. i \<notin> part_id ` set parts \<longrightarrow> map_of (kn_objects (store_parts now stored parts st)) i = map_of (kn_objects st) i)"
  using assms
proof (induction parts arbitrary: st)
  case Nil
  then show ?case by (simp add: store_parts_def)
next
  case (Cons first parts)
  define st1 where "st1 = snd (store_object now (placed_part stored st first) st)"
  have step: "store_parts now stored (first # parts) st = store_parts now stored parts st1"
    by (simp add: store_parts_def st1_def)
  have at: "map_of (kn_objects st1) i = (if i = part_id first then Some (stamped now (placed_part stored st first)) else map_of (kn_objects st) i)" for i
    using Cons.prems(2) by (simp add: st1_def store_object_get)
  have new: "part_id first \<notin> part_id ` set parts" using Cons.prems(1) by simp
  have same: "placed_part stored st1 q = placed_part stored st q" if "q \<in> set parts" for q
  proof (rule placed_part_at)
    have "part_id q \<noteq> part_id first" using new that by (metis image_eqI)
    then show "map_of (kn_objects st1) (part_id q) = map_of (kn_objects st) (part_id q)" by (simp add: at)
  qed
  have ih: "(\<forall>part \<in> set parts. map_of (kn_objects (store_parts now stored parts st1)) (part_id part) = Some (stamped now (placed_part stored st1 part)))
    \<and> (\<forall>i. i \<notin> part_id ` set parts \<longrightarrow> map_of (kn_objects (store_parts now stored parts st1)) i = map_of (kn_objects st1) i)"
    using Cons.prems same by (intro Cons.IH) simp_all
  show ?case using ih new same by (auto simp: step at)
qed

text \<open>
  What a committed tree leaves at each part: the part as it was staged or, for a kept one, the
  row the store already had, moved to its place and given the new properties.\<close>

lemma tree_commit_rows:
  assumes "put_tree_commit now s sg st = (Inr stored, st')" and "know_good st"
    and "parts_of (ob_id (sg_parent sg)) (sg_parts sg)" and "part \<in> set (sg_parts sg)"
  shows "map_of (kn_objects st') (part_id part) = Some (stamped now (placed_part stored st part))
    \<and> (tp_reused part \<longrightarrow> (\<exists>old. map_of (kn_objects st) (part_id part) = Some old \<and> ob_parent old = Some (ob_id (sg_parent sg))))"
proof -
  let ?p = "sg_parent sg" and ?parts = "sg_parts sg"
  let ?pid = "ob_id ?p"
  from assms(1) obtain keep where c: "check_parts s ?pid st [] ?parts = Inr keep"
    by (auto simp: put_tree_commit_def Let_def split: option.splits if_splits sum.splits prod.splits)
  define st1 where "st1 = st\<lparr>kn_objects := filter (\<lambda>(i, obj). \<not> (i \<notin> set keep \<and> ob_parent obj = Some ?pid)) (kn_objects st)\<rparr>"
  define st2 where "st2 = snd (store_object now ?p st1)"
  define st3 where "st3 = store_parts now stored ?parts st2"
  from assms(1) c have objs: "kn_objects st' = kn_objects st3"
    by (auto simp: put_tree_commit_def Let_def st3_def st2_def st1_def store_parts_def store_object_def
        split: option.splits if_splits sum.splits prod.splits)
  note keep = check_parts_Inr [OF c]
  have d: "distinct (map fst (kn_objects st))" using assms(2) by (simp add: know_good_def)
  have kept: "map_of (kn_objects st1) i = map_of (kn_objects st) i" if "i \<in> set keep" for i
  proof -
    have "(i, obj) \<in> set (kn_objects st1) \<longleftrightarrow> (i, obj) \<in> set (kn_objects st)" for obj using that by (simp add: st1_def)
    moreover have "distinct (map fst (kn_objects st1))" using d by (simp add: st1_def distinct_map_filter)
    ultimately have "map_of (kn_objects st1) i = Some obj \<longleftrightarrow> map_of (kn_objects st) i = Some obj" for obj
      using d by (simp add: map_of_eq_Some_iff)
    then show ?thesis by (metis option.exhaust)
  qed
  have at2: "map_of (kn_objects st2) (part_id q) = map_of (kn_objects st) (part_id q)" if q: "q \<in> set ?parts" for q
  proof -
    have "part_id q \<in> set keep" using keep q by auto
    moreover have "part_id q \<noteq> ?pid" using assms(3) q by (simp add: parts_of_def)
    ultimately show ?thesis by (simp add: st2_def store_object_get kept)
  qed
  have same: "placed_part stored st2 q = placed_part stored st q" if "q \<in> set ?parts" for q
    by (rule placed_part_at, rule at2 [OF that])
  have "ob_id (placed_part stored st2 q) = part_id q" if q: "q \<in> set ?parts" for q
  proof (cases "tp_reused q")
    case True
    then obtain old where old: "map_of (kn_objects st) (part_id q) = Some old" using keep q by blast
    then show ?thesis using know_good_at [OF assms(2) old] True at2 [OF q] by (simp add: placed_part_def Let_def)
  qed (simp add: placed_part_def Let_def)
  then have "map_of (kn_objects st3) (part_id part) = Some (stamped now (placed_part stored st2 part))"
    using store_parts_rows [of ?parts stored st2 now] keep assms(4) by (simp add: st3_def)
  moreover have "tp_reused part \<longrightarrow> (\<exists>old. map_of (kn_objects st) (part_id part) = Some old \<and> ob_parent old = Some ?pid)"
    using keep assms(4) by blast
  ultimately show ?thesis by (simp add: objs same [OF assms(4)])
qed

section \<open>The parts are read back in order\<close>

definition part_key :: "'f object \<Rightarrow> int \<times> uuid" where
  "part_key obj = (object_position obj, ob_id obj)"

lemma part_le_key: "part_le a b \<longleftrightarrow> part_key a \<le> part_key b"
  by (auto simp: part_le_def part_key_def)

lemma sorted_parts: "sorted (map part_key (sort_by part_le xs))"
proof -
  have le: "part_le = (\<lambda>a b. part_key a \<le> part_key b)" by (intro ext) (rule part_le_key)
  show ?thesis unfolding le sorted_map by (rule sort_by_sorted) auto
qed

lemma store_parts_good: "know_good st \<Longrightarrow> know_good (store_parts now stored parts st)"
  unfolding store_parts_def
  by (induction parts arbitrary: st) (simp_all add: store_object_good)

lemma put_tree_good:
  assumes "put_tree_commit now s sg st = (r, st')" "know_good st"
  shows "know_good st'"
proof (cases r)
  case (Inl err)
  then have "st' = st" using assms(1)
    by (auto simp: put_tree_commit_def Let_def split: option.splits if_splits sum.splits prod.splits)
  then show ?thesis using assms(2) by simp
next
  case (Inr stored)
  let ?p = "sg_parent sg" and ?parts = "sg_parts sg"
  let ?pid = "ob_id ?p"
  from assms(1) Inr obtain keep where c: "tree_rev ?pid st = sg_rev sg" "check_parts s ?pid st [] ?parts = Inr keep"
    by (auto simp: put_tree_commit_def Let_def split: option.splits if_splits sum.splits prod.splits)
  define st1 where "st1 = st\<lparr>kn_objects := filter (\<lambda>(i, obj). \<not> (i \<notin> set keep \<and> ob_parent obj = Some ?pid)) (kn_objects st)\<rparr>"
  define st3 where "st3 = store_parts now stored ?parts (snd (store_object now ?p st1))"
  from assms(1) Inr c have res: "st' = st3\<lparr>kn_revs := AList.update ?pid (sg_rev sg + 1) (kn_revs st3)\<rparr>"
    by (auto simp: put_tree_commit_def Let_def st3_def st1_def store_parts_def store_object_def
        split: option.splits if_splits sum.splits prod.splits)
  have "know_good st1" using assms(2) by (auto simp: st1_def know_good_def distinct_map_filter)
  then have "know_good st3" unfolding st3_def by (intro store_parts_good store_object_good)
  then show ?thesis by (simp add: res know_good_def)
qed

lemma distinct_pair_keys: "distinct (map f xs) \<Longrightarrow> distinct (map (\<lambda>x. (f x, g x)) xs)"
  by (induction xs) auto

lemma distinct_part_keys: "distinct (map ob_id rows) \<Longrightarrow> distinct (map part_key rows)"
  by (induction rows) (auto simp: part_key_def)

text \<open>
  The parts of a committed tree are read back in the order they were given: for a scope
  that reads the record, and parts whose positions increase as the engine numbers them, the
  record's live parts are exactly the given ones, first to last.\<close>

lemma tree_parts_read_back:
  assumes "put_tree_commit now s sg st = (Inr stored, st')" and "know_good st"
    and "parts_of (ob_id (sg_parent sg)) (sg_parts sg)" and "ob_parent (sg_parent sg) = None"
    and "sorted_wrt (\<lambda>a b. object_position (tp_object a) < object_position (tp_object b)) (sg_parts sg)"
    and "scope_reads s' stored"
  shows "map ob_id (parts_locked s' (ob_id (sg_parent sg)) 0 st') = map part_id (sg_parts sg)"
proof -
  let ?pid = "ob_id (sg_parent sg)" and ?parts = "sg_parts sg"
  have good: "know_good st'" by (rule put_tree_good [OF assms(1,2)])
  from tree_commit_spec [OF assms(1,2,3,4)]
  have at: "\<And>i. (\<exists>obj. map_of (kn_objects st') i = Some obj \<and> ob_parent obj = Some ?pid) \<longleftrightarrow> i \<in> part_id ` set ?parts"
    and pos: "\<And>part. part \<in> set ?parts \<Longrightarrow> \<exists>obj. map_of (kn_objects st') (part_id part) = Some obj \<and> ob_deleted obj = None
              \<and> ob_position obj = ob_position (tp_object part) \<and> ob_namespace obj = ob_namespace stored \<and> ob_readers obj = ob_readers stored"
    by auto
  define rows where "rows = filter (\<lambda>obj. ob_deleted obj = None \<and> ob_parent obj = Some ?pid \<and> scope_reads s' obj) (map snd (kn_objects st'))"
  have d: "distinct (map fst (kn_objects st'))" and own: "\<forall>(i, obj) \<in> set (kn_objects st'). ob_id obj = i"
    using good by (simp_all add: know_good_def)
  have row: "obj \<in> snd ` set (kn_objects st') \<longleftrightarrow> map_of (kn_objects st') (ob_id obj) = Some obj" for obj
    using d own by (force simp: map_of_eq_Some_iff image_iff)
  have keys: "part_key ` set rows = (\<lambda>part. (object_position (tp_object part), part_id part)) ` set ?parts"
  proof (intro set_eqI iffI)
    fix k assume "k \<in> part_key ` set rows"
    then obtain obj where obj: "k = part_key obj" "map_of (kn_objects st') (ob_id obj) = Some obj" "ob_parent obj = Some ?pid"
      by (auto simp: rows_def row [symmetric])
    then obtain part where part: "part \<in> set ?parts" "part_id part = ob_id obj" using at [of "ob_id obj"] by auto
    then have "object_position obj = object_position (tp_object part)" using pos [OF part(1)] obj(2) by (auto simp: object_position_def)
    then show "k \<in> (\<lambda>part. (object_position (tp_object part), part_id part)) ` set ?parts"
      using part obj(1) by (auto simp: part_key_def)
  next
    fix k assume "k \<in> (\<lambda>part. (object_position (tp_object part), part_id part)) ` set ?parts"
    then obtain part where part: "part \<in> set ?parts" "k = (object_position (tp_object part), part_id part)" by auto
    then obtain obj where obj: "map_of (kn_objects st') (part_id part) = Some obj" "ob_deleted obj = None"
        "ob_position obj = ob_position (tp_object part)" "ob_namespace obj = ob_namespace stored" "ob_readers obj = ob_readers stored"
      using pos by blast
    have id: "ob_id obj = part_id part" using know_good_at [OF good obj(1)] .
    have "ob_parent obj = Some ?pid" using at [of "part_id part"] obj(1) part(1) by auto
    moreover have "scope_reads s' obj" using assms(6) obj(4,5) by (simp add: scope_reads_def)
    ultimately have "obj \<in> set rows" using obj(1,2) id row [of obj] by (simp add: rows_def)
    moreover have "part_key obj = k" using obj(3) id part(2) by (simp add: part_key_def object_position_def)
    ultimately show "k \<in> part_key ` set rows" by blast
  qed
  have "distinct (map part_key (sort_by part_le rows))"
  proof -
    have "map ob_id (map snd (kn_objects st')) = map fst (kn_objects st')" using own by auto
    then have "distinct (map ob_id (map snd (kn_objects st')))" using d by (simp only:)
    then have "distinct (map ob_id rows)" by (simp add: rows_def distinct_map_filter del: map_map)
    then have "distinct (map part_key rows)" by (rule distinct_part_keys)
    then show ?thesis by (simp only: distinct_map_sort_by)
  qed
  moreover have "sorted (map (\<lambda>part. (object_position (tp_object part), part_id part)) ?parts)"
    using assms(5) by (auto simp: sorted_map elim!: sorted_wrt_mono_rel [rotated])
  moreover have "distinct (map (\<lambda>part. (object_position (tp_object part), part_id part)) ?parts)"
  proof -
    have "sorted_wrt (<) (map (\<lambda>part. object_position (tp_object part)) ?parts)" using assms(5) by (simp add: sorted_wrt_map)
    then have "distinct (map (\<lambda>part. object_position (tp_object part)) ?parts)" by (simp only: strict_sorted_iff)
    then show ?thesis by (rule distinct_pair_keys)
  qed
  ultimately have "map part_key (sort_by part_le rows) = map (\<lambda>part. (object_position (tp_object part), part_id part)) ?parts"
    using keys by (intro sorted_distinct_set_unique sorted_parts) (simp_all del: map_map)
  then have "map snd (map part_key (sort_by part_le rows)) = map part_id ?parts" by simp
  moreover have "map snd (map part_key xs) = map ob_id xs" for xs :: "'a object list"
    by (induction xs) (simp_all add: part_key_def)
  moreover have "parts_locked s' ?pid 0 st' = sort_by part_le rows" by (simp add: parts_locked_def rows_def)
  ultimately show ?thesis by (simp only:)
qed

end
