(* ===== verification/Engine.thy ===== *)
theory Engine
  imports Index_Text Knowledge_Tree
begin

text \<open>
  The engine over the store (brain/engine.go, write.go, tree.go, audit.go and the engine's side of
  session_message.go): its writes, each of which checks its scope, writes the store, then every
  index (a graph is one), then the audit record. The store is MemoryStore. Indexes, the graph
  and the audit are host code: what they are asked is a log, and their answer to a request is a
  parameter (\<open>en_host\<close>), which may depend on everything they were asked before. Other parameters:
  the clocks, fresh ids, the hash of a part's content, and what \<open>Index_Text\<close> and the store need.
  Calls are made with a context that is not done.
\<close>

section \<open>The engine and its hosts\<close>

datatype audit_op =
    AuditRead | AuditPut | AuditDelete | AuditLink | AuditUnlink | AuditPurge | AuditErase
  | AuditSessionSave | AuditSessionDelete | AuditSessionPurge

record audit_event =
  ae_time :: time
  ae_op :: audit_op
  ae_namespace :: namespace
  ae_principals :: "string list"
  ae_session :: string
  ae_ids :: "uuid list"
  ae_count :: int

record 'f graph_edge =
  ge_namespace :: namespace
  ge_from :: uuid
  ge_to :: uuid
  ge_relation :: string
  ge_meta :: "'f edge_meta"

datatype 'f effect =
    IndexPut nat "'f indexed"
  | IndexRemove nat uuid
  | IndexErase nat scope
  | GraphLink "'f graph_edge"
  | GraphUnlink uuid uuid string
  | Audited audit_event

datatype engine_error =
    EScope ns_error
  | EStore brain_error
  | EObject object_error
  | EPutDeleted
  | EOutside
  | EParent uuid brain_error
  | EParentIsPart
  | EIndexPut gerr
  | EIndexRemove gerr
  | EAudit audit_op gerr
  | EJoined "engine_error list"
  | ENoGraph
  | ELinkArgs
  | EContainment string
  | ELinkEnd string brain_error
  | ELinkPart string
  | ELink gerr
  | EUnlink gerr
  | ESessionId

record 'f engine =
  en_indexes :: nat
  en_graph :: bool
  en_audit :: bool
  en_host :: "'f effect list \<Rightarrow> 'f effect \<Rightarrow> gerr option"
  en_now :: time
  en_store_now :: time
  en_fresh :: uuid
  en_floats :: "'f floats"
  en_times :: time_parsers
  en_unicode :: unicode
  en_embedding :: "'f embedding"
  en_index_text :: "('f object \<Rightarrow> string \<Rightarrow> string) option"
  en_digest :: "string list \<Rightarrow> string"
  en_part_id :: "uuid \<Rightarrow> string \<Rightarrow> nat \<Rightarrow> uuid"

record 'f brain =
  br_store :: "'f know"
  br_catalog :: catalog
  br_log :: "'f effect list"

definition perform :: "'f engine \<Rightarrow> 'f effect \<Rightarrow> 'f brain \<Rightarrow> gerr option \<times> 'f brain" where
  "perform en eff w = (en_host en (br_log w) eff, w\<lparr>br_log := br_log w @ [eff]\<rparr>)"

definition check_scope :: "namespace \<Rightarrow> engine_error option" where
  "check_scope ns = map_option EScope (ns_validate ns)"

definition record_event :: "'f engine \<Rightarrow> scope \<Rightarrow> audit_op \<Rightarrow> uuid list \<Rightarrow> int \<Rightarrow> 'f brain \<Rightarrow> engine_error option \<times> 'f brain" where
  "record_event en s op ids n w =
     (if \<not> en_audit en then (None, w)
      else case perform en (Audited \<lparr>ae_time = en_now en, ae_op = op, ae_namespace = sc_namespace s,
                   ae_principals = sc_principals s, ae_session = sc_session s, ae_ids = ids, ae_count = n\<rparr>) w of
             (r, w') \<Rightarrow> (map_option (EAudit op) r, w'))"

definition record_read :: "'f engine \<Rightarrow> scope \<Rightarrow> uuid list \<Rightarrow> 'f brain \<Rightarrow> engine_error option \<times> 'f brain" where
  "record_read en s ids w = (if ids = [] then (None, w) else record_event en s AuditRead ids 0 w)"

section \<open>Indexes\<close>

fun put_each :: "'f engine \<Rightarrow> 'f indexed \<Rightarrow> nat list \<Rightarrow> 'f brain \<Rightarrow> engine_error list \<times> 'f brain" where
  "put_each en x [] w = ([], w)"
| "put_each en x (i # is) w =
     (case perform en (IndexPut i x) w of
        (r, w1) \<Rightarrow>
          (case put_each en x is w1 of
             (errs, w2) \<Rightarrow> ((case r of None \<Rightarrow> errs | Some err \<Rightarrow> EIndexPut err # errs), w2)))"

definition put_indexes :: "'f engine \<Rightarrow> 'f object \<Rightarrow> string \<Rightarrow> 'f brain \<Rightarrow> engine_error list \<times> 'f brain" where
  "put_indexes en obj t w =
     (if ob_parent obj \<noteq> None then ([], w) else put_each en \<lparr>ix_object = obj, ix_text = t\<rparr> [0..<en_indexes en] w)"

fun remove_each :: "'f engine \<Rightarrow> uuid \<Rightarrow> nat list \<Rightarrow> 'f brain \<Rightarrow> engine_error option \<times> 'f brain" where
  "remove_each en x [] w = (None, w)"
| "remove_each en x (i # is) w =
     (case perform en (IndexRemove i x) w of
        (Some err, w1) \<Rightarrow> (Some (EIndexRemove err), w1)
      | (None, w1) \<Rightarrow> remove_each en x is w1)"

definition remove_indexes :: "'f engine \<Rightarrow> uuid \<Rightarrow> 'f brain \<Rightarrow> engine_error option \<times> 'f brain" where
  "remove_indexes en x w = remove_each en x [0..<en_indexes en] w"

fun erase_each :: "'f engine \<Rightarrow> scope \<Rightarrow> nat list \<Rightarrow> 'f brain \<Rightarrow> engine_error option \<times> 'f brain" where
  "erase_each en s [] w = (None, w)"
| "erase_each en s (i # is) w =
     (case perform en (IndexErase i s) w of
        (Some err, w1) \<Rightarrow> (Some (EIndexRemove err), w1)
      | (None, w1) \<Rightarrow> erase_each en s is w1)"

text \<open>A write the store has committed: its index errors and the audit's, together.\<close>

definition committed :: "'f engine \<Rightarrow> scope \<Rightarrow> audit_op \<Rightarrow> uuid list \<Rightarrow> int \<Rightarrow> engine_error list \<times> 'f brain
    \<Rightarrow> engine_error option \<times> 'f brain" where
  "committed en s op ids n ixs =
     (case ixs of
        (errs, w) \<Rightarrow>
          (case record_event en s op ids n w of
             (r, w') \<Rightarrow>
               let all = errs @ (case r of None \<Rightarrow> [] | Some e \<Rightarrow> [e])
               in (if all = [] then None else Some (EJoined all), w')))"

section \<open>Save\<close>

definition index_text :: "'f engine \<Rightarrow> catalog \<Rightarrow> 'f object \<Rightarrow> 'f object option \<Rightarrow> string" where
  "index_text en cat obj parent =
     (let t = (case parent of
                 None \<Rightarrow> entity_index_text (en_floats en) (catalog_get cat (ob_kind obj)) obj
               | Some p \<Rightarrow> index_text_with_parent obj (ob_title p))
      in case en_index_text en of None \<Rightarrow> t | Some fn \<Rightarrow> trim_space (fn obj t))"

definition with_defaults :: "'f engine \<Rightarrow> scope \<Rightarrow> 'f object \<Rightarrow> 'f object" where
  "with_defaults en s obj =
     obj\<lparr>ob_id := (if ob_id obj = 0 then en_fresh en else ob_id obj),
         ob_namespace := (if ob_namespace obj = [] then sc_namespace s else ob_namespace obj),
         ob_created := (if ob_created obj = 0 then en_now en else ob_created obj),
         ob_updated := en_now en, ob_kind := trim_space (ob_kind obj), ob_embedding := None, ob_model := []\<rparr>"

definition prepare_put :: "'f engine \<Rightarrow> scope \<Rightarrow> 'f object \<Rightarrow> 'f brain \<Rightarrow> engine_error + 'f indexed" where
  "prepare_put en s obj0 w =
     (if ob_deleted obj0 \<noteq> None then Inl EPutDeleted
      else let obj = with_defaults en s obj0
           in case validate_object (en_floats en) (en_times en) (br_catalog w) obj of
                Some err \<Rightarrow> Inl (EObject err)
              | None \<Rightarrow>
                  if \<not> ns_covers (sc_namespace s) (ob_namespace obj) then Inl EOutside
                  else case ob_parent obj of
                         None \<Rightarrow> Inr \<lparr>ix_object = obj, ix_text = index_text en (br_catalog w) obj None\<rparr>
                       | Some pid \<Rightarrow>
                           (case mem_get s pid (br_store w) of
                              Inl err \<Rightarrow> Inl (EParent pid err)
                            | Inr p \<Rightarrow>
                                if ob_parent p \<noteq> None then Inl EParentIsPart
                                else Inr \<lparr>ix_object = obj, ix_text = index_text en (br_catalog w) obj (Some p)\<rparr>))"

definition save :: "'f engine \<Rightarrow> scope \<Rightarrow> 'f object \<Rightarrow> 'f brain \<Rightarrow> (engine_error + 'f object) \<times> 'f brain" where
  "save en s obj w =
     (case check_scope (sc_namespace s) of
        Some err \<Rightarrow> (Inl err, w)
      | None \<Rightarrow>
          (case prepare_put en s obj w of
             Inl err \<Rightarrow> (Inl err, w)
           | Inr x \<Rightarrow>
               (case mem_put (en_embedding en) (en_store_now en) s x (br_store w) of
                  (Inl err, st) \<Rightarrow> (Inl (EStore err), w\<lparr>br_store := st\<rparr>)
                | (Inr stored, st) \<Rightarrow>
                    (case committed en s AuditPut [ob_id stored] 0 (put_indexes en stored (ix_text x) (w\<lparr>br_store := st\<rparr>)) of
                       (Some err, w') \<Rightarrow> (Inl err, w')
                     | (None, w') \<Rightarrow> (Inr stored, w')))))"

section \<open>PutTree\<close>

definition part_digest :: "'f engine \<Rightarrow> 'f indexed \<Rightarrow> string" where
  "part_digest en x =
     (let p = ix_object x
      in en_digest en [ob_kind p, ob_content_type p, ob_title p, ob_summary p, ob_content p, ix_text x])"

definition part_defaults :: "'f engine \<Rightarrow> 'f object \<Rightarrow> nat \<Rightarrow> 'f object \<Rightarrow> 'f object" where
  "part_defaults en parent i p =
     p\<lparr>ob_parent := Some (ob_id parent), ob_namespace := ob_namespace parent, ob_readers := ob_readers parent,
       ob_position := (case ob_position p of None \<Rightarrow> Some (int i) | Some q \<Rightarrow> Some q),
       ob_created := (if ob_created p = 0 then en_now en else ob_created p),
       ob_updated := en_now en, ob_kind := trim_space (ob_kind p), ob_embedding := None, ob_model := []\<rparr>"

definition prepare_part :: "'f engine \<Rightarrow> catalog \<Rightarrow> 'f object \<Rightarrow> 'f object \<Rightarrow> nat \<Rightarrow> brain_error + 'f indexed" where
  "prepare_part en cat parent p0 i =
     (if ob_id p0 \<noteq> 0 then Inl PartIdSet
      else if ob_deleted p0 \<noteq> None then Inl PartDeleted
      else if ob_namespace p0 \<noteq> [] \<and> ob_namespace p0 \<noteq> ob_namespace parent then Inl PartNamespace
      else let p = part_defaults en parent i p0
           in case validate_object (en_floats en) (en_times en) cat p of
                Some err \<Rightarrow> Inl (BadPart err)
              | None \<Rightarrow> Inr \<lparr>ix_object = p, ix_text = index_text en cat p (Some parent)\<rparr>)"

text \<open>The parts as the store reads them; seen counts the parts before with the same digest.\<close>

fun prepared_parts :: "'f engine \<Rightarrow> catalog \<Rightarrow> 'f object \<Rightarrow> nat \<Rightarrow> (string \<Rightarrow> nat) \<Rightarrow> (gerr + 'f object) list
    \<Rightarrow> (brain_error + 'f indexed) list" where
  "prepared_parts en cat parent n seen [] = []"
| "prepared_parts en cat parent n seen (Inl err # ps) = [Inl (PartsFailed err)]"
| "prepared_parts en cat parent n seen (Inr p # ps) =
     (case prepare_part en cat parent p n of
        Inl err \<Rightarrow> [Inl err]
      | Inr x \<Rightarrow>
          let d = part_digest en x;
              x' = x\<lparr>ix_object := (ix_object x)\<lparr>ob_id := en_part_id en (ob_id parent) d (seen d)\<rparr>\<rparr>
          in Inr x' # prepared_parts en cat parent (n + 1) (seen(d := seen d + 1)) ps)"

definition put_tree :: "'f engine \<Rightarrow> scope \<Rightarrow> 'f object \<Rightarrow> (gerr + 'f object) list \<Rightarrow> 'f brain
    \<Rightarrow> (engine_error + 'f object) \<times> 'f brain" where
  "put_tree en s parent parts w =
     (case check_scope (sc_namespace s) of
        Some err \<Rightarrow> (Inl err, w)
      | None \<Rightarrow>
          if ob_parent parent \<noteq> None then (Inl EParentIsPart, w)
          else case prepare_put en s parent w of
                 Inl err \<Rightarrow> (Inl err, w)
               | Inr x \<Rightarrow>
                   let prepared = prepared_parts en (br_catalog w) (ix_object x) 0 (\<lambda>d. 0) parts
                   in (case mem_put_tree (en_embedding en) (en_store_now en) s x prepared (br_store w) of
                         (Inl err, st) \<Rightarrow> (Inl (EStore err), w\<lparr>br_store := st\<rparr>)
                       | (Inr stored, st) \<Rightarrow>
                           (case committed en s AuditPut [ob_id stored] (int (length prepared))
                                   (put_indexes en stored (ix_text x) (w\<lparr>br_store := st\<rparr>)) of
                              (Some err, w') \<Rightarrow> (Inl err, w')
                            | (None, w') \<Rightarrow> (Inr stored, w'))))"

section \<open>Deletes\<close>

definition soft_delete :: "'f engine \<Rightarrow> scope \<Rightarrow> uuid \<Rightarrow> 'f brain \<Rightarrow> engine_error option \<times> 'f brain" where
  "soft_delete en s i w =
     (case check_scope (sc_namespace s) of
        Some err \<Rightarrow> (Some err, w)
      | None \<Rightarrow>
          (case mem_get s i (br_store w) of
             Inl err \<Rightarrow> (Some (EStore err), w)
           | Inr obj \<Rightarrow>
               (case (if ob_parent obj = None then remove_indexes en i w else (None, w)) of
                  (Some err, w1) \<Rightarrow> (Some err, w1)
                | (None, w1) \<Rightarrow>
                    (case mem_soft_delete (en_store_now en) s i (br_store w1) of
                       (Some err, st) \<Rightarrow> (Some (EStore err), w1\<lparr>br_store := st\<rparr>)
                     | (None, st) \<Rightarrow> record_event en s AuditDelete [i] 0 (w1\<lparr>br_store := st\<rparr>)))))"

definition purge_deleted :: "'f engine \<Rightarrow> scope \<Rightarrow> time \<Rightarrow> 'f brain \<Rightarrow> nat \<times> engine_error option \<times> 'f brain" where
  "purge_deleted en s before w =
     (case check_scope (sc_namespace s) of
        Some err \<Rightarrow> (0, Some err, w)
      | None \<Rightarrow>
          (case mem_purge_deleted s before (br_store w) of
             (Inl err, st) \<Rightarrow> (0, Some (EStore err), w\<lparr>br_store := st\<rparr>)
           | (Inr n, st) \<Rightarrow> (n, record_event en s AuditPurge [] (int n) (w\<lparr>br_store := st\<rparr>))))"

definition erase :: "'f engine \<Rightarrow> scope \<Rightarrow> 'f brain \<Rightarrow> engine_error option \<times> 'f brain" where
  "erase en s w =
     (case check_scope (sc_namespace s) of
        Some err \<Rightarrow> (Some err, w)
      | None \<Rightarrow>
          (case erase_each en s [0..<en_indexes en] w of
             (Some err, w1) \<Rightarrow> (Some err, w1)
           | (None, w1) \<Rightarrow>
               (case mem_erase s (br_store w1) of
                  (Inl err, st) \<Rightarrow> (Some (EStore err), w1\<lparr>br_store := st\<rparr>)
                | (Inr ids, st) \<Rightarrow> record_event en s AuditErase ids (int (length ids)) (w1\<lparr>br_store := st\<rparr>))))"

section \<open>Links\<close>

definition is_containment :: "unicode \<Rightarrow> string \<Rightarrow> bool" where
  "is_containment u rel \<longleftrightarrow> lower_runes u (trim_space rel) \<in> {''contains'', ''part_of'', ''partof''}"

definition link_end :: "scope \<Rightarrow> uuid \<Rightarrow> string \<Rightarrow> 'f know \<Rightarrow> engine_error + 'f object" where
  "link_end s i label st =
     (case mem_get s i st of
        Inl err \<Rightarrow> Inl (ELinkEnd label err)
      | Inr obj \<Rightarrow> if ob_parent obj \<noteq> None then Inl (ELinkPart label) else Inr obj)"

definition link :: "'f engine \<Rightarrow> scope \<Rightarrow> uuid \<Rightarrow> uuid \<Rightarrow> string \<Rightarrow> 'f edge_meta \<Rightarrow> bool \<Rightarrow> 'f brain
    \<Rightarrow> engine_error option \<times> 'f brain" where
  "link en s from to relation meta remove w =
     (case check_scope (sc_namespace s) of
        Some err \<Rightarrow> (Some err, w)
      | None \<Rightarrow>
          let rel = trim_space relation
          in if \<not> en_graph en then (Some ENoGraph, w)
             else if from = 0 \<or> to = 0 \<or> rel = [] then (Some ELinkArgs, w)
             else if is_containment (en_unicode en) rel then (Some (EContainment rel), w)
             else case link_end s from ''from'' (br_store w) of
                    Inl err \<Rightarrow> (Some err, w)
                  | Inr src \<Rightarrow>
                      (case link_end s to ''to'' (br_store w) of
                         Inl err \<Rightarrow> (Some err, w)
                       | Inr dst \<Rightarrow>
                           if remove
                           then (case perform en (GraphUnlink from to rel) w of
                                   (Some err, w1) \<Rightarrow> (Some (EUnlink err), w1)
                                 | (None, w1) \<Rightarrow> record_event en s AuditUnlink [from, to] 0 w1)
                           else let m = meta\<lparr>em_created := (if em_created meta = 0 then en_now en else em_created meta),
                                             em_updated := (if em_updated meta = 0 then en_now en else em_updated meta),
                                             em_note := trim_space (em_note meta)\<rparr>
                                in case perform en (GraphLink \<lparr>ge_namespace = ob_namespace src, ge_from = from, ge_to = to,
                                          ge_relation = rel, ge_meta = m\<rparr>) w of
                                     (Some err, w1) \<Rightarrow> (Some (ELink err), w1)
                                   | (None, w1) \<Rightarrow> record_event en s AuditLink [from, to] 0 w1))"

section \<open>Session messages\<close>

definition session_scope :: "namespace \<Rightarrow> string \<Rightarrow> scope" where
  "session_scope host sid = \<lparr>sc_namespace = host, sc_principals = [], sc_session = sid\<rparr>"

definition engine_save_messages :: "(string \<Rightarrow> string) \<Rightarrow> (nat \<Rightarrow> uuid) \<Rightarrow> 'f engine \<Rightarrow> namespace \<Rightarrow> string \<Rightarrow> string
    \<Rightarrow> session_message list \<Rightarrow> 'f brain \<Rightarrow> int \<times> engine_error option \<times> 'f brain" where
  "engine_save_messages quote fresh en host sid gkey msgs w =
     (case check_scope host of
        Some err \<Rightarrow> (0, Some err, w)
      | None \<Rightarrow>
          (case save_session_messages quote (en_embedding en) (en_store_now en) fresh host sid gkey msgs (br_store w) of
             (Inl err, st) \<Rightarrow> (0, Some (EStore err), w\<lparr>br_store := st\<rparr>)
           | (Inr gen, st) \<Rightarrow>
               (gen, record_event en (session_scope host sid) AuditSessionSave [] (int (length msgs)) (w\<lparr>br_store := st\<rparr>))))"

definition engine_delete_messages :: "(string \<Rightarrow> string) \<Rightarrow> 'f engine \<Rightarrow> namespace \<Rightarrow> string \<Rightarrow> 'f brain
    \<Rightarrow> engine_error option \<times> 'f brain" where
  "engine_delete_messages quote en host sid0 w =
     (case check_scope host of
        Some err \<Rightarrow> (Some err, w)
      | None \<Rightarrow>
          let sid = trim_space sid0
          in if sid = [] then (Some ESessionId, w)
             else case delete_session_messages quote host sid (br_store w) of
                    (Some err, st) \<Rightarrow> (Some (EStore err), w\<lparr>br_store := st\<rparr>)
                  | (None, st) \<Rightarrow> record_event en (session_scope host sid) AuditSessionDelete [] 0 (w\<lparr>br_store := st\<rparr>))"

definition engine_purge_messages :: "'f engine \<Rightarrow> namespace \<Rightarrow> time \<Rightarrow> 'f brain \<Rightarrow> nat \<times> engine_error option \<times> 'f brain" where
  "engine_purge_messages en host before w =
     (case check_scope host of
        Some err \<Rightarrow> (0, Some err, w)
      | None \<Rightarrow>
          (case purge_session_messages host before (br_store w) of
             (Inl err, st) \<Rightarrow> (0, Some (EStore err), w\<lparr>br_store := st\<rparr>)
           | (Inr n, st) \<Rightarrow> (n, record_event en (session_scope host []) AuditSessionPurge [] (int n) (w\<lparr>br_store := st\<rparr>))))"

end
