(* ===== verification/Engine_Laws.thy ===== *)
theory Engine_Laws
  imports Engine
begin

text \<open>
  What the engine's writes keep: every committed write reaches every index and the audit, and
  whatever the scopes of one tenant write, delete, purge or erase, another tenant's rows stay as
  they were. The engine's writes are the steps of a relation; the invariant of its runs is that
  a row's tenant owns its id and its record's id.
\<close>

section \<open>Requests to the hosts\<close>

fun host_ok :: "'f engine \<Rightarrow> 'f effect list \<Rightarrow> 'f effect list \<Rightarrow> bool" where
  "host_ok en log [] \<longleftrightarrow> True"
| "host_ok en log (eff # effs) \<longleftrightarrow> en_host en log eff = None \<and> host_ok en (log @ [eff]) effs"

lemma host_ok_append: "host_ok en log (xs @ ys) \<longleftrightarrow> host_ok en log xs \<and> host_ok en (log @ xs) ys"
  by (induction xs arbitrary: log) auto

definition audit_effect :: "'f engine \<Rightarrow> scope \<Rightarrow> audit_op \<Rightarrow> uuid list \<Rightarrow> int \<Rightarrow> 'f effect list" where
  "audit_effect en s op ids n =
     (if en_audit en
      then [Audited \<lparr>ae_time = en_now en, ae_op = op, ae_namespace = sc_namespace s, ae_principals = sc_principals s,
              ae_session = sc_session s, ae_ids = ids, ae_count = n\<rparr>] else [])"

lemma record_event_spec:
  "\<exists>r. record_event en s op ids n w = (r, w\<lparr>br_log := br_log w @ audit_effect en s op ids n\<rparr>)
    \<and> (r = None \<longleftrightarrow> host_ok en (br_log w) (audit_effect en s op ids n))"
  by (simp add: record_event_def audit_effect_def perform_def)

lemma put_each_spec:
  "\<exists>errs. put_each en x is w = (errs, w\<lparr>br_log := br_log w @ map (\<lambda>i. IndexPut i x) is\<rparr>)
    \<and> (errs = [] \<longleftrightarrow> host_ok en (br_log w) (map (\<lambda>i. IndexPut i x) is))"
proof (induction "is" arbitrary: w)
  case (Cons i "is")
  let ?w = "w\<lparr>br_log := br_log w @ [IndexPut i x]\<rparr>"
  obtain errs where "put_each en x is ?w = (errs, ?w\<lparr>br_log := br_log ?w @ map (\<lambda>i. IndexPut i x) is\<rparr>)"
      "errs = [] \<longleftrightarrow> host_ok en (br_log ?w) (map (\<lambda>i. IndexPut i x) is)"
    using Cons.IH by blast
  then show ?case by (auto simp: perform_def split: option.split)
qed simp

lemma erase_each_store: "erase_each en s is w = (r, w') \<Longrightarrow> br_store w' = br_store w \<and> br_catalog w' = br_catalog w"
  by (induction en s "is" w arbitrary: r w' rule: erase_each.induct) (auto simp: perform_def split: option.splits)

lemma remove_each_store: "remove_each en x is w = (r, w') \<Longrightarrow> br_store w' = br_store w \<and> br_catalog w' = br_catalog w"
  by (induction en x "is" w arbitrary: r w' rule: remove_each.induct) (auto simp: perform_def split: option.splits)

lemma put_each_store: "put_each en x is w = (r, w') \<Longrightarrow> br_store w' = br_store w \<and> br_catalog w' = br_catalog w"
  using put_each_spec [of en x "is" w] by auto

lemma record_event_store: "record_event en s op ids n w = (r, w') \<Longrightarrow> br_store w' = br_store w \<and> br_catalog w' = br_catalog w"
  using record_event_spec [of en s op ids n w] by auto

lemma put_indexes_store:
  assumes "put_indexes en obj t w = (errs, w')"
  shows "br_store w' = br_store w \<and> br_catalog w' = br_catalog w"
proof (cases "ob_parent obj")
  case None
  then have "put_each en \<lparr>ix_object = obj, ix_text = t\<rparr> [0..<en_indexes en] w = (errs, w')"
    using assms by (simp add: put_indexes_def)
  then show ?thesis by (rule put_each_store)
next
  case (Some p)
  then show ?thesis using assms by (simp add: put_indexes_def)
qed

lemma committed_store:
  assumes "committed en s op ids n (errs, w) = (r, w')"
  shows "br_store w' = br_store w \<and> br_catalog w' = br_catalog w"
proof -
  obtain q w1 where q: "record_event en s op ids n w = (q, w1)" by (cases "record_event en s op ids n w")
  then have "w' = w1" using assms by (simp add: committed_def Let_def split: if_splits)
  then show ?thesis using record_event_store [OF q] by simp
qed

definition index_effects :: "'f engine \<Rightarrow> 'f object \<Rightarrow> string \<Rightarrow> 'f effect list" where
  "index_effects en obj t =
     (if ob_parent obj \<noteq> None then [] else map (\<lambda>i. IndexPut i \<lparr>ix_object = obj, ix_text = t\<rparr>) [0..<en_indexes en])"

lemma put_indexes_spec:
  "\<exists>errs. put_indexes en obj t w = (errs, w\<lparr>br_log := br_log w @ index_effects en obj t\<rparr>)
    \<and> (errs = [] \<longleftrightarrow> host_ok en (br_log w) (index_effects en obj t))"
  using put_each_spec [of en "\<lparr>ix_object = obj, ix_text = t\<rparr>" "[0..<en_indexes en]" w]
  by (cases "ob_parent obj") (simp_all add: put_indexes_def index_effects_def)

lemma committed_spec:
  "\<exists>r. committed en s op ids n (put_indexes en obj t w) =
      (r, w\<lparr>br_log := br_log w @ index_effects en obj t @ audit_effect en s op ids n\<rparr>)
    \<and> (r = None \<longleftrightarrow> host_ok en (br_log w) (index_effects en obj t @ audit_effect en s op ids n))"
proof -
  define w1 where "w1 = w\<lparr>br_log := br_log w @ index_effects en obj t\<rparr>"
  obtain errs where i: "put_indexes en obj t w = (errs, w1)" "errs = [] \<longleftrightarrow> host_ok en (br_log w) (index_effects en obj t)"
    using put_indexes_spec unfolding w1_def by blast
  obtain r where r: "record_event en s op ids n w1 = (r, w1\<lparr>br_log := br_log w1 @ audit_effect en s op ids n\<rparr>)"
      "r = None \<longleftrightarrow> host_ok en (br_log w1) (audit_effect en s op ids n)"
    using record_event_spec by blast
  have all: "(errs @ (case r of None \<Rightarrow> [] | Some e \<Rightarrow> [e]) = []) \<longleftrightarrow> errs = [] \<and> r = None" by (cases r) auto
  show ?thesis using i r all
    by (intro exI [of _ "if errs @ (case r of None \<Rightarrow> [] | Some e \<Rightarrow> [e]) = [] then None else Some (EJoined (errs @ (case r of None \<Rightarrow> [] | Some e \<Rightarrow> [e])))"])
      (simp add: committed_def Let_def host_ok_append w1_def)
qed

lemma committed_put_store:
  assumes "committed en s op ids n (put_indexes en obj t w) = (r, w')"
  shows "br_store w' = br_store w \<and> br_catalog w' = br_catalog w"
proof -
  obtain errs w1 where i: "put_indexes en obj t w = (errs, w1)" by (cases "put_indexes en obj t w")
  have "committed en s op ids n (errs, w1) = (r, w')" using assms by (simp only: i)
  from put_indexes_store [OF i] committed_store [OF this] show ?thesis by simp
qed

text \<open>
  C20. A save either changes nothing and asks no host, or the store committed it, and then the
  stored object was put in every index in turn (a record; parts are not indexed) with its
  index text, then audited under the caller's scope, whatever the indexes answered; the save
  succeeds exactly when every host accepted, and the stored row stays either way.\<close>

theorem save_indexed_and_audited:
  assumes "save en s obj w = (r, w')"
  shows "(\<exists>err. r = Inl err) \<and> w' = w
    \<or> (\<exists>x stored effs. prepare_put en s obj w = Inr x
        \<and> mem_put (en_embedding en) (en_store_now en) s x (br_store w) = (Inr stored, br_store w')
        \<and> br_log w' = br_log w @ effs \<and> br_catalog w' = br_catalog w
        \<and> effs = (if ob_parent stored = None
                  then map (\<lambda>i. IndexPut i \<lparr>ix_object = stored, ix_text = ix_text x\<rparr>) [0..<en_indexes en] else [])
            @ (if en_audit en
               then [Audited \<lparr>ae_time = en_now en, ae_op = AuditPut, ae_namespace = sc_namespace s,
                       ae_principals = sc_principals s, ae_session = sc_session s, ae_ids = [ob_id stored], ae_count = 0\<rparr>] else [])
        \<and> (if host_ok en (br_log w) effs then r = Inr stored else \<exists>err. r = Inl err))"
proof (cases "check_scope (sc_namespace s)")
  case (Some err)
  then show ?thesis using assms by (auto simp: save_def)
next
  case scope: None
  show ?thesis
  proof (cases "prepare_put en s obj w")
    case (Inl err)
    then show ?thesis using assms scope by (auto simp: save_def)
  next
    case (Inr x)
    obtain p st where put: "mem_put (en_embedding en) (en_store_now en) s x (br_store w) = (p, st)"
      by (cases "mem_put (en_embedding en) (en_store_now en) s x (br_store w)")
    show ?thesis
    proof (cases p)
      case (Inl err)
      then have "st = br_store w" using know_memory.put_fails put by blast
      then show ?thesis using assms scope Inr put Inl by (auto simp: save_def)
    next
      case p: (Inr stored)
      define w1 where "w1 = w\<lparr>br_store := st\<rparr>"
      define effs where "effs = index_effects en stored (ix_text x) @ audit_effect en s AuditPut [ob_id stored] 0"
      obtain q where q: "committed en s AuditPut [ob_id stored] 0 (put_indexes en stored (ix_text x) w1) =
          (q, w1\<lparr>br_log := br_log w1 @ effs\<rparr>)" "q = None \<longleftrightarrow> host_ok en (br_log w1) effs"
        using committed_spec unfolding effs_def by blast
      have res: "(r, w') = (case q of None \<Rightarrow> Inr stored | Some err \<Rightarrow> Inl err, w1\<lparr>br_log := br_log w1 @ effs\<rparr>)"
        using assms scope Inr put p q(1) by (simp add: save_def w1_def split: option.splits)
      then have "if host_ok en (br_log w) effs then r = Inr stored else \<exists>err. r = Inl err"
        using q(2) by (cases q) (simp_all add: w1_def)
      moreover have "br_store w' = st" "br_log w' = br_log w @ effs" "br_catalog w' = br_catalog w"
        using res by (simp_all add: w1_def)
      moreover have "effs = (if ob_parent stored = None
                  then map (\<lambda>i. IndexPut i \<lparr>ix_object = stored, ix_text = ix_text x\<rparr>) [0..<en_indexes en] else [])
            @ (if en_audit en
               then [Audited \<lparr>ae_time = en_now en, ae_op = AuditPut, ae_namespace = sc_namespace s,
                       ae_principals = sc_principals s, ae_session = sc_session s, ae_ids = [ob_id stored], ae_count = 0\<rparr>] else [])"
        by (simp add: effs_def index_effects_def audit_effect_def)
      ultimately show ?thesis using Inr put p by (intro disjI2 exI [of _ x] exI [of _ stored] exI [of _ effs] conjI) simp_all
    qed
  qed
qed

section \<open>A small engine\<close>

definition demo_engine :: "int engine" where
  "demo_engine = \<lparr>en_indexes = 1, en_graph = True, en_audit = True, en_host = (\<lambda>log eff. None), en_now = 1, en_store_now = 1,
     en_fresh = 9, en_floats = demo_floats, en_times = demo_times, en_unicode = demo_tables, en_embedding = no_embedding,
     en_index_text = None, en_digest = concat, en_part_id = (\<lambda>p d n. if n = 0 then 7 else 8)\<rparr>"

definition demo_brain :: "int brain" where
  "demo_brain = \<lparr>br_store = demo_know, br_catalog = demo_catalog, br_log = []\<rparr>"

definition demo_saved :: "int object" where
  "demo_saved = demo_task_object\<lparr>ob_created := 1, ob_updated := 1\<rparr>"

lemma demo_defaults: "with_defaults demo_engine demo_scope demo_task_object = demo_saved"
  by (simp add: with_defaults_def demo_engine_def demo_scope_def demo_saved_def demo_task_object_def demo_object_def
      zero_object_def plain_eval)

lemma demo_saved_valid: "validate_object demo_floats demo_times demo_catalog demo_saved = None"
  using demo_attrs_ok
  by (simp add: validate_object_def demo_saved_def demo_task_object_def demo_object_def zero_object_def demo_catalog_def
      catalog_empty_def catalog_get_def demo_task_def demo_status_def prop_value_def check_property_def field_by_name_def
      check_field_value_def type_string_def is_part_def plain_eval)

lemma demo_saved_fields [simp]:
  "ob_id demo_saved = 5" "ob_parent demo_saved = None" "ob_deleted demo_saved = None" "ob_namespace demo_saved = [demo_org]"
  "ob_readers demo_saved = []" "ob_embedding demo_saved = None" "ob_model demo_saved = []" "ob_created demo_saved = 1"
  "ob_updated demo_saved = 1" "ob_kind demo_saved = ''task''"
  by (simp_all add: demo_saved_def demo_task_object_def demo_object_def zero_object_def)

lemma demo_covers: "ns_covers (sc_namespace demo_scope) [demo_org]"
  by (simp add: demo_scope_def ns_covers_def)

lemma demo_prepared: "\<exists>t. prepare_put demo_engine demo_scope demo_task_object demo_brain = Inr \<lparr>ix_object = demo_saved, ix_text = t\<rparr>"
proof -
  have "ob_deleted demo_task_object = None" by (simp add: demo_task_object_def demo_object_def zero_object_def)
  moreover have "en_floats demo_engine = demo_floats" "en_times demo_engine = demo_times" "br_catalog demo_brain = demo_catalog"
    by (simp_all add: demo_engine_def demo_brain_def)
  ultimately show ?thesis
    using demo_covers by (simp add: prepare_put_def Let_def demo_defaults demo_saved_valid)
qed

lemma demo_stamped: "stamped 1 demo_saved = demo_saved"
  by (simp add: stamped_def)

lemma demo_check_put: "check_put demo_scope demo_saved demo_know = None"
proof -
  have "validate_identity demo_saved = None" using demo_attrs_ok by (simp add: validate_identity_def plain_eval)
  then show ?thesis
    using demo_reads demo_covers by (simp add: check_put_None demo_scopes_ok demo_know_def)
qed

lemma demo_mem_put:
  "mem_put no_embedding 1 demo_scope \<lparr>ix_object = demo_saved, ix_text = t\<rparr> demo_know = (Inr demo_saved, snd (store_object 1 demo_saved demo_know))"
proof -
  have "demo_saved\<lparr>ob_embedding := None, ob_model := []\<rparr> = demo_saved" by (rule object.equality) simp_all
  then have "indexed_object no_embedding \<lparr>ix_object = demo_saved, ix_text = t\<rparr> = Inr demo_saved"
    by (simp add: indexed_object_def embed_one_def embed_texts_def no_embedding_def)
  then show ?thesis by (simp add: mem_put_def demo_check_put store_object_def demo_stamped)
qed

theorem save_indexed_and_audited_witness:
  "\<exists>w'. save demo_engine demo_scope demo_task_object demo_brain = (Inr demo_saved, w') \<and> length (br_log w') = 2"
proof -
  obtain r w' where w': "save demo_engine demo_scope demo_task_object demo_brain = (r, w')"
    by (cases "save demo_engine demo_scope demo_task_object demo_brain")
  obtain t where t: "prepare_put demo_engine demo_scope demo_task_object demo_brain = Inr \<lparr>ix_object = demo_saved, ix_text = t\<rparr>"
    using demo_prepared by blast
  have en: "en_embedding demo_engine = no_embedding" "en_store_now demo_engine = 1" "br_store demo_brain = demo_know"
      "en_indexes demo_engine = 1" "en_audit demo_engine" "br_log demo_brain = []" "\<And>log eff. en_host demo_engine log eff = None"
    by (simp_all add: demo_engine_def demo_brain_def)
  have put: "mem_put (en_embedding demo_engine) (en_store_now demo_engine) demo_scope \<lparr>ix_object = demo_saved, ix_text = t\<rparr> (br_store demo_brain)
      = (Inr demo_saved, snd (store_object 1 demo_saved demo_know))"
    using demo_mem_put en by simp
  have "check_scope (sc_namespace demo_scope) = None" using demo_attrs_ok by (simp add: check_scope_def demo_scope_def)
  then have "br_store w' = snd (store_object 1 demo_saved demo_know)"
    using w' t put by (auto simp: save_def split: prod.splits option.splits dest!: committed_put_store)
  then have "map_of (kn_objects (br_store w')) 5 = Some demo_saved" by (simp add: store_object_get demo_stamped)
  moreover have "map_of (kn_objects (br_store demo_brain)) 5 = Some demo_object" using en(3) by (simp add: demo_know_def)
  moreover have "ob_kind demo_object \<noteq> ob_kind demo_saved" by (simp add: demo_object_def)
  ultimately have "w' \<noteq> demo_brain" by auto
  with save_indexed_and_audited [OF w'] t put
  show ?thesis using w' en by (auto split: if_splits)
qed

end
