(* ===== verification/Engine_Parts.thy ===== *)
theory Engine_Parts
  imports Engine_Laws
begin

text \<open>
  The parts of a tree on their way to the store (brain/tree.go, brain/embed.go): what the engine
  makes of each part it is given, and that the pipeline of batches stages them in their order
  with their content, or marked as kept when the store already has a live part with the id.
\<close>

section \<open>Prepared parts\<close>

lemma prepare_put_Inr:
  assumes "prepare_put en s obj w = Inr x"
  shows "ix_object x = with_defaults en s obj \<and> (\<forall>p. ob_parent obj = Some p \<longrightarrow> (\<exists>po. mem_get s p (br_store w) = Inr po))"
  using assms by (auto simp: prepare_put_def Let_def with_defaults_def split: if_splits option.splits sum.splits)

lemma prepare_part_Inr:
  "prepare_part en cat parent p n = Inr x \<Longrightarrow> ix_object x = part_defaults en parent n p \<and> ob_deleted p = None"
  by (auto simp: prepare_part_def Let_def split: if_splits option.splits)

lemma prepared_parts_Inr:
  "Inr y \<in> set (prepared_parts en cat parent n seen ps) \<Longrightarrow>
    ob_parent (ix_object y) = Some (ob_id parent) \<and> ob_deleted (ix_object y) = None
    \<and> (\<exists>d k. ob_id (ix_object y) = en_part_id en (ob_id parent) d k)"
proof (induction en cat parent n seen ps rule: prepared_parts.induct)
  case (3 en cat parent n seen p ps)
  show ?case
  proof (cases "prepare_part en cat parent p n")
    case (Inl err)
    then show ?thesis using "3.prems" by simp
  next
    case (Inr x)
    define d where "d = part_digest en x"
    define x' where "x' = x\<lparr>ix_object := (ix_object x)\<lparr>ob_id := en_part_id en (ob_id parent) d (seen d)\<rparr>\<rparr>"
    note x = prepare_part_Inr [OF Inr]
    have "y = x' \<or> Inr y \<in> set (prepared_parts en cat parent (n + 1) (seen(d := seen d + 1)) ps)"
      using "3.prems" Inr by (auto simp: Let_def d_def x'_def)
    then show ?thesis
    proof
      assume "y = x'"
      then show ?thesis using x by (auto simp: x'_def part_defaults_def)
    next
      assume "Inr y \<in> set (prepared_parts en cat parent (n + 1) (seen(d := seen d + 1)) ps)"
      then show ?thesis using "3.IH" [OF Inr d_def x'_def] by blast
    qed
  qed
qed simp_all

text \<open>The i-th prepared part is made of the i-th given one, with the id its content hashes to.\<close>

lemma prepared_nth:
  "prepared_parts en cat parent n seen ps = map Inr xs \<Longrightarrow>
    length xs = length ps \<and> (\<forall>i < length xs. \<exists>src x k. ps ! i = Inr src \<and> prepare_part en cat parent src (n + i) = Inr x
      \<and> xs ! i = x\<lparr>ix_object := (ix_object x)\<lparr>ob_id := en_part_id en (ob_id parent) (part_digest en x) k\<rparr>\<rparr>)"
proof (induction en cat parent n seen ps arbitrary: xs rule: prepared_parts.induct)
  case (1 en cat parent n seen)
  then show ?case by simp
next
  case (2 en cat parent n seen err ps)
  then show ?case by (cases xs) simp_all
next
  case (3 en cat parent n seen p ps)
  show ?case
  proof (cases "prepare_part en cat parent p n")
    case (Inl err)
    then show ?thesis using "3.prems" by (cases xs) simp_all
  next
    case (Inr x)
    define d where "d = part_digest en x"
    define x' where "x' = x\<lparr>ix_object := (ix_object x)\<lparr>ob_id := en_part_id en (ob_id parent) d (seen d)\<rparr>\<rparr>"
    obtain ys where ys: "xs = x' # ys" "prepared_parts en cat parent (n + 1) (seen(d := seen d + 1)) ps = map Inr ys"
      using "3.prems" Inr by (auto simp: Let_def d_def x'_def Cons_eq_map_conv)
    have ih: "length ys = length ps \<and> (\<forall>i < length ys. \<exists>src x k. ps ! i = Inr src \<and> prepare_part en cat parent src (n + 1 + i) = Inr x
      \<and> ys ! i = x\<lparr>ix_object := (ix_object x)\<lparr>ob_id := en_part_id en (ob_id parent) (part_digest en x) k\<rparr>\<rparr>)"
      using "3.IH" [OF Inr d_def x'_def ys(2)] .
    have "\<exists>src x k. (Inr p # ps) ! i = Inr src \<and> prepare_part en cat parent src (n + i) = Inr x
      \<and> xs ! i = x\<lparr>ix_object := (ix_object x)\<lparr>ob_id := en_part_id en (ob_id parent) (part_digest en x) k\<rparr>\<rparr>" if i: "i < length xs" for i
    proof (cases i)
      case 0
      show ?thesis by (rule exI [of _ p], rule exI [of _ x], rule exI [of _ "seen d"]) (simp add: 0 Inr ys(1) x'_def d_def)
    next
      case (Suc j)
      then have "j < length ys" using i ys(1) by simp
      then obtain src y k where "ps ! j = Inr src" "prepare_part en cat parent src (n + 1 + j) = Inr y"
          "ys ! j = y\<lparr>ix_object := (ix_object y)\<lparr>ob_id := en_part_id en (ob_id parent) (part_digest en y) k\<rparr>\<rparr>"
        using ih by blast
      then show ?thesis using Suc ys(1) by (intro exI [of _ src] exI [of _ y] exI [of _ k]) simp
    qed
    then show ?thesis using ih ys(1) by simp
  qed
qed

section \<open>Staged parts\<close>

definition part_face :: "'f object \<Rightarrow> uuid \<times> uuid option \<times> int option \<times> time option \<times> (string, 'f any) gomap" where
  "part_face obj = (ob_id obj, ob_parent obj, ob_position obj, ob_deleted obj, ob_props obj)"

definition part_text :: "'f object \<Rightarrow> string \<times> string \<times> string \<times> string \<times> string" where
  "part_text obj = (ob_kind obj, ob_title obj, ob_summary obj, ob_content obj, ob_content_type obj)"

text \<open>What a staged part brings: its place, and its text unless the store's row is kept.\<close>

definition staged_face :: "'f tree_part \<Rightarrow> (uuid \<times> uuid option \<times> int option \<times> time option \<times> (string, 'f any) gomap)
    \<times> (string \<times> string \<times> string \<times> string \<times> string) option" where
  "staged_face p = (part_face (tp_object p), if tp_reused p then None else Some (part_text (tp_object p)))"

lemma staged_face_embedded [simp]:
  "staged_face (p\<lparr>tp_object := (tp_object p)\<lparr>ob_embedding := v, ob_model := m\<rparr>\<rparr>) = staged_face p"
  by (simp add: staged_face_def part_face_def part_text_def)

lemma embed_batch_faces:
  assumes "embed_batch e batch = Inr ps"
  shows "map staged_face ps = map (\<lambda>b. staged_face (fst b)) batch"
proof -
  obtain vecs where vecs: "embed_texts e (filter (\<lambda>t. t \<noteq> [] \<and> em_embed e \<noteq> None) (map snd batch)) = Inr vecs"
    using assms by (cases "embed_texts e (filter (\<lambda>t. t \<noteq> [] \<and> em_embed e \<noteq> None) (map snd batch))")
      (simp_all only: embed_batch_def Let_def sum.case sum.distinct)
  have "ps = map (\<lambda>i. let p = fst (batch ! i); t = snd (batch ! i)
                           in if t \<noteq> [] \<and> em_embed e \<noteq> None
                              then p\<lparr>tp_object := (tp_object p)\<lparr>
                                     ob_embedding := Some ((case vecs of Some vs \<Rightarrow> vs | None \<Rightarrow> [])
                                       ! length (filter (\<lambda>t. t \<noteq> [] \<and> em_embed e \<noteq> None) (map snd (take i batch)))),
                                     ob_model := em_model_name e\<rparr>\<rparr>
                              else p) [0..<length batch]"
    using assms by (simp only: embed_batch_def Let_def vecs sum.case sum.inject)
  then have "map staged_face ps = map (\<lambda>i. staged_face (fst (batch ! i))) [0..<length batch]"
    by (simp add: Let_def if_distrib [of staged_face] cong: if_cong)
  also have "\<dots> = map (\<lambda>b. staged_face (fst b)) (map ((!) batch) [0..<length batch])" by simp
  finally show ?thesis by (simp only: map_nth)
qed

lemma embed_batches_faces:
  "embed_batches e reuse parts batch staged = Inr r \<Longrightarrow>
    \<exists>xs. parts = map Inr xs \<and>
      map (\<lambda>p. staged_face p) r =
        map (\<lambda>p. staged_face p) staged @ map (\<lambda>b. staged_face (fst b)) batch
        @ map (\<lambda>x. staged_face (fst (tree_part_of reuse x))) xs"
proof (induction e reuse parts batch staged arbitrary: r rule: embed_batches.induct)
  case (1 e reuse batch staged)
  then show ?case
    by (auto dest!: embed_batch_faces split: if_splits sum.splits)
next
  case (2 e reuse err parts batch staged)
  then show ?case by simp
next
  case (3 e reuse x parts batch staged)
  define batch1 where "batch1 = batch @ [tree_part_of reuse x]"
  show ?case
  proof (cases "length batch1 = (if em_batch e = 0 then 128 else em_batch e)")
    case True
    then obtain ps where ps: "embed_batch e batch1 = Inr ps" "embed_batches e reuse parts [] (staged @ ps) = Inr r"
      using "3.prems" by (auto simp: Let_def batch1_def split: sum.splits)
    from "3.IH"(1) [OF batch1_def True ps(1,2)] obtain xs where "parts = map Inr xs"
        "map (\<lambda>p. staged_face p) r = map (\<lambda>p. staged_face p) (staged @ ps)
          @ map (\<lambda>x. staged_face (fst (tree_part_of reuse x))) xs" by auto
    then show ?thesis using embed_batch_faces [OF ps(1)] by (intro exI [of _ "x # xs"]) (simp add: batch1_def)
  next
    case False
    then have "embed_batches e reuse parts batch1 staged = Inr r" using "3.prems" by (auto simp: Let_def batch1_def)
    from "3.IH"(2) [OF batch1_def False this] obtain xs where "parts = map Inr xs"
        "map (\<lambda>p. staged_face p) r = map (\<lambda>p. staged_face p) staged
          @ map (\<lambda>b. staged_face (fst b)) batch1
          @ map (\<lambda>x. staged_face (fst (tree_part_of reuse x))) xs" by blast
    then show ?thesis by (intro exI [of _ "x # xs"]) (simp add: batch1_def)
  qed
qed

lemma tree_part_face:
  "ob_deleted (ix_object x) = None \<Longrightarrow>
    staged_face (fst (tree_part_of reuse x)) = (part_face (ix_object x), if reuse (ob_id (ix_object x)) then None else Some (part_text (ix_object x)))"
  by (simp add: tree_part_of_def staged_face_def part_face_def Let_def zero_object_def)

lemma staged_faces:
  assumes "put_tree_stage e s x prepared st = Inr sg" and "\<And>y. Inr y \<in> set prepared \<Longrightarrow> ob_deleted (ix_object y) = None"
  shows "\<exists>xs. prepared = map Inr xs
    \<and> map staged_face (sg_parts sg) = map (\<lambda>y. (part_face (ix_object y),
        if reusable e s (ob_id (ix_object x)) st (ob_id (ix_object y)) then None else Some (part_text (ix_object y)))) xs
    \<and> ob_id (sg_parent sg) = ob_id (ix_object x) \<and> ob_parent (sg_parent sg) = ob_parent (ix_object x)
    \<and> ob_deleted (sg_parent sg) = ob_deleted (ix_object x)"
proof -
  obtain p r where p: "indexed_object e x = Inr p" "embed_batches e (reusable e s (ob_id p) st) prepared [] [] = Inr r"
      "sg = \<lparr>sg_parent = p, sg_rev = tree_rev (ob_id p) st, sg_parts = r\<rparr>"
    using assms(1) by (auto simp: put_tree_stage_def split: option.splits sum.splits)
  obtain xs where xs: "prepared = map Inr xs"
      "map staged_face r = map (\<lambda>y. staged_face (fst (tree_part_of (reusable e s (ob_id p) st) y))) xs"
    using embed_batches_faces [OF p(2)] by auto
  have id: "ob_id p = ob_id (ix_object x)" "ob_parent p = ob_parent (ix_object x)" "ob_deleted p = ob_deleted (ix_object x)"
    using p(1) by (auto simp: indexed_object_def split: sum.splits)
  have "map (\<lambda>y. staged_face (fst (tree_part_of (reusable e s (ob_id p) st) y))) xs = map (\<lambda>y. (part_face (ix_object y),
        if reusable e s (ob_id (ix_object x)) st (ob_id (ix_object y)) then None else Some (part_text (ix_object y)))) xs"
    unfolding id(1) using assms(2) xs(1) by (intro map_cong refl tree_part_face) auto
  then show ?thesis using xs p(3) id by auto
qed

lemma staged_parent:
  assumes "put_tree_stage e s x prepared st = Inr sg"
  shows "part_text (sg_parent sg) = part_text (ix_object x)" "ob_props (sg_parent sg) = ob_props (ix_object x)"
  using assms by (auto simp: put_tree_stage_def indexed_object_def part_text_def split: option.splits sum.splits)

end
