(* ===== verification/Knowledge_View.thy ===== *)
theory Knowledge_View
  imports Knowledge_Laws
begin

text \<open>
  What a tenant's scopes see of the knowledge store: the tenant's own rows. The invariant is that
  the rows at an id and under it belong to one tenant; with it every read of a scope without a
  session, by id, by property, of a tree or by search, is the read of the tenant's view.
\<close>

section \<open>Families and views\<close>

definition row_tenant :: "'f object \<Rightarrow> namespace" where
  "row_tenant obj = ns_tenant (ob_namespace obj)"

definition scope_tenant :: "scope \<Rightarrow> namespace" where
  "scope_tenant s = ns_tenant (sc_namespace s)"

text \<open>The row with an id and the rows that name it as their parent are a tenant's.\<close>

definition family_of :: "namespace \<Rightarrow> uuid \<Rightarrow> 'f know \<Rightarrow> bool" where
  "family_of u p st \<longleftrightarrow>
     (\<forall>a. map_of (kn_objects st) p = Some a \<longrightarrow> row_tenant a = u)
     \<and> (\<forall>j b. map_of (kn_objects st) j = Some b \<and> ob_parent b = Some p \<longrightarrow> row_tenant b = u)"

definition one_family :: "'f know \<Rightarrow> bool" where
  "one_family st \<longleftrightarrow> know_good st \<and> distinct (map fst (kn_msgs st)) \<and> (\<forall>p. \<exists>u. family_of u p st)"

definition tenant_view :: "namespace \<Rightarrow> 'f know \<Rightarrow> 'f know" where
  "tenant_view t st = new_know\<lparr>kn_objects := filter (\<lambda>(i, obj). row_tenant obj = t) (kn_objects st),
     kn_msgs := filter (\<lambda>(i, row). ns_tenant (sr_namespace row) = t) (kn_msgs st)\<rparr>"

lemma one_family_good: "one_family st \<Longrightarrow> know_good st"
  by (simp add: one_family_def)

lemma one_family_keys: "one_family st \<Longrightarrow> distinct (map fst (kn_objects st))"
  by (simp add: one_family_def know_good_def)

lemma family_at: "one_family st \<Longrightarrow> map_of (kn_objects st) p = Some a \<Longrightarrow> family_of (row_tenant a) p st"
proof -
  assume a: "one_family st" "map_of (kn_objects st) p = Some a"
  then obtain u where "family_of u p st" unfolding one_family_def by blast
  moreover have "row_tenant a = u" using calculation a(2) by (simp add: family_of_def)
  ultimately show ?thesis by simp
qed

lemma family_parent:
  "one_family st \<Longrightarrow> map_of (kn_objects st) j = Some b \<Longrightarrow> ob_parent b = Some p \<Longrightarrow> family_of (row_tenant b) p st"
proof -
  assume a: "one_family st" "map_of (kn_objects st) j = Some b" "ob_parent b = Some p"
  then obtain u where u: "family_of u p st" unfolding one_family_def by blast
  then have "row_tenant b = u" using a(2,3) unfolding family_of_def by blast
  with u show ?thesis by simp
qed

lemma map_of_filter_distinct:
  "distinct (map fst m) \<Longrightarrow>
    map_of (filter P m) i = (case map_of m i of Some v \<Rightarrow> if P (i, v) then Some v else None | None \<Rightarrow> None)"
  by (induction m) (auto simp: map_of_eq_None_iff image_iff split: option.splits)

lemma view_at:
  "one_family st \<Longrightarrow> map_of (kn_objects (tenant_view t st)) i =
    (case map_of (kn_objects st) i of Some obj \<Rightarrow> if row_tenant obj = t then Some obj else None | None \<Rightarrow> None)"
  by (cases "map_of (kn_objects st) i") (simp_all add: tenant_view_def map_of_filter_distinct one_family_keys)

lemma reads_tenant: "scope_reads s obj \<Longrightarrow> row_tenant obj = scope_tenant s"
  using ns_covers_tenant [of "sc_namespace s" "ob_namespace obj"]
  by (auto simp: scope_reads_def can_read_def row_tenant_def scope_tenant_def split: if_splits)

section \<open>Reads are reads of the view\<close>

lemma get_locked_view:
  assumes "one_family st" "sc_session s = []"
  shows "get_locked s i st = get_locked s i (tenant_view (scope_tenant s) st)"
  using reads_tenant [of s] assms(2)
  by (auto simp: get_locked_def view_at [OF assms(1)] trim_space_Nil Let_def split: option.splits)

lemma mem_get_view:
  "one_family st \<Longrightarrow> sc_session s = [] \<Longrightarrow> mem_get s i st = mem_get s i (tenant_view (scope_tenant s) st)"
  using get_locked_view [of st s i] by (cases "scope_bad s") (simp_all add: mem_get_def)

lemma mem_get_many_view:
  assumes "one_family st" "sc_session s = []"
  shows "mem_get_many s is st = mem_get_many s is (tenant_view (scope_tenant s) st)"
proof -
  have "get_each s st is = get_each s (tenant_view (scope_tenant s) st) is"
    by (induction "is") (simp_all add: get_locked_view [OF assms] split: sum.split)
  then show ?thesis by (simp only: mem_get_many_def)
qed

lemma filter_view:
  assumes "\<And>obj. P obj \<Longrightarrow> row_tenant obj = t"
  shows "filter P (map snd (kn_objects (tenant_view t st))) = filter P (map snd (kn_objects st))"
proof -
  have "filter P (map snd (filter (\<lambda>(i, obj). row_tenant obj = t) m)) = filter P (map snd m)" for m :: "(uuid, 'a object) gomap"
    using assms by (induction m) auto
  then show ?thesis by (simp add: tenant_view_def)
qed

lemma find_filter: "find P xs = (case filter P xs of [] \<Rightarrow> None | x # _ \<Rightarrow> Some x)"
  by (induction xs) auto

lemma mem_get_by_property_view:
  "mem_get_by_property s key val st = mem_get_by_property s key val (tenant_view (scope_tenant s) st)"
proof -
  let ?P = "\<lambda>obj. ob_deleted obj = None \<and> scope_reads s obj \<and> map_of (ob_props obj) key = Some (VStr val)"
  have "filter ?P (map snd (kn_objects (tenant_view (scope_tenant s) st))) = filter ?P (map snd (kn_objects st))"
    by (rule filter_view) (simp add: reads_tenant)
  then have "find ?P (map snd (kn_objects (tenant_view (scope_tenant s) st))) = find ?P (map snd (kn_objects st))"
    by (simp only: find_filter)
  then show ?thesis by (simp only: mem_get_by_property_def)
qed

lemma parts_locked_view: "parts_locked s p n st = parts_locked s p n (tenant_view (scope_tenant s) st)"
proof -
  have "filter (\<lambda>obj. ob_deleted obj = None \<and> ob_parent obj = Some p \<and> scope_reads s obj) (map snd (kn_objects (tenant_view (scope_tenant s) st)))
      = filter (\<lambda>obj. ob_deleted obj = None \<and> ob_parent obj = Some p \<and> scope_reads s obj) (map snd (kn_objects st))"
    by (rule filter_view) (simp add: reads_tenant)
  then show ?thesis by (simp only: parts_locked_def)
qed

lemma get_locked_row:
  assumes "one_family st" "sc_session s = []" "get_locked s i st = Inr obj"
  shows "map_of (kn_objects st) i = Some obj \<and> ob_id obj = i \<and> scope_reads s obj \<and> ob_deleted obj = None"
proof -
  have "map_of (kn_objects st) i = Some obj \<and> scope_reads s obj \<and> ob_deleted obj = None"
    using assms(2,3) by (auto simp: get_locked_def trim_space_Nil Let_def split: option.splits if_splits)
  then show ?thesis using know_good_at [OF one_family_good [OF assms(1)]] by blast
qed

lemma mem_get_tree_view:
  assumes "one_family st" "sc_session s = []"
  shows "mem_get_tree s i n st = mem_get_tree s i n (tenant_view (scope_tenant s) st)"
proof (cases "get_locked s i st")
  case (Inl e)
  moreover have "get_locked s i (tenant_view (scope_tenant s) st) = Inl e" using Inl get_locked_view [OF assms, of i] by simp
  ultimately show ?thesis by (simp only: mem_get_tree_def sum.case)
next
  case (Inr obj)
  have view: "get_locked s i (tenant_view (scope_tenant s) st) = Inr obj" using Inr get_locked_view [OF assms, of i] by simp
  have row: "map_of (kn_objects st) (ob_id obj) = Some obj" "row_tenant obj = scope_tenant s"
    using get_locked_row [OF assms Inr] reads_tenant by auto
  have "map_of (kn_objects (tenant_view (scope_tenant s) st)) (ob_id obj) = Some obj"
    by (simp add: view_at [OF assms(1)] row)
  then have at: "(map_of (kn_objects (tenant_view (scope_tenant s) st)) (ob_id obj) \<noteq> None) = (map_of (kn_objects st) (ob_id obj) \<noteq> None)"
    using row(1) by simp
  have parent: "get_locked s p (tenant_view (scope_tenant s) st) = get_locked s p st" for p
    using get_locked_view [OF assms, of p] by simp
  have parts: "parts_locked s p n (tenant_view (scope_tenant s) st) = parts_locked s p n st" for p
    using parts_locked_view [of s p n st] by simp
  show ?thesis by (simp only: mem_get_tree_def Inr view sum.case at parent parts)
qed

section \<open>Searches are searches of the view\<close>

lemma record_of_view:
  assumes "one_family st" "map_of (kn_objects st) i = Some obj" "row_tenant obj = t"
  shows "record_of obj (tenant_view t st) = record_of obj st"
proof (cases "ob_parent obj")
  case (Some p)
  have "family_of t p st" using family_parent [OF assms(1,2) Some] assms(3) by simp
  then show ?thesis by (auto simp: record_of_def Some view_at [OF assms(1)] family_of_def split: option.splits)
qed (simp add: record_of_def)

lemma candidate_rows_view:
  assumes "one_family st"
  shows "candidate_rows fl s plan ids st = candidate_rows fl s plan ids (tenant_view (scope_tenant s) st)"
proof -
  let ?P = "\<lambda>st' obj. ob_deleted obj = None \<and> scope_reads s obj
               \<and> plan_match fl plan (record_of obj st') \<and> among_ids ids (ob_id (record_of obj st'))"
  have "?P st obj = ?P (tenant_view (scope_tenant s) st) obj" if obj: "obj \<in> set (map snd (kn_objects st))" for obj
  proof (cases "scope_reads s obj")
    case True
    obtain i where "(i, obj) \<in> set (kn_objects st)" using obj by auto
    then have "map_of (kn_objects st) i = Some obj" using one_family_keys [OF assms] by simp
    then show ?thesis using record_of_view [OF assms _ reads_tenant [OF True]] by simp
  qed simp
  then have "candidate_rows fl s plan ids st = filter (?P (tenant_view (scope_tenant s) st)) (map snd (kn_objects st))"
    unfolding candidate_rows_def by (rule filter_cong [OF refl])
  also have "\<dots> = filter (?P (tenant_view (scope_tenant s) st)) (map snd (kn_objects (tenant_view (scope_tenant s) st)))"
    by (rule filter_view [symmetric]) (simp add: reads_tenant)
  finally show ?thesis by (simp only: candidate_rows_def)
qed

lemma list_records_view: "list_records z fl s plan ids n st = list_records z fl s plan ids n (tenant_view (scope_tenant s) st)"
proof -
  let ?P = "\<lambda>obj. ob_parent obj = None \<and> ob_deleted obj = None \<and> scope_reads s obj \<and> plan_match fl plan obj \<and> among_ids ids (ob_id obj)"
  have "filter ?P (map snd (kn_objects (tenant_view (scope_tenant s) st))) = filter ?P (map snd (kn_objects st))"
    by (rule filter_view) (simp add: reads_tenant)
  then show ?thesis by (simp only: list_records_def)
qed

text \<open>
  Within a row of another tenant, or within nothing, no row of this tenant is found: the rows at
  and under the record are all of the other tenant.
\<close>

lemma within_view:
  assumes "one_family st" "w \<noteq> 0"
  shows "filter (\<lambda>o'. ob_parent o' = Some (within_record w st)) (candidate_rows fl s plan ids st)
    = filter (\<lambda>o'. ob_parent o' = Some (within_record w (tenant_view (scope_tenant s) st))) (candidate_rows fl s plan ids st)"
proof (cases "map_of (kn_objects st) w")
  case None
  then show ?thesis by (simp add: within_record_def view_at [OF assms(1)])
next
  case (Some row)
  show ?thesis
  proof (cases "row_tenant row = scope_tenant s")
    case True
    then show ?thesis by (simp add: within_record_def view_at [OF assms(1)] Some)
  next
    case False
    have none: "ob_parent o' \<noteq> Some p"
      if o': "o' \<in> set (candidate_rows fl s plan ids st)" and p: "family_of (row_tenant row) p st" for o' p
    proof
      assume parent: "ob_parent o' = Some p"
      obtain i where "(i, o') \<in> set (kn_objects st)" "scope_reads s o'" using o' by (auto simp: candidate_rows_def)
      then have "map_of (kn_objects st) i = Some o'" "row_tenant o' = scope_tenant s"
        using one_family_keys [OF assms(1)] reads_tenant by auto
      then have "row_tenant row = scope_tenant s" using p parent unfolding family_of_def by metis
      then show False using False by simp
    qed
    have w: "family_of (row_tenant row) w st" by (rule family_at [OF assms(1) Some])
    have "family_of (row_tenant row) (within_record w st) st"
      using w family_parent [OF assms(1) Some] by (auto simp: within_record_def Some split: option.split)
    moreover have "within_record w (tenant_view (scope_tenant s) st) = w"
      using False by (simp add: within_record_def view_at [OF assms(1)] Some)
    ultimately show ?thesis using none w by (simp cong: filter_cong)
  qed
qed

lemma search_rows_view:
  assumes "one_family st" "sc_session s = []"
  shows "search_rows fl s q plan st = search_rows fl s q plan (tenant_view (scope_tenant s) st)"
proof -
  have c: "candidate_rows fl s plan (rq_ids q) (tenant_view (scope_tenant s) st) = candidate_rows fl s plan (rq_ids q) st"
    using candidate_rows_view [OF assms(1)] by metis
  have "append_session_parts s parts st = parts" for parts and st :: "'a know"
    using assms(2) by (simp add: append_session_parts_def session_rows_def trim_space_Nil)
  then show ?thesis using within_view [OF assms(1), of "rq_within q"] by (simp add: search_rows_def Let_def c)
qed

lemma mem_search_view:
  assumes "one_family st" "sc_session s = []"
  shows "mem_search env s q st = mem_search env s q (tenant_view (scope_tenant s) st)"
  using list_records_view [of _ _ s _ _ _ st] search_rows_view [OF assms]
  by (simp only: mem_search_def)

end
