(* ===== verification/Engine_Isolation.thy ===== *)
theory Engine_Isolation
  imports Engine_Parts Knowledge_View
begin

text \<open>
  Tenants do not meet: whatever scopes of other tenants write through the engine, with ids they
  choose freely, a tenant's rows and messages stay as they were and so does every read of its
  scopes. The engine's writes are a step relation; the invariant of its runs is that the rows at
  an id and under it belong to one tenant. A write is left out when it takes the id of an erased
  record whose parts another tenant still holds: the section at the end shows why.
\<close>

section \<open>What a tenant's write keeps\<close>

definition tenant_keeps :: "namespace \<Rightarrow> 'f know \<Rightarrow> 'f know \<Rightarrow> bool" where
  "tenant_keeps u st st' \<longleftrightarrow> one_family st' \<and> (\<forall>t. t \<noteq> u \<longrightarrow> tenant_view t st' = tenant_view t st)"

lemma tenant_keeps_refl: "one_family st \<Longrightarrow> tenant_keeps u st st"
  by (simp add: tenant_keeps_def)

lemma tenant_keeps_trans: "tenant_keeps u st st1 \<Longrightarrow> tenant_keeps u st1 st2 \<Longrightarrow> tenant_keeps u st st2"
  by (simp add: tenant_keeps_def)

lemma filter_update_other:
  assumes "distinct (map fst m)" "\<not> P (k, v)" "\<And>v'. map_of m k = Some v' \<Longrightarrow> \<not> P (k, v')"
  shows "filter P (AList.update k v m) = filter P m"
  using assms
proof (induction m)
  case (Cons kv m)
  show ?case
  proof (cases "fst kv = k")
    case True
    then have "\<not> P kv" using Cons.prems(3) [of "snd kv"] by (cases kv) simp
    then show ?thesis using True Cons.prems(2) by (cases kv) simp
  next
    case False
    then have "filter P (AList.update k v m) = filter P m" using Cons.prems by (intro Cons.IH) (auto split: if_splits)
    then show ?thesis using False by (cases kv) simp
  qed
qed simp

lemma family_of_mono:
  assumes "family_of u p st"
    and "\<And>i b. map_of (kn_objects st') i = Some b \<Longrightarrow> map_of (kn_objects st) i = Some b \<or> row_tenant b = u"
  shows "family_of u p st'"
  unfolding family_of_def
proof (intro conjI allI impI)
  fix a assume "map_of (kn_objects st') p = Some a"
  then show "row_tenant a = u" using assms(2) assms(1) unfolding family_of_def by metis
next
  fix j b assume "map_of (kn_objects st') j = Some b \<and> ob_parent b = Some p"
  then show "row_tenant b = u" using assms(2) assms(1) unfolding family_of_def by metis
qed

text \<open>Rows removed, all of one tenant.\<close>

lemma filter_objects_keeps:
  assumes "one_family st" and "\<And>i obj. map_of (kn_objects st) i = Some obj \<Longrightarrow> \<not> P (i, obj) \<Longrightarrow> row_tenant obj = u"
  shows "tenant_keeps u st (st\<lparr>kn_objects := filter P (kn_objects st), kn_revs := revs\<rparr>)"
proof -
  let ?st' = "st\<lparr>kn_objects := filter P (kn_objects st), kn_revs := revs\<rparr>"
  have d: "distinct (map fst (kn_objects st))" by (rule one_family_keys [OF assms(1)])
  have at: "map_of (kn_objects ?st') i = Some b \<Longrightarrow> map_of (kn_objects st) i = Some b" for i b
    by (simp add: map_of_filter_distinct [OF d] split: option.splits if_splits)
  have "know_good ?st'"
    using one_family_good [OF assms(1)] by (auto simp: know_good_def distinct_map_filter)
  moreover have "\<exists>u. family_of u p ?st'" for p
  proof -
    obtain u' where "family_of u' p st" using assms(1) unfolding one_family_def by blast
    then have "family_of u' p ?st'" by (rule family_of_mono) (rule disjI1, rule at)
    then show ?thesis by blast
  qed
  moreover have "distinct (map fst (kn_msgs ?st'))" using assms(1) by (simp add: one_family_def)
  ultimately have "one_family ?st'" by (simp add: one_family_def)
  moreover have "tenant_view t ?st' = tenant_view t st" if t: "t \<noteq> u" for t
  proof -
    have "P (i, obj)" if "(i, obj) \<in> set (kn_objects st)" "row_tenant obj = t" for i obj
      using assms(2) [of i obj] that t d by (metis map_of_is_SomeI)
    then have "filter (\<lambda>(i, obj). row_tenant obj = t) (filter P (kn_objects st)) = filter (\<lambda>(i, obj). row_tenant obj = t) (kn_objects st)"
      unfolding filter_filter by (intro filter_cong refl) auto
    then show ?thesis by (simp add: tenant_view_def)
  qed
  ultimately show ?thesis by (simp add: tenant_keeps_def)
qed

lemma msgs_keeps:
  assumes "one_family st" "distinct (map fst ms)"
    and "\<And>t. t \<noteq> u \<Longrightarrow> filter (\<lambda>(i, row). ns_tenant (sr_namespace row) = t) ms
        = filter (\<lambda>(i, row). ns_tenant (sr_namespace row) = t) (kn_msgs st)"
  shows "tenant_keeps u st (st\<lparr>kn_msgs := ms, kn_keys := keys\<rparr>)"
proof -
  let ?st' = "st\<lparr>kn_msgs := ms, kn_keys := keys\<rparr>"
  have "family_of v p ?st' = family_of v p st" for v p by (simp add: family_of_def)
  moreover have "know_good ?st' = know_good st" by (simp add: know_good_def)
  ultimately have "one_family ?st'" using assms(1,2) by (simp add: one_family_def)
  then show ?thesis using assms(3) by (simp add: tenant_keeps_def tenant_view_def)
qed

lemma filter_msgs_keeps:
  assumes "one_family st" and "\<And>i row. (i, row) \<in> set (kn_msgs st) \<Longrightarrow> \<not> P (i, row) \<Longrightarrow> ns_tenant (sr_namespace row) = u"
  shows "tenant_keeps u st (st\<lparr>kn_msgs := filter P (kn_msgs st), kn_keys := keys\<rparr>)"
proof (rule msgs_keeps [OF assms(1)])
  show "distinct (map fst (filter P (kn_msgs st)))" using assms(1) by (simp add: one_family_def distinct_map_filter)
  fix t assume "t \<noteq> u"
  then show "filter (\<lambda>(i, row). ns_tenant (sr_namespace row) = t) (filter P (kn_msgs st))
      = filter (\<lambda>(i, row). ns_tenant (sr_namespace row) = t) (kn_msgs st)"
    unfolding filter_filter using assms(2) by (intro filter_cong refl) auto
qed

lemma filter_only_msgs_keeps:
  assumes "one_family st" and "\<And>i row. (i, row) \<in> set (kn_msgs st) \<Longrightarrow> \<not> P (i, row) \<Longrightarrow> ns_tenant (sr_namespace row) = u"
  shows "tenant_keeps u st (st\<lparr>kn_msgs := filter P (kn_msgs st)\<rparr>)"
proof -
  have "st\<lparr>kn_msgs := filter P (kn_msgs st)\<rparr> = st\<lparr>kn_msgs := filter P (kn_msgs st), kn_keys := kn_keys st\<rparr>" by (cases st) simp
  then show ?thesis using filter_msgs_keeps [OF assms, where keys = "kn_keys st"] by simp
qed

text \<open>A row written: its id and its parent's are the tenant's.\<close>

lemma store_object_keeps:
  assumes "one_family st" "row_tenant obj = u" "family_of u (ob_id obj) st"
    and "\<And>p. ob_parent obj = Some p \<Longrightarrow> family_of u p st"
  shows "tenant_keeps u st (snd (store_object now obj st))"
proof -
  let ?st' = "snd (store_object now obj st)"
  have obj: "row_tenant (stamped now obj) = u" using assms(2) by (simp add: row_tenant_def)
  have good: "know_good ?st'" by (rule store_object_good [OF one_family_good [OF assms(1)]])
  have d: "distinct (map fst (kn_objects st))" by (rule one_family_keys [OF assms(1)])
  have "\<exists>u'. family_of u' p ?st'" for p
  proof (cases "p = ob_id obj \<or> ob_parent obj = Some p")
    case True
    then have "family_of u p st" using assms(3,4) by blast
    then have "family_of u p ?st'" by (rule family_of_mono) (use obj in \<open>auto simp: store_object_get split: if_splits\<close>)
    then show ?thesis by blast
  next
    case False
    obtain u' where "family_of u' p st" using assms(1) unfolding one_family_def by blast
    then have "family_of u' p ?st'" using False by (auto simp: family_of_def store_object_get split: if_splits)
    then show ?thesis by blast
  qed
  moreover have "kn_msgs ?st' = kn_msgs st" by (simp add: store_object_def)
  ultimately have "one_family ?st'" using good assms(1) by (simp add: one_family_def)
  moreover have "tenant_view t ?st' = tenant_view t st" if t: "t \<noteq> u" for t
  proof -
    have "filter (\<lambda>(i, obj). row_tenant obj = t) (AList.update (ob_id obj) (stamped now obj) (kn_objects st))
        = filter (\<lambda>(i, obj). row_tenant obj = t) (kn_objects st)"
      using assms(3) t obj by (intro filter_update_other d) (auto simp: family_of_def)
    then show ?thesis by (simp add: tenant_view_def store_object_def)
  qed
  ultimately show ?thesis by (simp add: tenant_keeps_def)
qed

section \<open>The store's writes\<close>

lemma map_delete_row:
  "map_of (map (delete_row i now) m) j = map_option (\<lambda>obj. snd (delete_row i now (j, obj))) (map_of m j)"
  by (induction m) (auto simp: delete_row_def split: if_splits)

lemma filter_map_same:
  "(\<And>x. x \<in> set m \<Longrightarrow> P (f x) = P x) \<Longrightarrow> (\<And>x. x \<in> set m \<Longrightarrow> P x \<Longrightarrow> f x = x) \<Longrightarrow> filter P (map f m) = filter P m"
  by (induction m) auto

lemma delete_row_sel:
  "fst (delete_row i now kc) = fst kc" "ob_id (snd (delete_row i now kc)) = ob_id (snd kc)"
  "ob_parent (snd (delete_row i now kc)) = ob_parent (snd kc)" "row_tenant (snd (delete_row i now kc)) = row_tenant (snd kc)"
  by (simp_all add: delete_row_def row_tenant_def)

lemma mem_soft_delete_keeps:
  assumes "one_family st" "mem_soft_delete now s i st = (r, st')"
  shows "tenant_keeps (scope_tenant s) st st'"
proof (cases r)
  case (Some err)
  then show ?thesis using assms tenant_keeps_refl by (auto simp: mem_soft_delete_def split: option.splits if_splits)
next
  case None
  then obtain obj where obj: "map_of (kn_objects st) i = Some obj" "scope_reads s obj"
      "st' = st\<lparr>kn_objects := map (delete_row i now) (kn_objects st)\<rparr>"
    using assms(2) by (auto simp: mem_soft_delete_def split: option.splits if_splits)
  have fam: "family_of (scope_tenant s) i st" using family_at [OF assms(1) obj(1)] reads_tenant [OF obj(2)] by simp
  have keys: "map fst (map (delete_row i now) (kn_objects st)) = map fst (kn_objects st)" by (simp add: delete_row_sel comp_def)
  have d: "distinct (map fst (kn_objects st))" by (rule one_family_keys [OF assms(1)])
  have at: "map_of (kn_objects st') j = map_option (\<lambda>obj. snd (delete_row i now (j, obj))) (map_of (kn_objects st) j)" for j
    by (simp add: obj(3) map_delete_row)
  have "\<forall>x \<in> set (kn_objects st). ob_id (snd x) = fst x"
    using one_family_good [OF assms(1)] by (simp add: know_good_def case_prod_beta)
  then have "know_good st'"
    using keys d by (simp add: know_good_def obj(3) delete_row_sel case_prod_beta del: map_map)
  moreover have "\<exists>u. family_of u p st'" for p
  proof -
    obtain u where "family_of u p st" using assms(1) unfolding one_family_def by blast
    then have "family_of u p st'" by (auto simp: family_of_def at delete_row_sel)
    then show ?thesis by blast
  qed
  moreover have "kn_msgs st' = kn_msgs st" by (simp add: obj(3))
  ultimately have "one_family st'" using assms(1) by (simp add: one_family_def)
  moreover have "tenant_view t st' = tenant_view t st" if t: "t \<noteq> scope_tenant s" for t
  proof -
    have "filter (\<lambda>(i, obj). row_tenant obj = t) (map (delete_row i now) (kn_objects st)) = filter (\<lambda>(i, obj). row_tenant obj = t) (kn_objects st)"
    proof (rule filter_map_same)
      fix x assume x: "x \<in> set (kn_objects st)"
      show "(case delete_row i now x of (i, obj) \<Rightarrow> row_tenant obj = t) = (case x of (i, obj) \<Rightarrow> row_tenant obj = t)"
        using delete_row_sel(4) [of i now x] by (simp add: case_prod_beta)
      assume "case x of (i, obj) \<Rightarrow> row_tenant obj = t"
      moreover have "map_of (kn_objects st) (fst x) = Some (snd x)" using map_of_is_SomeI [OF d, of "fst x" "snd x"] x by simp
      ultimately have "fst x \<noteq> i \<and> ob_parent (snd x) \<noteq> Some i" using fam t by (auto simp: family_of_def case_prod_beta)
      then show "delete_row i now x = x" by (simp add: delete_row_def)
    qed
    then show ?thesis by (simp add: tenant_view_def obj(3))
  qed
  ultimately show ?thesis by (simp add: tenant_keeps_def)
qed

lemma covers_tenant: "ns_covers (sc_namespace s) (ob_namespace obj) \<Longrightarrow> row_tenant obj = scope_tenant s"
  using ns_covers_tenant [of "sc_namespace s" "ob_namespace obj"] by (simp add: row_tenant_def scope_tenant_def)

lemma mem_purge_keeps:
  assumes "one_family st" "mem_purge_deleted s before st = (r, st')"
  shows "tenant_keeps (scope_tenant s) st st'"
proof (cases "scope_bad s")
  case (Some err)
  then show ?thesis using assms tenant_keeps_refl by (simp add: mem_purge_deleted_def)
next
  case None
  define gone where "gone = map fst (filter (\<lambda>(i, obj). (case ob_deleted obj of None \<Rightarrow> False | Some t \<Rightarrow> t < before)
                       \<and> ns_covers (sc_namespace s) (ob_namespace obj)) (kn_objects st))"
  have st': "st' = st\<lparr>kn_objects := filter (\<lambda>kv. fst kv \<notin> set gone) (kn_objects st),
                 kn_revs := without_keys (\<lambda>i. i \<in> set gone) (kn_revs st)\<rparr>"
    using assms(2) None by (simp add: mem_purge_deleted_def Let_def gone_def without_keys_def)
  have d: "distinct (map fst (kn_objects st))" by (rule one_family_keys [OF assms(1)])
  show ?thesis unfolding st'
  proof (rule filter_objects_keeps [OF assms(1)])
    fix i obj assume i: "map_of (kn_objects st) i = Some obj" "\<not> fst (i, obj) \<notin> set gone"
    then obtain obj' where "(i, obj') \<in> set (kn_objects st)" "ns_covers (sc_namespace s) (ob_namespace obj')"
      by (auto simp: gone_def)
    then have "map_of (kn_objects st) i = Some obj'" "row_tenant obj' = scope_tenant s" using d covers_tenant by auto
    then show "row_tenant obj = scope_tenant s" using i(1) by simp
  qed
qed

lemma mem_erase_keeps:
  assumes "one_family st" "mem_erase s st = (r, st')"
  shows "tenant_keeps (scope_tenant s) st st'"
proof (cases "scope_bad s")
  case (Some err)
  then show ?thesis using assms tenant_keeps_refl by (simp add: mem_erase_def)
next
  case None
  define gone where "gone = filter (\<lambda>(i, obj). scope_reads s obj) (kn_objects st)"
  define st1 where "st1 = st\<lparr>kn_objects := filter (\<lambda>kv. fst kv \<notin> fst ` set gone) (kn_objects st),
                 kn_revs := without_keys (\<lambda>i. i \<in> fst ` set gone) (kn_revs st)\<rparr>"
  have st': "st' = st1\<lparr>kn_msgs := filter (\<lambda>(i, row). \<not> ns_covers (sc_namespace s) (sr_namespace row)) (kn_msgs st1)\<rparr>"
    using assms(2) None by (simp add: mem_erase_def Let_def gone_def st1_def without_keys_def)
  have d: "distinct (map fst (kn_objects st))" by (rule one_family_keys [OF assms(1)])
  have k1: "tenant_keeps (scope_tenant s) st st1" unfolding st1_def
  proof (rule filter_objects_keeps [OF assms(1)])
    fix i obj assume i: "map_of (kn_objects st) i = Some obj" "\<not> fst (i, obj) \<notin> fst ` set gone"
    then obtain obj' where "(i, obj') \<in> set (kn_objects st)" "scope_reads s obj'" unfolding gone_def by fastforce
    then have "map_of (kn_objects st) i = Some obj'" "row_tenant obj' = scope_tenant s" using d reads_tenant by auto
    then show "row_tenant obj = scope_tenant s" using i(1) by simp
  qed
  then have "one_family st1" by (simp add: tenant_keeps_def)
  then have "tenant_keeps (scope_tenant s) st1 st'" unfolding st'
  proof (rule filter_only_msgs_keeps)
    fix i row assume "\<not> (case (i, row) of (i, row) \<Rightarrow> \<not> ns_covers (sc_namespace s) (sr_namespace row))"
    then show "ns_tenant (sr_namespace row) = scope_tenant s"
      using ns_covers_tenant [of "sc_namespace s" "sr_namespace row"] by (simp add: scope_tenant_def)
  qed
  with k1 show ?thesis by (rule tenant_keeps_trans)
qed

text \<open>
  A put: the id is free or a row's that the scope reads (check\_put), so the rows there are the
  scope's tenant's, unless the id is that of a record that is gone and left parts behind.
\<close>

definition adopts :: "scope \<Rightarrow> uuid \<Rightarrow> 'f know \<Rightarrow> bool" where
  "adopts s i st \<longleftrightarrow> map_of (kn_objects st) i = None
     \<and> (\<exists>j b. map_of (kn_objects st) j = Some b \<and> ob_parent b = Some i \<and> row_tenant b \<noteq> scope_tenant s)"

lemma check_put_family:
  assumes "one_family st" "check_put s obj st = None" "\<not> adopts s (ob_id obj) st"
  shows "family_of (scope_tenant s) (ob_id obj) st"
proof (cases "map_of (kn_objects st) (ob_id obj)")
  case None
  then show ?thesis using assms(3) by (auto simp: adopts_def family_of_def)
next
  case (Some old)
  then have "scope_reads s old" using assms(2) by (simp add: check_put_None)
  then show ?thesis using family_at [OF assms(1) Some] reads_tenant by metis
qed

lemma check_put_tenant: "check_put s obj st = None \<Longrightarrow> row_tenant obj = scope_tenant s"
  using covers_tenant [of s obj] by (simp add: check_put_None)

lemma mem_put_keeps:
  assumes "one_family st" "mem_put e now s x st = (r, st')" "\<not> adopts s (ob_id (ix_object x)) st"
    and "\<And>p. ob_parent (ix_object x) = Some p \<Longrightarrow> family_of (scope_tenant s) p st"
  shows "tenant_keeps (scope_tenant s) st st'"
proof (cases r)
  case (Inl err)
  then have "st' = st" using assms(2) know_memory.put_fails by blast
  then show ?thesis using assms(1) tenant_keeps_refl by simp
next
  case (Inr o')
  obtain obj where obj: "indexed_object e x = Inr obj" "check_put s obj st = None" "st' = snd (store_object now obj st)"
    using assms(2) Inr by (auto simp: mem_put_def split: sum.splits option.splits prod.splits)
  have same: "ob_id obj = ob_id (ix_object x)" "ob_parent obj = ob_parent (ix_object x)"
    using obj(1) by (auto simp: indexed_object_def split: sum.splits)
  show ?thesis unfolding obj(3)
    using check_put_family [OF assms(1) obj(2)] check_put_tenant [OF obj(2)] assms(3,4) same
    by (intro store_object_keeps assms(1)) simp_all
qed

text \<open>A tree: the record, its old parts that go, and its parts.\<close>

lemma family_after:
  assumes "family_of u p st" "row_tenant obj = u"
  shows "family_of u p (snd (store_object now obj st))"
  using assms(1)
  by (rule family_of_mono) (use assms(2) in \<open>auto simp: store_object_get row_tenant_def split: if_splits\<close>)

lemma store_parts_keeps:
  assumes "one_family st" "family_of u pid st" "row_tenant stored = u"
    and "\<forall>part \<in> set parts. family_of u (part_id part) st \<and> (\<not> tp_reused part \<longrightarrow> ob_parent (tp_object part) = Some pid)
          \<and> (tp_reused part \<longrightarrow> map_of (kn_objects st) (part_id part) \<noteq> None)"
  shows "tenant_keeps u st (store_parts now stored parts st)"
  using assms(1,2,4)
proof (induction parts arbitrary: st)
  case Nil
  then show ?case by (simp add: store_parts_def tenant_keeps_refl)
next
  case (Cons part parts)
  define obj where "obj = placed_part stored st part"
  define st1 where "st1 = snd (store_object now obj st)"
  have step: "store_parts now stored (part # parts) st = store_parts now stored parts st1"
    by (simp add: store_parts_def st1_def obj_def)
  have p: "family_of u (part_id part) st" "\<not> tp_reused part \<Longrightarrow> ob_parent (tp_object part) = Some pid"
      "tp_reused part \<Longrightarrow> map_of (kn_objects st) (part_id part) \<noteq> None"
    using Cons.prems(3) by auto
  have ns: "row_tenant obj = u" using assms(3) by (simp add: obj_def placed_part_def Let_def row_tenant_def)
  have id: "ob_id obj = part_id part \<and> (\<forall>q. ob_parent obj = Some q \<longrightarrow> family_of u q st)"
  proof (cases "tp_reused part")
    case True
    then obtain old where old: "map_of (kn_objects st) (part_id part) = Some old" using p(3) by auto
    have "row_tenant old = u" using p(1) old by (simp add: family_of_def)
    then have "\<forall>q. ob_parent old = Some q \<longrightarrow> family_of u q st" using family_parent [OF Cons.prems(1) old] by blast
    moreover have "ob_id obj = ob_id old" "ob_parent obj = ob_parent old" using True old by (simp_all add: obj_def placed_part_def Let_def)
    ultimately show ?thesis using know_good_at [OF one_family_good [OF Cons.prems(1)] old] by simp
  next
    case False
    then show ?thesis using p(2) Cons.prems(2) by (simp add: obj_def placed_part_def Let_def)
  qed
  have k: "tenant_keeps u st st1" unfolding st1_def
    using Cons.prems(1) ns p(1) id by (intro store_object_keeps) simp_all
  have fam: "family_of u q st1" if "family_of u q st" for q
    unfolding st1_def by (rule family_after [OF that ns])
  have "map_of (kn_objects st1) i \<noteq> None" if "map_of (kn_objects st) i \<noteq> None" for i
    using that by (simp add: st1_def store_object_get)
  then have "tenant_keeps u st1 (store_parts now stored parts st1)"
    using Cons.IH [of st1] k Cons.prems(2,3) fam by (simp add: tenant_keeps_def)
  with k show ?case unfolding step by (rule tenant_keeps_trans)
qed

lemma put_tree_commit_keeps:
  assumes "one_family st" "put_tree_commit now s sg st = (r, st')"
    and "\<not> adopts s (ob_id (sg_parent sg)) st" "ob_parent (sg_parent sg) = None"
    and "\<forall>part \<in> set (sg_parts sg). family_of (scope_tenant s) (part_id part) st
          \<and> ob_parent (tp_object part) = Some (ob_id (sg_parent sg))"
  shows "tenant_keeps (scope_tenant s) st st'"
proof (cases r)
  case (Inl err)
  then have "st' = st" using assms(2)
    by (auto simp: put_tree_commit_def Let_def split: option.splits if_splits sum.splits prod.splits)
  then show ?thesis using assms(1) tenant_keeps_refl by simp
next
  case (Inr stored)
  let ?p = "sg_parent sg" and ?parts = "sg_parts sg" and ?t = "scope_tenant s"
  let ?pid = "ob_id ?p"
  from assms(2) Inr obtain keep where c: "check_put s ?p st = None" "check_parts s ?pid st [] ?parts = Inr keep"
    by (auto simp: put_tree_commit_def Let_def split: option.splits if_splits sum.splits prod.splits)
  define st1 where "st1 = st\<lparr>kn_objects := filter (\<lambda>(i, obj). \<not> (i \<notin> set keep \<and> ob_parent obj = Some ?pid)) (kn_objects st)\<rparr>"
  define st2 where "st2 = snd (store_object now ?p st1)"
  define st3 where "st3 = store_parts now (stamped now ?p) ?parts st2"
  from assms(2) Inr c have res: "st' = st3\<lparr>kn_revs := AList.update ?pid (sg_rev sg + 1) (kn_revs st3)\<rparr>"
    by (auto simp: put_tree_commit_def Let_def st3_def st2_def st1_def store_parts_def store_object_def
        split: option.splits if_splits sum.splits prod.splits)
  note keep = check_parts_Inr [OF c(2)]
  have d: "distinct (map fst (kn_objects st))" by (rule one_family_keys [OF assms(1)])
  have fam: "family_of ?t ?pid st" by (rule check_put_family [OF assms(1) c(1) assms(3)])
  have ns: "row_tenant ?p = ?t" by (rule check_put_tenant [OF c(1)])
  have st1: "st1 = st\<lparr>kn_objects := filter (\<lambda>(i, obj). \<not> (i \<notin> set keep \<and> ob_parent obj = Some ?pid)) (kn_objects st), kn_revs := kn_revs st\<rparr>"
    unfolding st1_def by (cases st) simp
  have k1: "tenant_keeps ?t st st1" unfolding st1
  proof (rule filter_objects_keeps [OF assms(1)])
    fix i obj assume "map_of (kn_objects st) i = Some obj" "\<not> (case (i, obj) of (i, obj) \<Rightarrow> \<not> (i \<notin> set keep \<and> ob_parent obj = Some ?pid))"
    then show "row_tenant obj = ?t" using fam unfolding family_of_def by blast
  qed
  have at1: "map_of (kn_objects st1) i = Some b \<Longrightarrow> map_of (kn_objects st) i = Some b" for i b
    by (simp add: st1_def map_of_filter_distinct [OF d] split: option.splits if_splits)
  have fam1: "family_of ?t q st1" if "family_of ?t q st" for q
    using that by (rule family_of_mono) (rule disjI1, rule at1)
  have fam2: "family_of ?t q st2" if "family_of ?t q st" for q
    unfolding st2_def by (rule family_after [OF fam1 [OF that] ns])
  have k2: "tenant_keeps ?t st1 st2" unfolding st2_def
    using k1 fam1 [OF fam] assms(4) ns by (intro store_object_keeps) (simp_all add: tenant_keeps_def)
  have "map_of (kn_objects st2) (part_id part) \<noteq> None" if part: "part \<in> set ?parts" "tp_reused part" for part
  proof -
    obtain old where "map_of (kn_objects st) (part_id part) = Some old" using keep part by blast
    moreover have "part_id part \<in> set keep" using keep part by simp
    ultimately have "map_of (kn_objects st1) (part_id part) = Some old"
      by (simp add: st1_def map_of_filter_distinct [OF d])
    then show ?thesis by (simp add: st2_def store_object_get)
  qed
  then have k3: "tenant_keeps ?t st2 st3" unfolding st3_def
    using k2 fam2 [OF fam] fam2 assms(5) ns
    by (intro store_parts_keeps [where pid = ?pid]) (simp_all add: tenant_keeps_def row_tenant_def)
  have k: "tenant_keeps ?t st st3" using tenant_keeps_trans [OF tenant_keeps_trans [OF k1 k2] k3] .
  have "family_of v p st' = family_of v p st3" for v p by (simp add: res family_of_def)
  moreover have "know_good st' = know_good st3" "kn_msgs st' = kn_msgs st3" by (simp_all add: res know_good_def)
  ultimately have "one_family st' = one_family st3" by (simp add: one_family_def)
  moreover have "tenant_view t st' = tenant_view t st3" for t by (simp add: res tenant_view_def)
  ultimately show ?thesis using k by (simp add: tenant_keeps_def)
qed

section \<open>Saved messages\<close>

lemma map_copy_msgs:
  assumes "distinct (map fst m)" "t \<noteq> u" "\<forall>(i, row) \<in> set rows. ns_tenant (sr_namespace row) = u"
    and "\<And>i row. i \<in> fst ` set rows \<Longrightarrow> map_of m i = Some row \<Longrightarrow> ns_tenant (sr_namespace row) = u"
  shows "distinct (map fst (map_copy m rows))
    \<and> filter (\<lambda>(i, row). ns_tenant (sr_namespace row) = t) (map_copy m rows) = filter (\<lambda>(i, row). ns_tenant (sr_namespace row) = t) m"
  using assms(1,3,4)
proof (induction rows arbitrary: m)
  case (Cons kv rows)
  obtain i row where kv: "kv = (i, row)" by (cases kv)
  define m1 where "m1 = AList.update i row m"
  have u: "ns_tenant (sr_namespace row) = u" using Cons.prems(2) kv by simp
  have "filter (\<lambda>(i, row). ns_tenant (sr_namespace row) = t) m1 = filter (\<lambda>(i, row). ns_tenant (sr_namespace row) = t) m"
    unfolding m1_def
  proof (rule filter_update_other [OF Cons.prems(1)])
    show "\<not> (case (i, row) of (i, row) \<Rightarrow> ns_tenant (sr_namespace row) = t)" using u assms(2) by simp
    fix v assume "map_of m i = Some v"
    then have "ns_tenant (sr_namespace v) = u" using Cons.prems(3) [of i v] kv by simp
    then show "\<not> (case (i, v) of (i, row) \<Rightarrow> ns_tenant (sr_namespace row) = t)" using assms(2) by simp
  qed
  moreover have "distinct (map fst m1)" using Cons.prems(1) by (simp add: m1_def distinct_update)
  moreover have "ns_tenant (sr_namespace v) = u" if "j \<in> fst ` set rows" "map_of m1 j = Some v" for j v
    using Cons.prems(3) [of j v] that u kv by (auto simp: m1_def update_conv' split: if_splits)
  ultimately show ?case using Cons.IH [of m1] Cons.prems(2) kv by (simp add: m1_def)
qed simp

lemma tenant_for_session: "ns_validate host = None \<Longrightarrow> ns_tenant (for_session host sid) = ns_tenant host"
  by (cases host) (simp_all add: ns_validate_def for_session_def ns_tenant_def)

lemma save_messages_keeps:
  assumes "one_family st" "save_session_messages quote e now fresh host sid gkey msgs st = (r, st')"
    and "\<And>n row. map_of (kn_msgs st) (fresh n) = Some row \<Longrightarrow> ns_tenant (sr_namespace row) = ns_tenant host"
  shows "tenant_keeps (ns_tenant host) st st'"
proof -
  consider "st' = st" | gen rows keys where "ns_validate host = None"
      "st' = st\<lparr>kn_msgs := map_copy (kn_msgs st) rows, kn_keys := keys\<rparr>"
      "rows = map (\<lambda>(i, msg). (fresh i, message_row e now (for_session host (trim_space sid)) (trim_space sid) (trim_space gkey) gen
          (fresh i) i msg (embed_messages e msgs ! i))) (ranked msgs)"
    using assms(2) by (auto simp: save_session_messages_def Let_def split: if_splits option.splits)
  then show ?thesis
  proof cases
    case 1
    then show ?thesis using assms(1) tenant_keeps_refl by simp
  next
    case 2
    have rows: "\<forall>(i, row) \<in> set rows. ns_tenant (sr_namespace row) = ns_tenant host"
      using tenant_for_session [OF 2(1)] by (auto simp: 2(3) message_row_def)
    have old: "ns_tenant (sr_namespace row) = ns_tenant host" if "i \<in> fst ` set rows" "map_of (kn_msgs st) i = Some row" for i row
      using that assms(3) by (auto simp: 2(3))
    have d: "distinct (map fst (kn_msgs st))" using assms(1) by (simp add: one_family_def)
    note copied = map_copy_msgs [OF d _ rows old]
    have "undefined # ns_tenant host \<noteq> ns_tenant host" by simp
    from copied [OF this] have "distinct (map fst (map_copy (kn_msgs st) rows))" by simp
    then show ?thesis unfolding 2(2)
      by (rule msgs_keeps [OF assms(1)]) (rule conjunct2 [OF copied])
  qed
qed

lemma delete_messages_keeps:
  assumes "one_family st" "delete_session_messages quote host sid st = (r, st')"
  shows "tenant_keeps (ns_tenant host) st st'"
proof (cases "ns_validate host")
  case (Some err)
  then show ?thesis using assms tenant_keeps_refl by (simp add: delete_session_messages_def)
next
  case None
  let ?ns = "for_session host (trim_space sid)"
  have st': "st' = st\<lparr>kn_msgs := filter (\<lambda>(i, row). sr_namespace row \<noteq> ?ns) (kn_msgs st), kn_keys := AList.delete (ns_key quote ?ns) (kn_keys st)\<rparr>"
    using assms(2) None by (simp add: delete_session_messages_def Let_def)
  show ?thesis unfolding st'
    using tenant_for_session [OF None, of "trim_space sid"] by (intro filter_msgs_keeps assms(1)) simp
qed

lemma purge_messages_keeps:
  assumes "one_family st" "purge_session_messages host before st = (r, st')"
  shows "tenant_keeps (ns_tenant host) st st'"
proof (cases "ns_validate host")
  case (Some err)
  then show ?thesis using assms tenant_keeps_refl by (simp add: purge_session_messages_def)
next
  case None
  have st': "st' = st\<lparr>kn_msgs := filter (\<lambda>x. \<not> (case x of (i, row) \<Rightarrow> ns_covers host (sr_namespace row) \<and> sr_created row < before)) (kn_msgs st)\<rparr>"
    using assms(2) None by (simp add: purge_session_messages_def Let_def)
  show ?thesis unfolding st'
  proof (rule filter_only_msgs_keeps [OF assms(1)])
    fix i row assume "\<not> \<not> (case (i, row) of (i, row) \<Rightarrow> ns_covers host (sr_namespace row) \<and> sr_created row < before)"
    then show "ns_tenant (sr_namespace row) = ns_tenant host" using ns_covers_tenant [of host "sr_namespace row"] by simp
  qed
qed

section \<open>The engine's steps\<close>

text \<open>
  One write of the engine under a scope, whatever it comes to. Ids are the caller's: they may be
  any row's, also another tenant's. Left out are a write that adopts the parts of a record that is
  gone, and a save by a session's scope that names a saved message as the parent. Of generated ids
  it is asked that no other tenant's row has them: part ids hash their record's id and the part's
  content, ids of messages are random.
\<close>

inductive engine_step :: "scope \<Rightarrow> 'f brain \<Rightarrow> 'f brain \<Rightarrow> bool" for s where
  step_save: "save en s obj w = (r, w') \<Longrightarrow> \<not> adopts s (ob_id (with_defaults en s obj)) (br_store w) \<Longrightarrow>
    (\<And>p. sc_session s \<noteq> [] \<Longrightarrow> ob_parent obj = Some p \<Longrightarrow> map_of (kn_msgs (br_store w)) p = None) \<Longrightarrow> engine_step s w w'"
| step_put_tree: "put_tree en s parent parts w = (r, w') \<Longrightarrow> \<not> adopts s (ob_id (with_defaults en s parent)) (br_store w) \<Longrightarrow>
    (\<And>d n. family_of (scope_tenant s) (en_part_id en (ob_id (with_defaults en s parent)) d n) (br_store w)) \<Longrightarrow> engine_step s w w'"
| step_soft_delete: "soft_delete en s i w = (e, w') \<Longrightarrow> engine_step s w w'"
| step_purge: "purge_deleted en s before w = (n, e, w') \<Longrightarrow> engine_step s w w'"
| step_erase: "erase en s w = (e, w') \<Longrightarrow> engine_step s w w'"
| step_link: "link en s from to rel meta remove w = (e, w') \<Longrightarrow> engine_step s w w'"
| step_save_messages: "engine_save_messages quote fresh en (sc_namespace s) sid gkey msgs w = (gen, e, w') \<Longrightarrow>
    (\<And>n row. map_of (kn_msgs (br_store w)) (fresh n) = Some row \<Longrightarrow> ns_tenant (sr_namespace row) = scope_tenant s) \<Longrightarrow> engine_step s w w'"
| step_delete_messages: "engine_delete_messages quote en (sc_namespace s) sid w = (e, w') \<Longrightarrow> engine_step s w w'"
| step_purge_messages: "engine_purge_messages en (sc_namespace s) before w = (n, e, w') \<Longrightarrow> engine_step s w w'"

lemma mem_get_family:
  assumes "one_family st" "mem_get s p st = Inr po" "sc_session s \<noteq> [] \<Longrightarrow> map_of (kn_msgs st) p = None"
  shows "family_of (scope_tenant s) p st"
proof -
  have "map_of (kn_objects st) p = Some po \<and> scope_reads s po"
    using assms(2,3) by (cases "sc_session s = []")
      (auto simp: mem_get_def get_locked_def trim_space_Nil Let_def split: option.splits if_splits)
  then show ?thesis using family_at [OF assms(1), of p po] reads_tenant [of s po] by simp
qed

lemma prepare_put_family:
  assumes "prepare_put en s obj w = Inr x" "one_family (br_store w)" "ob_parent (ix_object x) = Some p"
    and "\<And>p. sc_session s \<noteq> [] \<Longrightarrow> ob_parent obj = Some p \<Longrightarrow> map_of (kn_msgs (br_store w)) p = None"
  shows "family_of (scope_tenant s) p (br_store w)"
proof -
  have p: "ob_parent obj = Some p" using prepare_put_Inr [OF assms(1)] assms(3) by (simp add: with_defaults_def)
  then obtain po where "mem_get s p (br_store w) = Inr po" using prepare_put_Inr [OF assms(1)] by blast
  then show ?thesis using assms(2,4) p by (intro mem_get_family) simp_all
qed

text \<open>What each operation does to the store: nothing, or one of the store's writes.\<close>

lemma save_store:
  "save en s obj w = (r, w') \<Longrightarrow> br_store w' = br_store w
    \<or> (\<exists>x p. prepare_put en s obj w = Inr x \<and> mem_put (en_embedding en) (en_store_now en) s x (br_store w) = (p, br_store w'))"
  by (auto simp: save_def split: option.splits sum.splits prod.splits dest!: committed_put_store)

lemma put_tree_store:
  "put_tree en s parent parts w = (r, w') \<Longrightarrow> br_store w' = br_store w
    \<or> (\<exists>x p. ob_parent parent = None \<and> prepare_put en s parent w = Inr x
          \<and> mem_put_tree (en_embedding en) (en_store_now en) s x
               (prepared_parts en (br_catalog w) (ix_object x) 0 (\<lambda>d. 0) parts) (br_store w) = (p, br_store w'))"
  by (auto simp: put_tree_def Let_def split: option.splits sum.splits prod.splits if_splits dest!: committed_put_store)

lemma soft_delete_store:
  assumes "soft_delete en s i w = (e, w')"
  shows "br_store w' = br_store w \<or> (\<exists>r. mem_soft_delete (en_store_now en) s i (br_store w) = (r, br_store w'))"
proof -
  define ask where "ask obj = (if ob_parent obj = None then remove_indexes en i w else (None, w))" for obj :: "'a object"
  have ask: "ask obj = (q, w1) \<Longrightarrow> br_store w1 = br_store w" for obj q w1
    by (auto simp: ask_def remove_indexes_def dest: remove_each_store split: if_splits)
  show ?thesis using assms unfolding soft_delete_def ask_def [symmetric]
    by (auto split: option.splits sum.splits prod.splits dest!: ask record_event_store)
qed

lemma purge_store:
  "purge_deleted en s before w = (n, e, w') \<Longrightarrow> br_store w' = br_store w \<or> (\<exists>r. mem_purge_deleted s before (br_store w) = (r, br_store w'))"
  by (auto simp: purge_deleted_def split: option.splits sum.splits prod.splits dest!: record_event_store)

lemma erase_store:
  "erase en s w = (e, w') \<Longrightarrow> br_store w' = br_store w \<or> (\<exists>r. mem_erase s (br_store w) = (r, br_store w'))"
  by (auto simp: erase_def split: option.splits sum.splits prod.splits dest!: record_event_store erase_each_store)

lemma link_store: "link en s from to rel meta remove w = (e, w') \<Longrightarrow> br_store w' = br_store w"
  by (auto simp: link_def Let_def perform_def split: option.splits sum.splits if_splits dest!: record_event_store)

lemma save_messages_store:
  "engine_save_messages quote fresh en host sid gkey msgs w = (gen, e, w') \<Longrightarrow> br_store w' = br_store w
    \<or> (\<exists>r. save_session_messages quote (en_embedding en) (en_store_now en) fresh host sid gkey msgs (br_store w) = (r, br_store w'))"
  by (auto simp: engine_save_messages_def split: option.splits sum.splits prod.splits dest!: record_event_store)

lemma delete_messages_store:
  "engine_delete_messages quote en host sid w = (e, w') \<Longrightarrow> br_store w' = br_store w
    \<or> (\<exists>r. delete_session_messages quote host (trim_space sid) (br_store w) = (r, br_store w'))"
  by (auto simp: engine_delete_messages_def Let_def split: option.splits if_splits prod.splits dest!: record_event_store)

lemma purge_messages_store:
  "engine_purge_messages en host before w = (n, e, w') \<Longrightarrow> br_store w' = br_store w
    \<or> (\<exists>r. purge_session_messages host before (br_store w) = (r, br_store w'))"
  by (auto simp: engine_purge_messages_def split: option.splits sum.splits prod.splits dest!: record_event_store)

lemma mem_put_tree_keeps:
  assumes "one_family st" "mem_put_tree e now s x (prepared_parts en cat (ix_object x) 0 seen parts) st = (r, st')"
    and "\<not> adopts s (ob_id (ix_object x)) st" "ob_parent (ix_object x) = None"
    and "\<And>d n. family_of (scope_tenant s) (en_part_id en (ob_id (ix_object x)) d n) st"
  shows "tenant_keeps (scope_tenant s) st st'"
proof (cases "put_tree_stage e s x (prepared_parts en cat (ix_object x) 0 seen parts) st")
  case (Inl err)
  then show ?thesis using assms(1,2) tenant_keeps_refl by (simp add: mem_put_tree_def)
next
  case (Inr sg)
  let ?xs = "prepared_parts en cat (ix_object x) 0 seen parts"
  obtain xs where xs: "?xs = map Inr xs"
      "map staged_face (sg_parts sg) = map (\<lambda>y. (part_face (ix_object y),
        if reusable e s (ob_id (ix_object x)) st (ob_id (ix_object y)) then None else Some (part_text (ix_object y)))) xs"
      "ob_id (sg_parent sg) = ob_id (ix_object x)" "ob_parent (sg_parent sg) = ob_parent (ix_object x)"
    using staged_faces [OF Inr] prepared_parts_Inr by blast
  have faces: "map (\<lambda>p. part_face (tp_object p)) (sg_parts sg) = map (\<lambda>y. part_face (ix_object y)) xs"
    using arg_cong [OF xs(2), of "map fst"] by (simp add: staged_face_def comp_def)
  have "family_of (scope_tenant s) (part_id part) st \<and> ob_parent (tp_object part) = Some (ob_id (sg_parent sg))"
    if part: "part \<in> set (sg_parts sg)" for part
  proof -
    have "part_face (tp_object part) \<in> (\<lambda>y. part_face (ix_object y)) ` set xs"
      using part arg_cong [OF faces, of set] by auto
    then obtain y where y: "y \<in> set xs" "part_face (tp_object part) = part_face (ix_object y)" by blast
    have "Inr y \<in> set ?xs" using y(1) by (simp add: xs(1))
    from prepared_parts_Inr [OF this] show ?thesis using y(2) assms(5) xs(3) by (auto simp: part_face_def)
  qed
  moreover have "put_tree_commit now s sg st = (r, st')" using assms(2) Inr by (simp add: mem_put_tree_def)
  ultimately show ?thesis
    using assms(1,3,4) xs(3,4) by (intro put_tree_commit_keeps [where sg = sg]) auto
qed

lemma engine_step_keeps:
  assumes "engine_step s w w'" "one_family (br_store w)"
  shows "tenant_keeps (scope_tenant s) (br_store w) (br_store w')"
  using assms
proof (induction rule: engine_step.induct)
  case (step_save en obj w r w')
  from save_store [OF step_save(1)] show ?case
  proof (elim disjE exE conjE)
    assume "br_store w' = br_store w"
    then show ?thesis using step_save tenant_keeps_refl by simp
  next
    fix x p assume x: "prepare_put en s obj w = Inr x" "mem_put (en_embedding en) (en_store_now en) s x (br_store w) = (p, br_store w')"
    show ?thesis
    proof (rule mem_put_keeps [OF step_save(4) x(2)])
      show "\<not> adopts s (ob_id (ix_object x)) (br_store w)" using prepare_put_Inr [OF x(1)] step_save(2) by simp
      show "family_of (scope_tenant s) q (br_store w)" if "ob_parent (ix_object x) = Some q" for q
        using prepare_put_family [OF x(1) step_save(4) that] step_save(3) by blast
    qed
  qed
next
  case (step_put_tree en parent parts w r w')
  from put_tree_store [OF step_put_tree(1)] show ?case
  proof (elim disjE exE conjE)
    assume "br_store w' = br_store w"
    then show ?thesis using step_put_tree tenant_keeps_refl by simp
  next
    fix x p assume x: "ob_parent parent = None" "prepare_put en s parent w = Inr x"
      "mem_put_tree (en_embedding en) (en_store_now en) s x
         (prepared_parts en (br_catalog w) (ix_object x) 0 (\<lambda>d. 0) parts) (br_store w) = (p, br_store w')"
    have "ix_object x = with_defaults en s parent" using prepare_put_Inr [OF x(2)] by simp
    moreover have "ob_parent (with_defaults en s parent) = None" using x(1) by (simp add: with_defaults_def)
    ultimately show ?thesis using step_put_tree(2,3)
      by (intro mem_put_tree_keeps [OF step_put_tree(4) x(3)]) simp_all
  qed
next
  case (step_soft_delete en i w e w')
  then show ?case using soft_delete_store [OF step_soft_delete(1)] mem_soft_delete_keeps tenant_keeps_refl by metis
next
  case (step_purge en before w n e w')
  then show ?case using purge_store [OF step_purge(1)] mem_purge_keeps tenant_keeps_refl by metis
next
  case (step_erase en w e w')
  then show ?case using erase_store [OF step_erase(1)] mem_erase_keeps tenant_keeps_refl by metis
next
  case (step_link en "from" to rel meta remove w e w')
  then show ?case using link_store [OF step_link(1)] tenant_keeps_refl by metis
next
  case (step_save_messages quote fresh en sid gkey msgs w gen e w')
  from save_messages_store [OF step_save_messages(1)] show ?case
  proof (elim disjE exE)
    assume "br_store w' = br_store w"
    then show ?thesis using step_save_messages(3) tenant_keeps_refl by simp
  next
    fix r assume r: "save_session_messages quote (en_embedding en) (en_store_now en) fresh (sc_namespace s) sid gkey msgs (br_store w) = (r, br_store w')"
    show ?thesis unfolding scope_tenant_def
      by (rule save_messages_keeps [OF step_save_messages(3) r]) (simp add: step_save_messages(2) scope_tenant_def [symmetric])
  qed
next
  case (step_delete_messages quote en sid w e w')
  then show ?case using delete_messages_store [OF step_delete_messages(1)] delete_messages_keeps tenant_keeps_refl
    unfolding scope_tenant_def by metis
next
  case (step_purge_messages en before w n e w')
  then show ?case using purge_messages_store [OF step_purge_messages(1)] purge_messages_keeps tenant_keeps_refl
    unfolding scope_tenant_def by metis
qed

section \<open>Runs\<close>



section \<open>What the store itself does not check\<close>

text \<open>
  A delete of a record takes every live row that names it as its parent, whatever the scope can
  read: with the id of a record that is gone, a scope takes the parts another tenant still holds.
\<close>

lemma soft_delete_ignores_scope:
  assumes "mem_soft_delete now s i st = (None, st')" and "map_of (kn_objects st) j = Some part"
    and "ob_parent part = Some i" "ob_deleted part = None"
  shows "map_of (kn_objects st') j = Some (part\<lparr>ob_deleted := Some now, ob_updated := now\<rparr>)"
proof -
  have "st' = st\<lparr>kn_objects := map (delete_row i now) (kn_objects st)\<rparr>"
    using assms(1) by (auto simp: mem_soft_delete_def split: option.splits if_splits)
  then show ?thesis using assms(2-4) by (simp add: map_delete_row delete_row_def)
qed

end
