(* ===== verification/Engine_Tree.thy ===== *)
theory Engine_Tree
  imports Engine_Parts
begin

text \<open>
  A tree written through the engine (brain/tree.go) and read back from the store: the parts get
  their places from their order and their ids from their content, the store keeps the ones it
  has, and a read of the record gives the record and every part in order.
\<close>

section \<open>The record and its parts\<close>

lemma put_tree_commit_stored:
  "put_tree_commit now s sg st = (Inr stored, st') \<Longrightarrow> stored = stamped now (sg_parent sg)"
  by (auto simp: put_tree_commit_def Let_def store_object_def split: option.splits if_splits sum.splits prod.splits)

lemma put_tree_Inr:
  assumes "put_tree en s parent parts w = (Inr stored, w')"
  shows "\<exists>x. ob_parent parent = None \<and> prepare_put en s parent w = Inr x
      \<and> mem_put_tree (en_embedding en) (en_store_now en) s x
           (prepared_parts en (br_catalog w) (ix_object x) 0 (\<lambda>d. 0) parts) (br_store w) = (Inr stored, br_store w')"
  using assms
  by (auto simp: put_tree_def Let_def split: option.splits sum.splits prod.splits if_splits dest!: committed_put_store)

lemma parts_locked_row:
  assumes "know_good st" "obj \<in> set (parts_locked s pid 0 st)"
  shows "map_of (kn_objects st) (ob_id obj) = Some obj \<and> ob_parent obj = Some pid"
proof -
  have "obj \<in> snd ` set (kn_objects st)" "ob_parent obj = Some pid" using assms(2) by (auto simp: parts_locked_def)
  then show ?thesis using assms(1) by (auto simp: know_good_def)
qed

text \<open>What a staged part becomes in the store: its own text, or the text of the row that is kept.\<close>

lemma placed_part_face:
  assumes "tp_reused part \<longrightarrow> (\<exists>old. map_of (kn_objects st) (part_id part) = Some old \<and> ob_id old = part_id part \<and> ob_parent old = ob_parent (tp_object part))"
  shows "ob_id (placed_part stored st part) = part_id part" "ob_props (placed_part stored st part) = ob_props (tp_object part)"
    "ob_parent (placed_part stored st part) = ob_parent (tp_object part)"
    "ob_position (placed_part stored st part) = ob_position (tp_object part)"
    "ob_namespace (placed_part stored st part) = ob_namespace stored" "ob_readers (placed_part stored st part) = ob_readers stored"
    "if tp_reused part then \<exists>old. map_of (kn_objects st) (part_id part) = Some old \<and> part_text (placed_part stored st part) = part_text old
     else part_text (placed_part stored st part) = part_text (tp_object part)"
  using assms by (cases "tp_reused part"; auto simp: placed_part_def Let_def part_text_def)+

lemma stamped_fields [simp]:
  "ob_props (stamped now obj) = ob_props obj" "part_text (stamped now obj) = part_text obj"
  by (simp_all add: stamped_def part_text_def)

lemma staged_nth:
  assumes "put_tree_stage e s x (prepared_parts en cat (ix_object x) 0 seen parts) st = Inr sg"
  shows "length (sg_parts sg) = length parts"
    "i < length parts \<Longrightarrow> \<exists>src y k. parts ! i = Inr src \<and> prepare_part en cat (ix_object x) src i = Inr y
      \<and> part_id (sg_parts sg ! i) = en_part_id en (ob_id (ix_object x)) (part_digest en y) k
      \<and> ob_parent (tp_object (sg_parts sg ! i)) = Some (ob_id (ix_object x)) \<and> ob_deleted (tp_object (sg_parts sg ! i)) = None
      \<and> ob_position (tp_object (sg_parts sg ! i)) = ob_position (part_defaults en (ix_object x) i src)
      \<and> ob_props (tp_object (sg_parts sg ! i)) = ob_props src
      \<and> tp_reused (sg_parts sg ! i) = reusable e s (ob_id (ix_object x)) st (part_id (sg_parts sg ! i))
      \<and> (tp_reused (sg_parts sg ! i) \<or> part_text (tp_object (sg_parts sg ! i)) =
          (trim_space (ob_kind src), ob_title src, ob_summary src, ob_content src, ob_content_type src))"
proof -
  obtain xs where xs: "prepared_parts en cat (ix_object x) 0 seen parts = map Inr xs"
      "map staged_face (sg_parts sg) = map (\<lambda>y. (part_face (ix_object y),
        if reusable e s (ob_id (ix_object x)) st (ob_id (ix_object y)) then None else Some (part_text (ix_object y)))) xs"
    using staged_faces [OF assms] prepared_parts_Inr by blast
  note nth = prepared_nth [OF xs(1)]
  have len: "length (sg_parts sg) = length xs" using arg_cong [OF xs(2), of length] by simp
  then show n: "length (sg_parts sg) = length parts" using nth by simp
  assume i: "i < length parts"
  have ix: "i < length xs" "i < length (sg_parts sg)" using i n len by simp_all
  obtain src y k where src: "parts ! i = Inr src" "prepare_part en cat (ix_object x) src i = Inr y"
      "xs ! i = y\<lparr>ix_object := (ix_object y)\<lparr>ob_id := en_part_id en (ob_id (ix_object x)) (part_digest en y) k\<rparr>\<rparr>"
    using nth ix(1) by auto
  have y: "ix_object y = part_defaults en (ix_object x) i src" "ob_deleted src = None" using prepare_part_Inr [OF src(2)] by simp_all
  have "staged_face (sg_parts sg ! i) = (part_face (ix_object (xs ! i)),
        if reusable e s (ob_id (ix_object x)) st (ob_id (ix_object (xs ! i))) then None else Some (part_text (ix_object (xs ! i))))"
    using arg_cong [OF xs(2), of "\<lambda>l. l ! i"] ix by simp
  then show "\<exists>src y k. parts ! i = Inr src \<and> prepare_part en cat (ix_object x) src i = Inr y
      \<and> part_id (sg_parts sg ! i) = en_part_id en (ob_id (ix_object x)) (part_digest en y) k
      \<and> ob_parent (tp_object (sg_parts sg ! i)) = Some (ob_id (ix_object x)) \<and> ob_deleted (tp_object (sg_parts sg ! i)) = None
      \<and> ob_position (tp_object (sg_parts sg ! i)) = ob_position (part_defaults en (ix_object x) i src)
      \<and> ob_props (tp_object (sg_parts sg ! i)) = ob_props src
      \<and> tp_reused (sg_parts sg ! i) = reusable e s (ob_id (ix_object x)) st (part_id (sg_parts sg ! i))
      \<and> (tp_reused (sg_parts sg ! i) \<or> part_text (tp_object (sg_parts sg ! i)) =
          (trim_space (ob_kind src), ob_title src, ob_summary src, ob_content src, ob_content_type src))"
    by (intro exI [of _ src] exI [of _ y] exI [of _ k] conjI src(1,2))
      (simp_all add: staged_face_def part_face_def part_text_def src(3) y part_defaults_def split: if_splits)
qed

text \<open>A part given to a tree write, as a row of the store says what became of it.\<close>

definition part_row :: "'f engine \<Rightarrow> scope \<Rightarrow> 'f brain \<Rightarrow> 'f object \<Rightarrow> 'f object \<Rightarrow> nat \<Rightarrow> 'f object \<Rightarrow> 'f object \<Rightarrow> bool" where
  "part_row en s w rec stored i src q \<longleftrightarrow>
     ob_position q = Some (int i) \<and> ob_parent q = Some (ob_id stored)
     \<and> ob_namespace q = ob_namespace stored \<and> ob_readers q = ob_readers stored \<and> ob_props q = ob_props src
     \<and> (\<exists>y k. prepare_part en (br_catalog w) rec src i = Inr y \<and> ob_id q = en_part_id en (ob_id stored) (part_digest en y) k)
     \<and> (if reusable (en_embedding en) s (ob_id stored) (br_store w) (ob_id q)
        then \<exists>old. map_of (kn_objects (br_store w)) (ob_id q) = Some old \<and> part_text q = part_text old
        else part_text q = (trim_space (ob_kind src), ob_title src, ob_summary src, ob_content src, ob_content_type src))"

lemma committed_rows:
  fixes w :: "'f brain" and x :: "'f indexed"
  assumes stage: "put_tree_stage (en_embedding en) s x (prepared_parts en (br_catalog w) (ix_object x) 0 seen parts) (br_store w) = Inr sg"
    and commit: "put_tree_commit now s sg (br_store w) = (Inr stored, st')" and good: "know_good (br_store w)"
    and owned: "parts_of (ob_id (sg_parent sg)) (sg_parts sg)" and id: "ob_id (sg_parent sg) = ob_id stored" "ob_id (ix_object x) = ob_id stored"
    and i: "i < length parts" and none: "\<forall>p. Inr p \<in> set parts \<longrightarrow> ob_position p = None"
  shows "\<exists>src q. parts ! i = Inr src \<and> map_of (kn_objects st') (part_id (sg_parts sg ! i)) = Some q
    \<and> part_row en s w (ix_object x) stored i src q"
proof -
  let ?part = "sg_parts sg ! i" and ?st = "br_store w"
  obtain src y k where src: "parts ! i = Inr src" "prepare_part en (br_catalog w) (ix_object x) src i = Inr y"
      "part_id ?part = en_part_id en (ob_id (ix_object x)) (part_digest en y) k"
      "ob_parent (tp_object ?part) = Some (ob_id (ix_object x))"
      "ob_position (tp_object ?part) = ob_position (part_defaults en (ix_object x) i src)" "ob_props (tp_object ?part) = ob_props src"
      "tp_reused ?part = reusable (en_embedding en) s (ob_id (ix_object x)) ?st (part_id ?part)"
      "tp_reused ?part \<or> part_text (tp_object ?part) =
          (trim_space (ob_kind src), ob_title src, ob_summary src, ob_content src, ob_content_type src)"
    using staged_nth(2) [OF stage i] by blast
  have in_parts: "?part \<in> set (sg_parts sg)" using staged_nth(1) [OF stage] i by simp
  have "Inr src \<in> set parts" using src(1) i by (metis nth_mem)
  then have place: "ob_position (tp_object ?part) = Some (int i)" using none src(5) by (simp add: part_defaults_def)
  define q where "q = stamped now (placed_part stored ?st ?part)"
  have row: "map_of (kn_objects st') (part_id ?part) = Some q"
    and kept: "tp_reused ?part \<longrightarrow> (\<exists>old. map_of (kn_objects ?st) (part_id ?part) = Some old \<and> ob_parent old = Some (ob_id stored))"
    using tree_commit_rows [OF commit good owned in_parts] id by (simp_all add: q_def)
  have "tp_reused ?part \<longrightarrow> (\<exists>old. map_of (kn_objects ?st) (part_id ?part) = Some old \<and> ob_id old = part_id ?part \<and> ob_parent old = ob_parent (tp_object ?part))"
    using kept know_good_at [OF good] src(4) id(2) by auto
  note face = placed_part_face [OF this]
  have qid: "ob_id q = part_id ?part" by (simp add: q_def face)
  have body: "if tp_reused ?part then \<exists>old. map_of (kn_objects ?st) (part_id ?part) = Some old \<and> part_text q = part_text old
     else part_text q = (trim_space (ob_kind src), ob_title src, ob_summary src, ob_content src, ob_content_type src)"
    using face(7) src(8) by (auto simp: q_def split: if_splits)
  have "part_row en s w (ix_object x) stored i src q"
    unfolding part_row_def qid
    using src(2,3,4,6,7) id(2) place body by (auto simp: q_def face)
  then show ?thesis using src(1) row by blast
qed

text \<open>
  C8. A tree is read back as it was written. When a scope writes a record with parts that have no
  places of their own, and the scope can read what it wrote, then a read of the record gives the
  stored record, with the given text and properties and without a parent, and as many parts as were
  given, in their order: the i-th row read is the i-th given part, at place i under the record, with
  the record's namespace and readers, the given properties and an id made of the record's id and the
  digest of the part's content. Its kind, title, summary, content and content type are the given
  ones, unless the store already held a live part of the record with that id and model: that row is
  kept, with its own text.\<close>

theorem put_tree_reads_back:
  assumes "put_tree en s parent parts w = (Inr stored, w')" and "know_good (br_store w)"
    and "\<forall>p. Inr p \<in> set parts \<longrightarrow> ob_position p = None"
    and "\<forall>d n. en_part_id en (ob_id stored) d n \<noteq> ob_id stored"
    and "sc_session s = []" and "scope_reads s stored"
  shows "\<exists>tr. mem_get_tree s (ob_id stored) 0 (br_store w') = Inr tr \<and> tr_object tr = stored \<and> tr_parent tr = None
    \<and> part_text stored = (trim_space (ob_kind parent), ob_title parent, ob_summary parent, ob_content parent, ob_content_type parent)
    \<and> ob_props stored = ob_props parent
    \<and> length (tr_parts tr) = length parts
    \<and> (\<forall>i < length parts. \<exists>src. parts ! i = Inr src
          \<and> part_row en s w (with_defaults en s parent) stored i src (tr_parts tr ! i))"
proof -
  let ?st' = "br_store w'"
  obtain x where x: "ob_parent parent = None" "prepare_put en s parent w = Inr x"
      "mem_put_tree (en_embedding en) (en_store_now en) s x
         (prepared_parts en (br_catalog w) (ix_object x) 0 (\<lambda>d. 0) parts) (br_store w) = (Inr stored, ?st')"
    using put_tree_Inr [OF assms(1)] by blast
  let ?prepared = "prepared_parts en (br_catalog w) (ix_object x) 0 (\<lambda>d. 0) parts"
  obtain sg where sg: "put_tree_stage (en_embedding en) s x ?prepared (br_store w) = Inr sg"
      "put_tree_commit (en_store_now en) s sg (br_store w) = (Inr stored, ?st')"
    using x(3) by (auto simp: mem_put_tree_def split: sum.splits)
  have kept: "ob_id (sg_parent sg) = ob_id (ix_object x)" "ob_parent (sg_parent sg) = ob_parent (ix_object x)"
      "ob_deleted (sg_parent sg) = ob_deleted (ix_object x)"
    using staged_faces [OF sg(1)] prepared_parts_Inr by blast+
  have face: "ix_object x = with_defaults en s parent" using prepare_put_Inr [OF x(2)] by simp
  have live: "ob_deleted parent = None" using x(2) by (simp add: prepare_put_def split: if_splits)
  have st: "stored = stamped (en_store_now en) (sg_parent sg)" by (rule put_tree_commit_stored [OF sg(2)])
  have pid: "ob_id (sg_parent sg) = ob_id stored" by (simp add: st)
  have id: "ob_id (ix_object x) = ob_id stored" using kept(1) pid by simp
  have fields: "ob_deleted stored = None" "ob_parent stored = None" using kept face live x(1) by (simp_all add: st with_defaults_def)
  have body: "part_text stored = (trim_space (ob_kind parent), ob_title parent, ob_summary parent, ob_content parent, ob_content_type parent)"
      "ob_props stored = ob_props parent"
    using staged_parent [OF sg(1)] stamped_fields [of "en_store_now en" "sg_parent sg"]
    by (simp_all only: st face) (simp_all add: with_defaults_def part_text_def)
  note len = staged_nth(1) [OF sg(1)]
  have nth: "part_id (sg_parts sg ! i) \<noteq> ob_id stored \<and> ob_parent (tp_object (sg_parts sg ! i)) = Some (ob_id stored)
      \<and> ob_deleted (tp_object (sg_parts sg ! i)) = None \<and> ob_position (tp_object (sg_parts sg ! i)) = Some (int i)" if i: "i < length parts" for i
  proof -
    from staged_nth(2) [OF sg(1) i] obtain src y k where src: "parts ! i = Inr src"
        "part_id (sg_parts sg ! i) = en_part_id en (ob_id (ix_object x)) (part_digest en y) k"
        "ob_parent (tp_object (sg_parts sg ! i)) = Some (ob_id (ix_object x))" "ob_deleted (tp_object (sg_parts sg ! i)) = None"
        "ob_position (tp_object (sg_parts sg ! i)) = ob_position (part_defaults en (ix_object x) i src)" by blast
    have "Inr src \<in> set parts" using src(1) i by (metis nth_mem)
    then show ?thesis using src(2-5) assms(3,4) by (simp add: id part_defaults_def)
  qed
  then have owned: "parts_of (ob_id (sg_parent sg)) (sg_parts sg)"
    using len by (auto simp: parts_of_def pid in_set_conv_nth)
  have none: "ob_parent (sg_parent sg) = None" using fields(2) by (simp add: st)
  have inc: "sorted_wrt (\<lambda>a b. object_position (tp_object a) < object_position (tp_object b)) (sg_parts sg)"
    using nth by (simp add: sorted_wrt_iff_nth_less object_position_def len)
  have at: "map_of (kn_objects ?st') (ob_id stored) = Some stored"
    using tree_commit_spec [OF sg(2) assms(2) owned none] by (simp add: pid)
  have good: "know_good ?st'" by (rule put_tree_good [OF sg(2) assms(2)])
  let ?parts = "parts_locked s (ob_id stored) 0 ?st'"
  have ids: "map ob_id ?parts = map part_id (sg_parts sg)"
    using tree_parts_read_back [OF sg(2) assms(2) owned none inc assms(6)] by (simp only: pid)
  have n: "length ?parts = length parts" using arg_cong [OF ids, of length] len by simp
  have rows: "\<exists>src. parts ! i = Inr src \<and> part_row en s w (with_defaults en s parent) stored i src (?parts ! i)"
    if i: "i < length parts" for i
  proof -
    have "ob_id (?parts ! i) = part_id (sg_parts sg ! i)" using arg_cong [OF ids, of "\<lambda>l. l ! i"] i len n by simp
    moreover have "map_of (kn_objects ?st') (ob_id (?parts ! i)) = Some (?parts ! i)"
      using parts_locked_row [OF good, of "?parts ! i" s "ob_id stored"] i n by simp
    ultimately show ?thesis using committed_rows [OF sg assms(2) owned pid id i assms(3)] face by auto
  qed
  moreover have "scope_bad s = None"
    using sg(1) by (auto simp: put_tree_stage_def split: option.splits)
  ultimately show ?thesis using at assms(5,6) fields body n
    by (simp add: mem_get_tree_def get_locked_def Let_def)
qed

section \<open>A small tree\<close>

definition open_brain :: "int brain" where
  "open_brain = \<lparr>br_store = demo_know, br_catalog = new_kind_catalog, br_log = []\<rparr>"

definition demo_part :: "int object" where
  "demo_part = zero_object\<lparr>ob_kind := ''part''\<rparr>"

lemma open_prepared: "\<exists>t. prepare_put demo_engine demo_scope demo_task_object open_brain = Inr \<lparr>ix_object = demo_saved, ix_text = t\<rparr>"
proof -
  have "ob_deleted demo_task_object = None" by (simp add: demo_task_object_def demo_object_def zero_object_def)
  moreover have "validate_object (en_floats demo_engine) (en_times demo_engine) (br_catalog open_brain) demo_saved = None"
    using demo_attrs_ok by (simp add: validate_object_def open_brain_def new_kind_catalog_def catalog_empty_def plain_eval)
  ultimately show ?thesis using demo_covers by (simp add: prepare_put_def Let_def demo_defaults)
qed

definition demo_placed :: "int object" where
  "demo_placed = (part_defaults demo_engine demo_saved 0 demo_part)\<lparr>ob_id := 7\<rparr>"

lemma demo_placed_fields [simp]:
  "ob_id demo_placed = 7" "ob_parent demo_placed = Some 5" "ob_namespace demo_placed = [demo_org]"
  by (simp_all add: demo_placed_def part_defaults_def demo_part_def)

lemma open_parts:
  "\<exists>t. prepared_parts demo_engine (br_catalog open_brain) demo_saved 0 (\<lambda>d. 0) [Inr demo_part] = [Inr \<lparr>ix_object = demo_placed, ix_text = t\<rparr>]"
proof -
  have kind: "ob_kind (part_defaults demo_engine demo_saved 0 demo_part) = ''part''"
    by (simp add: part_defaults_def demo_part_def plain_eval)
  have ns: "ob_namespace (part_defaults demo_engine demo_saved 0 demo_part) = [demo_org]"
      "ob_parent (part_defaults demo_engine demo_saved 0 demo_part) = Some 5"
    by (simp_all add: part_defaults_def)
  have "validate_object (en_floats demo_engine) (en_times demo_engine) (br_catalog open_brain) (part_defaults demo_engine demo_saved 0 demo_part) = None"
    using demo_attrs_ok kind ns
    by (simp add: validate_object_def open_brain_def new_kind_catalog_def catalog_empty_def plain_eval)
  moreover have "ob_id demo_part = 0" "ob_deleted demo_part = None" "ob_namespace demo_part = []"
    by (simp_all add: demo_part_def zero_object_def)
  moreover have "en_part_id demo_engine p d 0 = 7" for p d by (simp add: demo_engine_def)
  ultimately show ?thesis by (simp add: prepare_part_def Let_def demo_placed_def)
qed

lemma open_stage:
  "put_tree_stage no_embedding demo_scope \<lparr>ix_object = demo_saved, ix_text = t\<rparr> [Inr \<lparr>ix_object = demo_placed, ix_text = u\<rparr>] demo_know
    = Inr \<lparr>sg_parent = demo_saved, sg_rev = 0, sg_parts = [\<lparr>tp_object = demo_placed, tp_reused = False\<rparr>]\<rparr>"
proof -
  have "demo_saved\<lparr>ob_embedding := None, ob_model := []\<rparr> = demo_saved" by (rule object.equality) simp_all
  then have "indexed_object no_embedding \<lparr>ix_object = demo_saved, ix_text = t\<rparr> = Inr demo_saved"
    by (simp add: indexed_object_def embed_one_def embed_texts_def no_embedding_def)
  moreover have "\<not> reusable no_embedding demo_scope 5 demo_know 7" by (simp add: reusable_def demo_know_def)
  moreover have "tree_rev 5 demo_know = 0" by (simp add: tree_rev_def demo_know_def new_know_def)
  ultimately show ?thesis
    by (simp add: put_tree_stage_def demo_scopes_ok tree_part_of_def embed_batch_def no_embedding_def embed_texts_def Let_def)
qed

lemma open_put_tree:
  "\<exists>w'. put_tree demo_engine demo_scope demo_task_object [Inr demo_part] open_brain = (Inr demo_saved, w')"
proof -
  obtain t where t: "prepare_put demo_engine demo_scope demo_task_object open_brain = Inr \<lparr>ix_object = demo_saved, ix_text = t\<rparr>"
    using open_prepared by blast
  obtain u where u: "prepared_parts demo_engine (br_catalog open_brain) demo_saved 0 (\<lambda>d. 0) [Inr demo_part] =
      [Inr \<lparr>ix_object = demo_placed, ix_text = u\<rparr>]" using open_parts by blast
  have rev: "tree_rev 5 demo_know = 0" by (simp add: tree_rev_def demo_know_def new_know_def)
  have parts: "check_parts demo_scope 5 demo_know [] [\<lparr>tp_object = demo_placed, tp_reused = False\<rparr>] = Inr [7]"
    using demo_covers by (simp add: Let_def)
  have "\<exists>st. put_tree_commit 1 demo_scope \<lparr>sg_parent = demo_saved, sg_rev = 0,
      sg_parts = [\<lparr>tp_object = demo_placed, tp_reused = False\<rparr>]\<rparr> demo_know = (Inr demo_saved, st)"
    using demo_check_put rev parts
    by (simp add: put_tree_commit_def store_object_def demo_stamped Let_def del: check_parts.simps)
  then obtain st where "put_tree_commit 1 demo_scope \<lparr>sg_parent = demo_saved, sg_rev = 0,
      sg_parts = [\<lparr>tp_object = demo_placed, tp_reused = False\<rparr>]\<rparr> demo_know = (Inr demo_saved, st)" by blast
  then have tree: "mem_put_tree no_embedding 1 demo_scope \<lparr>ix_object = demo_saved, ix_text = t\<rparr>
      [Inr \<lparr>ix_object = demo_placed, ix_text = u\<rparr>] demo_know = (Inr demo_saved, st)"
    by (simp add: mem_put_tree_def open_stage)
  have en: "en_embedding demo_engine = no_embedding" "en_store_now demo_engine = 1" "br_store open_brain = demo_know"
      "ob_parent demo_task_object = None" "check_scope (sc_namespace demo_scope) = None"
    using demo_attrs_ok
    by (simp_all add: demo_engine_def open_brain_def demo_task_object_def demo_object_def zero_object_def check_scope_def demo_scope_def)
  obtain q w1 where q: "committed demo_engine demo_scope AuditPut [ob_id demo_saved] 1 (put_indexes demo_engine demo_saved t (open_brain\<lparr>br_store := st\<rparr>))
      = (q, w1)" "q = None"
    using committed_spec [of demo_engine demo_scope AuditPut "[ob_id demo_saved]" 1 demo_saved t "open_brain\<lparr>br_store := st\<rparr>"]
    by (auto simp: index_effects_def audit_effect_def demo_engine_def)
  show ?thesis using q by (simp add: put_tree_def t u tree en Let_def del: prepared_parts.simps)
qed

theorem put_tree_reads_back_witness:
  "\<exists>w' tr q. put_tree demo_engine demo_scope demo_task_object [Inr demo_part] open_brain = (Inr demo_saved, w')
    \<and> mem_get_tree demo_scope 5 0 (br_store w') = Inr tr \<and> tr_object tr = demo_saved \<and> tr_parts tr = [q]
    \<and> ob_position q = Some 0 \<and> ob_parent q = Some 5 \<and> ob_kind q = ''part''"
proof -
  obtain w' where w': "put_tree demo_engine demo_scope demo_task_object [Inr demo_part] open_brain = (Inr demo_saved, w')"
    using open_put_tree by blast
  have "know_good (br_store open_brain)" using demo_know_good by (simp add: open_brain_def)
  moreover have "\<forall>p. Inr p \<in> set [Inr demo_part :: gerr + int object] \<longrightarrow> ob_position p = None"
    by (simp add: demo_part_def zero_object_def)
  moreover have "\<forall>d n. en_part_id demo_engine (ob_id demo_saved) d n \<noteq> ob_id demo_saved"
    by (simp add: demo_engine_def)
  moreover have "sc_session demo_scope = []" by (simp add: demo_scope_def)
  moreover have "scope_reads demo_scope demo_saved" using demo_covers by (simp add: scope_reads_def can_read_def)
  ultimately obtain tr where tr: "mem_get_tree demo_scope (ob_id demo_saved) 0 (br_store w') = Inr tr" "tr_object tr = demo_saved"
      "length (tr_parts tr) = length [Inr demo_part :: gerr + int object]"
      "part_row demo_engine demo_scope open_brain (with_defaults demo_engine demo_scope demo_task_object) demo_saved 0 demo_part (tr_parts tr ! 0)"
    using put_tree_reads_back [OF w'] by auto
  then obtain q where q: "tr_parts tr = [q]" by (auto simp: length_Suc_conv)
  have "\<exists>y k. ob_id q = en_part_id demo_engine (ob_id demo_saved) (part_digest demo_engine y) k" using tr(4) by (auto simp: q part_row_def)
  moreover have "en_part_id demo_engine p d n \<in> {7, 8}" for p d n by (simp add: demo_engine_def)
  ultimately have "ob_id q \<in> {7, 8}" by metis
  then have "\<not> reusable no_embedding demo_scope 5 demo_know (ob_id q)" by (auto simp: reusable_def demo_know_def)
  moreover have "en_embedding demo_engine = no_embedding" "br_store open_brain = demo_know" by (simp_all add: demo_engine_def open_brain_def)
  moreover have "trim_space (ob_kind demo_part) = ''part''" by (simp add: demo_part_def plain_eval)
  ultimately have "ob_position q = Some 0 \<and> ob_parent q = Some 5 \<and> ob_kind q = ''part''"
    using tr(4) by (simp add: q part_row_def part_text_def)
  then show ?thesis using w' tr(1,2) q by auto
qed

end
