(* ===== verification/Spec2Isabelle.thy ===== *)
theory Spec2Isabelle
  imports Turn_Props Turn_Func Carry Mounts Messages Grid_Batch Chunks Snapshot Engine_Isolation Engine_Tree
begin

text \<open>
  A verification library for tacklr, a harness that runs model sessions over tools, files,
  child sessions and a store of knowledge (Go). Each theory reads like the files it models:
  structs are records, enums and tagged unions datatypes, a Go error is a value of a sum, a
  panic is None or a value of its own, and a call into code that is not under src is a parameter
  of the definitions that make it.

  How the parts interact. A session's scheduler (session/orchestrator) asks its runtime for
  inferences, tool calls and commits. A runtime step brings a harness to the checkpoint store's
  revision, lets it infer, run a call or commit, and saves the rows that changed. The harness
  holds the session's state and its context window. Its tools work on documents (vfs), which
  the index cuts into chunks (vfsindex), and on the knowledge engine (brain), which saves
  objects under a scope and searches them.

  The theories, in their order:

  \<^item> Prelude, Text, Runes: Go strings as byte lists, maps as association lists, errors as a text
    and the sentinels of its chain; strings, strconv and utf8 as the code uses them.
  \<^item> Messages: message/message.go, validate.go, session/event.go. Messages, tool calls and
    their keys, ValidateMessages, events and the failure that crosses the wire.
  \<^item> Calls: toolcall.go, drive.go, session/job.go. A tool call through its states, a reply's
    round, a commit. Mounts: session/internal/auth.go, vfs/mount/mount.go.
  \<^item> Runtime, Journal: the interface Runtime of session/orchestrator/turn.go as the durable
    object answers it (session/durableobject/runtime.go, replay): a tape of answers, a log of
    requests. Turn: State.drive and its parts (session/orchestrator/turn.go). Session\_Run:
    runner and Run (session/orchestrator/session.go). Carry: carry.go, status.go. Protocol: the
    automaton of a turn's requests, the abstract specification of State.drive. Turn\_Loop,
    Turn\_Frame, Turn\_Safety, Turn\_Props, Turn\_Func: what a turn keeps, and its properties.
  \<^item> Call\_State: session\_manager.go, session\_permissions.go, call.go, interrupt.go,
    tool\_runner.go and RunCall of durable\_steps.go. What a tool call reads and writes. Plan:
    session\_plan.go, builtins.go. Stream: model\_tasks.go and Infer of durable\_steps.go. Window:
    window.go. Harness: Commit of durable\_steps.go with all it calls.
  \<^item> Store, Checkpoint, Snapshot: session/checkpoint.go, session/snapshot.go, checkpoint.go,
    session/internal/snapshot.go and calls.go. The rows of a session, their store in memory,
    the steps of a runtime over any store.
  \<^item> Lines, Line\_Window, Markdown: vfs/document.go, vfs/lines.go, vfs/structure.go. Tool\_Text,
    Cell\_Format, A1, Grid, Grid\_Read, Grid\_Batch: vfs/tabular.go, sheets\_api.go,
    sheets\_memory.go and the cell write of mutate.go. Chunks: vfsindex/chunk.go.
  \<^item> Tenant, Kinds, Filters, Ranks: brain/namespace.go, kind.go, filter.go, filter\_plan.go,
    rank.go, promote.go and fuse of results.go. Knowledge, Knowledge\_Search: MemoryStore
    (brain/memory.go, embed.go, session\_message.go). Knowledge\_Laws, Knowledge\_Tree: what it
    promises. Knowledge\_View: the part of a store that a tenant's scopes see, and that every read
    factors through it. Index\_Text, Engine, Engine\_Laws: the engine's writes (brain/write.go,
    tree.go, audit.go). Engine\_Parts: the parts of a tree on their way to the store.
    Engine\_Isolation: the writes as a step relation, and its invariant over any run. Engine\_Tree:
    a record with parts, from PutTree to GetTree.

  The interfaces are locales, each interpreted on the model. \<open>journal_loop\<close> (Journal) is the
  contract of a loop over the journal: the pump, the turn's loop and the session's loop
  interpret it, and that a longer journal replays the run over the shorter one is a lemma of it. \<open>checkpoint_store\<close> (Store) is what a runtime
  relies on in session.Store, interpreted by MemoryStore; \<open>snapshot_store\<close> (Snapshot) is the
  same for the steps. \<open>knowledge_store\<close> (Knowledge\_Laws) is brain.Store's Get and Put,
  interpreted by brain's MemoryStore; the properties of saves and of isolation use its laws.

  What the groups of lemmas show. Scheduler: requests follow the protocol, commits chain, wakes
  are held, no panic, one end event. Harness: a call reads what its commit leaves (of a value
  set in the run the session then holds the JSON encoding, decoded), a gated tool does not run
  without an answer, a fitted window fits, an inference's events spell its reply, a commit keeps
  the goal, and a Commit step saves exactly the rows that the next worker restores. Documents:
  reading back what was written, regions and rectangles that partition, chunks that
  resynchronise. Knowledge: filters mean what their entries say, hits are visible, fusion is
  reciprocal rank, tree writes are all or nothing and read back part by part, a save is indexed
  and audited. No run of other tenants' writes, whatever ids they name, changes a tenant's rows
  or what its scopes without a session read; a scope with a session may read another tenant's
  message, which is a theorem of its own. A theorem about a flaw states it and is named in the
  manifest's findings.

  Parameters, and what is assumed of them: JSON encoders (they read back what they wrote, where
  a round trip needs it), hashes, the order in which Go visits a map, the model provider and the
  archive of old messages (answers that move a world), float64 (an order, or operations without
  laws), time.Parse, the tables of unicode, strconv's texts of numbers, the embedder, the
  clocks, fresh ids, the hosts of the engine's indexes, graph and audit.

  Bounds and fuel. The scheduler's loops take an answer from the tape or shorten the list of held
  wakes in each pass, so they terminate on every tape; the loop that trims a window terminates by a
  measure, the bytes of its round. Integers are unbounded where the code only counts (the product
  of sizes in a trim is the code's int64 below 2^31, \<open>cut_to_int64\<close>), and words where the code
  wraps: hashes, columns of addresses, sizes of builders, ids. Where the code visits a Go map, the
  list of the model is one order of the visit; \<open>unknown_answer_order\<close> shows where it can be seen.

  Not modelled: telemetry and logging; mutexes and goroutines (a session's scheduler is one
  thread; concurrent batches of the embedder are taken in order; a store's operation is atomic
  under its lock); contexts that are done; the handlers of tools, JSON schemas and prompts; the
  model providers, MCP, web, servers, the runtimes on Temporal and durable objects, the
  Postgres and graph backends, and the sources of the file system, which are clients of
  services and packages that are not under src; rich documents and Office formats; the
  engine's search, related and paging over the store.
\<close>

end
